(* ===== verification/OG_Prelude.thy ===== *)
theory OG_Prelude
  imports
    Main
    "HOL-Library.Word"
    "HOL-Library.Multiset"
    "HOL-Library.AList"
    "HOL-Library.FSet"
    "HOL-Library.Finite_Map"
    "HOL-Library.List_Lexorder"
    "HOL-Library.Char_ord"
    "HOL-Library.Option_ord"
    "HOL-Library.Product_Lexorder"
begin

text \<open>
  The prelude of the development: the machine types the crate uses, the named collections of
  simplification rules the component theories extend, and the generic facts on lists,
  association lists and little-endian byte strings that several components share.

  Conventions. A Rust \<open>String\<close> is a HOL \<open>string\<close>, read as its UTF-8 bytes; the order of
  \<open>List_Lexorder\<close> and \<open>Char_ord\<close> on it is the bytewise lexicographic order of \<open>str::cmp\<close>.
  A \<open>HashMap\<close> is a finite map (\<open>fmap\<close>) and a \<open>HashSet\<close> a finite set (\<open>fset\<close>); an
  \<open>IndexMap\<close> is the association list of its entries in insertion order. A fallible operation returns \<open>error + value\<close>.
\<close>

section \<open>Machine types\<close>

type_synonym u8 = "8 word"
type_synonym u32 = "32 word"
type_synonym u64 = "64 word"
type_synonym u128 = "128 word"
type_synonym bytes = "u8 list"

named_theorems og_defs \<open>definitions of the model that proofs unfold together\<close>
named_theorems og_inv \<open>invariant preservation facts\<close>

section \<open>Errors as values\<close>

text \<open>The \<open>?\<close> operator: stop at the first \<open>Inl\<close>.\<close>

definition bindE :: "'e + 'a \<Rightarrow> ('a \<Rightarrow> 'e + 'b) \<Rightarrow> 'e + 'b" where
  "bindE m f = (case m of Inl e \<Rightarrow> Inl e | Inr a \<Rightarrow> f a)"

lemma bindE_simps [simp]:
  "bindE (Inl e) f = Inl e"
  "bindE (Inr a) f = f a"
  by (simp_all add: bindE_def)

lemma bindE_Inr_iff: "bindE m f = Inr b \<longleftrightarrow> (\<exists>a. m = Inr a \<and> f a = Inr b)"
  by (cases m) auto

section \<open>Hash iteration order\<close>

text \<open>
  The order in which a \<open>HashMap\<close> or \<open>HashSet\<close> yields its keys is unspecified. Functions that
  iterate over one take the order as an argument \<open>ho\<close>; \<open>hash_order ho\<close> says that it is some
  enumeration of exactly the keys.
\<close>

definition hash_order :: "('k list \<Rightarrow> 'k list) \<Rightarrow> bool" where
  "hash_order ho \<longleftrightarrow> (\<forall>xs. mset (ho xs) = mset xs)"

lemma hash_orderD: "hash_order ho \<Longrightarrow> mset (ho xs) = mset xs"
  by (simp add: hash_order_def)

lemma hash_order_set: "hash_order ho \<Longrightarrow> set (ho xs) = set xs"
  by (metis hash_orderD set_mset_mset)

lemma hash_order_distinct: "hash_order ho \<Longrightarrow> distinct (ho xs) = distinct xs"
  by (metis hash_orderD mset_eq_imp_distinct_iff)

lemma hash_order_length: "hash_order ho \<Longrightarrow> length (ho xs) = length xs"
  by (metis hash_orderD size_mset)

lemma hash_order_id: "hash_order id" "hash_order rev"
  by (simp_all add: hash_order_def)

definition fm_keys :: "('k::linorder list \<Rightarrow> 'k list) \<Rightarrow> ('k, 'v) fmap \<Rightarrow> 'k list" where
  "fm_keys ho m = ho (sorted_list_of_fset (fmdom m))"

definition fs_elems :: "('k::linorder list \<Rightarrow> 'k list) \<Rightarrow> 'k fset \<Rightarrow> 'k list" where
  "fs_elems ho s = ho (sorted_list_of_fset s)"

lemma distinct_sorted_list_of_fset [simp]: "distinct (sorted_list_of_fset s)"
  by (simp add: sorted_list_of_fset.rep_eq)

lemma set_fm_keys: "hash_order ho \<Longrightarrow> set (fm_keys ho m) = fset (fmdom m)"
  by (simp add: fm_keys_def hash_order_set)

lemma distinct_fm_keys: "hash_order ho \<Longrightarrow> distinct (fm_keys ho m)"
  by (simp add: fm_keys_def hash_order_distinct)

lemma mset_fm_keys: "hash_order ho \<Longrightarrow> mset (fm_keys ho m) = mset (fm_keys id m)"
  by (simp add: fm_keys_def hash_orderD)

lemma set_fs_elems: "hash_order ho \<Longrightarrow> set (fs_elems ho s) = fset s"
  by (simp add: fs_elems_def hash_order_set)

lemma distinct_fs_elems: "hash_order ho \<Longrightarrow> distinct (fs_elems ho s)"
  by (simp add: fs_elems_def hash_order_distinct)

lemma mset_fs_elems: "hash_order ho \<Longrightarrow> mset (fs_elems ho s) = mset (fs_elems id s)"
  by (simp add: fs_elems_def hash_orderD)

section \<open>Sorting by an injective key\<close>

text \<open>Two enumerations of the same elements sort to the same list when the key separates them.\<close>

lemma sort_key_mset_cong:
  assumes "mset xs = mset ys" and "inj_on f (set xs)"
  shows "sort_key f xs = sort_key f ys"
proof (rule properties_for_sort_key)
  show "mset (sort_key f ys) = mset xs" using assms(1) by simp
  show "sorted (map f (sort_key f ys))" by simp
  fix k assume k: "k \<in> set (sort_key f ys)"
  have sets: "set ys = set xs" using assms(1) by (metis set_mset_mset)
  have *: "filter (\<lambda>x. f k = f x) zs = filter (\<lambda>x. x = k) zs" if "set zs \<subseteq> set xs" for zs
    using that k sets assms(2) by (intro filter_cong) (auto simp: inj_on_def)
  have len: "filter (\<lambda>x. x = k) zs = replicate (count (mset zs) k) k" for zs
    by (induction zs) auto
  show "filter (\<lambda>x. f k = f x) (sort_key f ys) = filter (\<lambda>x. f k = f x) xs"
    using assms(1) sets by (simp add: * len)
qed

lemma distinct_remdups_adj_sorted: "sorted xs \<Longrightarrow> distinct (remdups_adj xs)"
  by (induction xs rule: remdups_adj.induct) auto

section \<open>Association lists with distinct keys\<close>

lemma map_of_AList_update: "map_of (AList.update k v al) = (map_of al)(k \<mapsto> v)"
  by (rule update_conv')

lemma map_of_AList_delete: "map_of (AList.delete k al) = (map_of al)(k := None)"
  by (rule delete_conv')

lemma dom_map_of_keys: "dom (map_of al) = fst ` set al"
  by (rule dom_map_of_conv_image_fst)

lemma card_dom_map_of: "distinct (map fst al) \<Longrightarrow> card (fst ` set al) = length al"
  by (metis distinct_card length_map list.set_map)

section \<open>Counting with filters\<close>

lemma length_filter_mset: "length (filter P xs) = size (filter_mset P (mset xs))"
  by (metis mset_filter size_mset)

lemma size_filter_mset_split:
  "size (filter_mset P M) = size (filter_mset (\<lambda>x. P x \<and> Q x) M) + size (filter_mset (\<lambda>x. P x \<and> \<not> Q x) M)"
  by (induction M) auto

lemma filter_mset_none: "(\<And>x. x \<in># M \<Longrightarrow> \<not> P x) \<Longrightarrow> filter_mset P M = {#}"
  by (induction M) auto

lemma filter_mset_disj_size:
  assumes "\<And>x. x \<in># M \<Longrightarrow> \<not> (P x \<and> Q x)"
  shows "size (filter_mset (\<lambda>x. P x \<or> Q x) M) = size (filter_mset P M) + size (filter_mset Q M)"
  using assms by (induction M) auto

section \<open>Little-endian byte strings\<close>

fun le_nat :: "nat \<Rightarrow> nat \<Rightarrow> bytes" where
  "le_nat 0 x = []"
| "le_nat (Suc n) x = of_nat (x mod 256) # le_nat n (x div 256)"

fun nat_le :: "bytes \<Rightarrow> nat" where
  "nat_le [] = 0"
| "nat_le (b # bs) = unat b + 256 * nat_le bs"

lemma length_le_nat [simp]: "length (le_nat n x) = n"
  by (induction n arbitrary: x) auto

lemma unat_of_nat_byte: "unat (of_nat (x mod 256) :: u8) = x mod 256"
  by (simp add: unat_of_nat)

lemma nat_le_le_nat: "nat_le (le_nat n x) = x mod 256 ^ n"
proof (induction n arbitrary: x)
  case 0
  then show ?case by simp
next
  case (Suc n)
  have "x mod 256 + 256 * ((x div 256) mod 256 ^ n) = x mod (256 * 256 ^ n)"
    by (simp add: mod_mult2_eq)
  then show ?case using Suc by (simp add: unat_of_nat_byte)
qed

lemma unat_less_pow: "unat (w :: 'a::len word) < 2 ^ LENGTH('a)"
  by (rule unsigned_less)

lemma nat_le_bound: "nat_le bs < 256 ^ length bs"
proof (induction bs)
  case (Cons b bs)
  have "unat b < 256" using unat_less_pow [of b] by simp
  then show ?case using Cons by simp
qed simp

definition u32_le :: "u32 \<Rightarrow> bytes" where "u32_le w = le_nat 4 (unat w)"
definition u64_le :: "u64 \<Rightarrow> bytes" where "u64_le w = le_nat 8 (unat w)"
definition u128_le :: "u128 \<Rightarrow> bytes" where "u128_le w = le_nat 16 (unat w)"

definition u32_of_le :: "bytes \<Rightarrow> u32" where "u32_of_le bs = of_nat (nat_le bs)"
definition u64_of_le :: "bytes \<Rightarrow> u64" where "u64_of_le bs = of_nat (nat_le bs)"
definition u128_of_le :: "bytes \<Rightarrow> u128" where "u128_of_le bs = of_nat (nat_le bs)"

lemma le_lengths [simp]:
  "length (u32_le w) = 4" "length (u64_le w64) = 8" "length (u128_le w128) = 16"
  by (simp_all add: u32_le_def u64_le_def u128_le_def)

lemma u32_le_roundtrip [simp]: "u32_of_le (u32_le w) = w"
  using unat_less_pow [of w] by (simp add: u32_of_le_def u32_le_def nat_le_le_nat)

lemma u64_le_roundtrip [simp]: "u64_of_le (u64_le w) = w"
  using unat_less_pow [of w] by (simp add: u64_of_le_def u64_le_def nat_le_le_nat)

lemma u128_le_roundtrip [simp]: "u128_of_le (u128_le w) = w"
  using unat_less_pow [of w] by (simp add: u128_of_le_def u128_le_def nat_le_le_nat)

end
