(* ===== verification/OG_F32.thy ===== *)
theory OG_F32
  imports OG_Prelude
begin

text \<open>
  IEEE-754 single precision as the crate's \<open>f32\<close> uses it: the type is the 32-bit pattern, and the
  operations are the exact integer (or rational) result followed by one rounding to nearest, ties
  to even. A finite value is an integer multiple of \<open>2^-149\<close>; \<open>f32_ulps\<close> is that integer, so no
  real numbers are needed and everything evaluates.

  Where Rust leaves a result open the model fixes one admissible choice: a NaN produced by an
  operation is the positive quiet NaN \<open>0x7fc00000\<close>, and \<open>f32::max\<close> of two zeros is the first.
\<close>

datatype f32 = F32 (f32_bits: u32)

definition f32_sign :: "f32 \<Rightarrow> bool" where
  "f32_sign x \<longleftrightarrow> 2147483648 \<le> uint (f32_bits x)"

definition f32_mag :: "f32 \<Rightarrow> int" where
  "f32_mag x = uint (f32_bits x) mod 2147483648"

definition f32_make :: "bool \<Rightarrow> int \<Rightarrow> f32" where
  "f32_make s m = F32 (word_of_int ((if s then 2147483648 else 0) + m))"

definition f32_is_nan :: "f32 \<Rightarrow> bool" where
  "f32_is_nan x \<longleftrightarrow> 2139095040 < f32_mag x"

definition f32_is_inf :: "f32 \<Rightarrow> bool" where
  "f32_is_inf x \<longleftrightarrow> f32_mag x = 2139095040"

definition f32_is_finite :: "f32 \<Rightarrow> bool" where
  "f32_is_finite x \<longleftrightarrow> f32_mag x < 2139095040"

definition f32_is_zero :: "f32 \<Rightarrow> bool" where
  "f32_is_zero x \<longleftrightarrow> f32_mag x = 0"

section \<open>Constants of the source\<close>

definition f32_zero :: f32 where "f32_zero = F32 0"
definition f32_one :: f32 where "f32_one = F32 0x3f800000"
definition f32_half :: f32 where "f32_half = F32 0x3f000000"
definition f32_1_5 :: f32 where "f32_1_5 = F32 0x3fc00000"
definition f32_0_9 :: f32 where "f32_0_9 = F32 0x3f666666"
definition f32_0_001 :: f32 where "f32_0_001 = F32 0x3a83126f"
definition f32_0_85 :: f32 where "f32_0_85 = F32 0x3f59999a"
definition f32_epsilon :: f32 where "f32_epsilon = F32 0x34000000"
definition f32_nan :: f32 where "f32_nan = F32 0x7fc00000"

section \<open>Comparison\<close>

text \<open>\<open>f32_key\<close> orders the non-NaN values numerically (both zeros have key 0).\<close>

definition f32_key :: "f32 \<Rightarrow> int" where
  "f32_key x = (if f32_sign x then - f32_mag x else f32_mag x)"

definition f32_lt :: "f32 \<Rightarrow> f32 \<Rightarrow> bool" where
  "f32_lt a b \<longleftrightarrow> \<not> f32_is_nan a \<and> \<not> f32_is_nan b \<and> f32_key a < f32_key b"

definition f32_le :: "f32 \<Rightarrow> f32 \<Rightarrow> bool" where
  "f32_le a b \<longleftrightarrow> \<not> f32_is_nan a \<and> \<not> f32_is_nan b \<and> f32_key a \<le> f32_key b"

text \<open>\<open>f32::total_cmp\<close>: the two's complement comparison after flipping the magnitude bits of the
  negative patterns.\<close>

definition f32_total_key :: "f32 \<Rightarrow> int" where
  "f32_total_key x = (if f32_sign x then - 1 - f32_mag x else f32_mag x)"

lemma f32_mag_range: "0 \<le> f32_mag x" "f32_mag x < 2147483648"
  by (simp_all add: f32_mag_def)

lemma f32_bits_mag: "uint (f32_bits x) = (if f32_sign x then 2147483648 else 0) + f32_mag x"
proof -
  have b: "0 \<le> uint (f32_bits x)" "uint (f32_bits x) < 4294967296"
    using uint_lt2p [of "f32_bits x"] by simp_all
  show ?thesis
  proof (cases "f32_sign x")
    case True
    then have "2147483648 \<le> uint (f32_bits x)" by (simp add: f32_sign_def)
    then have "uint (f32_bits x) mod 2147483648 = (uint (f32_bits x) - 2147483648) mod 2147483648"
      by (simp add: mod_diff_right_eq)
    also have "\<dots> = uint (f32_bits x) - 2147483648" using b True
      by (intro mod_pos_pos_trivial) (auto simp: f32_sign_def)
    finally show ?thesis using True by (simp add: f32_mag_def)
  next
    case False
    then show ?thesis using b by (simp add: f32_mag_def f32_sign_def)
  qed
qed

lemma f32_total_key_inj: "f32_total_key a = f32_total_key b \<Longrightarrow> a = b"
proof -
  assume eq: "f32_total_key a = f32_total_key b"
  have "f32_sign a = f32_sign b \<and> f32_mag a = f32_mag b"
    using eq f32_mag_range [of a] f32_mag_range [of b]
    by (auto simp: f32_total_key_def split: if_splits)
  then have "uint (f32_bits a) = uint (f32_bits b)" by (simp add: f32_bits_mag)
  then have "f32_bits a = f32_bits b" by (rule word_uint_eqI)
  then show "a = b" by (rule f32.expand)
qed

text \<open>The class order of \<open>f32\<close> is \<open>total_cmp\<close>, so the sorts of the model can use it as a key.\<close>

instantiation f32 :: linorder
begin

definition less_eq_f32 :: "f32 \<Rightarrow> f32 \<Rightarrow> bool" where
  "less_eq_f32 a b \<longleftrightarrow> f32_total_key a \<le> f32_total_key b"

definition less_f32 :: "f32 \<Rightarrow> f32 \<Rightarrow> bool" where
  "less_f32 a b \<longleftrightarrow> f32_total_key a < f32_total_key b"

instance
  by standard (auto simp: less_eq_f32_def less_f32_def dest: f32_total_key_inj)

end

section \<open>Values and rounding\<close>

definition mag_val :: "int \<Rightarrow> int" where
  "mag_val m = (let e = m div 8388608; f = m mod 8388608
                in if e = 0 then f else (8388608 + f) * 2 ^ nat (e - 1))"

definition f32_ulps :: "f32 \<Rightarrow> int" where
  "f32_ulps x = (if f32_sign x then - mag_val (f32_mag x) else mag_val (f32_mag x))"

function bitlength :: "int \<Rightarrow> nat" where
  "bitlength n = (if n \<le> 0 then 0 else Suc (bitlength (n div 2)))"
  by pat_completeness auto
termination
  by (relation "measure nat") auto

declare bitlength.simps [simp del]

definition half_even :: "int \<Rightarrow> int \<Rightarrow> int" where
  "half_even p q = (let k = p div q; r = p mod q in
     if 2 * r < q then k else if q < 2 * r then k + 1 else if even k then k else k + 1)"

text \<open>The magnitude bits of the rational \<open>p/q\<close> (in units of \<open>2^-149\<close>): 24 significant bits from
  \<open>half_even\<close>, the exponent from the length of the integer part, infinity beyond the range.\<close>

definition round_mag :: "int \<Rightarrow> int \<Rightarrow> int" where
  "round_mag p q = (let e = bitlength (p div q) - 24; k = half_even p (q * 2 ^ e)
                    in min 2139095040 (int e * 8388608 + k))"

section \<open>Arithmetic\<close>

definition f32_neg :: "f32 \<Rightarrow> f32" where
  "f32_neg x = f32_make (\<not> f32_sign x) (f32_mag x)"

definition f32_add :: "f32 \<Rightarrow> f32 \<Rightarrow> f32" where
  "f32_add a b =
     (if f32_is_nan a \<or> f32_is_nan b then f32_nan
      else if f32_is_inf a then
        (if f32_is_inf b \<and> f32_sign a \<noteq> f32_sign b then f32_nan else a)
      else if f32_is_inf b then b
      else let r = f32_ulps a + f32_ulps b in
        if r = 0 then f32_make (f32_sign a \<and> f32_sign b) 0
        else f32_make (r < 0) (round_mag \<bar>r\<bar> 1))"

definition f32_sub :: "f32 \<Rightarrow> f32 \<Rightarrow> f32" where
  "f32_sub a b = (if f32_is_nan b then f32_nan else f32_add a (f32_neg b))"

definition f32_mul :: "f32 \<Rightarrow> f32 \<Rightarrow> f32" where
  "f32_mul a b =
     (let s = (f32_sign a \<noteq> f32_sign b) in
      if f32_is_nan a \<or> f32_is_nan b then f32_nan
      else if f32_is_inf a \<or> f32_is_inf b then
        (if f32_is_zero a \<or> f32_is_zero b then f32_nan else f32_make s 2139095040)
      else f32_make s (round_mag (\<bar>f32_ulps a\<bar> * \<bar>f32_ulps b\<bar>) (2 ^ 149)))"

definition f32_div :: "f32 \<Rightarrow> f32 \<Rightarrow> f32" where
  "f32_div a b =
     (let s = (f32_sign a \<noteq> f32_sign b) in
      if f32_is_nan a \<or> f32_is_nan b then f32_nan
      else if f32_is_inf a then (if f32_is_inf b then f32_nan else f32_make s 2139095040)
      else if f32_is_inf b then f32_make s 0
      else if f32_is_zero b then
        (if f32_is_zero a then f32_nan else f32_make s 2139095040)
      else f32_make s (round_mag (\<bar>f32_ulps a\<bar> * 2 ^ 149) \<bar>f32_ulps b\<bar>))"

text \<open>\<open>n as f32\<close> for an unsigned integer.\<close>

definition f32_of_nat :: "nat \<Rightarrow> f32" where
  "f32_of_nat n = f32_make False (round_mag (int n * 2 ^ 149) 1)"

definition f32_max :: "f32 \<Rightarrow> f32 \<Rightarrow> f32" where
  "f32_max a b = (if f32_is_nan a then b else if f32_is_nan b then a
                  else if f32_lt a b then b else a)"

definition f32_clamp :: "f32 \<Rightarrow> f32 \<Rightarrow> f32 \<Rightarrow> f32" where
  "f32_clamp x lo hi = (let y = (if f32_lt x lo then lo else x) in if f32_lt hi y then hi else y)"

end
