(* ===== verification/OG_Types.thy ===== *)
theory OG_Types
  imports OG_F32
begin

text \<open>
  The data model of \<open>src/types.rs\<close>: nodes, edges, results, the per-request \<open>DynamicContext\<close> with its
  edge visibility test, and the ACL canonicalisation. Every struct is a record with the source's
  fields (prefixed, because HOL field names are global).
\<close>

section \<open>Nodes and edges\<close>

record node_data =
  nd_name :: string
  nd_kind :: string
  nd_metadata :: "(string, string) fmap"
  nd_base_weight :: f32
  nd_noise_penalty :: f32
  nd_pagerank_weight :: f32

record edge_data =
  ed_kind :: string
  ed_field_name :: "string option"
  ed_base_weight :: f32
  ed_valid_from :: "u64 option"
  ed_valid_to :: "u64 option"
  ed_acl :: "string list"

text \<open>\<open>acl.sort(); acl.dedup()\<close>: \<open>dedup\<close> drops adjacent repetitions.\<close>

definition normalize_acl :: "string list \<Rightarrow> string list" where
  "normalize_acl acl = remdups_adj (sort acl)"

record edge_result =
  er_source :: string
  er_target :: string
  er_kind :: string
  er_field_name :: "string option"
  er_weight :: f32
  er_valid_from :: "u64 option"
  er_valid_to :: "u64 option"
  er_acl :: "string list"

record node_result =
  nr_name :: string
  nr_kind :: string
  nr_weight :: f32
  nr_base_component :: f32
  nr_semantic_component :: f32
  nr_noise_component :: f32
  nr_bonus_component :: f32

definition explain_score :: "node_result \<Rightarrow> (string, f32) fmap" where
  "explain_score r = fmap_of_list
     [(''base'', nr_base_component r), (''semantic'', nr_semantic_component r),
      (''noise'', nr_noise_component r), (''bonus'', nr_bonus_component r),
      (''total'', nr_weight r)]"

record path_step =
  ps_node :: string
  ps_edge_kind :: string
  ps_field_name :: string
  ps_direction :: string

section \<open>The request context\<close>

record dynamic_context =
  semantic_boosts :: "(string, f32) fmap"
  overlay_nodes :: "node_data list"
  overlay_edges :: "(string \<times> string \<times> edge_data) list"
  weight_bonuses :: "(string, f32) fmap"
  w_base :: f32
  w_semantic :: f32
  w_noise :: f32
  w_bonus :: f32
  noise_tags :: "string fset"
  max_fan_out :: "nat option"
  fan_out_pagerank_bypass :: "f32 option"
  as_of :: "u64 option"
  principals :: "string list"

definition default_context :: dynamic_context where
  "default_context = \<lparr>
     semantic_boosts = fmempty, overlay_nodes = [], overlay_edges = [], weight_bonuses = fmempty,
     w_base = f32_one, w_semantic = f32_1_5, w_noise = f32_one, w_bonus = f32_one,
     noise_tags = {||}, max_fan_out = None, fan_out_pagerank_bypass = Some f32_half,
     as_of = None, principals = []\<rparr>"

definition is_edge_visible ::
  "dynamic_context \<Rightarrow> u64 option \<Rightarrow> u64 option \<Rightarrow> string list \<Rightarrow> bool" where
  "is_edge_visible ctx valid_from valid_to acl =
     (let temporal_ok = (case as_of ctx of
            None \<Rightarrow> True
          | Some t \<Rightarrow> (case valid_from of None \<Rightarrow> True | Some vf \<Rightarrow> vf \<le> t) \<and>
                      (case valid_to of None \<Rightarrow> True | Some vt \<Rightarrow> t < vt))
      in if \<not> temporal_ok then False
         else acl = [] \<or> list_ex (\<lambda>tag. list_ex (\<lambda>p. p = tag) (principals ctx)) acl)"

definition edge_visible :: "dynamic_context \<Rightarrow> edge_data \<Rightarrow> bool" where
  "edge_visible ctx e = is_edge_visible ctx (ed_valid_from e) (ed_valid_to e) (ed_acl e)"

record sub_graph =
  sg_nodes :: "node_result list"
  sg_edges :: "edge_result list"

record node_input =
  ni_name :: string
  ni_kind :: string
  ni_metadata :: "(string, string) fmap"
  ni_base_weight :: f32
  ni_noise_penalty :: f32

record edge_input =
  ei_from :: string
  ei_to :: string
  ei_kind :: string
  ei_field_name :: "string option"
  ei_base_weight :: f32
  ei_valid_from :: "u64 option"
  ei_valid_to :: "u64 option"
  ei_acl :: "string list"

section \<open>ACL canonicalisation\<close>

lemma set_normalize_acl [simp]: "set (normalize_acl acl) = set acl"
  by (simp add: normalize_acl_def)

lemma sorted_normalize_acl [simp]: "sorted (normalize_acl acl)"
  by (simp add: normalize_acl_def sorted_remdups_adj)

lemma distinct_normalize_acl [simp]: "distinct (normalize_acl acl)"
  by (simp add: normalize_acl_def distinct_remdups_adj_sorted)

lemma normalize_acl_canonical: "normalize_acl a = normalize_acl b \<longleftrightarrow> set a = set b"
  by (metis distinct_normalize_acl set_normalize_acl sorted_distinct_set_unique sorted_normalize_acl)

lemma normalize_acl_idem [simp]: "normalize_acl (normalize_acl acl) = normalize_acl acl"
  by (simp add: normalize_acl_canonical)

lemma edge_visible_iff:
  "edge_visible ctx e \<longleftrightarrow>
     (case as_of ctx of None \<Rightarrow> True
      | Some t \<Rightarrow> (\<forall>vf. ed_valid_from e = Some vf \<longrightarrow> vf \<le> t) \<and> (\<forall>vt. ed_valid_to e = Some vt \<longrightarrow> t < vt)) \<and>
     (ed_acl e = [] \<or> set (ed_acl e) \<inter> set (principals ctx) \<noteq> {})"
  by (auto simp: edge_visible_def is_edge_visible_def list_ex_iff split: option.splits)

lemma edge_visible_normalized:
  "edge_visible ctx (e\<lparr>ed_acl := normalize_acl (ed_acl e)\<rparr>) = edge_visible ctx e"
proof -
  have "normalize_acl (ed_acl e) = [] \<longleftrightarrow> ed_acl e = []"
    by (metis set_empty set_normalize_acl)
  then show ?thesis by (cases "as_of ctx") (simp_all add: edge_visible_iff)
qed

end
