(* ===== verification/OG_Accessor.thy ===== *)
theory OG_Accessor
  imports OG_Types
begin

text \<open>
  The read interface of \<open>src/accessor.rs\<close>. A \<open>&dyn GraphAccessor\<close> is the record of its five
  methods. \<open>accessor_ok A N E\<close> says what a correct implementation returns: it is a view of a
  logical graph with node map \<open>N\<close> and edge multiset \<open>E\<close>. The locale \<open>graph_view\<close> is the contract
  of an implementation; every implementation of the crate is an interpretation of it.
\<close>

section \<open>Views\<close>

record node_view =
  nv_name :: string
  nv_kind :: string
  nv_base_weight :: f32
  nv_noise_penalty :: f32
  nv_pagerank_weight :: f32
  nv_metadata :: "(string, string) fmap"

definition node_view_from :: "node_data \<Rightarrow> node_view" where
  "node_view_from n = \<lparr>
     nv_name = nd_name n, nv_kind = nd_kind n, nv_base_weight = nd_base_weight n,
     nv_noise_penalty = nd_noise_penalty n, nv_pagerank_weight = nd_pagerank_weight n,
     nv_metadata = nd_metadata n\<rparr>"

lemma nv_name_node_view_from [simp]: "nv_name (node_view_from n) = nd_name n"
  by (simp add: node_view_from_def)

record neighbor_view =
  nb_target_name :: string
  nb_edge_kind :: string
  nb_field_name :: "string option"
  nb_edge_weight :: f32
  nb_valid_from :: "u64 option"
  nb_valid_to :: "u64 option"
  nb_acl :: "string list"

definition neighbor_view_of :: "string \<Rightarrow> edge_data \<Rightarrow> neighbor_view" where
  "neighbor_view_of other e = \<lparr>
     nb_target_name = other, nb_edge_kind = ed_kind e, nb_field_name = ed_field_name e,
     nb_edge_weight = ed_base_weight e, nb_valid_from = ed_valid_from e,
     nb_valid_to = ed_valid_to e, nb_acl = ed_acl e\<rparr>"

lemma neighbor_view_of_simps [simp]:
  "nb_target_name (neighbor_view_of n e) = n"
  "nb_edge_kind (neighbor_view_of n e) = ed_kind e"
  "nb_field_name (neighbor_view_of n e) = ed_field_name e"
  "nb_edge_weight (neighbor_view_of n e) = ed_base_weight e"
  "nb_valid_from (neighbor_view_of n e) = ed_valid_from e"
  "nb_valid_to (neighbor_view_of n e) = ed_valid_to e"
  "nb_acl (neighbor_view_of n e) = ed_acl e"
  by (simp_all add: neighbor_view_of_def)

text \<open>The edge data a neighbour view carries; \<open>neighbor_view_of\<close> loses nothing.\<close>

definition nb_edge :: "neighbor_view \<Rightarrow> edge_data" where
  "nb_edge nb = \<lparr>
     ed_kind = nb_edge_kind nb, ed_field_name = nb_field_name nb,
     ed_base_weight = nb_edge_weight nb, ed_valid_from = nb_valid_from nb,
     ed_valid_to = nb_valid_to nb, ed_acl = nb_acl nb\<rparr>"

lemma nb_edge_neighbor_view_of [simp]: "nb_edge (neighbor_view_of n e) = e"
  by (simp add: nb_edge_def)

lemma neighbor_view_of_nb_edge [simp]: "neighbor_view_of (nb_target_name nb) (nb_edge nb) = nb"
  by (simp add: nb_edge_def neighbor_view_of_def)

section \<open>The trait\<close>

record accessor =
  acc_node_count :: nat
  acc_edge_count :: nat
  acc_get_node :: "string \<Rightarrow> node_view option"
  acc_outgoing :: "string \<Rightarrow> neighbor_view list"
  acc_incoming :: "string \<Rightarrow> neighbor_view list"

type_synonym graph_edge = "string \<times> string \<times> edge_data"

definition out_view :: "graph_edge \<Rightarrow> neighbor_view" where
  "out_view x = (case x of (f, t, e) \<Rightarrow> neighbor_view_of t e)"

definition in_view :: "graph_edge \<Rightarrow> neighbor_view" where
  "in_view x = (case x of (f, t, e) \<Rightarrow> neighbor_view_of f e)"

definition out_views :: "graph_edge multiset \<Rightarrow> string \<Rightarrow> neighbor_view multiset" where
  "out_views E n = image_mset out_view (filter_mset (\<lambda>(f, t, e). f = n) E)"

definition in_views :: "graph_edge multiset \<Rightarrow> string \<Rightarrow> neighbor_view multiset" where
  "in_views E n = image_mset in_view (filter_mset (\<lambda>(f, t, e). t = n) E)"

definition accessor_ok ::
  "accessor \<Rightarrow> (string \<rightharpoonup> node_view) \<Rightarrow> graph_edge multiset \<Rightarrow> bool" where
  "accessor_ok A N E \<longleftrightarrow>
     finite (dom N) \<and>
     acc_node_count A = card (dom N) \<and>
     acc_edge_count A = size E \<and>
     (\<forall>n. acc_get_node A n = N n) \<and>
     (\<forall>n v. N n = Some v \<longrightarrow> nv_name v = n) \<and>
     (\<forall>n. mset (acc_outgoing A n) = out_views E n) \<and>
     (\<forall>n. mset (acc_incoming A n) = in_views E n) \<and>
     (\<forall>f t e. (f, t, e) \<in># E \<longrightarrow> f \<in> dom N \<and> t \<in> dom N)"

lemma accessor_okD:
  assumes "accessor_ok A N E"
  shows accessor_ok_finite: "finite (dom N)"
    and accessor_ok_node_count: "acc_node_count A = card (dom N)"
    and accessor_ok_edge_count: "acc_edge_count A = size E"
    and accessor_ok_get: "acc_get_node A n = N n"
    and accessor_ok_name: "N n = Some v \<Longrightarrow> nv_name v = n"
    and accessor_ok_out: "mset (acc_outgoing A n) = out_views E n"
    and accessor_ok_in: "mset (acc_incoming A n) = in_views E n"
    and accessor_ok_src: "(f, t, e) \<in># E \<Longrightarrow> f \<in> dom N"
    and accessor_ok_tgt: "(f, t, e) \<in># E \<Longrightarrow> t \<in> dom N"
  using assms unfolding accessor_ok_def by blast+

lemma in_out_views_iff: "nb \<in># out_views E n \<longleftrightarrow> (n, nb_target_name nb, nb_edge nb) \<in># E"
  by (force simp: out_views_def out_view_def)

lemma in_in_views_iff: "nb \<in># in_views E n \<longleftrightarrow> (nb_target_name nb, n, nb_edge nb) \<in># E"
  by (force simp: in_views_def in_view_def)

lemma outgoing_iff:
  "accessor_ok A N E \<Longrightarrow> nb \<in> set (acc_outgoing A n) \<longleftrightarrow> (n, nb_target_name nb, nb_edge nb) \<in># E"
  by (metis accessor_ok_out in_out_views_iff set_mset_mset)

lemma incoming_iff:
  "accessor_ok A N E \<Longrightarrow> nb \<in> set (acc_incoming A n) \<longleftrightarrow> (nb_target_name nb, n, nb_edge nb) \<in># E"
  by (metis accessor_ok_in in_in_views_iff set_mset_mset)

text \<open>Counting neighbours that satisfy a test is counting edges.\<close>

lemma count_outgoing:
  assumes "accessor_ok A N E"
  shows "length (filter P (acc_outgoing A n)) =
         size (filter_mset (\<lambda>(f, t, e). f = n \<and> P (neighbor_view_of t e)) E)"
proof -
  have "filter_mset P (out_views E n) =
      image_mset out_view (filter_mset (\<lambda>(f, t, e). f = n \<and> P (neighbor_view_of t e)) E)"
    unfolding out_views_def by (induction E) (auto simp: out_view_def)
  then show ?thesis by (simp add: length_filter_mset accessor_ok_out [OF assms])
qed

lemma count_incoming:
  assumes "accessor_ok A N E"
  shows "length (filter P (acc_incoming A n)) =
         size (filter_mset (\<lambda>(f, t, e). t = n \<and> P (neighbor_view_of f e)) E)"
proof -
  have "filter_mset P (in_views E n) =
      image_mset in_view (filter_mset (\<lambda>(f, t, e). t = n \<and> P (neighbor_view_of f e)) E)"
    unfolding in_views_def by (induction E) (auto simp: in_view_def)
  then show ?thesis by (simp add: length_filter_mset accessor_ok_in [OF assms])
qed

lemma outgoing_absent: "accessor_ok A N E \<Longrightarrow> N n = None \<Longrightarrow> acc_outgoing A n = []"
  by (metis accessor_ok_src domIff list.set_intros(1) neq_Nil_conv outgoing_iff)

lemma incoming_absent: "accessor_ok A N E \<Longrightarrow> N n = None \<Longrightarrow> acc_incoming A n = []"
  by (metis accessor_ok_tgt domIff list.set_intros(1) neq_Nil_conv incoming_iff)

text \<open>Outgoing and incoming reads agree on every edge.\<close>

lemma outgoing_incoming:
  assumes "accessor_ok A N E"
  shows "neighbor_view_of b e \<in> set (acc_outgoing A a) \<longleftrightarrow> neighbor_view_of a e \<in> set (acc_incoming A b)"
  using outgoing_iff [OF assms, of "neighbor_view_of b e" a]
    incoming_iff [OF assms, of "neighbor_view_of a e" b] by simp

section \<open>The reference accessor\<close>

text \<open>The accessor that answers every query by scanning the lists of its nodes and edges: the
  specification the optimised implementations are compared with.\<close>

definition list_accessor :: "node_view list \<Rightarrow> graph_edge list \<Rightarrow> accessor" where
  "list_accessor ns es = \<lparr>
     acc_node_count = length ns,
     acc_edge_count = length es,
     acc_get_node = map_of (map (\<lambda>v. (nv_name v, v)) ns),
     acc_outgoing = (\<lambda>n. map out_view (filter (\<lambda>(f, t, e). f = n) es)),
     acc_incoming = (\<lambda>n. map in_view (filter (\<lambda>(f, t, e). t = n) es))\<rparr>"

lemma list_accessor_ok:
  assumes "distinct (map nv_name ns)"
    and "\<forall>(f, t, e) \<in> set es. f \<in> nv_name ` set ns \<and> t \<in> nv_name ` set ns"
  shows "accessor_ok (list_accessor ns es) (map_of (map (\<lambda>v. (nv_name v, v)) ns)) (mset es)"
proof -
  let ?m = "map (\<lambda>v. (nv_name v, v)) ns"
  have dom: "dom (map_of ?m) = nv_name ` set ns" by (auto simp: dom_map_of_conv_image_fst image_image)
  have "length ns = card (nv_name ` set ns)" using assms(1) by (metis distinct_card length_map list.set_map)
  then show ?thesis
    unfolding accessor_ok_def dom using assms(2)
    by (auto simp: list_accessor_def out_views_def in_views_def dest: map_of_SomeD)
qed

section \<open>The contract of an implementation\<close>

locale graph_view =
  fixes acc :: "'s \<Rightarrow> accessor"
    and inv :: "'s \<Rightarrow> bool"
    and nodes :: "'s \<Rightarrow> (string \<rightharpoonup> node_view)"
    and edges :: "'s \<Rightarrow> graph_edge multiset"
  assumes view: "inv s \<Longrightarrow> accessor_ok (acc s) (nodes s) (edges s)"
begin

lemma get_node_name: "inv s \<Longrightarrow> acc_get_node (acc s) n = Some v \<Longrightarrow> nv_name v = n"
  by (metis accessor_ok_get accessor_ok_name view)

lemma neighbors_exist:
  assumes "inv s" and "nb \<in> set (acc_outgoing (acc s) n)"
  shows "acc_get_node (acc s) n \<noteq> None \<and> acc_get_node (acc s) (nb_target_name nb) \<noteq> None"
proof -
  note ok = view [OF assms(1)]
  have "(n, nb_target_name nb, nb_edge nb) \<in># edges s" using assms(2) outgoing_iff [OF ok] by blast
  then show ?thesis
    using accessor_ok_src [OF ok] accessor_ok_tgt [OF ok]
    by (metis accessor_ok_get [OF ok] domIff)
qed

lemma symmetric:
  "inv s \<Longrightarrow> neighbor_view_of b e \<in> set (acc_outgoing (acc s) a)
     \<longleftrightarrow> neighbor_view_of a e \<in> set (acc_incoming (acc s) b)"
  by (rule outgoing_incoming [OF view])

end

end
