(* ===== verification/OG_Scoring.thy ===== *)
theory OG_Scoring
  imports OG_Accessor
begin

text \<open>
  The score of \<open>src/scoring.rs\<close>: weighted base, semantic and bonus terms, multiplied by one minus
  the effective noise.
\<close>

definition compute_score :: "node_view \<Rightarrow> dynamic_context \<Rightarrow> node_result" where
  "compute_score node ctx =
     (let base_component = f32_mul (w_base ctx) (nv_base_weight node);
          semantic_boost = (case fmlookup (semantic_boosts ctx) (nv_name node) of
                              Some v \<Rightarrow> v | None \<Rightarrow> f32_zero);
          semantic_component = f32_mul (w_semantic ctx) semantic_boost;
          weight_bonus = (case fmlookup (weight_bonuses ctx) (nv_name node) of
                            Some v \<Rightarrow> v | None \<Rightarrow> f32_zero);
          bonus_component = f32_mul (w_bonus ctx) weight_bonus;
          noise0 = f32_clamp (f32_mul (w_noise ctx) (nv_noise_penalty node)) f32_zero f32_one;
          effective_noise =
            (if noise_tags ctx \<noteq> {||} then
               (case fmlookup (nv_metadata node) ''domain'' of
                  Some domain \<Rightarrow>
                    if domain |\<in>| noise_tags ctx then f32_max noise0 f32_0_9 else noise0
                | None \<Rightarrow> noise0)
             else noise0);
          raw = f32_add (f32_add base_component semantic_component) bonus_component;
          weight = f32_mul raw (f32_sub f32_one effective_noise)
      in \<lparr>nr_name = nv_name node, nr_kind = nv_kind node, nr_weight = weight,
          nr_base_component = base_component, nr_semantic_component = semantic_component,
          nr_noise_component = effective_noise, nr_bonus_component = bonus_component\<rparr>)"

lemma nr_name_compute_score [simp]: "nr_name (compute_score node ctx) = nv_name node"
  by (simp add: compute_score_def Let_def)

lemma nr_kind_compute_score [simp]: "nr_kind (compute_score node ctx) = nv_kind node"
  by (simp add: compute_score_def Let_def)

end
