(* ===== verification/OG_Overlay.thy ===== *)
theory OG_Overlay
  imports OG_Scoring
begin

text \<open>
  The per-request overlay of \<open>src/overlay.rs\<close>: the index built once per traversal, the combined
  base and overlay expansion with the \<open>max_fan_out\<close> cutoff, and the visibility filter every
  expansion goes through.
\<close>

record neighbor_entry =
  ne_name :: string
  ne_edge_kind :: string
  ne_field_name :: "string option"
  ne_edge_weight :: f32
  ne_is_overlay :: bool
  ne_valid_from :: "u64 option"
  ne_valid_to :: "u64 option"
  ne_acl :: "string list"

record overlay_index =
  oi_edges :: "(string, graph_edge list) fmap"
  oi_nodes :: "(string, node_data) fmap"

definition edges_from :: "overlay_index \<Rightarrow> string \<Rightarrow> graph_edge list" where
  "edges_from index n = (case fmlookup (oi_edges index) n of None \<Rightarrow> [] | Some v \<Rightarrow> v)"

definition oi_push :: "(string, graph_edge list) fmap \<Rightarrow> graph_edge \<Rightarrow> (string, graph_edge list) fmap" where
  "oi_push m e = fmupd (fst e) ((case fmlookup m (fst e) of None \<Rightarrow> [] | Some v \<Rightarrow> v) @ [e]) m"

definition overlay_index_build :: "dynamic_context \<Rightarrow> overlay_index" where
  "overlay_index_build ctx = \<lparr>
     oi_edges = foldl oi_push fmempty (overlay_edges ctx),
     oi_nodes = foldl (\<lambda>m n. fmupd (nd_name n) n m) fmempty (overlay_nodes ctx)\<rparr>"

definition overlay_node :: "overlay_index \<Rightarrow> string \<Rightarrow> node_data option" where
  "overlay_node index n = fmlookup (oi_nodes index) n"

definition overlay_entry :: "graph_edge \<Rightarrow> neighbor_entry" where
  "overlay_entry x = (case x of (_, to, edge) \<Rightarrow> \<lparr>
     ne_name = to, ne_edge_kind = ed_kind edge, ne_field_name = ed_field_name edge,
     ne_edge_weight = ed_base_weight edge, ne_is_overlay = True,
     ne_valid_from = ed_valid_from edge, ne_valid_to = ed_valid_to edge, ne_acl = ed_acl edge\<rparr>)"

definition collect_overlay_edges ::
  "overlay_index \<Rightarrow> string \<Rightarrow> neighbor_entry list \<Rightarrow> neighbor_entry list" where
  "collect_overlay_edges index node_name result =
     result @ map overlay_entry (edges_from index node_name)"

definition base_entry :: "neighbor_view \<Rightarrow> neighbor_entry" where
  "base_entry nb = \<lparr>
     ne_name = nb_target_name nb, ne_edge_kind = nb_edge_kind nb, ne_field_name = nb_field_name nb,
     ne_edge_weight = nb_edge_weight nb, ne_is_overlay = False,
     ne_valid_from = nb_valid_from nb, ne_valid_to = nb_valid_to nb, ne_acl = nb_acl nb\<rparr>"

definition fan_out_cut :: "dynamic_context \<Rightarrow> node_view \<Rightarrow> string \<Rightarrow> nat \<Rightarrow> bool" where
  "fan_out_cut ctx nv node_name degree =
     (case max_fan_out ctx of None \<Rightarrow> False
      | Some m \<Rightarrow> m < degree \<and>
          \<not> (case fmlookup (semantic_boosts ctx) node_name of
                None \<Rightarrow> False | Some v \<Rightarrow> f32_lt f32_zero v) \<and>
          \<not> (case fan_out_pagerank_bypass ctx of
                None \<Rightarrow> False | Some t \<Rightarrow> f32_lt t (nv_pagerank_weight nv)))"

definition neighbors_with_overlay_unfiltered ::
  "accessor \<Rightarrow> dynamic_context \<Rightarrow> overlay_index \<Rightarrow> string \<Rightarrow> neighbor_entry list" where
  "neighbors_with_overlay_unfiltered graph ctx index node_name =
     (case acc_get_node graph node_name of
        None \<Rightarrow> collect_overlay_edges index node_name []
      | Some node_view \<Rightarrow>
          let base_neighbors = acc_outgoing graph node_name in
          if fan_out_cut ctx node_view node_name (length base_neighbors)
          then collect_overlay_edges index node_name []
          else collect_overlay_edges index node_name (map base_entry base_neighbors))"

definition neighbors_with_overlay_indexed ::
  "accessor \<Rightarrow> dynamic_context \<Rightarrow> overlay_index \<Rightarrow> string \<Rightarrow> neighbor_entry list" where
  "neighbors_with_overlay_indexed graph ctx index node_name =
     filter (\<lambda>n. is_edge_visible ctx (ne_valid_from n) (ne_valid_to n) (ne_acl n))
       (neighbors_with_overlay_unfiltered graph ctx index node_name)"

definition neighbors_with_overlay ::
  "accessor \<Rightarrow> dynamic_context \<Rightarrow> string \<Rightarrow> neighbor_entry list" where
  "neighbors_with_overlay graph ctx node_name =
     neighbors_with_overlay_indexed graph ctx (overlay_index_build ctx) node_name"

definition resolve_overlay_node :: "string \<Rightarrow> dynamic_context \<Rightarrow> node_view option" where
  "resolve_overlay_node n ctx =
     map_option node_view_from (List.find (\<lambda>x. nd_name x = n) (overlay_nodes ctx))"

definition resolve_overlay_node_indexed :: "string \<Rightarrow> overlay_index \<Rightarrow> node_view option" where
  "resolve_overlay_node_indexed n index = map_option node_view_from (overlay_node index n)"

section \<open>The index agrees with the linear scans\<close>

lemma edges_from_foldl:
  "(case fmlookup (foldl oi_push m es) n of None \<Rightarrow> [] | Some v \<Rightarrow> v) =
   (case fmlookup m n of None \<Rightarrow> [] | Some v \<Rightarrow> v) @ filter (\<lambda>e. fst e = n) es"
  by (induction es arbitrary: m) (auto simp: oi_push_def)

lemma edges_from_build:
  "edges_from (overlay_index_build ctx) n = filter (\<lambda>e. fst e = n) (overlay_edges ctx)"
  using edges_from_foldl [of fmempty "overlay_edges ctx" n]
  by (simp add: edges_from_def overlay_index_build_def)

lemma overlay_nodes_foldl:
  "fmlookup (foldl (\<lambda>m x. fmupd (nd_name x) x m) m xs) n =
   (case List.find (\<lambda>x. nd_name x = n) (rev xs) of None \<Rightarrow> fmlookup m n | Some x \<Rightarrow> Some x)"
proof (induction xs arbitrary: m rule: rev_induct)
  case (snoc x xs)
  then show ?case by auto
qed simp

lemma overlay_node_build:
  "overlay_node (overlay_index_build ctx) n = List.find (\<lambda>x. nd_name x = n) (rev (overlay_nodes ctx))"
  by (simp add: overlay_node_def overlay_index_build_def overlay_nodes_foldl split: option.splits)

lemma find_rev_unique:
  assumes "distinct (map f xs)"
  shows "List.find (\<lambda>x. f x = n) (rev xs) = List.find (\<lambda>x. f x = n) xs"
  using assms
proof (induction xs)
  case (Cons x xs)
  have *: "List.find (\<lambda>x. f x = n) (ys @ [x]) =
      (case List.find (\<lambda>x. f x = n) ys of None \<Rightarrow> if f x = n then Some x else None | Some y \<Rightarrow> Some y)" for ys
    by (induction ys) auto
  have "f x \<notin> f ` set xs" using Cons.prems by simp
  then have "\<forall>y\<in>set xs. f y \<noteq> f x" by (metis image_eqI)
  then have "f x = n \<Longrightarrow> List.find (\<lambda>x. f x = n) xs = None"
    by (auto simp: find_None_iff)
  then show ?case using Cons by (auto simp: * split: option.splits)
qed simp

lemma resolve_name:
  "resolve_overlay_node_indexed n (overlay_index_build ctx) = Some v \<Longrightarrow> nv_name v = n"
  by (auto simp: resolve_overlay_node_indexed_def overlay_node_build find_Some_iff)

section \<open>What an expansion yields\<close>

definition entry_edge :: "neighbor_entry \<Rightarrow> edge_data" where
  "entry_edge ne = \<lparr>
     ed_kind = ne_edge_kind ne, ed_field_name = ne_field_name ne,
     ed_base_weight = ne_edge_weight ne, ed_valid_from = ne_valid_from ne,
     ed_valid_to = ne_valid_to ne, ed_acl = ne_acl ne\<rparr>"

lemma entry_edge_overlay [simp]: "entry_edge (overlay_entry (f, t, e)) = e"
  by (simp add: entry_edge_def overlay_entry_def)

lemma entry_edge_base [simp]: "entry_edge (base_entry nb) = nb_edge nb"
  by (simp add: entry_edge_def base_entry_def nb_edge_def)

lemma entry_simps [simp]:
  "ne_name (base_entry nb) = nb_target_name nb" "\<not> ne_is_overlay (base_entry nb)"
  "ne_name (overlay_entry x) = fst (snd x)" "ne_is_overlay (overlay_entry x)"
  by (auto simp: base_entry_def overlay_entry_def split: prod.splits)

lemma entry_visible:
  "is_edge_visible ctx (ne_valid_from ne) (ne_valid_to ne) (ne_acl ne) = edge_visible ctx (entry_edge ne)"
  by (simp add: edge_visible_def entry_edge_def)

text \<open>Every entry is a visible edge: an overlay edge of the context, or an edge of the base graph.\<close>

lemma expansion_sound:
  assumes "ne \<in> set (neighbors_with_overlay_indexed graph ctx (overlay_index_build ctx) n)"
  shows "edge_visible ctx (entry_edge ne) \<and>
    (if ne_is_overlay ne then (n, ne_name ne, entry_edge ne) \<in> set (overlay_edges ctx)
     else \<exists>nb \<in> set (acc_outgoing graph n). ne = base_entry nb \<and> acc_get_node graph n \<noteq> None)"
proof -
  have vis: "edge_visible ctx (entry_edge ne)"
    using assms by (simp add: neighbors_with_overlay_indexed_def edge_visible_def entry_edge_def)
  have mem: "ne \<in> set (neighbors_with_overlay_unfiltered graph ctx (overlay_index_build ctx) n)"
    using assms by (simp add: neighbors_with_overlay_indexed_def)
  have ov: "(n, ne_name (overlay_entry x), entry_edge (overlay_entry x)) \<in> set (overlay_edges ctx)"
    if "x \<in> set (edges_from (overlay_index_build ctx) n)" for x
  proof -
    obtain f t e where x: "x = (f, t, e)" by (cases x)
    show ?thesis using that by (auto simp: x edges_from_build)
  qed
  from mem show ?thesis
    using vis ov
    by (auto simp: neighbors_with_overlay_unfiltered_def collect_overlay_edges_def Let_def
        split: option.splits if_splits)
qed

text \<open>Without a cutoff nothing visible is lost.\<close>

lemma expansion_complete_overlay:
  assumes "(n, t, e) \<in> set (overlay_edges ctx)" and "edge_visible ctx e"
  shows "overlay_entry (n, t, e) \<in> set (neighbors_with_overlay_indexed graph ctx (overlay_index_build ctx) n)"
proof -
  have "(n, t, e) \<in> set (edges_from (overlay_index_build ctx) n)"
    using assms(1) by (simp add: edges_from_build)
  then show ?thesis using assms(2)
    by (auto simp: neighbors_with_overlay_indexed_def neighbors_with_overlay_unfiltered_def
        collect_overlay_edges_def Let_def entry_visible split: option.splits)
qed

lemma expansion_complete_base:
  assumes "nb \<in> set (acc_outgoing graph n)" and "acc_get_node graph n = Some nv"
    and "\<not> fan_out_cut ctx nv n (length (acc_outgoing graph n))" and "edge_visible ctx (nb_edge nb)"
  shows "base_entry nb \<in> set (neighbors_with_overlay_indexed graph ctx (overlay_index_build ctx) n)"
  using assms
  by (auto simp: neighbors_with_overlay_indexed_def neighbors_with_overlay_unfiltered_def
      collect_overlay_edges_def Let_def entry_visible)

end
