(* ===== verification/OG_Traversal.thy ===== *)
theory OG_Traversal
  imports OG_Overlay
begin

text \<open>
  The four traversals of \<open>src/traversal.rs\<close>: the beam search, the Dijkstra path search, the
  contextual subgraph and the multi-beam intersection. \<open>ho\<close> is the iteration order of the local hash
  containers and \<open>hp\<close> the pop of \<open>BinaryHeap\<close>, which the standard library leaves open for entries of
  equal cost. Loops whose end depends on the graph take fuel; \<open>None\<close> is "still running".
\<close>

section \<open>Shared steps\<close>

definition score_of :: "accessor \<Rightarrow> dynamic_context \<Rightarrow> overlay_index \<Rightarrow> string \<Rightarrow> node_result option" where
  "score_of graph ctx overlay n =
     (case acc_get_node graph n of
        Some nv \<Rightarrow> Some (compute_score nv ctx)
      | None \<Rightarrow> (case resolve_overlay_node_indexed n overlay of
                   Some ov \<Rightarrow> Some (compute_score ov ctx) | None \<Rightarrow> None))"

text \<open>The comparator \<open>b.weight.total_cmp(&a.weight).then_with(|| a.name.cmp(&b.name))\<close> as a sort key.\<close>

definition rank_key :: "f32 \<Rightarrow> string \<Rightarrow> int \<times> string" where
  "rank_key w n = (- f32_total_key w, n)"

definition rank_sort :: "node_result list \<Rightarrow> node_result list" where
  "rank_sort rs = sort_key (\<lambda>r. rank_key (nr_weight r) (nr_name r)) rs"

section \<open>Beam traverse\<close>

definition level_insert ::
  "string \<Rightarrow> node_result \<Rightarrow> (string, node_result) fmap \<Rightarrow> (string, node_result) fmap" where
  "level_insert n r m =
     (case fmlookup m n of
        Some existing \<Rightarrow> if f32_lt (nr_weight existing) (nr_weight r) then fmupd n r m else m
      | None \<Rightarrow> fmupd n r m)"

definition beam_candidate ::
  "accessor \<Rightarrow> dynamic_context \<Rightarrow> overlay_index \<Rightarrow> string fset \<Rightarrow>
   (string, node_result) fmap \<Rightarrow> neighbor_entry \<Rightarrow> (string, node_result) fmap" where
  "beam_candidate graph ctx overlay visited m nb =
     (if ne_name nb |\<in>| visited then m
      else case score_of graph ctx overlay (ne_name nb) of
             None \<Rightarrow> m | Some r \<Rightarrow> level_insert (ne_name nb) r m)"

definition beam_level ::
  "accessor \<Rightarrow> dynamic_context \<Rightarrow> overlay_index \<Rightarrow> string fset \<Rightarrow> string list \<Rightarrow>
   (string, node_result) fmap" where
  "beam_level graph ctx overlay visited frontier =
     foldl (\<lambda>m node. foldl (beam_candidate graph ctx overlay visited) m
                       (neighbors_with_overlay_indexed graph ctx overlay node))
       fmempty frontier"

definition fm_values :: "('k::linorder list \<Rightarrow> 'k list) \<Rightarrow> ('k, 'v) fmap \<Rightarrow> 'v list" where
  "fm_values ho m = map (\<lambda>k. the (fmlookup m k)) (fm_keys ho m)"

fun advance_frontier :: "node_result list \<Rightarrow> string fset \<Rightarrow> string fset \<times> string list" where
  "advance_frontier [] visited = (visited, [])"
| "advance_frontier (r # rs) visited =
     (if nr_name r |\<in>| visited then advance_frontier rs visited
      else case advance_frontier rs (finsert (nr_name r) visited) of
             (v, fr) \<Rightarrow> (v, nr_name r # fr))"

fun beam_loop ::
  "(string list \<Rightarrow> string list) \<Rightarrow> accessor \<Rightarrow> dynamic_context \<Rightarrow> overlay_index \<Rightarrow> nat \<Rightarrow> nat \<Rightarrow>
   string fset \<Rightarrow> string list \<Rightarrow> node_result list \<Rightarrow> node_result list" where
  "beam_loop ho graph ctx overlay k 0 visited frontier results = results"
| "beam_loop ho graph ctx overlay k (Suc depth) visited frontier results =
     (if frontier = [] then results
      else let cands = take k (rank_sort (fm_values ho (beam_level graph ctx overlay visited frontier)))
           in case advance_frontier cands visited of
                (visited', frontier') \<Rightarrow>
                  beam_loop ho graph ctx overlay k depth visited' frontier' (results @ cands))"

definition beam_traverse ::
  "(string list \<Rightarrow> string list) \<Rightarrow> accessor \<Rightarrow> dynamic_context \<Rightarrow> string \<Rightarrow> nat \<Rightarrow> nat \<Rightarrow> node_result list" where
  "beam_traverse ho graph ctx start k depth =
     rank_sort (beam_loop ho graph ctx (overlay_index_build ctx) k depth {|start|} [start] [])"

section \<open>Find path\<close>

type_synonym dijkstra_entry = "f32 \<times> string"

text \<open>\<open>BinaryHeap::pop\<close> over the reversed cost order removes an entry of least cost.\<close>

definition heap_pop_ok ::
  "(dijkstra_entry list \<Rightarrow> (dijkstra_entry \<times> dijkstra_entry list) option) \<Rightarrow> bool" where
  "heap_pop_ok hp \<longleftrightarrow>
     (\<forall>h. hp h = None \<longleftrightarrow> h = []) \<and>
     (\<forall>h e h'. hp h = Some (e, h') \<longrightarrow> mset h = add_mset e (mset h') \<and> (\<forall>x \<in> set h. fst e \<le> fst x))"

record parent_info =
  pi_from :: string
  pi_edge_kind :: string
  pi_field_name :: "string option"

record dijkstra =
  dj_dist :: "(string, f32) fmap"
  dj_parent :: "(string, parent_info) fmap"
  dj_heap :: "dijkstra_entry list"

definition edge_cost :: "accessor \<Rightarrow> dynamic_context \<Rightarrow> overlay_index \<Rightarrow> string \<Rightarrow> f32" where
  "edge_cost graph ctx overlay n =
     (let target_score = (case score_of graph ctx overlay n of
                            Some r \<Rightarrow> nr_weight r | None \<Rightarrow> f32_0_001)
      in f32_div f32_one (f32_max target_score f32_0_001))"

definition relax ::
  "accessor \<Rightarrow> dynamic_context \<Rightarrow> overlay_index \<Rightarrow> f32 \<Rightarrow> string \<Rightarrow> dijkstra \<Rightarrow> neighbor_entry \<Rightarrow> dijkstra" where
  "relax graph ctx overlay cost node s nb =
     (let new_cost = f32_add cost (edge_cost graph ctx overlay (ne_name nb));
          is_better = (case fmlookup (dj_dist s) (ne_name nb) of
                         None \<Rightarrow> True | Some existing \<Rightarrow> f32_lt new_cost existing)
      in if is_better
         then s\<lparr>dj_dist := fmupd (ne_name nb) new_cost (dj_dist s),
                dj_parent := fmupd (ne_name nb)
                  \<lparr>pi_from = node, pi_edge_kind = ne_edge_kind nb, pi_field_name = ne_field_name nb\<rparr>
                  (dj_parent s),
                dj_heap := (new_cost, ne_name nb) # dj_heap s\<rparr>
         else s)"

datatype 'r loop_result = Done 'r | More dijkstra

definition dijkstra_step ::
  "(dijkstra_entry list \<Rightarrow> (dijkstra_entry \<times> dijkstra_entry list) option) \<Rightarrow>
   accessor \<Rightarrow> dynamic_context \<Rightarrow> overlay_index \<Rightarrow> string \<Rightarrow> dijkstra \<Rightarrow>
   (string, parent_info) fmap option loop_result" where
  "dijkstra_step hp graph ctx overlay end s =
     (case hp (dj_heap s) of
        None \<Rightarrow> Done None
      | Some ((cost, node), h) \<Rightarrow>
          let s = s\<lparr>dj_heap := h\<rparr> in
          if node = end then Done (Some (dj_parent s))
          else if (case fmlookup (dj_dist s) node of
                     Some best \<Rightarrow> f32_lt best cost | None \<Rightarrow> False) then More s
          else More (foldl (relax graph ctx overlay cost node) s
                       (neighbors_with_overlay_indexed graph ctx overlay node)))"

fun dijkstra_loop ::
  "nat \<Rightarrow> (dijkstra_entry list \<Rightarrow> (dijkstra_entry \<times> dijkstra_entry list) option) \<Rightarrow>
   accessor \<Rightarrow> dynamic_context \<Rightarrow> overlay_index \<Rightarrow> string \<Rightarrow> dijkstra \<Rightarrow>
   (string, parent_info) fmap option option" where
  "dijkstra_loop 0 hp graph ctx overlay end s = None"
| "dijkstra_loop (Suc fuel) hp graph ctx overlay end s =
     (case dijkstra_step hp graph ctx overlay end s of
        Done r \<Rightarrow> Some r | More s' \<Rightarrow> dijkstra_loop fuel hp graph ctx overlay end s')"

definition bare_step :: "string \<Rightarrow> path_step" where
  "bare_step n = \<lparr>ps_node = n, ps_edge_kind = [], ps_field_name = [], ps_direction = []\<rparr>"

text \<open>The loop pushes the steps backwards from \<open>end\<close>; the accumulator is the reversed path.\<close>

fun reconstruct_loop ::
  "nat \<Rightarrow> string \<Rightarrow> (string, parent_info) fmap \<Rightarrow> string \<Rightarrow> path_step list \<Rightarrow> path_step list option" where
  "reconstruct_loop 0 start parent current path = None"
| "reconstruct_loop (Suc fuel) start parent current path =
     (if current = start then Some (bare_step start # path)
      else case fmlookup parent current of
             Some info \<Rightarrow> reconstruct_loop fuel start parent (pi_from info)
               (\<lparr>ps_node = current, ps_edge_kind = pi_edge_kind info,
                 ps_field_name = (case pi_field_name info of Some f \<Rightarrow> f | None \<Rightarrow> []),
                 ps_direction = ''outgoing''\<rparr> # path)
           | None \<Rightarrow> Some (bare_step start # path))"

definition reconstruct_path ::
  "nat \<Rightarrow> string \<Rightarrow> string \<Rightarrow> (string, parent_info) fmap \<Rightarrow> path_step list option" where
  "reconstruct_path fuel start end parent = reconstruct_loop fuel start parent end []"

definition dijkstra_start :: "string \<Rightarrow> dijkstra" where
  "dijkstra_start start = \<lparr>dj_dist = fmupd start f32_zero fmempty, dj_parent = fmempty,
     dj_heap = [(f32_zero, start)]\<rparr>"

text \<open>\<open>None\<close>: out of fuel; \<open>Some None\<close>: no path; \<open>Some (Some p)\<close>: the path.\<close>

definition find_path ::
  "nat \<Rightarrow> (dijkstra_entry list \<Rightarrow> (dijkstra_entry \<times> dijkstra_entry list) option) \<Rightarrow>
   accessor \<Rightarrow> dynamic_context \<Rightarrow> string \<Rightarrow> string \<Rightarrow> path_step list option option" where
  "find_path fuel hp graph ctx start end =
     (let overlay = overlay_index_build ctx in
      if start = end then Some (Some [bare_step start])
      else case dijkstra_loop fuel hp graph ctx overlay end (dijkstra_start start) of
             None \<Rightarrow> None
           | Some None \<Rightarrow> Some None
           | Some (Some parent) \<Rightarrow>
               map_option Some (reconstruct_path fuel start end parent))"

section \<open>Contextual subgraph\<close>

definition result_edge :: "string \<Rightarrow> neighbor_entry \<Rightarrow> edge_result" where
  "result_edge src nb = \<lparr>er_source = src, er_target = ne_name nb, er_kind = ne_edge_kind nb,
     er_field_name = ne_field_name nb, er_weight = ne_edge_weight nb,
     er_valid_from = ne_valid_from nb, er_valid_to = ne_valid_to nb, er_acl = ne_acl nb\<rparr>"

definition edge_key :: "edge_result \<Rightarrow> string \<times> string \<times> string" where
  "edge_key e = (er_source e, er_target e, er_kind e)"

record subgraph_state =
  ss_set :: "string fset"
  ss_nodes :: "node_result list"
  ss_edges :: "edge_result list"

definition subgraph_neighbor ::
  "accessor \<Rightarrow> dynamic_context \<Rightarrow> overlay_index \<Rightarrow> string \<Rightarrow> subgraph_state \<Rightarrow> neighbor_entry \<Rightarrow> subgraph_state" where
  "subgraph_neighbor graph ctx overlay seed s nb =
     (let s = s\<lparr>ss_edges := ss_edges s @ [result_edge seed nb]\<rparr> in
      if ne_name nb |\<in>| ss_set s then s
      else let s = s\<lparr>ss_set := finsert (ne_name nb) (ss_set s)\<rparr> in
           case score_of graph ctx overlay (ne_name nb) of
             Some r \<Rightarrow> s\<lparr>ss_nodes := ss_nodes s @ [r]\<rparr> | None \<Rightarrow> s)"

definition subgraph_seed ::
  "accessor \<Rightarrow> dynamic_context \<Rightarrow> overlay_index \<Rightarrow> subgraph_state \<Rightarrow> string \<Rightarrow> subgraph_state" where
  "subgraph_seed graph ctx overlay s seed =
     (if seed |\<in>| ss_set s then s
      else case score_of graph ctx overlay seed of
             None \<Rightarrow> s
           | Some r \<Rightarrow>
               foldl (subgraph_neighbor graph ctx overlay seed)
                 (s\<lparr>ss_set := finsert seed (ss_set s), ss_nodes := ss_nodes s @ [r]\<rparr>)
                 (neighbors_with_overlay_indexed graph ctx overlay seed))"

definition boost_seeds :: "(string list \<Rightarrow> string list) \<Rightarrow> dynamic_context \<Rightarrow> nat \<Rightarrow> string list" where
  "boost_seeds ho ctx k =
     take k (sort_key (\<lambda>n. rank_key (the (fmlookup (semantic_boosts ctx) n)) n)
               (fm_keys ho (semantic_boosts ctx)))"

definition contextual_subgraph ::
  "(string list \<Rightarrow> string list) \<Rightarrow> accessor \<Rightarrow> dynamic_context \<Rightarrow> nat \<Rightarrow> sub_graph" where
  "contextual_subgraph ho graph ctx k =
     (let overlay = overlay_index_build ctx;
          s = foldl (subgraph_seed graph ctx overlay)
                \<lparr>ss_set = {||}, ss_nodes = [], ss_edges = []\<rparr> (boost_seeds ho ctx k);
          nodes = rank_sort (ss_nodes s);
          present = set (map nr_name nodes);
          edges = filter (\<lambda>e. er_source e \<in> present \<and> er_target e \<in> present) (ss_edges s)
      in \<lparr>sg_nodes = nodes, sg_edges = sort_key edge_key edges\<rparr>)"

section \<open>Multi-beam intersection\<close>

record heatmap =
  hm_hit_count :: "(string, nat) fmap"
  hm_weight_sum :: "(string, f32) fmap"
  hm_best_result :: "(string, node_result) fmap"

definition fm_get :: "'v \<Rightarrow> ('k, 'v) fmap \<Rightarrow> 'k \<Rightarrow> 'v" where
  "fm_get d m k = (case fmlookup m k of Some v \<Rightarrow> v | None \<Rightarrow> d)"

definition heat_result :: "string fset \<times> heatmap \<Rightarrow> node_result \<Rightarrow> string fset \<times> heatmap" where
  "heat_result sh nr =
     (case sh of (seen, h) \<Rightarrow>
        let n = nr_name nr;
            h = (if n |\<in>| seen then h
                 else h\<lparr>hm_hit_count := fmupd n (fm_get 0 (hm_hit_count h) n + 1) (hm_hit_count h)\<rparr>);
            h = h\<lparr>hm_weight_sum := fmupd n (f32_add (fm_get f32_zero (hm_weight_sum h) n) (nr_weight nr))
                                     (hm_weight_sum h)\<rparr>;
            h = h\<lparr>hm_best_result := level_insert n nr (hm_best_result h)\<rparr>
        in (finsert n seen, h))"

definition heat_beam :: "heatmap \<Rightarrow> node_result list \<Rightarrow> heatmap" where
  "heat_beam h results = snd (foldl heat_result ({||}, h) results)"

definition heat_all :: "node_result list list \<Rightarrow> heatmap" where
  "heat_all beams = foldl heat_beam
     \<lparr>hm_hit_count = fmempty, hm_weight_sum = fmempty, hm_best_result = fmempty\<rparr> beams"

record filter_state =
  fs_best :: "(string, node_result) fmap"
  fs_set :: "string fset"
  fs_nodes :: "node_result list"

definition keep_start ::
  "accessor \<Rightarrow> dynamic_context \<Rightarrow> overlay_index \<Rightarrow> filter_state \<Rightarrow> string \<Rightarrow> filter_state" where
  "keep_start graph ctx overlay s start =
     (if start |\<in>| fs_set s then s
      else let s = s\<lparr>fs_set := finsert start (fs_set s)\<rparr> in
           case fmlookup (fs_best s) start of
             Some nr \<Rightarrow> s\<lparr>fs_best := fmdrop start (fs_best s), fs_nodes := fs_nodes s @ [nr]\<rparr>
           | None \<Rightarrow> (case score_of graph ctx overlay start of
                        Some nr \<Rightarrow> s\<lparr>fs_nodes := fs_nodes s @ [nr]\<rparr> | None \<Rightarrow> s))"

definition keep_hit ::
  "string list \<Rightarrow> nat \<Rightarrow> (string, nat) fmap \<Rightarrow> filter_state \<Rightarrow> string \<Rightarrow> filter_state" where
  "keep_hit start_nodes threshold hit_count s n =
     (if threshold \<le> fm_get 0 hit_count n \<and> n \<notin> set start_nodes
      then case fmlookup (fs_best s) n of
             Some nr \<Rightarrow>
               let s = s\<lparr>fs_best := fmdrop n (fs_best s)\<rparr> in
               if n |\<in>| fs_set s then s
               else s\<lparr>fs_set := finsert n (fs_set s), fs_nodes := fs_nodes s @ [nr]\<rparr>
           | None \<Rightarrow> s
      else s)"

record edge_state =
  es_seen :: "(string \<times> string \<times> string) fset"
  es_edges :: "edge_result list"

definition push_edge :: "edge_result \<Rightarrow> edge_state \<Rightarrow> edge_state" where
  "push_edge e s =
     (if edge_key e |\<in>| es_seen s then s
      else s\<lparr>es_seen := finsert (edge_key e) (es_seen s), es_edges := es_edges s @ [e]\<rparr>)"

definition rebuild_base_edge ::
  "dynamic_context \<Rightarrow> string fset \<Rightarrow> string \<Rightarrow> edge_state \<Rightarrow> neighbor_view \<Rightarrow> edge_state" where
  "rebuild_base_edge ctx kept n s nb =
     (if \<not> is_edge_visible ctx (nb_valid_from nb) (nb_valid_to nb) (nb_acl nb) then s
      else if nb_target_name nb |\<in>| kept then push_edge (result_edge n (base_entry nb)) s else s)"

definition rebuild_overlay_edge ::
  "dynamic_context \<Rightarrow> string fset \<Rightarrow> string \<Rightarrow> edge_state \<Rightarrow> graph_edge \<Rightarrow> edge_state" where
  "rebuild_overlay_edge ctx kept n s x =
     (case x of (from, to, edge) \<Rightarrow>
        if \<not> is_edge_visible ctx (ed_valid_from edge) (ed_valid_to edge) (ed_acl edge) then s
        else if from = n \<and> to |\<in>| kept then push_edge (result_edge from (overlay_entry x)) s else s)"

definition rebuild_edges ::
  "(string list \<Rightarrow> string list) \<Rightarrow> accessor \<Rightarrow> dynamic_context \<Rightarrow> string fset \<Rightarrow> edge_result list" where
  "rebuild_edges ho graph ctx kept =
     es_edges (foldl (\<lambda>s n.
       foldl (rebuild_overlay_edge ctx kept n)
         (foldl (rebuild_base_edge ctx kept n) s (acc_outgoing graph n)) (overlay_edges ctx))
       \<lparr>es_seen = {||}, es_edges = []\<rparr> (fs_elems ho kept))"

definition multi_beam_intersection ::
  "(string list \<Rightarrow> string list) \<Rightarrow> accessor \<Rightarrow> dynamic_context \<Rightarrow> string list \<Rightarrow> nat \<Rightarrow> nat \<Rightarrow> nat \<Rightarrow> sub_graph" where
  "multi_beam_intersection ho graph ctx start_nodes k depth threshold =
     (let overlay = overlay_index_build ctx;
          beam_results = map (\<lambda>start. beam_traverse ho graph ctx start k depth) start_nodes;
          h = heat_all beam_results;
          s = foldl (keep_start graph ctx overlay)
                \<lparr>fs_best = hm_best_result h, fs_set = {||}, fs_nodes = []\<rparr> start_nodes;
          s = foldl (keep_hit start_nodes threshold (hm_hit_count h)) s (fm_keys ho (hm_hit_count h));
          nodes = sort_key (\<lambda>r. rank_key (fm_get f32_zero (hm_weight_sum h) (nr_name r)) (nr_name r))
                    (fs_nodes s)
      in \<lparr>sg_nodes = nodes,
          sg_edges = sort_key edge_key (rebuild_edges ho graph ctx (fs_set s))\<rparr>)"

end
