(* ===== verification/OG_F32_Facts.thy ===== *)
theory OG_F32_Facts
  imports OG_F32
begin

text \<open>
  Facts of rounding that the components rely on: rounding is monotone and the identity on
  representable values, so adding a non-negative number never decreases a sum, and adding is
  monotone. They are what makes costs accumulated in \<open>f32\<close> usable in Dijkstra's algorithm.
\<close>

section \<open>Decoding made values\<close>

lemma f32_make_mag:
  assumes "0 \<le> m" and "m < 2147483648"
  shows "f32_mag (f32_make s m) = m" and "f32_sign (f32_make s m) = s"
proof -
  have w: "uint (word_of_int x :: u32) = x" if "0 \<le> x" "x < 4294967296" for x
    using that by (simp add: uint_word_of_int)
  have "uint (word_of_int ((if s then 2147483648 else 0) + m) :: u32) = (if s then 2147483648 else 0) + m"
    using assms by (intro w) auto
  then show "f32_mag (f32_make s m) = m" "f32_sign (f32_make s m) = s"
    using assms by (auto simp: f32_make_def f32_mag_def f32_sign_def)
qed

lemma f32_lt_trans: "f32_lt a b \<Longrightarrow> f32_lt b c \<Longrightarrow> f32_lt a c"
  by (auto simp: f32_lt_def)

lemma f32_lt_irrefl: "\<not> f32_lt a a"
  by (simp add: f32_lt_def)

lemma f32_key_range: "- 2147483648 < f32_key x" "f32_key x < 2147483648"
  using f32_mag_range [of x] by (auto simp: f32_key_def)

section \<open>Bit lengths\<close>

lemma bitlength_0 [simp]: "bitlength 0 = 0"
  by (subst bitlength.simps) simp

lemma round_mag_0 [simp]: "round_mag 0 1 = 0"
  by (simp add: round_mag_def half_even_def)

lemma bitlength_bounds:
  "0 < n \<Longrightarrow> 0 < bitlength n \<and> 2 ^ (bitlength n - 1) \<le> n \<and> n < 2 ^ bitlength n"
proof (induction n rule: bitlength.induct)
  case (1 n)
  have unfold: "bitlength n = Suc (bitlength (n div 2))" using 1 by (subst bitlength.simps) simp
  show ?case
  proof (cases "n div 2 \<le> 0")
    case True
    then have "n = 1" using 1 by simp
    moreover have "bitlength 1 = 1" by (subst bitlength.simps) simp
    ultimately show ?thesis by simp
  next
    case False
    then have IH: "0 < bitlength (n div 2)" "2 ^ (bitlength (n div 2) - 1) \<le> n div 2"
      "n div 2 < 2 ^ bitlength (n div 2)" using 1 by auto
    obtain k where k: "bitlength (n div 2) = Suc k" using IH(1) by (cases "bitlength (n div 2)") auto
    have "(2::int) * 2 ^ k \<le> n" and "n < 2 * (2 * 2 ^ k)" using IH(2,3) unfolding k by auto
    then show ?thesis by (simp add: unfold k)
  qed
qed

lemma bitlength_le: "0 \<le> n \<Longrightarrow> n < 2 ^ k \<Longrightarrow> bitlength n \<le> k"
proof (rule ccontr)
  assume n: "0 \<le> n" "n < 2 ^ k" and "\<not> bitlength n \<le> k"
  then have "0 < n" by (cases "n = 0") auto
  then have "(2::int) ^ (bitlength n - 1) \<le> n" using bitlength_bounds by blast
  moreover have "(2::int) ^ k \<le> 2 ^ (bitlength n - 1)"
    using \<open>\<not> bitlength n \<le> k\<close> by (intro power_increasing) auto
  ultimately show False using n by linarith
qed

lemma bitlength_mono:
  assumes "0 \<le> n" and "n \<le> m" shows "bitlength n \<le> bitlength m"
proof (cases "m = 0")
  case False
  then have "m < 2 ^ bitlength m" using assms bitlength_bounds [of m] by auto
  then show ?thesis using assms by (intro bitlength_le) auto
qed (use assms in simp)

section \<open>Rounding\<close>

lemma half_even_bounds: "0 < q \<Longrightarrow> p div q \<le> half_even p q \<and> half_even p q \<le> p div q + 1"
  by (auto simp: half_even_def Let_def)

lemma half_even_exact: "0 < q \<Longrightarrow> half_even (k * q) q = k"
  by (simp add: half_even_def)

lemma half_even_mono:
  assumes q: "0 < q" and "p \<le> p'"
  shows "half_even p q \<le> half_even p' q"
proof (cases "p div q = p' div q")
  case True
  then have "p mod q \<le> p' mod q"
    using \<open>p \<le> p'\<close> by (simp add: minus_mult_div_eq_mod [symmetric])
  then show ?thesis using True by (auto simp: half_even_def Let_def)
next
  case False
  then have "p div q + 1 \<le> p' div q" using zdiv_mono1 [OF \<open>p \<le> p'\<close> q] by simp
  then show ?thesis using half_even_bounds [OF q, of p] half_even_bounds [OF q, of p'] by linarith
qed

lemma half_even_le:
  assumes "0 < q" and "p \<le> k * q" shows "half_even p q \<le> k"
  using half_even_mono [OF assms] half_even_exact [OF assms(1)] by simp

lemma half_even_ge:
  assumes "0 < q" and "k * q \<le> p" shows "k \<le> half_even p q"
  using half_even_mono [OF assms] half_even_exact [OF assms(1)] by simp

lemma round_mag_nonneg: "0 \<le> p \<Longrightarrow> 0 < q \<Longrightarrow> 0 \<le> round_mag p q"
  using half_even_ge [of "q * 2 ^ (bitlength (p div q) - 24)" 0 p]
  by (simp add: round_mag_def Let_def)

lemma round_mag_le_inf: "round_mag p q \<le> 2139095040"
  by (simp add: round_mag_def Let_def)

lemma round_mag_1_mono:
  assumes "0 \<le> p" and "p \<le> p'"
  shows "round_mag p 1 \<le> round_mag p' 1"
proof -
  let ?e = "bitlength p - 24" and ?e' = "bitlength p' - 24"
  have ee: "?e \<le> ?e'" using bitlength_mono [OF assms] by simp
  have "int ?e * 8388608 + half_even p (2 ^ ?e) \<le> int ?e' * 8388608 + half_even p' (2 ^ ?e')"
  proof (cases "?e = ?e'")
    case True
    then show ?thesis using half_even_mono [of "2 ^ ?e'" p p'] assms by simp
  next
    case False
    then have lt: "?e + 1 \<le> ?e'" using ee by simp
    then have b': "bitlength p' = ?e' + 24" by simp
    have p': "0 < p'" using lt assms by (cases "p' = 0") auto
    have "p \<le> 2 ^ bitlength p" using assms bitlength_bounds [of p] by (cases "p = 0") auto
    also have "(2::int) ^ bitlength p \<le> 2 ^ (24 + ?e)" by (intro power_increasing) auto
    finally have "p \<le> 2 ^ (24 + ?e)" .
    then have k: "half_even p (2 ^ ?e) \<le> 16777216"
      by (intro half_even_le) (simp_all add: power_add)
    have "(2::int) ^ (bitlength p' - 1) \<le> p'" using bitlength_bounds [OF p'] by simp
    then have "(2::int) ^ (23 + ?e') \<le> p'" using b' by (simp add: add.commute)
    then have k': "8388608 \<le> half_even p' (2 ^ ?e')"
      by (intro half_even_ge) (simp_all add: power_add)
    have "int ?e + 1 \<le> int ?e'" using lt by linarith
    then show ?thesis using k k' by linarith
  qed
  then show ?thesis by (simp add: round_mag_def Let_def min_def)
qed

lemma mag_val_nonneg: "0 \<le> m \<Longrightarrow> 0 \<le> mag_val m"
  by (simp add: mag_val_def Let_def)

lemma round_mag_exact:
  assumes "0 \<le> m" and "m \<le> 2139095040"
  shows "round_mag (mag_val m) 1 = m"
proof -
  let ?E = "m div 8388608" and ?f = "m mod 8388608"
  have m: "m = ?E * 8388608 + ?f" by simp
  have f: "0 \<le> ?f" "?f < 8388608" by simp_all
  show ?thesis
  proof (cases "?E = 0")
    case True
    then have v: "mag_val m = ?f" by (simp add: mag_val_def)
    have "bitlength ?f \<le> 23" by (intro bitlength_le) simp_all
    then have "bitlength ?f - 24 = 0" by simp
    then show ?thesis
      using half_even_exact [of 1 ?f] m True assms by (simp add: v round_mag_def Let_def)
  next
    case False
    then have E: "1 \<le> ?E" using assms by (simp add: pos_imp_zdiv_nonneg_iff order.strict_iff_order)
    define e where "e = nat (?E - 1)"
    have v: "mag_val m = (8388608 + ?f) * 2 ^ e" using False by (simp add: mag_val_def Let_def e_def)
    have pos: "0 < mag_val m" unfolding v using f by simp
    have "mag_val m < 2 ^ (24 + e)"
    proof -
      have "(8388608 + ?f) * 2 ^ e < 16777216 * 2 ^ e" using f by (intro mult_strict_right_mono) auto
      then show ?thesis by (simp add: v power_add)
    qed
    then have le: "bitlength (mag_val m) \<le> 24 + e" using pos by (intro bitlength_le) auto
    have "(2::int) ^ (23 + e) \<le> mag_val m"
    proof -
      have "8388608 * 2 ^ e \<le> (8388608 + ?f) * (2::int) ^ e" using f by (intro mult_right_mono) auto
      then show ?thesis by (simp add: v power_add)
    qed
    then have "\<not> bitlength (mag_val m) \<le> 23 + e"
      using bitlength_bounds [OF pos] power_increasing [of "bitlength (mag_val m)" "23 + e" "2::int"]
      by linarith
    then have "bitlength (mag_val m) - 24 = e" using le by simp
    then have "round_mag (mag_val m) 1 = min 2139095040 (int e * 8388608 + (8388608 + ?f))"
      using half_even_exact [of "2 ^ e" "8388608 + ?f"] by (simp add: round_mag_def Let_def v)
    also have "int e * 8388608 + (8388608 + ?f) = m" using E m by (simp add: e_def)
    finally show ?thesis using assms by simp
  qed
qed

section \<open>Addition of non-negative values\<close>

definition f32_nonneg :: "f32 \<Rightarrow> bool" where
  "f32_nonneg x \<longleftrightarrow> \<not> f32_sign x \<and> \<not> f32_is_nan x"

lemma f32_nonneg_key: "f32_nonneg x \<Longrightarrow> f32_key x = f32_mag x \<and> 0 \<le> f32_mag x \<and> f32_mag x \<le> 2139095040"
  using f32_mag_range [of x] by (simp add: f32_nonneg_def f32_key_def f32_is_nan_def)

lemma f32_add_nonneg:
  assumes "f32_nonneg a" and "f32_nonneg b"
  shows "f32_nonneg (f32_add a b)" and "f32_key a \<le> f32_key (f32_add a b)"
proof -
  note ka = f32_nonneg_key [OF assms(1)] and kb = f32_nonneg_key [OF assms(2)]
  have nan: "\<not> f32_is_nan a" "\<not> f32_is_nan b" "\<not> f32_sign a" "\<not> f32_sign b"
    using assms by (auto simp: f32_nonneg_def)
  show "f32_nonneg (f32_add a b)" "f32_key a \<le> f32_key (f32_add a b)"
  proof (atomize (full), cases "f32_is_inf a \<or> f32_is_inf b")
    case True
    then show "f32_nonneg (f32_add a b) \<and> f32_key a \<le> f32_key (f32_add a b)"
      using nan assms ka kb by (auto simp: f32_add_def f32_is_inf_def)
  next
    case False
    have ua: "f32_ulps a = mag_val (f32_mag a)" and ub: "0 \<le> f32_ulps b" and ua0: "0 \<le> f32_ulps a"
      using nan ka kb by (auto simp: f32_ulps_def mag_val_nonneg)
    let ?r = "f32_ulps a + f32_ulps b"
    show "f32_nonneg (f32_add a b) \<and> f32_key a \<le> f32_key (f32_add a b)"
    proof (cases "?r = 0")
      case True
      then have "mag_val (f32_mag a) = 0" using ub ua0 ua by simp
      then have "f32_mag a = 0" using round_mag_exact [of "f32_mag a"] ka by simp
      then show ?thesis using True False nan ka
        by (simp add: f32_add_def f32_make_mag f32_nonneg_def f32_key_def f32_is_nan_def)
    next
      case r: False
      have rn: "0 \<le> ?r" using ub ua0 by simp
      have sum: "f32_add a b = f32_make False (round_mag ?r 1)"
        using r False nan rn by (simp add: f32_add_def Let_def)
      have bounds: "0 \<le> round_mag ?r 1" "round_mag ?r 1 < 2147483648"
        using round_mag_nonneg [of ?r 1] round_mag_le_inf [of ?r 1] rn by auto
      have "f32_mag a = round_mag (f32_ulps a) 1" using round_mag_exact [of "f32_mag a"] ka ua by simp
      also have "\<dots> \<le> round_mag ?r 1" using ua0 ub by (intro round_mag_1_mono) auto
      finally show ?thesis
        using bounds ka round_mag_le_inf [of ?r 1]
        by (simp add: sum f32_nonneg_def f32_key_def f32_is_nan_def f32_make_mag)
    qed
  qed
qed

text \<open>Addition is monotone in its first argument.\<close>

lemma mag_val_mono:
  assumes "0 \<le> m" and "m \<le> m'" and "m' \<le> 2139095040"
  shows "mag_val m \<le> mag_val m'"
proof (rule ccontr)
  assume "\<not> mag_val m \<le> mag_val m'"
  then have "round_mag (mag_val m') 1 \<le> round_mag (mag_val m) 1"
    using assms by (intro round_mag_1_mono) (auto simp: mag_val_nonneg)
  then have "m' \<le> m" using assms by (simp add: round_mag_exact)
  then show False using \<open>\<not> mag_val m \<le> mag_val m'\<close> assms by simp
qed

lemma f32_add_mono:
  assumes "f32_nonneg a" and "f32_nonneg a'" and "f32_nonneg b" and "f32_key a \<le> f32_key a'"
  shows "f32_key (f32_add a b) \<le> f32_key (f32_add a' b)"
proof -
  note ka = f32_nonneg_key [OF assms(1)] and ka' = f32_nonneg_key [OF assms(2)]
    and kb = f32_nonneg_key [OF assms(3)]
  have nan: "\<not> f32_is_nan a" "\<not> f32_is_nan b" "\<not> f32_is_nan a'" "\<not> f32_sign a" "\<not> f32_sign b" "\<not> f32_sign a'"
    using assms by (auto simp: f32_nonneg_def)
  have key_sum: "f32_key (f32_add x b) =
      (if f32_is_inf x \<or> f32_is_inf b then 2139095040 else round_mag (f32_ulps x + f32_ulps b) 1)"
    if x: "f32_nonneg x" for x
  proof -
    note kx = f32_nonneg_key [OF x]
    have nx: "\<not> f32_is_nan x" "\<not> f32_sign x" using x by (auto simp: f32_nonneg_def)
    have u: "0 \<le> f32_ulps x" "0 \<le> f32_ulps b"
      using nx nan kx kb by (auto simp: f32_ulps_def mag_val_nonneg)
    note z = round_mag_0
    show ?thesis
      using nx nan kx kb u z round_mag_nonneg [of "f32_ulps x + f32_ulps b" 1]
        round_mag_le_inf [of "f32_ulps x + f32_ulps b" 1]
      by (auto simp: f32_add_def f32_is_inf_def Let_def f32_key_def f32_make_mag)
  qed
  have "f32_ulps a \<le> f32_ulps a'" if "\<not> f32_is_inf a'"
    using nan ka ka' assms(4) by (auto simp: f32_ulps_def intro: mag_val_mono)
  moreover have "0 \<le> f32_ulps a" "0 \<le> f32_ulps b" using nan ka kb by (auto simp: f32_ulps_def mag_val_nonneg)
  ultimately show ?thesis
    unfolding key_sum [OF assms(1)] key_sum [OF assms(2)]
    using ka ka' assms(4) round_mag_le_inf
    by (auto simp: f32_is_inf_def intro: round_mag_1_mono)
qed

end
