(* ===== verification/OG_Beam.thy ===== *)
theory OG_Beam
  imports OG_Traversal OG_F32_Facts
begin

text \<open>
  The beam search: a level is a function of the set of names its frontier reaches, so the result
  does not depend on hash iteration order or on the order of neighbours; the results are distinct,
  bounded, sorted, scored nodes reached by visible steps; and with a wide enough beam they are all
  of them.
\<close>

section \<open>Visible steps\<close>

definition names_ok :: "accessor \<Rightarrow> bool" where
  "names_ok graph \<longleftrightarrow> (\<forall>n v. acc_get_node graph n = Some v \<longrightarrow> nv_name v = n)"

lemma accessor_ok_names: "accessor_ok A N E \<Longrightarrow> names_ok A"
  by (metis accessor_ok_get accessor_ok_name names_ok_def)

text \<open>One step of an expansion, to a node or to a name that nothing describes.\<close>

definition visible_step :: "accessor \<Rightarrow> dynamic_context \<Rightarrow> string \<Rightarrow> string \<Rightarrow> bool" where
  "visible_step graph ctx f n \<longleftrightarrow>
     n \<in> ne_name ` set (neighbors_with_overlay_indexed graph ctx (overlay_index_build ctx) f)"

definition node_score :: "accessor \<Rightarrow> dynamic_context \<Rightarrow> string \<Rightarrow> node_result option" where
  "node_score graph ctx n = score_of graph ctx (overlay_index_build ctx) n"

lemma node_score_name: "names_ok graph \<Longrightarrow> node_score graph ctx n = Some r \<Longrightarrow> nr_name r = n"
  unfolding node_score_def score_of_def names_ok_def
  by (auto split: option.splits dest: resolve_name)

section \<open>One level\<close>

definition level_set :: "accessor \<Rightarrow> dynamic_context \<Rightarrow> string fset \<Rightarrow> string set \<Rightarrow> string set" where
  "level_set graph ctx visited F =
     {n. n |\<notin>| visited \<and> (\<exists>f \<in> F. visible_step graph ctx f n) \<and> node_score graph ctx n \<noteq> None}"

text \<open>The level map while it is filled: it holds the score of every name seen so far.\<close>

definition level_of ::
  "accessor \<Rightarrow> dynamic_context \<Rightarrow> string fset \<Rightarrow> string set \<Rightarrow> string \<Rightarrow> node_result option" where
  "level_of graph ctx visited S n = (if n |\<notin>| visited \<and> n \<in> S then node_score graph ctx n else None)"

lemma level_insert_same:
  "fmlookup m n \<in> {None, Some r} \<Longrightarrow> fmlookup (level_insert n r m) = (fmlookup m)(n \<mapsto> r)"
  by (auto simp: level_insert_def f32_lt_irrefl)

lemma beam_candidate_level:
  assumes "fmlookup m = level_of graph ctx visited S"
  shows "fmlookup (beam_candidate graph ctx (overlay_index_build ctx) visited m nb) =
         level_of graph ctx visited (insert (ne_name nb) S)"
proof (cases "ne_name nb |\<in>| visited \<or> node_score graph ctx (ne_name nb) = None")
  case True
  then show ?thesis using assms
    by (auto simp: beam_candidate_def level_of_def fun_eq_iff simp flip: node_score_def)
next
  case False
  then obtain r where r: "node_score graph ctx (ne_name nb) = Some r" by auto
  then have "fmlookup m (ne_name nb) \<in> {None, Some r}" using assms by (simp add: level_of_def)
  then show ?thesis using assms False r
    by (auto simp: beam_candidate_def level_insert_same level_of_def fun_eq_iff simp flip: node_score_def)
qed

lemma beam_candidates_level:
  assumes "fmlookup m = level_of graph ctx visited S"
  shows "fmlookup (foldl (beam_candidate graph ctx (overlay_index_build ctx) visited) m nbs) =
         level_of graph ctx visited (S \<union> ne_name ` set nbs)"
  using assms
proof (induction nbs arbitrary: m S)
  case (Cons nb nbs)
  show ?case using Cons.IH [OF beam_candidate_level [OF Cons.prems]] by simp
qed simp

lemma beam_level_lookup:
  "fmlookup (beam_level graph ctx (overlay_index_build ctx) visited frontier) =
   level_of graph ctx visited {n. \<exists>f \<in> set frontier. visible_step graph ctx f n}"
proof -
  let ?step = "\<lambda>m f. foldl (beam_candidate graph ctx (overlay_index_build ctx) visited) m
     (neighbors_with_overlay_indexed graph ctx (overlay_index_build ctx) f)"
  have "fmlookup (foldl ?step m fs) =
      level_of graph ctx visited (S \<union> {n. \<exists>f \<in> set fs. visible_step graph ctx f n})"
    if "fmlookup m = level_of graph ctx visited S" for m S fs
    using that
  proof (induction fs arbitrary: m S)
    case (Cons f fs)
    have "S \<union> ne_name ` set (neighbors_with_overlay_indexed graph ctx (overlay_index_build ctx) f)
          \<union> {n. \<exists>f \<in> set fs. visible_step graph ctx f n} =
        S \<union> {n. \<exists>f \<in> set (f # fs). visible_step graph ctx f n}"
      by (auto simp: visible_step_def)
    then show ?case using Cons.IH [OF beam_candidates_level [OF Cons.prems]] by simp
  qed simp
  from this [of fmempty "{}" frontier] show ?thesis
    by (simp add: beam_level_def level_of_def fun_eq_iff)
qed

text \<open>The candidates of a level before the cut, from the set of names alone.\<close>

definition ranked :: "accessor \<Rightarrow> dynamic_context \<Rightarrow> string set \<Rightarrow> node_result list" where
  "ranked graph ctx S = rank_sort (map (\<lambda>n. the (node_score graph ctx n)) (sorted_list_of_set S))"

lemma finite_level_set: "finite (level_set graph ctx visited (set frontier))"
proof -
  have "level_set graph ctx visited (set frontier) \<subseteq>
      (\<Union>f \<in> set frontier. ne_name ` set (neighbors_with_overlay_indexed graph ctx (overlay_index_build ctx) f))"
    by (auto simp: level_set_def visible_step_def)
  then show ?thesis by (rule finite_subset) simp
qed

lemma inj_rank_key_nodes:
  assumes "names_ok graph" and "\<forall>n \<in> S. node_score graph ctx n \<noteq> None"
  shows "inj_on (\<lambda>r. rank_key (nr_weight r) (nr_name r)) ((\<lambda>n. the (node_score graph ctx n)) ` S)"
proof (rule inj_onI)
  fix r r' assume "r \<in> (\<lambda>n. the (node_score graph ctx n)) ` S" and "r' \<in> (\<lambda>n. the (node_score graph ctx n)) ` S"
    and "rank_key (nr_weight r) (nr_name r) = rank_key (nr_weight r') (nr_name r')"
  then obtain n n' where *: "node_score graph ctx n = Some r" "node_score graph ctx n' = Some r'"
    and "nr_name r = nr_name r'"
    using assms(2) by (auto simp: rank_key_def)
  then show "r = r'" by (metis assms(1) node_score_name option.sel)
qed

lemma level_ranked:
  assumes "names_ok graph" and "hash_order ho"
  shows "rank_sort (fm_values ho (beam_level graph ctx (overlay_index_build ctx) visited frontier)) =
         ranked graph ctx (level_set graph ctx visited (set frontier))"
proof -
  let ?m = "beam_level graph ctx (overlay_index_build ctx) visited frontier"
  let ?S = "level_set graph ctx visited (set frontier)"
  have dom: "fset (fmdom ?m) = ?S"
    by (auto simp: fmlookup_dom_iff beam_level_lookup level_of_def level_set_def split: if_splits)
  have val: "the (fmlookup ?m n) = the (node_score graph ctx n)" if "n \<in> ?S" for n
    using that by (auto simp: beam_level_lookup level_of_def level_set_def)
  have "mset (fm_keys ho ?m) = mset (sorted_list_of_set ?S)"
    using assms(2) by (simp add: fm_keys_def hash_orderD sorted_list_of_fset.rep_eq dom)
  then have "mset (fm_values ho ?m) = mset (map (\<lambda>n. the (fmlookup ?m n)) (sorted_list_of_set ?S))"
    by (simp add: fm_values_def)
  also have "map (\<lambda>n. the (fmlookup ?m n)) (sorted_list_of_set ?S) =
      map (\<lambda>n. the (node_score graph ctx n)) (sorted_list_of_set ?S)"
    using finite_level_set val by (intro map_cong) auto
  finally have eq: "mset (fm_values ho ?m) = mset (map (\<lambda>n. the (node_score graph ctx n)) (sorted_list_of_set ?S))" .
  have "inj_on (\<lambda>r. rank_key (nr_weight r) (nr_name r)) (set (fm_values ho ?m))"
    using inj_rank_key_nodes [OF assms(1), of ?S ctx] mset_eq_setD [OF eq] finite_level_set
    by (simp add: level_set_def)
  then show ?thesis unfolding ranked_def rank_sort_def by (rule sort_key_mset_cong [OF eq])
qed

section \<open>The whole search\<close>

fun beam_spec ::
  "accessor \<Rightarrow> dynamic_context \<Rightarrow> nat \<Rightarrow> nat \<Rightarrow> string fset \<Rightarrow> string set \<Rightarrow> node_result list" where
  "beam_spec graph ctx k 0 visited F = []"
| "beam_spec graph ctx k (Suc d) visited F =
     (let top = take k (ranked graph ctx (level_set graph ctx visited F));
          names = map nr_name top
      in top @ beam_spec graph ctx k d (visited |\<union>| fset_of_list names) (set names))"

lemma ranked_names:
  assumes "names_ok graph" and "finite S" and "\<forall>n \<in> S. node_score graph ctx n \<noteq> None"
  shows "mset (map nr_name (ranked graph ctx S)) = mset_set S"
proof -
  let ?L = "sorted_list_of_set S"
  have L: "mset ?L = mset_set S" by (metis mset_sorted_list_of_multiset sorted_list_of_mset_set)
  have "map nr_name (map (\<lambda>n. the (node_score graph ctx n)) ?L) = ?L"
    unfolding map_map
  proof (rule map_idI)
    fix n assume "n \<in> set ?L"
    then obtain r where "node_score graph ctx n = Some r" using assms(2,3) by auto
    then show "(nr_name \<circ> (\<lambda>n. the (node_score graph ctx n))) n = n"
      using node_score_name [OF assms(1)] by simp
  qed
  then have "mset (map nr_name (map (\<lambda>n. the (node_score graph ctx n)) ?L)) = mset_set S" by (simp only: L)
  then show ?thesis by (simp only: ranked_def rank_sort_def mset_map mset_sort)
qed

lemma ranked_distinct:
  assumes "names_ok graph" and "finite S" and "\<forall>n \<in> S. node_score graph ctx n \<noteq> None"
  shows "distinct (map nr_name (ranked graph ctx S))" and "nr_name ` set (ranked graph ctx S) = S"
    and "length (ranked graph ctx S) = card S"
proof -
  note m = ranked_names [OF assms]
  have "mset (map nr_name (ranked graph ctx S)) = mset (sorted_list_of_set S)" using m by (metis mset_sorted_list_of_multiset sorted_list_of_mset_set)
  then show "distinct (map nr_name (ranked graph ctx S))"
    by (metis distinct_sorted_list_of_set mset_eq_imp_distinct_iff)
  show "nr_name ` set (ranked graph ctx S) = S"
    using mset_eq_setD [of "map nr_name (ranked graph ctx S)" "sorted_list_of_set S"] m assms(2)
    by (metis \<open>mset (map nr_name (ranked graph ctx S)) = mset (sorted_list_of_set S)\<close> list.set_map set_sorted_list_of_set)
  show "length (ranked graph ctx S) = card S"
    by (metis length_map m size_mset size_mset_set)
qed

lemma ranked_score:
  "finite S \<Longrightarrow> \<forall>n \<in> S. node_score graph ctx n \<noteq> None \<Longrightarrow> names_ok graph \<Longrightarrow>
   r \<in> set (ranked graph ctx S) \<Longrightarrow> node_score graph ctx (nr_name r) = Some r"
  unfolding ranked_def rank_sort_def using node_score_name by fastforce

lemma advance_frontier_distinct:
  "distinct (map nr_name rs) \<Longrightarrow> \<forall>r \<in> set rs. nr_name r |\<notin>| visited \<Longrightarrow>
   advance_frontier rs visited = (visited |\<union>| fset_of_list (map nr_name rs), map nr_name rs)"
proof (induction rs arbitrary: visited)
  case (Cons r rs)
  have "\<forall>x \<in> set rs. nr_name x \<noteq> nr_name r" using Cons.prems(1) by (simp add: image_iff) metis
  then have "advance_frontier rs (finsert (nr_name r) visited) =
      (finsert (nr_name r) visited |\<union>| fset_of_list (map nr_name rs), map nr_name rs)"
    using Cons.prems by (intro Cons.IH) auto
  then show ?case using Cons.prems by simp
qed simp

lemma level_scored: "\<forall>n \<in> level_set graph ctx visited F. node_score graph ctx n \<noteq> None"
  by (simp add: level_set_def)

lemma beam_loop_spec:
  assumes "names_ok graph" and "hash_order ho"
  shows "beam_loop ho graph ctx (overlay_index_build ctx) k d visited frontier results =
         results @ beam_spec graph ctx k d visited (set frontier)"
proof (induction d arbitrary: visited frontier results)
  case (Suc d)
  let ?S = "level_set graph ctx visited (set frontier)"
  let ?top = "take k (ranked graph ctx ?S)"
  show ?case
  proof (cases "frontier = []")
    case True
    have "beam_spec graph ctx k d v {} = []" for d v
      by (induction d arbitrary: v) (simp_all add: level_set_def ranked_def rank_sort_def)
    then show ?thesis using True by (simp only: beam_loop.simps refl if_True list.set append_Nil2)
  next
    case False
    note dist = ranked_distinct [OF assms(1) finite_level_set level_scored, of ctx visited frontier]
    have "distinct (map nr_name ?top)" using dist(1) by (simp add: take_map [symmetric])
    moreover have "\<forall>r \<in> set ?top. nr_name r |\<notin>| visited"
      using dist(2) in_set_takeD by (fastforce simp: level_set_def)
    ultimately have "advance_frontier ?top visited =
        (visited |\<union>| fset_of_list (map nr_name ?top), map nr_name ?top)"
      by (rule advance_frontier_distinct)
    then show ?thesis using False Suc by (simp add: level_ranked [OF assms] Let_def)
  qed
qed simp

lemma beam_traverse_spec:
  assumes "names_ok graph" and "hash_order ho"
  shows "beam_traverse ho graph ctx start k depth = rank_sort (beam_spec graph ctx k depth {|start|} {start})"
  by (simp add: beam_traverse_def beam_loop_spec [OF assms])

section \<open>What the result depends on\<close>

lemma beam_spec_cong:
  assumes "visible_step graph ctx = visible_step graph' ctx'" and "node_score graph ctx = node_score graph' ctx'"
  shows "beam_spec graph ctx k d visited F = beam_spec graph' ctx' k d visited F"
proof -
  have "level_set graph ctx = level_set graph' ctx'" "ranked graph ctx = ranked graph' ctx'"
    by (simp_all add: fun_eq_iff level_set_def ranked_def assms)
  then show ?thesis by (induction d arbitrary: visited F) simp_all
qed

lemma beam_traverse_cong:
  assumes "names_ok graph" and "names_ok graph'" and "hash_order ho" and "hash_order ho'"
    and "visible_step graph ctx = visible_step graph' ctx'" and "node_score graph ctx = node_score graph' ctx'"
  shows "beam_traverse ho graph ctx start k depth = beam_traverse ho' graph' ctx' start k depth"
  using assms by (simp add: beam_traverse_spec beam_spec_cong [of graph ctx graph' ctx'])

lemma same_view_expansion:
  assumes "accessor_ok A N E" and "accessor_ok A' N E"
  shows "set (neighbors_with_overlay_indexed A ctx ov n) = set (neighbors_with_overlay_indexed A' ctx ov n)"
proof -
  have "mset (acc_outgoing A n) = mset (acc_outgoing A' n)"
    by (simp add: accessor_ok_out [OF assms(1)] accessor_ok_out [OF assms(2)])
  then have "set (acc_outgoing A n) = set (acc_outgoing A' n)" "length (acc_outgoing A n) = length (acc_outgoing A' n)"
    by (metis set_mset_mset) (metis \<open>mset (acc_outgoing A n) = mset (acc_outgoing A' n)\<close> size_mset)
  then show ?thesis
    by (simp add: neighbors_with_overlay_indexed_def neighbors_with_overlay_unfiltered_def
        collect_overlay_edges_def accessor_ok_get [OF assms(1)] accessor_ok_get [OF assms(2)] Let_def
        split: option.split)
qed

lemma same_view_score:
  assumes "accessor_ok A N E" and "accessor_ok A' N E"
  shows "score_of A ctx ov n = score_of A' ctx ov n"
  by (simp add: score_of_def accessor_ok_get [OF assms(1)] accessor_ok_get [OF assms(2)])

lemma beam_same_view:
  assumes "accessor_ok A N E" and "accessor_ok A' N E" and "hash_order ho" and "hash_order ho'"
  shows "beam_traverse ho A ctx start k depth = beam_traverse ho' A' ctx start k depth"
  using assms by (intro beam_traverse_cong)
    (auto simp: fun_eq_iff visible_step_def node_score_def same_view_expansion [OF assms(1,2)]
      same_view_score [OF assms(1,2)] intro: accessor_ok_names)

subsection \<open>Filtering the graph instead of the context\<close>

definition strip_edge :: "graph_edge \<Rightarrow> graph_edge" where
  "strip_edge x = (case x of (f, t, e) \<Rightarrow>
     (f, t, e\<lparr>ed_valid_from := None, ed_valid_to := None, ed_acl := []\<rparr>))"

definition graph_edge_visible :: "dynamic_context \<Rightarrow> graph_edge \<Rightarrow> bool" where
  "graph_edge_visible ctx x = edge_visible ctx (snd (snd x))"

definition unfiltered_context :: "dynamic_context \<Rightarrow> dynamic_context" where
  "unfiltered_context ctx = ctx\<lparr>as_of := None, principals := [],
     overlay_edges := map strip_edge (filter (graph_edge_visible ctx) (overlay_edges ctx))\<rparr>"

lemma strip_simps [simp]: "fst (strip_edge x) = fst x" "fst (snd (strip_edge x)) = fst (snd x)"
  "ed_acl (snd (snd (strip_edge x))) = []" "ed_valid_from (snd (snd (strip_edge x))) = None"
  "ed_valid_to (snd (snd (strip_edge x))) = None"
  by (simp_all add: strip_edge_def split: prod.split)

lemma compute_score_unfiltered: "compute_score v (unfiltered_context ctx) = compute_score v ctx"
  by (simp add: compute_score_def unfiltered_context_def cong: if_cong option.case_cong)

text \<open>The names an uncut expansion reaches are the targets of the visible edges.\<close>

lemma visible_step_iff:
  assumes "accessor_ok A N E" and "max_fan_out ctx = None"
  shows "visible_step A ctx f n \<longleftrightarrow>
    (\<exists>e. ((f, n, e) \<in># E \<or> (f, n, e) \<in> set (overlay_edges ctx)) \<and> edge_visible ctx e)"
proof
  assume "visible_step A ctx f n"
  then obtain ne where ne: "ne \<in> set (neighbors_with_overlay_indexed A ctx (overlay_index_build ctx) f)" "n = ne_name ne"
    by (auto simp: visible_step_def)
  from expansion_sound [OF ne(1)] show "\<exists>e. ((f, n, e) \<in># E \<or> (f, n, e) \<in> set (overlay_edges ctx)) \<and> edge_visible ctx e"
    using ne(2) by (cases "ne_is_overlay ne") (auto simp: outgoing_iff [OF assms(1)])
next
  assume "\<exists>e. ((f, n, e) \<in># E \<or> (f, n, e) \<in> set (overlay_edges ctx)) \<and> edge_visible ctx e"
  then obtain e where e: "edge_visible ctx e" "(f, n, e) \<in># E \<or> (f, n, e) \<in> set (overlay_edges ctx)" by auto
  from e(2) show "visible_step A ctx f n"
  proof
    assume ov: "(f, n, e) \<in> set (overlay_edges ctx)"
    show ?thesis using expansion_complete_overlay [OF ov e(1)] by (force simp: visible_step_def)
  next
    assume E: "(f, n, e) \<in># E"
    then obtain nv where nv: "acc_get_node A f = Some nv"
      using accessor_ok_src [OF assms(1) E] accessor_ok_get [OF assms(1)] by auto
    have nb: "neighbor_view_of n e \<in> set (acc_outgoing A f)" using E outgoing_iff [OF assms(1)] by simp
    show ?thesis
      using expansion_complete_base [OF nb nv, of ctx] e(1) assms(2)
      by (force simp: fan_out_cut_def visible_step_def)
  qed
qed

lemma edge_visible_stripped [simp]: "edge_visible (unfiltered_context ctx) (snd (snd (strip_edge x)))"
  by (simp add: edge_visible_iff unfiltered_context_def)

lemma beam_prefiltered:
  assumes "accessor_ok A N E" and "accessor_ok A' N (image_mset strip_edge (filter_mset (graph_edge_visible ctx) E))"
    and "max_fan_out ctx = None" and "hash_order ho" and "hash_order ho'"
  shows "beam_traverse ho A ctx start k depth = beam_traverse ho' A' (unfiltered_context ctx) start k depth"
proof (rule beam_traverse_cong)
  show "names_ok A" "names_ok A'" using assms accessor_ok_names by blast+
  have fan: "max_fan_out (unfiltered_context ctx) = None" using assms(3) by (simp add: unfiltered_context_def)
  have key: "(\<exists>e. (f, n, e) \<in> strip_edge ` {x \<in> S. graph_edge_visible ctx x} \<and> edge_visible (unfiltered_context ctx) e)
      \<longleftrightarrow> (\<exists>e. (f, n, e) \<in> S \<and> edge_visible ctx e)" for f n S
  proof
    assume "\<exists>e. (f, n, e) \<in> strip_edge ` {x \<in> S. graph_edge_visible ctx x} \<and> edge_visible (unfiltered_context ctx) e"
    then show "\<exists>e. (f, n, e) \<in> S \<and> edge_visible ctx e"
      by (auto simp: strip_edge_def graph_edge_visible_def)
  next
    assume "\<exists>e. (f, n, e) \<in> S \<and> edge_visible ctx e"
    then obtain e where e: "(f, n, e) \<in> S" "edge_visible ctx e" by auto
    have st: "strip_edge (f, n, e) = (f, n, snd (snd (strip_edge (f, n, e))))" by (simp add: strip_edge_def)
    have "(f, n, snd (snd (strip_edge (f, n, e)))) \<in> strip_edge ` {x \<in> S. graph_edge_visible ctx x}"
      using e by (subst st [symmetric]) (auto simp: graph_edge_visible_def)
    then show "\<exists>e. (f, n, e) \<in> strip_edge ` {x \<in> S. graph_edge_visible ctx x} \<and> edge_visible (unfiltered_context ctx) e"
      using edge_visible_stripped by blast
  qed
  have ov: "set (overlay_edges (unfiltered_context ctx)) =
      strip_edge ` {x \<in> set (overlay_edges ctx). graph_edge_visible ctx x}"
    by (simp add: unfiltered_context_def)
  show "visible_step A ctx = visible_step A' (unfiltered_context ctx)"
    unfolding fun_eq_iff visible_step_iff [OF assms(1,3)] visible_step_iff [OF assms(2) fan] ov
    using key [of _ _ "set_mset E"] key [of _ _ "set (overlay_edges ctx)"] by (simp add: conj_disj_distribR ex_disj_distrib)
  have node: "overlay_node (overlay_index_build (unfiltered_context ctx)) n = overlay_node (overlay_index_build ctx) n" for n
    by (simp add: overlay_node_build unfiltered_context_def)
  show "node_score A ctx = node_score A' (unfiltered_context ctx)"
    by (simp add: fun_eq_iff node_score_def score_of_def resolve_overlay_node_indexed_def node compute_score_unfiltered
        accessor_ok_get [OF assms(1)] accessor_ok_get [OF assms(2)] cong: option.case_cong)
qed (use assms in auto)

section \<open>What the search returns\<close>

lemma take_ranked:
  fixes graph :: accessor and ctx :: dynamic_context and k :: nat and V :: "string fset" and F :: "string set"
  assumes "names_ok graph"
  defines "kept \<equiv> take k (ranked graph ctx (level_set graph ctx V F))"
  assumes "finite F"
  shows "distinct (map nr_name (kept))" and "nr_name ` set (kept) \<subseteq> level_set graph ctx V F"
    and "r \<in> set (kept) \<Longrightarrow> node_score graph ctx (nr_name r) = Some r"
proof -
  obtain fs where fs: "F = set fs" using assms(3) finite_list by metis
  note fin = finite_level_set [of graph ctx V fs, folded fs]
  note rd = ranked_distinct [OF assms(1) fin level_scored]
  show "distinct (map nr_name (kept))" unfolding kept_def using rd(1) by (simp add: take_map [symmetric])
  show "nr_name ` set (kept) \<subseteq> level_set graph ctx V F"
    unfolding kept_def using rd(2) by (auto dest: in_set_takeD)
  show "r \<in> set (kept) \<Longrightarrow> node_score graph ctx (nr_name r) = Some r"
    unfolding kept_def by (blast dest: in_set_takeD intro: ranked_score [OF fin level_scored assms(1)])
qed

lemma images_disjoint: "(\<And>r. r \<in> B \<Longrightarrow> f r \<notin> f ` A) \<Longrightarrow> f ` A \<inter> f ` B = {}"
  by (rule equals0I) (erule IntE, erule imageE [where A = B], simp)

lemma beam_spec_distinct:
  assumes "names_ok graph" and "finite F"
  shows "distinct (map nr_name (beam_spec graph ctx k d V F)) \<and>
    (\<forall>r \<in> set (beam_spec graph ctx k d V F). nr_name r |\<notin>| V \<and> node_score graph ctx (nr_name r) = Some r)"
  using assms(2)
proof (induction d arbitrary: V F)
  case (Suc d)
  let ?top = "take k (ranked graph ctx (level_set graph ctx V F))"
  note kept = take_ranked [OF assms(1) Suc.prems, where k = k and ctx = ctx and V = V]
  have names: "nr_name r |\<notin>| V" if "r \<in> set ?top" for r
    using kept(2) that by (auto simp: level_set_def)
  have IH: "distinct (map nr_name (beam_spec graph ctx k d (V |\<union>| fset_of_list (map nr_name ?top)) (set (map nr_name ?top))))"
    "\<And>r. r \<in> set (beam_spec graph ctx k d (V |\<union>| fset_of_list (map nr_name ?top)) (set (map nr_name ?top))) \<Longrightarrow>
       nr_name r |\<notin>| V |\<union>| fset_of_list (map nr_name ?top) \<and> node_score graph ctx (nr_name r) = Some r"
    using Suc.IH [of "set (map nr_name ?top)"] by blast+
  let ?rest = "beam_spec graph ctx k d (V |\<union>| fset_of_list (map nr_name ?top)) (set (map nr_name ?top))"
  have eq: "beam_spec graph ctx k (Suc d) V F = ?top @ ?rest" by (simp only: beam_spec.simps Let_def)
  have new: "nr_name r |\<notin>| V \<and> nr_name r \<notin> nr_name ` set ?top \<and> node_score graph ctx (nr_name r) = Some r"
    if "r \<in> set ?rest" for r
    using IH(2) [OF that] by (simp add: fset_of_list.rep_eq)
  have "nr_name ` set ?top \<inter> nr_name ` set ?rest = {}"
    by (rule images_disjoint) (use new in blast)
  then have "distinct (map nr_name (?top @ ?rest))"
    using IH(1) kept(1) by (simp only: map_append distinct_append set_map)
  moreover have "\<forall>r \<in> set (?top @ ?rest). nr_name r |\<notin>| V \<and> node_score graph ctx (nr_name r) = Some r"
    using new names kept(3) unfolding set_append by blast
  ultimately show ?case unfolding eq by blast
qed simp

lemma beam_spec_length: "length (beam_spec graph ctx k d V F) \<le> k * d"
proof (induction d arbitrary: V F)
  case (Suc d)
  have "length (beam_spec graph ctx k (Suc d) V F) \<le> k + k * d"
    unfolding beam_spec.simps Let_def length_append using Suc.IH by (intro add_mono) auto
  then show ?case by simp
qed simp

lemma set_rank_sort [simp]: "set (rank_sort rs) = set rs"
  by (simp add: rank_sort_def)

lemma beam_shape:
  fixes graph :: accessor and ctx :: dynamic_context and k depth :: nat and start :: string
    and ho :: "string list \<Rightarrow> string list"
  assumes "names_ok graph" and "hash_order ho"
  defines "rs \<equiv> beam_traverse ho graph ctx start k depth"
  shows "distinct (map nr_name rs)" and "length rs \<le> k * depth"
    and "sorted (map (\<lambda>r. rank_key (nr_weight r) (nr_name r)) rs)"
    and "r \<in> set rs \<Longrightarrow> nr_name r \<noteq> start \<and> node_score graph ctx (nr_name r) = Some r"
proof -
  let ?b = "beam_spec graph ctx k depth {|start|} {start}"
  have rs: "rs = rank_sort ?b" using assms(1,2) by (simp add: rs_def beam_traverse_spec)
  note d = beam_spec_distinct [OF assms(1), of "{start}" ctx k depth "{|start|}"]
  have "mset (map nr_name rs) = mset (map nr_name ?b)" by (simp add: rs rank_sort_def)
  then show "distinct (map nr_name rs)" using d by (metis finite.emptyI finite_insert mset_eq_imp_distinct_iff)
  show "length rs \<le> k * depth" by (simp add: rs rank_sort_def beam_spec_length)
  show "sorted (map (\<lambda>r. rank_key (nr_weight r) (nr_name r)) rs)" by (simp add: rs rank_sort_def)
  show "r \<in> set rs \<Longrightarrow> nr_name r \<noteq> start \<and> node_score graph ctx (nr_name r) = Some r"
    using d by (auto simp: rs)
qed

subsection \<open>Reachability\<close>

text \<open>A step to a node that can be scored, and the walks of exactly \<open>d\<close> such steps.\<close>

inductive visible_walk :: "accessor \<Rightarrow> dynamic_context \<Rightarrow> nat \<Rightarrow> string \<Rightarrow> string \<Rightarrow> bool"
  for graph ctx where
  here: "visible_walk graph ctx 0 n n"
| step: "visible_step graph ctx a b \<Longrightarrow> node_score graph ctx b \<noteq> None \<Longrightarrow> visible_walk graph ctx d b n
    \<Longrightarrow> visible_walk graph ctx (Suc d) a n"

inductive_cases visible_walk_0: "visible_walk graph ctx 0 a n"
inductive_cases visible_walk_Suc: "visible_walk graph ctx (Suc d) a n"

definition walk_within :: "accessor \<Rightarrow> dynamic_context \<Rightarrow> nat \<Rightarrow> string set \<Rightarrow> string set" where
  "walk_within graph ctx d F = {n. \<exists>f \<in> F. \<exists>d' \<le> d. visible_walk graph ctx d' f n}"

lemma walk_within_mono: "F \<subseteq> G \<Longrightarrow> d \<le> d' \<Longrightarrow> walk_within graph ctx d F \<subseteq> walk_within graph ctx d' G"
  unfolding walk_within_def by (blast intro: le_trans)

lemma level_walk: "n \<in> level_set graph ctx V F \<Longrightarrow> x \<in> walk_within graph ctx d {n} \<Longrightarrow> x \<in> walk_within graph ctx (Suc d) F"
  unfolding walk_within_def level_set_def
  by clarsimp (metis Suc_le_mono option.distinct(1) visible_walk.step)

lemma self_walk: "n \<in> walk_within graph ctx d {n}"
  by (auto simp: walk_within_def intro: visible_walk.here)

lemma beam_spec_sound:
  assumes "names_ok graph" and "finite F"
  shows "nr_name ` set (beam_spec graph ctx k d V F) \<subseteq> walk_within graph ctx d F"
  using assms(2)
proof (induction d arbitrary: V F)
  case (Suc d)
  let ?top = "take k (ranked graph ctx (level_set graph ctx V F))"
  have sub: "set (map nr_name ?top) \<subseteq> level_set graph ctx V F"
    using take_ranked(2) [OF assms(1) Suc.prems] by simp
  have "set (map nr_name ?top) \<subseteq> walk_within graph ctx (Suc d) F"
    using sub level_walk [OF _ self_walk] by blast
  moreover have "walk_within graph ctx d (set (map nr_name ?top)) \<subseteq> walk_within graph ctx (Suc d) F"
  proof
    fix x assume "x \<in> walk_within graph ctx d (set (map nr_name ?top))"
    then obtain n where "n \<in> set (map nr_name ?top)" "x \<in> walk_within graph ctx d {n}"
      unfolding walk_within_def by blast
    then show "x \<in> walk_within graph ctx (Suc d) F" using level_walk sub by blast
  qed
  ultimately show ?case
    using Suc.IH [of "set (map nr_name ?top)" "V |\<union>| fset_of_list (map nr_name ?top)"] by (auto simp: Let_def)
qed simp

text \<open>A walk that leaves the visited set does so through the frontier.\<close>

lemma walk_exit:
  assumes "\<And>v n. v \<in> V \<Longrightarrow> v \<notin> F \<Longrightarrow> visible_step graph ctx v n \<Longrightarrow> node_score graph ctx n \<noteq> None \<Longrightarrow> n \<in> V"
    and "visible_walk graph ctx m v n" and "v \<in> V" and "n \<notin> V"
  shows "\<exists>y. y \<notin> V \<and> node_score graph ctx y \<noteq> None \<and> (\<exists>f \<in> F. visible_step graph ctx f y) \<and>
    (\<exists>m' < m. visible_walk graph ctx m' y n)"
  using assms(2-4)
proof (induction rule: visible_walk.induct)
  case (step a b d n)
  show ?case
  proof (cases "b \<in> V")
    case True
    then show ?thesis using step.IH step.prems(2) by (meson less_SucI)
  next
    case False
    then have "a \<in> F" using assms(1) step by blast
    then show ?thesis using False step by blast
  qed
qed blast

lemma beam_spec_complete:
  assumes "names_ok graph"
    and "finite U" and "card U \<le> k" and "\<And>d. walk_within graph ctx d F \<subseteq> U"
    and "finite F" and "F \<subseteq> fset V"
    and "\<And>v n. v |\<in>| V \<Longrightarrow> v \<notin> F \<Longrightarrow> visible_step graph ctx v n \<Longrightarrow> node_score graph ctx n \<noteq> None \<Longrightarrow> n |\<in>| V"
    and "x \<in> walk_within graph ctx d F" and "x |\<notin>| V"
  shows "x \<in> nr_name ` set (beam_spec graph ctx k d V F)"
  using assms(4-)
proof (induction d arbitrary: V F)
  case 0
  then show ?case by (auto simp: walk_within_def elim: visible_walk_0)
next
  case (Suc d)
  let ?L = "level_set graph ctx V F"
  let ?top = "take k (ranked graph ctx ?L)"
  have LU: "?L \<subseteq> U" using level_walk [OF _ self_walk] Suc.prems(1) by blast
  obtain fs where fs: "F = set fs" using Suc.prems(2) finite_list by metis
  have finL: "finite ?L" by (simp add: fs finite_level_set)
  note rd = ranked_distinct [OF assms(1) finL level_scored]
  have "card ?L \<le> k" using card_mono [OF assms(2) LU] assms(3) by simp
  then have all: "?top = ranked graph ctx ?L" using rd(3) by simp
  have names: "set (map nr_name ?top) = ?L" using rd(2) all by simp
  obtain f m where f: "f \<in> F" "m \<le> Suc d" "visible_walk graph ctx m f x"
    using Suc.prems(5) by (auto simp: walk_within_def)
  obtain y m' where y: "y |\<notin>| V" "node_score graph ctx y \<noteq> None" "\<exists>f \<in> F. visible_step graph ctx f y"
    and m': "m' < m" "visible_walk graph ctx m' y x"
  proof -
    have "\<exists>y. y \<notin> fset V \<and> node_score graph ctx y \<noteq> None \<and> (\<exists>f \<in> F. visible_step graph ctx f y) \<and>
        (\<exists>m' < m. visible_walk graph ctx m' y x)"
    proof (rule walk_exit [OF _ f(3)])
      show "f \<in> fset V" using f(1) Suc.prems(3) by blast
      show "x \<notin> fset V" by (fact Suc.prems(6))
    qed (rule Suc.prems(4))
    then show ?thesis using that by blast
  qed
  have yL: "y \<in> ?L" using y by (simp add: level_set_def)
  show ?case
  proof (cases "x \<in> ?L")
    case True
    then show ?thesis using names by (auto simp: Let_def)
  next
    case False
    have "x \<in> nr_name ` set (beam_spec graph ctx k d (V |\<union>| fset_of_list (map nr_name ?top)) ?L)"
    proof (rule Suc.IH)
      show "walk_within graph ctx d' ?L \<subseteq> U" for d'
        using level_walk [of _ graph ctx V F _ d'] Suc.prems(1) [of "Suc d'"]
        unfolding walk_within_def [of _ _ _ ?L] by (fastforce simp: walk_within_def)
      show "finite ?L" by (fact finL)
      show "?L \<subseteq> fset (V |\<union>| fset_of_list (map nr_name ?top))"
        using names by (simp add: fset_of_list.rep_eq)
      show "n |\<in>| V |\<union>| fset_of_list (map nr_name ?top)"
        if "v |\<in>| V |\<union>| fset_of_list (map nr_name ?top)" "v \<notin> ?L" "visible_step graph ctx v n" "node_score graph ctx n \<noteq> None" for v n
      proof -
        have v: "v |\<in>| V" using that(1,2) names by (auto simp: fset_of_list.rep_eq)
        show ?thesis
        proof (cases "n |\<in>| V")
          case False
          then have "v \<in> F" using Suc.prems(4) that v by blast
          then have "n \<in> ?L" using False that by (auto simp: level_set_def)
          then show ?thesis using names by (simp add: fset_of_list.rep_eq)
        qed simp
      qed
      show "x \<in> walk_within graph ctx d ?L" using m' f(2) yL unfolding walk_within_def
        by (metis (mono_tags, lifting) less_Suc_eq_le mem_Collect_eq order.strict_trans2)
      show "x |\<notin>| V |\<union>| fset_of_list (map nr_name ?top)"
        using Suc.prems(6) False names by (simp add: fset_of_list.rep_eq)
    qed
    then show ?thesis using names by (auto simp: Let_def)
  qed
qed

text \<open>Within a beam that is never too narrow, the result is exactly the nodes within reach.\<close>

lemma beam_reaches:
  assumes "names_ok graph" and "hash_order ho"
    and "finite U" and "card U \<le> k" and "\<And>d. walk_within graph ctx d {start} \<subseteq> U"
  shows "nr_name ` set (beam_traverse ho graph ctx start k depth) = walk_within graph ctx depth {start} - {start}"
proof -
  have "nr_name ` set (beam_spec graph ctx k depth {|start|} {start}) \<subseteq> walk_within graph ctx depth {start}"
    by (rule beam_spec_sound [OF assms(1)]) simp
  moreover have "start \<notin> nr_name ` set (beam_spec graph ctx k depth {|start|} {start})"
    using beam_spec_distinct [OF assms(1), of "{start}" ctx k depth "{|start|}"] by auto
  moreover have "x \<in> nr_name ` set (beam_spec graph ctx k depth {|start|} {start})"
    if "x \<in> walk_within graph ctx depth {start} - {start}" for x
    using that by (intro beam_spec_complete [OF assms(1,3,4,5)]) auto
  ultimately show ?thesis by (auto simp: beam_traverse_spec [OF assms(1,2)])
qed

text \<open>When the width is at least the number of nodes that can be scored, nothing is cut.\<close>

lemma visible_walk_scored: "visible_walk graph ctx d a n \<Longrightarrow> n = a \<or> node_score graph ctx n \<noteq> None"
  by (induction rule: visible_walk.induct) auto

lemma finite_scored:
  assumes "accessor_ok A N E"
  shows "finite {n. node_score A ctx n \<noteq> None}"
proof -
  have found: "n \<in> nd_name ` set xs" if "List.find (\<lambda>x. nd_name x = n) xs = Some y" for n xs and y :: node_data
    using that by (auto simp: find_Some_iff)
  have "{n. node_score A ctx n \<noteq> None} \<subseteq> dom N \<union> nd_name ` set (overlay_nodes ctx)"
    using found [of _ "rev (overlay_nodes ctx)"]
    by (auto simp: node_score_def score_of_def accessor_ok_get [OF assms] resolve_overlay_node_indexed_def
        overlay_node_build split: option.splits)
  then show ?thesis using accessor_ok_finite [OF assms] finite_subset by fastforce
qed

lemma beam_reaches_all:
  assumes "names_ok graph" and "hash_order ho"
    and fin: "finite {n. node_score graph ctx n \<noteq> None}" and k: "card {n. node_score graph ctx n \<noteq> None} < k"
  shows "nr_name ` set (beam_traverse ho graph ctx start k depth) = walk_within graph ctx depth {start} - {start}"
proof (rule beam_reaches [OF assms(1,2)])
  let ?U = "insert start {n. node_score graph ctx n \<noteq> None}"
  show "finite ?U" using fin by simp
  show "card ?U \<le> k" using k card_insert_le_m1 [of k "{n. node_score graph ctx n \<noteq> None}" start] by simp
  show "walk_within graph ctx d {start} \<subseteq> ?U" for d
    by (auto simp: walk_within_def dest: visible_walk_scored)
qed

end
