(* ===== verification/OG_Dijkstra.thy ===== *)
theory OG_Dijkstra
  imports OG_Beam
begin

text \<open>
  The path search: with enough fuel it always returns, the path it returns is a chain of visible
  edges whose accumulated \<open>f32\<close> cost no other chain undercuts, and it returns none exactly when
  there is no chain. The argument is Dijkstra's, over the rounding addition of \<open>OG_F32_Facts\<close>.
\<close>

section \<open>Costs\<close>

abbreviation nbrs :: "accessor \<Rightarrow> dynamic_context \<Rightarrow> string \<Rightarrow> neighbor_entry list" where
  "nbrs graph ctx \<equiv> neighbors_with_overlay_indexed graph ctx (overlay_index_build ctx)"

abbreviation ecost :: "accessor \<Rightarrow> dynamic_context \<Rightarrow> string \<Rightarrow> f32" where
  "ecost graph ctx \<equiv> edge_cost graph ctx (overlay_index_build ctx)"

lemma f32_div_one_nonneg:
  assumes "\<not> f32_sign b" and "\<not> f32_is_nan b"
  shows "f32_nonneg (f32_div f32_one b)"
proof -
  have one: "\<not> f32_sign f32_one" "\<not> f32_is_nan f32_one" "\<not> f32_is_inf f32_one" "\<not> f32_is_zero f32_one"
    by code_simp+
  have nn: "f32_nonneg (f32_make False m)" if "0 \<le> m" "m \<le> 2139095040" for m
    using that by (simp add: f32_nonneg_def f32_is_nan_def f32_make_mag)
  have "f32_nonneg (f32_make False (round_mag (\<bar>f32_ulps f32_one\<bar> * 2 ^ 149) \<bar>f32_ulps b\<bar>))"
    if "\<not> f32_is_zero b"
  proof (rule nn [OF round_mag_nonneg round_mag_le_inf])
    have "0 < f32_mag b" using that f32_mag_range [of b] by (auto simp: f32_is_zero_def)
    moreover have "f32_mag b \<le> 2139095040" using assms(2) by (simp add: f32_is_nan_def)
    ultimately have "mag_val (f32_mag b) \<noteq> 0" using round_mag_exact [of "f32_mag b"] by auto
    then have "0 < mag_val (f32_mag b)" using mag_val_nonneg [of "f32_mag b"] f32_mag_range [of b] by simp
    then show "0 < \<bar>f32_ulps b\<bar>" using assms(1) by (simp add: f32_ulps_def)
  qed simp
  then show ?thesis using one assms nn by (auto simp: f32_div_def Let_def)
qed

lemma ecost_nonneg: "f32_nonneg (ecost graph ctx n)"
proof -
  have c: "\<not> f32_sign f32_0_001" "\<not> f32_is_nan f32_0_001" by code_simp+
  have "\<not> f32_sign (f32_max s f32_0_001) \<and> \<not> f32_is_nan (f32_max s f32_0_001)" for s
  proof (cases "f32_is_nan s")
    case False
    have "0 < f32_key f32_0_001" by code_simp
    then have "f32_sign s \<Longrightarrow> f32_lt s f32_0_001"
      using False c f32_mag_range [of s] by (simp add: f32_lt_def f32_key_def)
    then show ?thesis using False c by (auto simp: f32_max_def)
  qed (use c in \<open>simp add: f32_max_def\<close>)
  then show ?thesis by (simp add: edge_cost_def Let_def f32_div_one_nonneg)
qed

lemma f32_nonneg_total: "f32_nonneg x \<Longrightarrow> f32_total_key x = f32_key x"
  by (simp add: f32_nonneg_def f32_total_key_def f32_key_def)

lemma f32_nonneg_eq: "f32_nonneg a \<Longrightarrow> f32_nonneg b \<Longrightarrow> f32_key a = f32_key b \<Longrightarrow> a = b"
  by (metis f32_nonneg_total f32_total_key_inj)

lemma f32_nonneg_le: "f32_nonneg a \<Longrightarrow> f32_nonneg b \<Longrightarrow> a \<le> b \<longleftrightarrow> f32_key a \<le> f32_key b"
  by (simp add: less_eq_f32_def f32_nonneg_total)

lemma f32_nonneg_lt: "f32_nonneg a \<Longrightarrow> f32_nonneg b \<Longrightarrow> f32_lt a b \<longleftrightarrow> f32_key a < f32_key b"
  by (simp add: f32_lt_def f32_nonneg_def)

lemma f32_zero_facts [simp]: "f32_nonneg f32_zero" "f32_key f32_zero = 0"
  by code_simp+

text \<open>The cost of a chain of names, accumulated as the search does.\<close>

fun path_cost :: "accessor \<Rightarrow> dynamic_context \<Rightarrow> f32 \<Rightarrow> string list \<Rightarrow> f32" where
  "path_cost graph ctx acc [] = acc"
| "path_cost graph ctx acc (n # ns) = path_cost graph ctx (f32_add acc (ecost graph ctx n)) ns"

lemma path_cost_append:
  "path_cost graph ctx acc (ns @ [n]) = f32_add (path_cost graph ctx acc ns) (ecost graph ctx n)"
  by (induction ns arbitrary: acc) auto

lemma path_cost_nonneg:
  "f32_nonneg acc \<Longrightarrow> f32_nonneg (path_cost graph ctx acc ns) \<and> f32_key acc \<le> f32_key (path_cost graph ctx acc ns)"
proof (induction ns arbitrary: acc)
  case (Cons n ns)
  note add = f32_add_nonneg [OF Cons.prems ecost_nonneg [of graph ctx n]]
  show ?case using Cons.IH [OF add(1)] add(2) by simp
qed simp

fun chain :: "accessor \<Rightarrow> dynamic_context \<Rightarrow> string \<Rightarrow> string list \<Rightarrow> string \<Rightarrow> bool" where
  "chain graph ctx a [] b \<longleftrightarrow> a = b"
| "chain graph ctx a (n # ns) b \<longleftrightarrow> visible_step graph ctx a n \<and> chain graph ctx n ns b"

definition step_of :: "neighbor_entry \<Rightarrow> path_step" where
  "step_of nb = \<lparr>ps_node = ne_name nb, ps_edge_kind = ne_edge_kind nb,
     ps_field_name = (case ne_field_name nb of Some f \<Rightarrow> f | None \<Rightarrow> []), ps_direction = ''outgoing''\<rparr>"

text \<open>Every step of a path is labelled with a visible edge from the node before it.\<close>

fun steps_ok :: "accessor \<Rightarrow> dynamic_context \<Rightarrow> string \<Rightarrow> path_step list \<Rightarrow> bool" where
  "steps_ok graph ctx a [] = True"
| "steps_ok graph ctx a (st # sts) = (st \<in> step_of ` set (nbrs graph ctx a) \<and> steps_ok graph ctx (ps_node st) sts)"

fun steps_end :: "string \<Rightarrow> path_step list \<Rightarrow> string" where
  "steps_end a [] = a"
| "steps_end a (st # sts) = steps_end (ps_node st) sts"

lemma steps_ok_append:
  "steps_ok graph ctx a (sts @ [st]) \<longleftrightarrow>
   steps_ok graph ctx a sts \<and> st \<in> step_of ` set (nbrs graph ctx (steps_end a sts))"
  by (induction sts arbitrary: a) auto

lemma steps_end_append [simp]: "steps_end a (sts @ [st]) = ps_node st"
  by (induction sts arbitrary: a) auto

lemma steps_ok_chain: "steps_ok graph ctx a sts \<Longrightarrow> chain graph ctx a (map ps_node sts) (steps_end a sts)"
  by (induction sts arbitrary: a) (auto simp: visible_step_def step_of_def)

section \<open>The invariant of the search\<close>

text \<open>
  \<open>xs\<close> are the names expanded so far in order, \<open>handled u\<close> the neighbours of \<open>u\<close> already relaxed and \<open>c\<close>
  the cost popped last.
\<close>

definition dij_inv ::
  "accessor \<Rightarrow> dynamic_context \<Rightarrow> string \<Rightarrow> string list \<Rightarrow> (string \<Rightarrow> neighbor_entry list) \<Rightarrow> f32 \<Rightarrow> dijkstra \<Rightarrow> bool"
  where
  "dij_inv graph ctx start xs handled c s \<longleftrightarrow>
     fmlookup (dj_dist s) start = Some f32_zero \<and> fmlookup (dj_parent s) start = None \<and> f32_nonneg c \<and>
     (\<forall>v d. fmlookup (dj_dist s) v = Some d \<longrightarrow> f32_nonneg d \<and> (v = start \<or> fmlookup (dj_parent s) v \<noteq> None)) \<and>
     (\<forall>(c', v) \<in> set (dj_heap s). f32_nonneg c' \<and> f32_key c \<le> f32_key c' \<and>
        (\<exists>d. fmlookup (dj_dist s) v = Some d \<and> f32_key d \<le> f32_key c')) \<and>
     (\<forall>v d. fmlookup (dj_dist s) v = Some d \<longrightarrow>
        count (mset (dj_heap s)) (d, v) = (if v \<in> set xs then 0 else 1)) \<and>
     (\<forall>u \<in> set xs. \<exists>du. fmlookup (dj_dist s) u = Some du \<and> f32_key du \<le> f32_key c \<and>
        (\<forall>nb \<in> set (handled u). \<exists>d. fmlookup (dj_dist s) (ne_name nb) = Some d \<and>
           f32_key d \<le> f32_key (f32_add du (ecost graph ctx (ne_name nb))))) \<and>
     (\<forall>v p. fmlookup (dj_parent s) v = Some p \<longrightarrow> pi_from p \<in> set xs \<and>
        (\<exists>nb du. nb \<in> set (nbrs graph ctx (pi_from p)) \<and> ne_name nb = v \<and> ne_edge_kind nb = pi_edge_kind p \<and>
           ne_field_name nb = pi_field_name p \<and> fmlookup (dj_dist s) (pi_from p) = Some du \<and>
           fmlookup (dj_dist s) v = Some (f32_add du (ecost graph ctx v)))) \<and>
     distinct xs \<and>
     (\<forall>i < length xs. \<forall>p. fmlookup (dj_parent s) (xs ! i) = Some p \<longrightarrow> pi_from p \<in> set (take i xs))"

lemma dij_invD:
  assumes "dij_inv graph ctx start xs handled c s"
  shows inv_start: "fmlookup (dj_dist s) start = Some f32_zero"
    and inv_start_parent: "fmlookup (dj_parent s) start = None"
    and inv_c: "f32_nonneg c"
    and inv_dist: "fmlookup (dj_dist s) v = Some d \<Longrightarrow> f32_nonneg d"
    and inv_has_parent: "fmlookup (dj_dist s) v = Some d \<Longrightarrow> v = start \<or> fmlookup (dj_parent s) v \<noteq> None"
    and inv_heap: "(c', v) \<in> set (dj_heap s) \<Longrightarrow> f32_nonneg c' \<and> f32_key c \<le> f32_key c' \<and>
        (\<exists>d. fmlookup (dj_dist s) v = Some d \<and> f32_key d \<le> f32_key c')"
    and inv_count: "fmlookup (dj_dist s) v = Some d \<Longrightarrow>
        count (mset (dj_heap s)) (d, v) = (if v \<in> set xs then 0 else 1)"
    and inv_expanded: "u \<in> set xs \<Longrightarrow> \<exists>du. fmlookup (dj_dist s) u = Some du \<and> f32_key du \<le> f32_key c \<and>
        (\<forall>nb \<in> set (handled u). \<exists>d. fmlookup (dj_dist s) (ne_name nb) = Some d \<and>
           f32_key d \<le> f32_key (f32_add du (ecost graph ctx (ne_name nb))))"
    and inv_parent: "fmlookup (dj_parent s) v = Some p \<Longrightarrow> pi_from p \<in> set xs \<and>
        (\<exists>nb du. nb \<in> set (nbrs graph ctx (pi_from p)) \<and> ne_name nb = v \<and> ne_edge_kind nb = pi_edge_kind p \<and>
           ne_field_name nb = pi_field_name p \<and> fmlookup (dj_dist s) (pi_from p) = Some du \<and>
           fmlookup (dj_dist s) v = Some (f32_add du (ecost graph ctx v)))"
    and inv_distinct: "distinct xs"
    and inv_order: "i < length xs \<Longrightarrow> fmlookup (dj_parent s) (xs ! i) = Some p \<Longrightarrow> pi_from p \<in> set (take i xs)"
  using assms unfolding dij_inv_def by blast+

lemma dij_inv_start: "dij_inv graph ctx start [] (nbrs graph ctx) f32_zero (dijkstra_start start)"
  unfolding dij_inv_def dijkstra_start_def by (auto split: if_splits)

text \<open>Relaxing one edge of the node \<open>u\<close> expanded last.\<close>

lemma relax_inv:
  assumes inv: "dij_inv graph ctx start xs handled c s"
    and u: "u \<in> set xs" "fmlookup (dj_dist s) u = Some c"
    and nb: "nb \<in> set (nbrs graph ctx u)"
  shows "dij_inv graph ctx start xs (handled(u := handled u @ [nb])) c
      (relax graph ctx (overlay_index_build ctx) c u s nb)"
    and "fmlookup (dj_dist (relax graph ctx (overlay_index_build ctx) c u s nb)) u = Some c"
proof -
  let ?v = "ne_name nb"
  let ?new = "f32_add c (ecost graph ctx ?v)"
  let ?s = "relax graph ctx (overlay_index_build ctx) c u s nb"
  note new = f32_add_nonneg [OF inv_c [OF inv] ecost_nonneg [of graph ctx ?v]]
  let ?better = "case fmlookup (dj_dist s) ?v of None \<Rightarrow> True | Some existing \<Rightarrow> f32_lt ?new existing"
  have "dij_inv graph ctx start xs (handled(u := handled u @ [nb])) c ?s \<and> fmlookup (dj_dist ?s) u = Some c"
  proof (cases ?better)
    case False
    then obtain e where e: "fmlookup (dj_dist s) ?v = Some e" "f32_key e \<le> f32_key ?new"
      using f32_nonneg_lt [OF new(1) inv_dist [OF inv]] by (auto split: option.splits)
    have s: "?s = s" using False by (simp add: relax_def Let_def)
    have "\<exists>du. fmlookup (dj_dist s) w = Some du \<and> f32_key du \<le> f32_key c \<and>
        (\<forall>nb' \<in> set ((handled(u := handled u @ [nb])) w). \<exists>d. fmlookup (dj_dist s) (ne_name nb') = Some d \<and>
           f32_key d \<le> f32_key (f32_add du (ecost graph ctx (ne_name nb'))))" if "w \<in> set xs" for w
      using inv_expanded [OF inv that] e u(2) by (cases "w = u") auto
    then show ?thesis using inv u(2) unfolding s dij_inv_def by blast
  next
    case True
    define p where "p = \<lparr>pi_from = u, pi_edge_kind = ne_edge_kind nb, pi_field_name = ne_field_name nb\<rparr>"
    have D: "fmlookup (dj_dist ?s) w = (if w = ?v then Some ?new else fmlookup (dj_dist s) w)"
      and P: "fmlookup (dj_parent ?s) w = (if w = ?v then Some p else fmlookup (dj_parent s) w)"
      and H: "dj_heap ?s = (?new, ?v) # dj_heap s" for w
      using True by (simp_all add: relax_def Let_def p_def)
    have old: "f32_key ?new < f32_key e" if "fmlookup (dj_dist s) ?v = Some e" for e
      using True that f32_nonneg_lt [OF new(1) inv_dist [OF inv that]] by simp
    have notin: "?v \<notin> set xs"
      using inv_expanded [OF inv, of ?v] old new(2) by force
    have nostart: "?v \<noteq> start"
      using old inv_start [OF inv] new f32_nonneg_key [OF new(1)] by fastforce
    have uv: "u \<noteq> ?v" using u notin by blast
    have fresh: "(?new, ?v) \<notin> set (dj_heap s)"
      using inv_heap [OF inv, of ?new ?v] old by fastforce
    show ?thesis unfolding dij_inv_def
    proof (intro conjI allI impI ballI)
      show "fmlookup (dj_dist ?s) u = Some c" "fmlookup (dj_dist ?s) start = Some f32_zero"
        "fmlookup (dj_parent ?s) start = None" "f32_nonneg c" "distinct xs"
        using u uv nostart inv_start [OF inv] inv_start_parent [OF inv] inv_c [OF inv] inv_distinct [OF inv] by (auto simp: D P)
    next
      fix w d assume "fmlookup (dj_dist ?s) w = Some d"
      then show "f32_nonneg d" and "w = start \<or> fmlookup (dj_parent ?s) w \<noteq> None"
        and "count (mset (dj_heap ?s)) (d, w) = (if w \<in> set xs then 0 else 1)"
        using new(1) inv_dist [OF inv, of w d] inv_has_parent [OF inv, of w d] inv_count [OF inv, of w d] notin fresh
        by (auto simp: D P H count_eq_zero_iff split: if_splits)
    next
      fix x assume x: "x \<in> set (dj_heap ?s)"
      obtain c' w where xw: "x = (c', w)" by (cases x)
      have "f32_nonneg c' \<and> f32_key c \<le> f32_key c' \<and> (\<exists>d. fmlookup (dj_dist ?s) w = Some d \<and> f32_key d \<le> f32_key c')"
      proof (cases "x = (?new, ?v)")
        case True
        then show ?thesis using new xw by (simp add: D)
      next
        case False
        then have "x \<in> set (dj_heap s)" using x unfolding H by (metis set_ConsD)
        then have "(c', w) \<in> set (dj_heap s)" by (simp add: xw)
        from inv_heap [OF inv this] show ?thesis using old by (auto simp: D)
      qed
      then show "case x of (c', v) \<Rightarrow> f32_nonneg c' \<and> f32_key c \<le> f32_key c' \<and>
          (\<exists>d. fmlookup (dj_dist ?s) v = Some d \<and> f32_key d \<le> f32_key c')" by (simp add: xw)
    next
      fix w assume w: "w \<in> set xs"
      then obtain dw where dw: "fmlookup (dj_dist s) w = Some dw" "f32_key dw \<le> f32_key c"
        "\<forall>nb \<in> set (handled w). \<exists>d. fmlookup (dj_dist s) (ne_name nb) = Some d \<and>
           f32_key d \<le> f32_key (f32_add dw (ecost graph ctx (ne_name nb)))"
        using inv_expanded [OF inv] by blast
      have "\<exists>d. fmlookup (dj_dist ?s) (ne_name nb') = Some d \<and> f32_key d \<le> f32_key (f32_add dw (ecost graph ctx (ne_name nb')))"
        if "nb' \<in> set ((handled(u := handled u @ [nb])) w)" for nb'
      proof (cases "nb' \<in> set (handled w)")
        case True
        then obtain d where "fmlookup (dj_dist s) (ne_name nb') = Some d"
            "f32_key d \<le> f32_key (f32_add dw (ecost graph ctx (ne_name nb')))" using dw(3) by blast
        then show ?thesis using old by (auto simp: D)
      next
        case False
        then have "w = u" "nb' = nb" using that by (auto split: if_splits)
        moreover have "dw = c" using u dw(1) \<open>w = u\<close> by simp
        ultimately show ?thesis by (simp add: D)
      qed
      then show "\<exists>du. fmlookup (dj_dist ?s) w = Some du \<and> f32_key du \<le> f32_key c \<and>
          (\<forall>nb \<in> set ((handled(u := handled u @ [nb])) w). \<exists>d. fmlookup (dj_dist ?s) (ne_name nb) = Some d \<and>
             f32_key d \<le> f32_key (f32_add du (ecost graph ctx (ne_name nb))))"
        using dw w notin by (metis D)
    next
      fix w q assume q: "fmlookup (dj_parent ?s) w = Some q"
      have *: "pi_from q \<in> set xs \<and> (\<exists>nb du. nb \<in> set (nbrs graph ctx (pi_from q)) \<and> ne_name nb = w \<and> ne_edge_kind nb = pi_edge_kind q \<and>
           ne_field_name nb = pi_field_name q \<and> fmlookup (dj_dist ?s) (pi_from q) = Some du \<and>
           fmlookup (dj_dist ?s) w = Some (f32_add du (ecost graph ctx w)))"
      proof (cases "w = ?v")
        case True
        then have "q = p" using q by (simp add: P)
        then show ?thesis using u nb True uv by (auto simp: p_def D)
      next
        case False
        then have "fmlookup (dj_parent s) w = Some q" using q by (simp add: P)
        from inv_parent [OF inv this] show ?thesis using False notin by (metis D)
      qed
      show "pi_from q \<in> set xs" and "\<exists>nb du. nb \<in> set (nbrs graph ctx (pi_from q)) \<and> ne_name nb = w \<and> ne_edge_kind nb = pi_edge_kind q \<and>
           ne_field_name nb = pi_field_name q \<and> fmlookup (dj_dist ?s) (pi_from q) = Some du \<and>
           fmlookup (dj_dist ?s) w = Some (f32_add du (ecost graph ctx w))"
        by (fact conjunct1 [OF *] conjunct2 [OF *])+
    next
      fix i q assume i: "i < length xs" and q: "fmlookup (dj_parent ?s) (xs ! i) = Some q"
      have "xs ! i \<noteq> ?v" using notin nth_mem [OF i] by metis
      then have "fmlookup (dj_parent s) (xs ! i) = Some q" using q by (simp add: P)
      then show "pi_from q \<in> set (take i xs)" by (rule inv_order [OF inv i])
    qed
  qed
  then show "dij_inv graph ctx start xs (handled(u := handled u @ [nb])) c ?s" "fmlookup (dj_dist ?s) u = Some c" by blast+
qed

lemma relax_all_inv:
  assumes "dij_inv graph ctx start xs handled c s" and "u \<in> set xs" and "fmlookup (dj_dist s) u = Some c"
    and "set nbs \<subseteq> set (nbrs graph ctx u)"
  shows "dij_inv graph ctx start xs (handled(u := handled u @ nbs)) c
      (foldl (relax graph ctx (overlay_index_build ctx) c u) s nbs)"
  using assms
proof (induction nbs arbitrary: handled s)
  case (Cons nb nbs)
  note r = relax_inv [OF Cons.prems(1-3), of nb]
  have "nb \<in> set (nbrs graph ctx u)" using Cons.prems(4) by simp
  note r = r [OF this]
  have "set nbs \<subseteq> set (nbrs graph ctx u)" using Cons.prems(4) by simp
  from Cons.IH [OF r(1) Cons.prems(2) r(2) this] show ?case
    by (simp only: foldl.simps fun_upd_same fun_upd_upd append_assoc append.simps)
qed simp

lemma relax_heap_length:
  "length (dj_heap (foldl (relax graph ctx ov c u) s nbs)) \<le> length (dj_heap s) + length nbs"
proof (induction nbs arbitrary: s)
  case (Cons nb nbs)
  have "length (dj_heap (relax graph ctx ov c u s nb)) \<le> Suc (length (dj_heap s))"
    by (simp add: relax_def Let_def)
  then show ?case using Cons.IH [of "relax graph ctx ov c u s nb"] by simp
qed simp

text \<open>Popping an entry: a stale one is dropped, a current one makes its node the next to expand.\<close>

lemma pop_inv:
  assumes inv: "dij_inv graph ctx start xs (nbrs graph ctx) c s"
    and hp: "heap_pop_ok hp" "hp (dj_heap s) = Some ((c', u), h)"
  obtains d where "fmlookup (dj_dist s) u = Some d" and "f32_lt d c'" and "f32_nonneg c'"
      and "dij_inv graph ctx start xs (nbrs graph ctx) c' (s\<lparr>dj_heap := h\<rparr>)"
  | "fmlookup (dj_dist s) u = Some c'" and "f32_nonneg c'" and "u \<notin> set xs"
      and "dij_inv graph ctx start (xs @ [u]) ((nbrs graph ctx)(u := [])) c' (s\<lparr>dj_heap := h\<rparr>)"
proof -
  let ?s = "s\<lparr>dj_heap := h\<rparr>"
  have H: "mset (dj_heap s) = add_mset (c', u) (mset h)" and least: "\<And>x. x \<in> set (dj_heap s) \<Longrightarrow> c' \<le> fst x"
    using hp unfolding heap_pop_ok_def by fastforce+
  have sub: "set h \<subseteq> set (dj_heap s)" and mem: "(c', u) \<in> set (dj_heap s)"
    using H by (metis insertI1 set_mset_add_mset_insert set_mset_mset subset_insertI)+
  obtain d where c': "f32_nonneg c'" "f32_key c \<le> f32_key c'" and d: "fmlookup (dj_dist s) u = Some d" "f32_key d \<le> f32_key c'"
    using inv_heap [OF inv mem] by blast
  note dn = inv_dist [OF inv d(1)]
  have hs: "f32_nonneg cx \<and> f32_key c' \<le> f32_key cx \<and> (\<exists>d. fmlookup (dj_dist s) v = Some d \<and> f32_key d \<le> f32_key cx)"
    if "(cx, v) \<in> set h" for cx v
  proof -
    have m: "(cx, v) \<in> set (dj_heap s)" using that sub by blast
    from inv_heap [OF inv m] least [OF m] c'(1) show ?thesis by (auto simp: f32_nonneg_le)
  qed
  have ex: "\<exists>du. fmlookup (dj_dist s) w = Some du \<and> f32_key du \<le> f32_key c' \<and>
        (\<forall>nb \<in> set (nbrs graph ctx w). \<exists>d. fmlookup (dj_dist s) (ne_name nb) = Some d \<and>
           f32_key d \<le> f32_key (f32_add du (ecost graph ctx (ne_name nb))))" if "w \<in> set xs" for w
    using inv_expanded [OF inv that] c'(2) by (meson order.trans)
  have cnt: "count (mset (dj_heap s)) (dv, v) = count (mset h) (dv, v) + (if dv = c' \<and> v = u then 1 else 0)" for dv v
    by (simp add: H)
  show thesis
  proof (cases "f32_lt d c'")
    case True
    then have dc: "d \<noteq> c'" using f32_lt_irrefl by blast
    have "dij_inv graph ctx start xs (nbrs graph ctx) c' ?s"
      unfolding dij_inv_def
    proof (intro conjI allI impI ballI)
      fix v dv assume v: "fmlookup (dj_dist ?s) v = Some dv"
      have "\<not> (dv = c' \<and> v = u)" using v d dc by auto
      then show "count (mset (dj_heap ?s)) (dv, v) = (if v \<in> set xs then 0 else 1)"
        using inv_count [OF inv, of v dv] v cnt [of dv v] by auto
      show "f32_nonneg dv" and "v = start \<or> fmlookup (dj_parent ?s) v \<noteq> None"
        using v inv_dist [OF inv] inv_has_parent [OF inv] by auto
    next
      fix v p assume "fmlookup (dj_parent ?s) v = Some p"
      then have "fmlookup (dj_parent s) v = Some p" by simp
      from inv_parent [OF inv this] show "pi_from p \<in> set xs" and
        "\<exists>nb du. nb \<in> set (nbrs graph ctx (pi_from p)) \<and> ne_name nb = v \<and> ne_edge_kind nb = pi_edge_kind p \<and>
           ne_field_name nb = pi_field_name p \<and> fmlookup (dj_dist ?s) (pi_from p) = Some du \<and>
           fmlookup (dj_dist ?s) v = Some (f32_add du (ecost graph ctx v))" by simp_all
    qed (use inv c' hs ex inv_start [OF inv] inv_start_parent [OF inv] inv_distinct [OF inv] inv_order [OF inv] in auto)
    with that(1) d(1) True c'(1) show thesis by blast
  next
    case False
    then have "d = c'" using f32_nonneg_lt [OF dn c'(1)] d(2) f32_nonneg_eq [OF dn c'(1)] by simp
    then have dc: "fmlookup (dj_dist s) u = Some c'" using d by simp
    have u: "u \<notin> set xs" using inv_count [OF inv dc] mem
      by (metis count_mset_0_iff)
    then have c0: "count (mset h) (c', u) = 0" using inv_count [OF inv dc] cnt [of c' u] by simp
    have "dij_inv graph ctx start (xs @ [u]) ((nbrs graph ctx)(u := [])) c' ?s"
      unfolding dij_inv_def
    proof (intro conjI allI impI ballI)
      fix v dv assume v: "fmlookup (dj_dist ?s) v = Some dv"
      show "count (mset (dj_heap ?s)) (dv, v) = (if v \<in> set (xs @ [u]) then 0 else 1)"
        using inv_count [OF inv, of v dv] v cnt [of dv v] c0 dc by (cases "v = u") auto
      show "f32_nonneg dv" and "v = start \<or> fmlookup (dj_parent ?s) v \<noteq> None"
        using v inv_dist [OF inv] inv_has_parent [OF inv] by auto
    next
      fix v p assume "fmlookup (dj_parent ?s) v = Some p"
      then have "fmlookup (dj_parent s) v = Some p" by simp
      from inv_parent [OF inv this] show "pi_from p \<in> set (xs @ [u])" and
        "\<exists>nb du. nb \<in> set (nbrs graph ctx (pi_from p)) \<and> ne_name nb = v \<and> ne_edge_kind nb = pi_edge_kind p \<and>
           ne_field_name nb = pi_field_name p \<and> fmlookup (dj_dist ?s) (pi_from p) = Some du \<and>
           fmlookup (dj_dist ?s) v = Some (f32_add du (ecost graph ctx v))" by simp_all
    next
      fix w assume "w \<in> set (xs @ [u])"
      then show "\<exists>du. fmlookup (dj_dist ?s) w = Some du \<and> f32_key du \<le> f32_key c' \<and>
        (\<forall>nb \<in> set (((nbrs graph ctx)(u := [])) w). \<exists>d. fmlookup (dj_dist ?s) (ne_name nb) = Some d \<and>
           f32_key d \<le> f32_key (f32_add du (ecost graph ctx (ne_name nb))))"
        using ex [of w] u dc by (cases "w = u") auto
    next
      fix i p assume i: "i < length (xs @ [u])" and p: "fmlookup (dj_parent ?s) ((xs @ [u]) ! i) = Some p"
      show "pi_from p \<in> set (take i (xs @ [u]))"
      proof (cases "i < length xs")
        case True
        then have "fmlookup (dj_parent s) (xs ! i) = Some p" using p by (simp add: nth_append)
        from inv_order [OF inv True this] show ?thesis using True by simp
      next
        case False
        then have "i = length xs" using i by simp
        then show ?thesis using p inv_parent [OF inv] by simp
      qed
    qed (use inv c' hs u inv_start [OF inv] inv_start_parent [OF inv] inv_distinct [OF inv] in auto)
    with that(2) dc u c'(1) show thesis by blast
  qed
qed

section \<open>The loop\<close>

definition expandable :: "accessor \<Rightarrow> dynamic_context \<Rightarrow> string set" where
  "expandable graph ctx = {u. nbrs graph ctx u \<noteq> []}"

definition search_size :: "accessor \<Rightarrow> dynamic_context \<Rightarrow> nat" where
  "search_size graph ctx = (\<Sum>u \<in> expandable graph ctx. length (nbrs graph ctx u)) + 3"

definition search_left :: "accessor \<Rightarrow> dynamic_context \<Rightarrow> string list \<Rightarrow> nat" where
  "search_left graph ctx xs = (\<Sum>u \<in> expandable graph ctx - set xs. length (nbrs graph ctx u))"

lemma search_left_snoc:
  assumes "finite (expandable graph ctx)" and "u \<notin> set xs"
  shows "search_left graph ctx (xs @ [u]) + length (nbrs graph ctx u) = search_left graph ctx xs"
proof (cases "u \<in> expandable graph ctx")
  case True
  have "expandable graph ctx - set (xs @ [u]) = expandable graph ctx - set xs - {u}" by auto
  then show ?thesis using True assms
    by (simp add: search_left_def sum.remove [of "expandable graph ctx - set xs" u])
next
  case False
  then have "expandable graph ctx - set (xs @ [u]) = expandable graph ctx - set xs" by auto
  then show ?thesis using False by (simp add: search_left_def expandable_def)
qed

text \<open>What the loop ends with: the heap ran dry, or \<open>end\<close> was popped.\<close>

definition dij_done ::
  "accessor \<Rightarrow> dynamic_context \<Rightarrow> string \<Rightarrow> string \<Rightarrow> nat \<Rightarrow> (string, parent_info) fmap option \<Rightarrow> bool" where
  "dij_done graph ctx start end n r \<longleftrightarrow>
     (\<exists>xs c s. dij_inv graph ctx start xs (nbrs graph ctx) c s \<and> end \<notin> set xs \<and> length xs \<le> n \<and>
        (case r of None \<Rightarrow> dj_heap s = []
         | Some P \<Rightarrow> P = dj_parent s \<and> (\<exists>d. fmlookup (dj_dist s) end = Some d \<and>
             (\<forall>(c', v) \<in> set (dj_heap s). f32_key d \<le> f32_key c'))))"

lemma dijkstra_loop_returns:
  assumes hp: "heap_pop_ok hp" and fin: "finite (expandable graph ctx)"
    and "dij_inv graph ctx start xs (nbrs graph ctx) c s" and "end \<notin> set xs"
    and "length (dj_heap s) + search_left graph ctx xs < fuel"
    and "length xs + length (dj_heap s) + search_left graph ctx xs \<le> n"
  shows "\<exists>r. dijkstra_loop fuel hp graph ctx (overlay_index_build ctx) end s = Some r \<and>
    dij_done graph ctx start end n r"
  using assms(3-)
proof (induction fuel arbitrary: xs c s)
  case (Suc fuel)
  note inv = Suc.prems(1)
  let ?step = "dijkstra_step hp graph ctx (overlay_index_build ctx) end s"
  show ?case
  proof (cases "hp (dj_heap s)")
    case None
    then have "dj_heap s = []" using hp by (simp add: heap_pop_ok_def)
    then have "dij_done graph ctx start end n None"
      unfolding dij_done_def using inv Suc.prems(2,4) by (intro exI [of _ xs] exI [of _ c] exI [of _ s]) simp
    then show ?thesis using None by (simp add: dijkstra_step_def)
  next
    case (Some e)
    then obtain c' u h where pop: "hp (dj_heap s) = Some ((c', u), h)" by (metis prod.exhaust)
    have H: "mset (dj_heap s) = add_mset (c', u) (mset h)" "\<forall>x \<in> set (dj_heap s). c' \<le> fst x"
      using hp pop by (auto simp: heap_pop_ok_def)
    have len: "length (dj_heap s) = Suc (length h)" using H(1) by (metis size_add_mset size_mset)
    show ?thesis
    proof (cases "u = end")
      case True
      have memu: "(c', end) \<in> set (dj_heap s)" using H(1) True by (metis insertI1 set_mset_add_mset_insert set_mset_mset)
      then obtain d where d: "fmlookup (dj_dist s) end = Some d" "f32_key d \<le> f32_key c'" "f32_nonneg c'"
        using inv_heap [OF inv] by blast
      have "f32_key d \<le> f32_key cx" if "(cx, v) \<in> set (dj_heap s)" for cx v
        using inv_heap [OF inv that] H(2) that d by (force simp: f32_nonneg_le)
      then have "dij_done graph ctx start end n (Some (dj_parent s))"
        unfolding dij_done_def using inv Suc.prems(2,4) d(1)
        by (intro exI [of _ xs] exI [of _ c] exI [of _ s]) auto
      then show ?thesis using True pop by (simp add: dijkstra_step_def Let_def)
    next
      case False
      show ?thesis
      proof (rule pop_inv [OF inv hp pop])
        fix d assume "fmlookup (dj_dist s) u = Some d" "f32_lt d c'" and
          inv': "dij_inv graph ctx start xs (nbrs graph ctx) c' (s\<lparr>dj_heap := h\<rparr>)"
        then have "?step = More (s\<lparr>dj_heap := h\<rparr>)"
          using False pop by (simp add: dijkstra_step_def Let_def)
        then show ?thesis using Suc.IH [OF inv' Suc.prems(2)] Suc.prems(3,4) len by simp
      next
        assume du: "fmlookup (dj_dist s) u = Some c'" and u: "u \<notin> set xs"
          and inv': "dij_inv graph ctx start (xs @ [u]) ((nbrs graph ctx)(u := [])) c' (s\<lparr>dj_heap := h\<rparr>)"
        let ?s = "foldl (relax graph ctx (overlay_index_build ctx) c' u) (s\<lparr>dj_heap := h\<rparr>) (nbrs graph ctx u)"
        have "?step = More ?s" using False pop du by (simp add: dijkstra_step_def Let_def f32_lt_irrefl)
        moreover have inv'': "dij_inv graph ctx start (xs @ [u]) (nbrs graph ctx) c' ?s"
          using relax_all_inv [OF inv', of u "nbrs graph ctx u"] du by simp
        moreover have "length (dj_heap ?s) \<le> length h + length (nbrs graph ctx u)"
          using relax_heap_length [of graph ctx "overlay_index_build ctx" c' u "s\<lparr>dj_heap := h\<rparr>" "nbrs graph ctx u"] by simp
        moreover have "end \<notin> set (xs @ [u])" using Suc.prems(2) False by simp
        ultimately show ?thesis
          using Suc.IH [OF inv''] Suc.prems(3,4) len search_left_snoc [OF fin u] by simp
      qed
    qed
  qed
qed simp

section \<open>The path\<close>

text \<open>Following parents from a reached node gives a chain of visible edges of the node's cost.\<close>

lemma reconstruct_ok:
  assumes inv: "dij_inv graph ctx start xs (nbrs graph ctx) c s"
  shows "fmlookup (dj_dist s) v = Some d \<Longrightarrow> k \<le> length xs \<Longrightarrow>
    (\<forall>p. fmlookup (dj_parent s) v = Some p \<longrightarrow> pi_from p \<in> set (take k xs)) \<Longrightarrow> k < fuel \<Longrightarrow>
    \<exists>sts. reconstruct_loop fuel start (dj_parent s) v acc = Some (bare_step start # sts @ acc) \<and>
      steps_ok graph ctx start sts \<and> steps_end start sts = v \<and>
      d = path_cost graph ctx f32_zero (map ps_node sts)"
proof (induction k arbitrary: v d fuel acc rule: less_induct)
  case (less k)
  obtain fuel' where fuel: "fuel = Suc fuel'" using less.prems(4) by (cases fuel) auto
  show ?case
  proof (cases "v = start")
    case True
    then show ?thesis using less.prems(1) inv_start [OF inv] fuel
      by (intro exI [of _ "[]"]) simp
  next
    case False
    then obtain p where p: "fmlookup (dj_parent s) v = Some p" using inv_has_parent [OF inv less.prems(1)] by auto
    obtain nb du where nb: "nb \<in> set (nbrs graph ctx (pi_from p))" "ne_name nb = v" "ne_edge_kind nb = pi_edge_kind p"
      "ne_field_name nb = pi_field_name p" "fmlookup (dj_dist s) (pi_from p) = Some du" "d = f32_add du (ecost graph ctx v)"
      using inv_parent [OF inv p] less.prems(1) by auto
    have "pi_from p \<in> set (take k xs)" using p less.prems(3) by blast
    then obtain i where i: "i < k" "i < length xs" "xs ! i = pi_from p" by (auto simp: in_set_conv_nth)
    let ?st = "step_of nb"
    have "\<forall>q. fmlookup (dj_parent s) (pi_from p) = Some q \<longrightarrow> pi_from q \<in> set (take i xs)"
      using inv_order [OF inv i(2)] i(3) by simp
    then obtain sts where sts: "reconstruct_loop fuel' start (dj_parent s) (pi_from p) (?st # acc) = Some (bare_step start # sts @ ?st # acc)"
      "steps_ok graph ctx start sts" "steps_end start sts = pi_from p" "du = path_cost graph ctx f32_zero (map ps_node sts)"
      using less.IH [OF i(1) nb(5), of fuel' "?st # acc"] i less.prems(2,4) fuel by auto
    have "reconstruct_loop fuel start (dj_parent s) v acc = Some (bare_step start # (sts @ [?st]) @ acc)"
      using False p nb sts(1) by (simp add: fuel step_of_def)
    moreover have "steps_ok graph ctx start (sts @ [?st])" using sts(2,3) nb(1) by (auto simp: steps_ok_append)
    moreover have "ps_node ?st = v" using nb(2) by (simp add: step_of_def)
    moreover have "d = path_cost graph ctx f32_zero (map ps_node (sts @ [?st]))"
      using nb(6) sts(4) \<open>ps_node ?st = v\<close> by (simp add: path_cost_append)
    ultimately show ?thesis by (intro exI [of _ "sts @ [?st]"]) simp
  qed
qed

text \<open>A chain out of the expanded nodes passes a node still in the heap.\<close>

lemma chain_lower_bound:
  assumes inv: "dij_inv graph ctx start xs (nbrs graph ctx) c s"
    and low: "\<And>v d. fmlookup (dj_dist s) v = Some d \<Longrightarrow> v \<notin> set xs \<Longrightarrow> f32_key m \<le> f32_key d"
    and "b \<notin> set xs" and "fmlookup (dj_dist s) a = Some da" and "f32_nonneg acc" and "f32_key da \<le> f32_key acc"
    and "chain graph ctx a ns b"
  shows "(\<exists>v d. v \<notin> set xs \<and> fmlookup (dj_dist s) v = Some d) \<and> f32_key m \<le> f32_key (path_cost graph ctx acc ns)"
  using assms(4-)
proof (induction ns arbitrary: a da acc)
  case Nil
  then have "a \<notin> set xs" using assms(3) by simp
  then show ?case using Nil low by fastforce
next
  case (Cons n ns)
  note nn = f32_add_nonneg [OF Cons.prems(2) ecost_nonneg [of graph ctx n]]
  show ?case
  proof (cases "a \<in> set xs")
    case False
    then show ?thesis using low [OF Cons.prems(1) False] Cons.prems(1,2,3) nn(2)
        path_cost_nonneg [OF nn(1), of graph ctx ns] by (auto intro: order.trans)
  next
    case True
    obtain nb where nb: "nb \<in> set (nbrs graph ctx a)" "ne_name nb = n"
      using Cons.prems(4) by (auto simp: visible_step_def)
    then obtain d where d: "fmlookup (dj_dist s) n = Some d" "f32_key d \<le> f32_key (f32_add da (ecost graph ctx n))"
      using inv_expanded [OF inv True] Cons.prems(1) by auto
    have "f32_key (f32_add da (ecost graph ctx n)) \<le> f32_key (f32_add acc (ecost graph ctx n))"
      by (rule f32_add_mono [OF inv_dist [OF inv Cons.prems(1)] Cons.prems(2) ecost_nonneg Cons.prems(3)])
    then show ?thesis using Cons.IH [OF d(1) nn(1)] d(2) Cons.prems(4) by simp
  qed
qed

text \<open>What a result of the search means.\<close>

definition path_result_ok ::
  "accessor \<Rightarrow> dynamic_context \<Rightarrow> string \<Rightarrow> string \<Rightarrow> path_step list option \<Rightarrow> bool" where
  "path_result_ok graph ctx start end r \<longleftrightarrow>
     (case r of
        None \<Rightarrow> \<not> (\<exists>ns. chain graph ctx start ns end)
      | Some p \<Rightarrow> (\<exists>sts. p = bare_step start # sts \<and> steps_ok graph ctx start sts \<and> steps_end start sts = end \<and>
          (\<forall>ns. chain graph ctx start ns end \<longrightarrow>
             f32_le (path_cost graph ctx f32_zero (map ps_node sts)) (path_cost graph ctx f32_zero ns))))"

lemma path_cost_le:
  "f32_key (path_cost graph ctx f32_zero as) \<le> f32_key (path_cost graph ctx f32_zero bs) \<Longrightarrow>
   f32_le (path_cost graph ctx f32_zero as) (path_cost graph ctx f32_zero bs)"
  using path_cost_nonneg [OF f32_zero_facts(1), of graph ctx as] path_cost_nonneg [OF f32_zero_facts(1), of graph ctx bs]
  by (simp add: f32_le_def f32_nonneg_def)

lemma dij_done_none:
  assumes "dij_done graph ctx start end n None"
  shows "\<not> chain graph ctx start ns end"
proof
  assume ch: "chain graph ctx start ns end"
  obtain xs c s where inv: "dij_inv graph ctx start xs (nbrs graph ctx) c s" and "end \<notin> set xs" and H: "dj_heap s = []"
    using assms by (auto simp: dij_done_def)
  have all: "v \<in> set xs" if "fmlookup (dj_dist s) v = Some d" for v d
    using inv_count [OF inv that] H by (auto split: if_splits)
  then show False
    using chain_lower_bound [OF inv _ \<open>end \<notin> set xs\<close> inv_start [OF inv], where m = f32_zero and acc = f32_zero and ns = ns] ch by fastforce
qed

lemma dij_done_some:
  assumes "dij_done graph ctx start end n (Some P)" and "n < fuel"
  shows "\<exists>p. reconstruct_path fuel start end P = Some p \<and> path_result_ok graph ctx start end (Some p)"
proof -
  obtain xs c s d where inv: "dij_inv graph ctx start xs (nbrs graph ctx) c s" and e: "end \<notin> set xs" "length xs \<le> n"
    and P: "P = dj_parent s" and d: "fmlookup (dj_dist s) end = Some d"
    and least: "\<forall>(c', v) \<in> set (dj_heap s). f32_key d \<le> f32_key c'"
    using assms(1) by (auto simp: dij_done_def)
  have "\<forall>p. fmlookup (dj_parent s) end = Some p \<longrightarrow> pi_from p \<in> set (take (length xs) xs)"
    using inv_parent [OF inv] by simp
  then obtain sts where sts: "reconstruct_path fuel start end P = Some (bare_step start # sts)"
    "steps_ok graph ctx start sts" "steps_end start sts = end" "d = path_cost graph ctx f32_zero (map ps_node sts)"
    using reconstruct_ok [OF inv d, of "length xs" fuel "[]"] e(2) assms(2) P by (auto simp: reconstruct_path_def)
  have "f32_key d \<le> f32_key (path_cost graph ctx f32_zero ns)" if "chain graph ctx start ns end" for ns
  proof -
    have "f32_key d \<le> f32_key dv" if "fmlookup (dj_dist s) v = Some dv" "v \<notin> set xs" for v dv
    proof -
      have "(dv, v) \<in> set (dj_heap s)" using inv_count [OF inv that(1)] that(2)
        by (metis count_mset_0_iff zero_neq_one)
      then show ?thesis using least by blast
    qed
    from chain_lower_bound [OF inv this e(1) inv_start [OF inv], where acc = f32_zero and ns = ns] that show ?thesis by simp
  qed
  then show ?thesis using sts by (auto simp: path_result_ok_def path_cost_le)
qed

lemma find_path_returns:
  assumes "heap_pop_ok hp" and "finite (expandable graph ctx)" and "search_size graph ctx \<le> fuel"
  shows "\<exists>r. find_path fuel hp graph ctx start end = Some r \<and> path_result_ok graph ctx start end r"
proof (cases "start = end")
  case True
  have "f32_key f32_zero \<le> f32_key (path_cost graph ctx f32_zero ns)" for ns
    using path_cost_nonneg [of f32_zero graph ctx ns] by simp
  then have "f32_le f32_zero (path_cost graph ctx f32_zero ns)" for ns
    using path_cost_le [of graph ctx "[]" ns] by simp
  then have "path_result_ok graph ctx start end (Some [bare_step start])"
    using True by (simp add: path_result_ok_def)
  then show ?thesis using True by (simp add: find_path_def)
next
  case False
  have left: "search_left graph ctx [] + 3 = search_size graph ctx" by (simp add: search_left_def search_size_def)
  obtain r where r: "dijkstra_loop fuel hp graph ctx (overlay_index_build ctx) end (dijkstra_start start) = Some r"
    and d: "dij_done graph ctx start end (fuel - 1) r"
  proof -
    have len: "length (dj_heap (dijkstra_start start)) = 1" by (simp add: dijkstra_start_def)
    have "end \<notin> set []" "length (dj_heap (dijkstra_start start)) + search_left graph ctx [] < fuel"
      "length ([] :: string list) + length (dj_heap (dijkstra_start start)) + search_left graph ctx [] \<le> fuel - 1"
      using left assms(3) unfolding len by simp_all
    from dijkstra_loop_returns [OF assms(1,2) dij_inv_start this] show ?thesis using that by blast
  qed
  show ?thesis
  proof (cases r)
    case None
    then have "path_result_ok graph ctx start end None" using d dij_done_none by (auto simp: path_result_ok_def)
    then show ?thesis using False r None by (simp add: find_path_def)
  next
    case (Some P)
    then obtain p where "reconstruct_path fuel start end P = Some p" "path_result_ok graph ctx start end (Some p)"
      using dij_done_some [of graph ctx start "end" "fuel - 1" P fuel] d assms(3) by (auto simp: search_size_def)
    then show ?thesis using False r Some by (simp add: find_path_def)
  qed
qed

text \<open>Over a view of a graph only finitely many names have neighbours.\<close>

lemma finite_expandable:
  assumes "accessor_ok A N E"
  shows "finite (expandable A ctx)"
proof -
  have "expandable A ctx \<subseteq> dom N \<union> fst ` set (overlay_edges ctx)"
  proof
    fix u assume "u \<in> expandable A ctx"
    then have "nbrs A ctx u \<noteq> []" by (simp add: expandable_def)
    then obtain ne where ne: "ne \<in> set (nbrs A ctx u)" using hd_in_set by blast
    from expansion_sound [OF ne] show "u \<in> dom N \<union> fst ` set (overlay_edges ctx)"
      using accessor_ok_get [OF assms] by (cases "ne_is_overlay ne") force+
  qed
  then show ?thesis by (rule finite_subset) (simp add: accessor_ok_finite [OF assms])
qed

text \<open>A heap with the contract: remove the first least entry of the list.\<close>

fun heap_min :: "dijkstra_entry \<Rightarrow> dijkstra_entry list \<Rightarrow> dijkstra_entry \<times> dijkstra_entry list" where
  "heap_min m [] = (m, [])"
| "heap_min m (x # xs) =
     (if fst x < fst m then let (b, r) = heap_min x xs in (b, m # r) else let (b, r) = heap_min m xs in (b, x # r))"

definition list_heap_pop :: "dijkstra_entry list \<Rightarrow> (dijkstra_entry \<times> dijkstra_entry list) option" where
  "list_heap_pop h = (case h of [] \<Rightarrow> None | x # xs \<Rightarrow> Some (heap_min x xs))"

lemma heap_min_ok:
  "heap_min m xs = (b, r) \<Longrightarrow> mset (m # xs) = add_mset b (mset r) \<and> (\<forall>x \<in> set (m # xs). fst b \<le> fst x)"
proof (induction m xs arbitrary: b r rule: heap_min.induct)
  case (2 m x xs)
  show ?case
  proof (cases "fst x < fst m")
    case True
    then obtain r' where "heap_min x xs = (b, r')" "r = m # r'" using 2(3) by (auto split: prod.splits)
    with 2(1) [OF True] True show ?thesis by fastforce
  next
    case False
    then obtain r' where "heap_min m xs = (b, r')" "r = x # r'" using 2(3) by (auto split: prod.splits)
    with 2(2) [OF False] False show ?thesis by fastforce
  qed
qed simp

lemma list_heap_pop_ok: "heap_pop_ok list_heap_pop"
  unfolding heap_pop_ok_def
proof (intro conjI allI impI)
  show "list_heap_pop h = None \<longleftrightarrow> h = []" for h by (cases h) (simp_all add: list_heap_pop_def)
  fix h e h' assume "list_heap_pop h = Some (e, h')"
  then obtain x xs where "h = x # xs" "heap_min x xs = (e, h')" by (cases h) (auto simp: list_heap_pop_def)
  with heap_min_ok [of x xs e h'] show "mset h = add_mset e (mset h')" "\<forall>x \<in> set h. fst e \<le> fst x" by simp_all
qed

end
