(* ===== verification/OG_Subgraph.thy ===== *)
theory OG_Subgraph
  imports OG_Dijkstra
begin

text \<open>
  The two traversals that return subgraphs: the contextual subgraph around the boosted seeds, and
  the intersection of several beams. Their nodes are exactly described, their edges are visible and
  have their endpoints kept, and the result does not depend on hash iteration order.
\<close>

section \<open>Contextual subgraph\<close>

definition subgraph_inv :: "accessor \<Rightarrow> dynamic_context \<Rightarrow> subgraph_state \<Rightarrow> bool" where
  "subgraph_inv graph ctx s \<longleftrightarrow>
     distinct (map nr_name (ss_nodes s)) \<and>
     (\<forall>r \<in> set (ss_nodes s). nr_name r |\<in>| ss_set s \<and> node_score graph ctx (nr_name r) = Some r) \<and>
     (\<forall>n. n |\<in>| ss_set s \<longrightarrow> node_score graph ctx n \<noteq> None \<longrightarrow> n \<in> nr_name ` set (ss_nodes s)) \<and>
     (\<forall>e \<in> set (ss_edges s). \<exists>nb \<in> set (nbrs graph ctx (er_source e)). e = result_edge (er_source e) nb)"

lemma er_source_result_edge [simp]: "er_source (result_edge n nb) = n" "er_target (result_edge n nb) = ne_name nb"
  "er_kind (result_edge n nb) = ne_edge_kind nb"
  by (simp_all add: result_edge_def)

lemma result_edge_fields:
  "er_valid_from (result_edge n nb) = ne_valid_from nb" "er_valid_to (result_edge n nb) = ne_valid_to nb"
  "er_acl (result_edge n nb) = ne_acl nb"
  by (simp_all add: result_edge_def)

lemma subgraph_neighbor_inv:
  assumes names: "names_ok graph" and inv: "subgraph_inv graph ctx s" and nb: "nb \<in> set (nbrs graph ctx seed)"
  shows "subgraph_inv graph ctx (subgraph_neighbor graph ctx (overlay_index_build ctx) seed s nb) \<and>
    ss_set s |\<subseteq>| ss_set (subgraph_neighbor graph ctx (overlay_index_build ctx) seed s nb)"
proof (cases "ne_name nb |\<in>| ss_set s")
  case True
  then show ?thesis using inv nb by (auto simp: subgraph_neighbor_def subgraph_inv_def)
next
  case False
  then have new: "ne_name nb \<notin> nr_name ` set (ss_nodes s)" using inv by (auto simp: subgraph_inv_def)
  show ?thesis
  proof (cases "node_score graph ctx (ne_name nb)")
    case None
    then show ?thesis using False inv nb
      by (auto simp: subgraph_neighbor_def subgraph_inv_def simp flip: node_score_def)
  next
    case (Some r)
    then show ?thesis using False inv nb new node_score_name [OF names Some]
      by (auto simp: subgraph_neighbor_def subgraph_inv_def simp flip: node_score_def)
  qed
qed

lemma subgraph_neighbors_inv:
  assumes "names_ok graph" and "subgraph_inv graph ctx s" and "set nbs \<subseteq> set (nbrs graph ctx seed)"
  shows "subgraph_inv graph ctx (foldl (subgraph_neighbor graph ctx (overlay_index_build ctx) seed) s nbs) \<and>
    ss_set s |\<subseteq>| ss_set (foldl (subgraph_neighbor graph ctx (overlay_index_build ctx) seed) s nbs)"
  using assms(2,3)
proof (induction nbs arbitrary: s)
  case (Cons nb nbs)
  then show ?case using subgraph_neighbor_inv [OF assms(1) Cons.prems(1), of nb seed]
    by (auto intro: order.trans)
qed simp

lemma subgraph_seed_inv:
  assumes "names_ok graph" and "subgraph_inv graph ctx s"
  shows "subgraph_inv graph ctx (subgraph_seed graph ctx (overlay_index_build ctx) s seed) \<and>
    ss_set s |\<subseteq>| ss_set (subgraph_seed graph ctx (overlay_index_build ctx) s seed) \<and>
    (node_score graph ctx seed \<noteq> None \<longrightarrow>
       seed |\<in>| ss_set (subgraph_seed graph ctx (overlay_index_build ctx) s seed))"
proof (cases "seed |\<in>| ss_set s \<or> node_score graph ctx seed = None")
  case True
  then show ?thesis using assms(2)
    by (auto simp: subgraph_seed_def simp flip: node_score_def split: option.splits)
next
  case False
  then obtain r where r: "node_score graph ctx seed = Some r" and f: "seed |\<notin>| ss_set s" by auto
  let ?s = "s\<lparr>ss_set := finsert seed (ss_set s), ss_nodes := ss_nodes s @ [r]\<rparr>"
  have "seed \<notin> nr_name ` set (ss_nodes s)" using assms(2) f by (auto simp: subgraph_inv_def)
  then have "subgraph_inv graph ctx ?s"
    using assms(2) r node_score_name [OF assms(1) r] by (auto simp: subgraph_inv_def)
  from subgraph_neighbors_inv [OF assms(1) this order_refl, of seed] show ?thesis
    using f r by (auto simp: subgraph_seed_def simp flip: node_score_def)
qed

lemma subgraph_seeds_inv:
  fixes seeds :: "string list"
  assumes "names_ok graph" and "subgraph_inv graph ctx s"
  defines "s' \<equiv> foldl (subgraph_seed graph ctx (overlay_index_build ctx)) s seeds"
  shows "subgraph_inv graph ctx s' \<and> ss_set s |\<subseteq>| ss_set s' \<and>
    (\<forall>n \<in> set seeds. node_score graph ctx n \<noteq> None \<longrightarrow> n |\<in>| ss_set s')"
  using assms(2) unfolding s'_def
proof (induction seeds arbitrary: s)
  case (Cons x seeds)
  note x = subgraph_seed_inv [OF assms(1) Cons.prems, of x]
  from Cons.IH [OF conjunct1 [OF x]] x show ?case by auto
qed simp

lemma boost_seeds_order:
  assumes "hash_order ho"
  shows "boost_seeds ho ctx k = boost_seeds id ctx k"
  unfolding boost_seeds_def
  using sort_key_mset_cong [OF mset_fm_keys [OF assms, of "semantic_boosts ctx"],
      where f = "\<lambda>n. rank_key (the (fmlookup (semantic_boosts ctx) n)) n"]
  by (simp add: inj_on_def rank_key_def)

definition subgraph_ok :: "accessor \<Rightarrow> dynamic_context \<Rightarrow> sub_graph \<Rightarrow> bool" where
  "subgraph_ok graph ctx g \<longleftrightarrow>
     distinct (map nr_name (sg_nodes g)) \<and>
     (\<forall>r \<in> set (sg_nodes g). node_score graph ctx (nr_name r) = Some r) \<and>
     (\<forall>e \<in> set (sg_edges g).
        er_source e \<in> nr_name ` set (sg_nodes g) \<and> er_target e \<in> nr_name ` set (sg_nodes g) \<and>
        is_edge_visible ctx (er_valid_from e) (er_valid_to e) (er_acl e))"

lemma contextual_subgraph_ok:
  assumes "names_ok graph"
  shows "subgraph_ok graph ctx (contextual_subgraph ho graph ctx k)"
    and "n \<in> set (boost_seeds ho ctx k) \<Longrightarrow> node_score graph ctx n \<noteq> None \<Longrightarrow>
      n \<in> nr_name ` set (sg_nodes (contextual_subgraph ho graph ctx k))"
proof -
  let ?init = "\<lparr>ss_set = {||}, ss_nodes = [], ss_edges = []\<rparr>"
  let ?s = "foldl (subgraph_seed graph ctx (overlay_index_build ctx)) ?init (boost_seeds ho ctx k)"
  have "subgraph_inv graph ctx ?init" by (simp add: subgraph_inv_def)
  note seeds = subgraph_seeds_inv [OF assms this, of "boost_seeds ho ctx k"]
  have i: "subgraph_inv graph ctx ?s"
    "\<forall>n \<in> set (boost_seeds ho ctx k). node_score graph ctx n \<noteq> None \<longrightarrow> n |\<in>| ss_set ?s"
    using seeds by blast+
  have nodes: "sg_nodes (contextual_subgraph ho graph ctx k) = rank_sort (ss_nodes ?s)"
    and edges: "set (sg_edges (contextual_subgraph ho graph ctx k)) =
      {e \<in> set (ss_edges ?s). er_source e \<in> nr_name ` set (ss_nodes ?s) \<and> er_target e \<in> nr_name ` set (ss_nodes ?s)}"
    by (simp_all add: contextual_subgraph_def Let_def)
  have "mset (map nr_name (rank_sort (ss_nodes ?s))) = mset (map nr_name (ss_nodes ?s))" by (simp add: rank_sort_def)
  then have "distinct (map nr_name (rank_sort (ss_nodes ?s)))"
    using i(1) unfolding subgraph_inv_def by (metis mset_eq_imp_distinct_iff)
  moreover have "is_edge_visible ctx (er_valid_from e) (er_valid_to e) (er_acl e)" if e: "e \<in> set (ss_edges ?s)" for e
  proof -
    obtain nb where nb: "nb \<in> set (nbrs graph ctx (er_source e))" "e = result_edge (er_source e) nb"
      using i(1) e unfolding subgraph_inv_def by blast
    have "er_valid_from e = ne_valid_from nb \<and> er_valid_to e = ne_valid_to nb \<and> er_acl e = ne_acl nb"
      using nb(2) result_edge_fields by metis
    then show ?thesis using nb(1) by (simp add: neighbors_with_overlay_indexed_def)
  qed
  ultimately show "subgraph_ok graph ctx (contextual_subgraph ho graph ctx k)"
    using i(1) unfolding subgraph_ok_def nodes edges by (simp add: subgraph_inv_def)
  show "n \<in> nr_name ` set (sg_nodes (contextual_subgraph ho graph ctx k))"
    if "n \<in> set (boost_seeds ho ctx k)" "node_score graph ctx n \<noteq> None"
    using that i unfolding nodes by (auto simp: subgraph_inv_def)
qed

lemma contextual_subgraph_order:
  "hash_order ho \<Longrightarrow> contextual_subgraph ho graph ctx k = contextual_subgraph id graph ctx k"
  by (simp add: contextual_subgraph_def boost_seeds_order)

section \<open>The heatmap\<close>

definition hits :: "node_result list list \<Rightarrow> string \<Rightarrow> nat" where
  "hits beams n = length (filter (\<lambda>rs. n \<in> nr_name ` set rs) beams)"

lemma heat_result_simps:
  "hm_hit_count (snd (heat_result (seen, h) r)) =
     (if nr_name r |\<in>| seen then hm_hit_count h
      else fmupd (nr_name r) (fm_get 0 (hm_hit_count h) (nr_name r) + 1) (hm_hit_count h))"
  "hm_best_result (snd (heat_result (seen, h) r)) = level_insert (nr_name r) r (hm_best_result h)"
  "fst (heat_result (seen, h) r) = finsert (nr_name r) seen"
  by (simp_all add: heat_result_def Let_def)

lemma fm_get_fmupd: "fm_get d (fmupd k v m) n = (if n = k then v else fm_get d m n)"
  by (simp add: fm_get_def)

lemma heat_results_hits:
  "fm_get 0 (hm_hit_count (snd (foldl heat_result (seen, h) rs))) n =
     fm_get 0 (hm_hit_count h) n + (if n |\<notin>| seen \<and> n \<in> nr_name ` set rs then 1 else 0)"
proof (induction rs arbitrary: seen h)
  case (Cons r rs)
  obtain s' h' where sh: "heat_result (seen, h) r = (s', h')" by (cases "heat_result (seen, h) r")
  note f = heat_result_simps [of seen h r, unfolded sh, simplified]
  show ?case using Cons.IH [of s' h'] f by (auto simp: sh fm_get_fmupd)
qed simp

lemma heat_results_dom:
  "fset (fmdom (hm_hit_count (snd (foldl heat_result (seen, h) rs)))) =
     fset (fmdom (hm_hit_count h)) \<union> (nr_name ` set rs - fset seen)"
proof (induction rs arbitrary: seen h)
  case (Cons r rs)
  obtain s' h' where sh: "heat_result (seen, h) r = (s', h')" by (cases "heat_result (seen, h) r")
  note f = heat_result_simps [of seen h r, unfolded sh, simplified]
  show ?case using Cons.IH [of s' h'] f by (auto simp: sh)
qed simp

lemma heat_all_hits: "fm_get 0 (hm_hit_count (heat_all beams)) n = hits beams n"
  and heat_all_dom: "fset (fmdom (hm_hit_count (heat_all beams))) = {n. 0 < hits beams n}"
proof -
  have "fm_get 0 (hm_hit_count (foldl heat_beam h beams)) n = fm_get 0 (hm_hit_count h) n + hits beams n" for h
    by (induction beams arbitrary: h) (simp_all add: heat_beam_def heat_results_hits hits_def)
  then show "fm_get 0 (hm_hit_count (heat_all beams)) n = hits beams n" by (simp add: heat_all_def fm_get_def)
  have "fset (fmdom (hm_hit_count (foldl heat_beam h beams))) = fset (fmdom (hm_hit_count h)) \<union> {n. 0 < hits beams n}" for h
    by (induction beams arbitrary: h) (auto simp: heat_beam_def heat_results_dom hits_def split: if_splits)
  then show "fset (fmdom (hm_hit_count (heat_all beams))) = {n. 0 < hits beams n}" by (simp add: heat_all_def)
qed

text \<open>Every beam scores a name the same way, so the best result is that score.\<close>

definition scored :: "accessor \<Rightarrow> dynamic_context \<Rightarrow> node_result list \<Rightarrow> bool" where
  "scored graph ctx rs \<longleftrightarrow> (\<forall>r \<in> set rs. node_score graph ctx (nr_name r) = Some r)"

lemma heat_results_best:
  assumes "scored graph ctx rs" and "fmlookup (hm_best_result h) = (\<lambda>n. if n \<in> S then node_score graph ctx n else None)"
  shows "fmlookup (hm_best_result (snd (foldl heat_result (seen, h) rs))) =
    (\<lambda>n. if n \<in> S \<union> nr_name ` set rs then node_score graph ctx n else None)"
  using assms
proof (induction rs arbitrary: seen h S)
  case (Cons r rs)
  obtain s' h' where sh: "heat_result (seen, h) r = (s', h')" by (cases "heat_result (seen, h) r")
  note f = heat_result_simps [of seen h r, unfolded sh, simplified]
  have r: "node_score graph ctx (nr_name r) = Some r" using Cons.prems(1) by (simp add: scored_def)
  have "fmlookup (hm_best_result h) (nr_name r) \<in> {None, Some r}" using Cons.prems(2) r by simp
  then have "fmlookup (hm_best_result h') = (\<lambda>n. if n \<in> insert (nr_name r) S then node_score graph ctx n else None)"
    using f(2) r Cons.prems(2) by (auto simp: level_insert_same)
  from Cons.IH [OF _ this, of s'] Cons.prems(1) show ?case by (simp add: sh scored_def)
qed simp

lemma heat_all_best:
  assumes "\<forall>rs \<in> set beams. scored graph ctx rs"
  shows "fmlookup (hm_best_result (heat_all beams)) = (\<lambda>n. if 0 < hits beams n then node_score graph ctx n else None)"
proof -
  have *: "fmlookup (hm_best_result (foldl heat_beam h bs)) =
      (\<lambda>n. if n \<in> S \<or> 0 < hits bs n then node_score graph ctx n else None)"
    if "fmlookup (hm_best_result h) = (\<lambda>n. if n \<in> S then node_score graph ctx n else None)"
      "\<forall>rs \<in> set bs. scored graph ctx rs" for h S bs
    using that
  proof (induction bs arbitrary: h S)
    case (Cons rs bs)
    have "fmlookup (hm_best_result (heat_beam h rs)) =
        (\<lambda>n. if n \<in> S \<union> nr_name ` set rs then node_score graph ctx n else None)"
      unfolding heat_beam_def using Cons.prems by (intro heat_results_best) auto
    from Cons.IH [OF this] Cons.prems(2) show ?case by (auto simp: hits_def fun_eq_iff)
  qed (simp add: hits_def)
  show ?thesis unfolding heat_all_def
    by (subst * [where S = "{}"]) (use assms in \<open>auto simp: fun_eq_iff\<close>)
qed

section \<open>The kept nodes\<close>

definition kept_names :: "string list \<Rightarrow> nat \<Rightarrow> node_result list list \<Rightarrow> string set" where
  "kept_names start_nodes threshold beams =
     set start_nodes \<union> {n. 0 < hits beams n \<and> threshold \<le> hits beams n}"

definition filter_inv ::
  "accessor \<Rightarrow> dynamic_context \<Rightarrow> node_result list list \<Rightarrow> string set \<Rightarrow> filter_state \<Rightarrow> bool" where
  "filter_inv graph ctx beams S s \<longleftrightarrow>
     fset (fs_set s) = S \<and>
     fmlookup (fs_best s) = (\<lambda>n. if 0 < hits beams n \<and> n \<notin> S then node_score graph ctx n else None) \<and>
     distinct (map nr_name (fs_nodes s)) \<and> scored graph ctx (fs_nodes s) \<and>
     nr_name ` set (fs_nodes s) = {n \<in> S. node_score graph ctx n \<noteq> None}"

lemma filter_inv_add:
  assumes "names_ok graph" and "filter_inv graph ctx beams S s" and "n \<notin> S" and "node_score graph ctx n = Some r"
  shows "filter_inv graph ctx beams (insert n S)
    (s\<lparr>fs_set := finsert n (fs_set s), fs_best := fmdrop n (fs_best s), fs_nodes := fs_nodes s @ [r]\<rparr>)"
proof -
  have "nr_name r = n" by (rule node_score_name [OF assms(1,4)])
  moreover have "n \<notin> nr_name ` set (fs_nodes s)" using assms(2,3) by (simp add: filter_inv_def)
  ultimately show ?thesis using assms(2,4) by (auto simp: filter_inv_def scored_def fun_eq_iff)
qed

lemma keep_start_inv:
  assumes "names_ok graph" and inv: "filter_inv graph ctx beams S s"
  shows "filter_inv graph ctx beams (insert n S) (keep_start graph ctx (overlay_index_build ctx) s n)"
proof (cases "n \<in> S")
  case True
  then show ?thesis using inv by (simp add: keep_start_def filter_inv_def insert_absorb)
next
  case False
  then have new: "n |\<notin>| fs_set s" using inv by (simp add: filter_inv_def)
  show ?thesis
  proof (cases "node_score graph ctx n")
    case None
    then have "fmlookup (fs_best s) n = None" using inv by (simp add: filter_inv_def)
    then have "keep_start graph ctx (overlay_index_build ctx) s n = s\<lparr>fs_set := finsert n (fs_set s)\<rparr>"
      using new None by (simp add: keep_start_def Let_def flip: node_score_def)
    then show ?thesis using inv None by (auto simp: filter_inv_def fun_eq_iff)
  next
    case (Some r)
    have best: "fmlookup (fs_best s) n = (if 0 < hits beams n then Some r else None)"
      using inv False Some by (simp add: filter_inv_def)
    have drop: "fmdrop n (fs_best s) = fs_best s" if "fmlookup (fs_best s) n = None"
      using that by (intro fmap_ext) auto
    have "keep_start graph ctx (overlay_index_build ctx) s n =
        s\<lparr>fs_set := finsert n (fs_set s), fs_best := fmdrop n (fs_best s), fs_nodes := fs_nodes s @ [r]\<rparr>"
      using new Some best drop by (simp add: keep_start_def Let_def flip: node_score_def)
    then show ?thesis using filter_inv_add [OF assms(1) inv False Some] by simp
  qed
qed

lemma keep_hit_inv:
  assumes "names_ok graph" and inv: "filter_inv graph ctx beams S s" and "\<forall>rs \<in> set beams. scored graph ctx rs"
    and "0 < hits beams n" and count: "\<And>n. fm_get 0 hc n = hits beams n"
  shows "filter_inv graph ctx beams (if threshold \<le> hits beams n \<and> n \<notin> set starts then insert n S else S)
    (keep_hit starts threshold hc s n)"
proof (cases "threshold \<le> hits beams n \<and> n \<notin> set starts")
  case True
  show ?thesis
  proof (cases "n \<in> S")
    case True
    then have "fmlookup (fs_best s) n = None" using inv by (simp add: filter_inv_def)
    then show ?thesis using inv True by (auto simp: keep_hit_def insert_absorb)
  next
    case False
    obtain rs where "rs \<in> set beams" "n \<in> nr_name ` set rs"
      using assms(4) by (auto simp: hits_def filter_empty_conv)
    then obtain r where r: "node_score graph ctx n = Some r" using assms(3) by (auto simp: scored_def)
    have "fmlookup (fs_best s) n = Some r" "n |\<notin>| fs_set s"
      using inv False assms(4) r by (simp_all add: filter_inv_def)
    then have "keep_hit starts threshold hc s n =
        s\<lparr>fs_set := finsert n (fs_set s), fs_best := fmdrop n (fs_best s), fs_nodes := fs_nodes s @ [r]\<rparr>"
      using True by (simp add: keep_hit_def count Let_def)
    then show ?thesis using filter_inv_add [OF assms(1) inv False r] True by simp
  qed
next
  case False
  then show ?thesis using inv by (auto simp: keep_hit_def count)
qed

lemma kept_filter:
  assumes "names_ok graph" and "hash_order ho" and "\<forall>rs \<in> set beams. scored graph ctx rs"
  shows "filter_inv graph ctx beams (kept_names starts threshold beams)
    (foldl (keep_hit starts threshold (hm_hit_count (heat_all beams)))
      (foldl (keep_start graph ctx (overlay_index_build ctx))
        \<lparr>fs_best = hm_best_result (heat_all beams), fs_set = {||}, fs_nodes = []\<rparr> starts)
      (fm_keys ho (hm_hit_count (heat_all beams))))"
proof -
  have "filter_inv graph ctx beams {} \<lparr>fs_best = hm_best_result (heat_all beams), fs_set = {||}, fs_nodes = []\<rparr>"
    by (simp add: filter_inv_def scored_def heat_all_best [OF assms(3)])
  moreover have "filter_inv graph ctx beams (S \<union> set ss)
      (foldl (keep_start graph ctx (overlay_index_build ctx)) s ss)"
    if "filter_inv graph ctx beams S s" for S s ss
    using that
  proof (induction ss arbitrary: S s)
    case (Cons x ss)
    from Cons.IH [OF keep_start_inv [OF assms(1) Cons.prems, of x]] show ?case by simp
  qed simp
  ultimately have 1: "filter_inv graph ctx beams (set starts) (foldl (keep_start graph ctx (overlay_index_build ctx))
        \<lparr>fs_best = hm_best_result (heat_all beams), fs_set = {||}, fs_nodes = []\<rparr> starts)"
    by fastforce
  have 2: "filter_inv graph ctx beams (S \<union> {n \<in> set ns. threshold \<le> hits beams n \<and> n \<notin> set starts})
      (foldl (keep_hit starts threshold (hm_hit_count (heat_all beams))) s ns)"
    if "filter_inv graph ctx beams S s" "\<forall>n \<in> set ns. 0 < hits beams n" for S s ns
    using that
  proof (induction ns arbitrary: S s)
    case (Cons x ns)
    have x: "0 < hits beams x" using Cons.prems(2) by simp
    note IH = Cons.IH [OF keep_hit_inv [OF assms(1) Cons.prems(1) assms(3) x heat_all_hits], of threshold starts]
    have "(if threshold \<le> hits beams x \<and> x \<notin> set starts then insert x S else S) \<union>
        {n \<in> set ns. threshold \<le> hits beams n \<and> n \<notin> set starts} =
      S \<union> {n \<in> set (x # ns). threshold \<le> hits beams n \<and> n \<notin> set starts}" by auto
    with IH Cons.prems(2) show ?case by simp
  qed simp
  have keys: "set (fm_keys ho (hm_hit_count (heat_all beams))) = {n. 0 < hits beams n}"
    by (simp add: set_fm_keys [OF assms(2)] heat_all_dom)
  have "set starts \<union> {n \<in> {n. 0 < hits beams n}. threshold \<le> hits beams n \<and> n \<notin> set starts} =
      kept_names starts threshold beams" by (auto simp: kept_names_def)
  then show ?thesis using 2 [OF 1, of "fm_keys ho (hm_hit_count (heat_all beams))"] by (simp add: keys)
qed

section \<open>The rebuilt edges\<close>

text \<open>The edges offered for one kept node, in the order they are pushed.\<close>

definition edge_offers :: "accessor \<Rightarrow> dynamic_context \<Rightarrow> string fset \<Rightarrow> string \<Rightarrow> edge_result list" where
  "edge_offers graph ctx kept n =
     map (\<lambda>nb. result_edge n (base_entry nb))
       (filter (\<lambda>nb. is_edge_visible ctx (nb_valid_from nb) (nb_valid_to nb) (nb_acl nb) \<and> nb_target_name nb |\<in>| kept)
         (acc_outgoing graph n)) @
     map (\<lambda>x. result_edge n (overlay_entry x))
       (filter (\<lambda>x. edge_visible ctx (snd (snd x)) \<and> fst x = n \<and> fst (snd x) |\<in>| kept) (overlay_edges ctx))"

definition first_by_key :: "edge_result list \<Rightarrow> edge_result \<Rightarrow> bool" where
  "first_by_key es e \<longleftrightarrow> List.find (\<lambda>x. edge_key x = edge_key e) es = Some e"

lemma push_all:
  defines "s' s es \<equiv> foldl (\<lambda>s e. push_edge e s) s es"
  assumes "distinct (map edge_key (es_edges s))" and "fset (es_seen s) = edge_key ` set (es_edges s)"
  shows "distinct (map edge_key (es_edges (s' s es))) \<and>
    fset (es_seen (s' s es)) = edge_key ` set (es_edges (s' s es)) \<and>
    set (es_edges (s' s es)) = set (es_edges s) \<union> {e. edge_key e |\<notin>| es_seen s \<and> first_by_key es e}"
  using assms(2,3) unfolding s'_def
proof (induction es arbitrary: s)
  case Nil
  then show ?case by (simp add: first_by_key_def)
next
  case (Cons x es)
  let ?s = "push_edge x s"
  have 1: "distinct (map edge_key (es_edges ?s))" "fset (es_seen ?s) = edge_key ` set (es_edges ?s)"
    using Cons.prems by (auto simp: push_edge_def)
  have "set (es_edges ?s) \<union> {e. edge_key e |\<notin>| es_seen ?s \<and> first_by_key es e} =
      set (es_edges s) \<union> {e. edge_key e |\<notin>| es_seen s \<and> first_by_key (x # es) e}"
    using Cons.prems by (auto simp: push_edge_def first_by_key_def split: if_splits)
  with Cons.IH [OF 1] show ?case by simp
qed

lemma rebuild_edges_push:
  "rebuild_edges ho graph ctx kept =
     es_edges (foldl (\<lambda>s e. push_edge e s) \<lparr>es_seen = {||}, es_edges = []\<rparr>
       (concat (map (edge_offers graph ctx kept) (fs_elems ho kept))))"
proof -
  have base: "foldl (rebuild_base_edge ctx kept n) s nbs = foldl (\<lambda>s e. push_edge e s) s
      (map (\<lambda>nb. result_edge n (base_entry nb))
        (filter (\<lambda>nb. is_edge_visible ctx (nb_valid_from nb) (nb_valid_to nb) (nb_acl nb) \<and> nb_target_name nb |\<in>| kept) nbs))"
    for n s nbs by (induction nbs arbitrary: s) (simp_all add: rebuild_base_edge_def)
  have over: "foldl (rebuild_overlay_edge ctx kept n) s xs = foldl (\<lambda>s e. push_edge e s) s
      (map (\<lambda>x. result_edge n (overlay_entry x))
        (filter (\<lambda>x. edge_visible ctx (snd (snd x)) \<and> fst x = n \<and> fst (snd x) |\<in>| kept) xs))" for n s xs
  proof (induction xs arbitrary: s)
    case (Cons x xs)
    then show ?case by (cases x) (auto simp: rebuild_overlay_edge_def edge_visible_def)
  qed simp
  have "foldl (\<lambda>s n. foldl (rebuild_overlay_edge ctx kept n)
         (foldl (rebuild_base_edge ctx kept n) s (acc_outgoing graph n)) (overlay_edges ctx)) s ns =
      foldl (\<lambda>s e. push_edge e s) s (concat (map (edge_offers graph ctx kept) ns))" for s ns
    by (induction ns arbitrary: s) (simp_all add: base over edge_offers_def)
  then show ?thesis by (simp add: rebuild_edges_def)
qed

lemma find_append: "List.find P (xs @ ys) = (case List.find P xs of None \<Rightarrow> List.find P ys | Some x \<Rightarrow> Some x)"
  by (induction xs) auto

lemma offer_source: "e \<in> set (edge_offers graph ctx kept n) \<Longrightarrow> er_source e = n"
  by (auto simp: edge_offers_def)

lemma first_in_offers:
  assumes "distinct ns"
  shows "first_by_key (concat (map (edge_offers graph ctx kept) ns)) e \<longleftrightarrow>
    er_source e \<in> set ns \<and> first_by_key (edge_offers graph ctx kept (er_source e)) e"
  using assms
proof (induction ns)
  case (Cons n ns)
  have other: "List.find (\<lambda>x. edge_key x = edge_key e) (edge_offers graph ctx kept n) = None" if "er_source e \<noteq> n"
    using that offer_source by (fastforce simp: find_None_iff edge_key_def)
  have none: "List.find (\<lambda>x. edge_key x = edge_key e) (concat (map (edge_offers graph ctx kept) ns)) = None" if "er_source e = n"
    using that Cons.prems offer_source by (fastforce simp: find_None_iff edge_key_def)
  show ?case using Cons other none
    by (cases "er_source e = n") (auto simp: first_by_key_def find_append split: option.splits)
qed (simp add: first_by_key_def)

lemma rebuild_edges_set:
  assumes "hash_order ho"
  shows "distinct (map edge_key (rebuild_edges ho graph ctx kept))"
    and "set (rebuild_edges ho graph ctx kept) =
      {e. er_source e |\<in>| kept \<and> first_by_key (edge_offers graph ctx kept (er_source e)) e}"
  using push_all [of "\<lparr>es_seen = {||}, es_edges = []\<rparr>" "concat (map (edge_offers graph ctx kept) (fs_elems ho kept))"]
    first_in_offers [OF distinct_fs_elems [OF assms, of kept], of graph ctx kept]
  by (simp_all add: rebuild_edges_push set_fs_elems [OF assms])

lemma rebuild_edges_order:
  assumes "hash_order ho"
  shows "sort_key edge_key (rebuild_edges ho graph ctx kept) = sort_key edge_key (rebuild_edges id graph ctx kept)"
proof (rule sort_key_mset_cong)
  note a = rebuild_edges_set [OF assms, of graph ctx kept] and b = rebuild_edges_set [OF hash_order_id(1), of graph ctx kept]
  have "distinct (rebuild_edges ho graph ctx kept)" "distinct (rebuild_edges id graph ctx kept)"
    using a(1) b(1) by (simp_all add: distinct_map)
  then show "mset (rebuild_edges ho graph ctx kept) = mset (rebuild_edges id graph ctx kept)"
    using a(2) b(2) by (simp add: set_eq_iff_mset_eq_distinct [symmetric])
  show "inj_on edge_key (set (rebuild_edges ho graph ctx kept))" using a(1) by (simp add: distinct_map)
qed

section \<open>Multi-beam intersection\<close>

definition beams_of ::
  "(string list \<Rightarrow> string list) \<Rightarrow> accessor \<Rightarrow> dynamic_context \<Rightarrow> string list \<Rightarrow> nat \<Rightarrow> nat \<Rightarrow> node_result list list" where
  "beams_of ho graph ctx starts k depth = map (\<lambda>start. beam_traverse ho graph ctx start k depth) starts"

definition beam_names ::
  "(string list \<Rightarrow> string list) \<Rightarrow> accessor \<Rightarrow> dynamic_context \<Rightarrow> string list \<Rightarrow> nat \<Rightarrow> nat \<Rightarrow> nat \<Rightarrow> string set" where
  "beam_names ho graph ctx starts k depth threshold =
     kept_names starts threshold (beams_of ho graph ctx starts k depth)"

lemma beams_scored:
  "names_ok graph \<Longrightarrow> hash_order ho \<Longrightarrow> \<forall>rs \<in> set (beams_of ho graph ctx starts k depth). scored graph ctx rs"
  using beam_shape(4) by (fastforce simp: beams_of_def scored_def)

lemma multi_beam_unfold:
  assumes "names_ok graph" and "hash_order ho"
  obtains s where "filter_inv graph ctx (beams_of ho graph ctx starts k depth) (beam_names ho graph ctx starts k depth threshold) s"
    and "multi_beam_intersection ho graph ctx starts k depth threshold =
      \<lparr>sg_nodes = sort_key (\<lambda>r. rank_key (fm_get f32_zero (hm_weight_sum (heat_all (beams_of ho graph ctx starts k depth))) (nr_name r)) (nr_name r)) (fs_nodes s),
       sg_edges = sort_key edge_key (rebuild_edges ho graph ctx (fs_set s))\<rparr>"
proof -
  let ?beams = "beams_of ho graph ctx starts k depth"
  let ?s = "foldl (keep_hit starts threshold (hm_hit_count (heat_all ?beams)))
      (foldl (keep_start graph ctx (overlay_index_build ctx))
        \<lparr>fs_best = hm_best_result (heat_all ?beams), fs_set = {||}, fs_nodes = []\<rparr> starts)
      (fm_keys ho (hm_hit_count (heat_all ?beams)))"
  show thesis
  proof (rule that)
    show "filter_inv graph ctx ?beams (beam_names ho graph ctx starts k depth threshold) ?s"
      unfolding beam_names_def by (rule kept_filter [OF assms beams_scored [OF assms]])
    show "multi_beam_intersection ho graph ctx starts k depth threshold =
      \<lparr>sg_nodes = sort_key (\<lambda>r. rank_key (fm_get f32_zero (hm_weight_sum (heat_all ?beams)) (nr_name r)) (nr_name r)) (fs_nodes ?s),
       sg_edges = sort_key edge_key (rebuild_edges ho graph ctx (fs_set ?s))\<rparr>"
      unfolding multi_beam_intersection_def Let_def beams_of_def by (rule refl)
  qed
qed

lemma multi_beam_nodes:
  fixes ho :: "string list \<Rightarrow> string list" and graph :: accessor and ctx :: dynamic_context
    and starts :: "string list" and k depth threshold :: nat
  assumes "names_ok graph" and "hash_order ho"
  defines "g \<equiv> multi_beam_intersection ho graph ctx starts k depth threshold"
  shows "nr_name ` set (sg_nodes g) = {n \<in> beam_names ho graph ctx starts k depth threshold. node_score graph ctx n \<noteq> None}"
    and "distinct (map nr_name (sg_nodes g))" and "r \<in> set (sg_nodes g) \<Longrightarrow> node_score graph ctx (nr_name r) = Some r"
proof -
  let ?beams = "beams_of ho graph ctx starts k depth"
  obtain s where inv: "filter_inv graph ctx ?beams (beam_names ho graph ctx starts k depth threshold) s"
    and g: "g = \<lparr>sg_nodes = sort_key (\<lambda>r. rank_key (fm_get f32_zero (hm_weight_sum (heat_all ?beams)) (nr_name r)) (nr_name r)) (fs_nodes s),
       sg_edges = sort_key edge_key (rebuild_edges ho graph ctx (fs_set s))\<rparr>"
    unfolding g_def by (rule multi_beam_unfold [OF assms(1,2)])
  have "mset (map nr_name (sg_nodes g)) = mset (map nr_name (fs_nodes s))" by (simp add: g)
  then show "distinct (map nr_name (sg_nodes g))"
    using inv unfolding filter_inv_def by (metis mset_eq_imp_distinct_iff)
  show "nr_name ` set (sg_nodes g) = {n \<in> beam_names ho graph ctx starts k depth threshold. node_score graph ctx n \<noteq> None}"
    and "r \<in> set (sg_nodes g) \<Longrightarrow> node_score graph ctx (nr_name r) = Some r"
    using inv by (simp_all add: g filter_inv_def scored_def)
qed

lemma offer_visible:
  assumes "e \<in> set (edge_offers graph ctx kept n)"
  shows "is_edge_visible ctx (er_valid_from e) (er_valid_to e) (er_acl e) \<and> er_target e |\<in>| kept \<and> er_source e = n"
  using assms
  by (auto simp: edge_offers_def result_edge_def base_entry_def overlay_entry_def edge_visible_def split: prod.splits)

lemma first_by_key_mem: "first_by_key es e \<Longrightarrow> e \<in> set es"
  by (auto simp: first_by_key_def find_Some_iff)

lemma first_by_key_ex: "e \<in> set es \<Longrightarrow> \<exists>e'. edge_key e' = edge_key e \<and> first_by_key es e'"
proof (induction es)
  case (Cons a es)
  show ?case
  proof (cases "edge_key a = edge_key e")
    case True
    then show ?thesis by (intro exI [of _ a]) (simp add: first_by_key_def)
  next
    case False
    then obtain e' where "edge_key e' = edge_key e" "first_by_key es e'" using Cons by auto
    then show ?thesis using False by (intro exI [of _ e']) (simp add: first_by_key_def)
  qed
qed simp

lemma multi_beam_edges:
  fixes ho :: "string list \<Rightarrow> string list" and graph :: accessor and ctx :: dynamic_context
    and starts :: "string list" and k depth threshold :: nat
  assumes "names_ok graph" and "hash_order ho"
  defines "g \<equiv> multi_beam_intersection ho graph ctx starts k depth threshold"
    and "K \<equiv> beam_names ho graph ctx starts k depth threshold"
  shows "e \<in> set (sg_edges g) \<Longrightarrow> er_source e \<in> K \<and> er_target e \<in> K \<and>
      is_edge_visible ctx (er_valid_from e) (er_valid_to e) (er_acl e)"
    and "distinct (map edge_key (sg_edges g))"
    and "nb \<in> set (acc_outgoing graph a) \<Longrightarrow> a \<in> K \<Longrightarrow> nb_target_name nb \<in> K \<Longrightarrow>
      is_edge_visible ctx (nb_valid_from nb) (nb_valid_to nb) (nb_acl nb) \<Longrightarrow>
      (a, nb_target_name nb, nb_edge_kind nb) \<in> edge_key ` set (sg_edges g)"
    and "(a, t, ed) \<in> set (overlay_edges ctx) \<Longrightarrow> a \<in> K \<Longrightarrow> t \<in> K \<Longrightarrow> edge_visible ctx ed \<Longrightarrow>
      (a, t, ed_kind ed) \<in> edge_key ` set (sg_edges g)"
proof -
  let ?beams = "beams_of ho graph ctx starts k depth"
  obtain s where inv: "filter_inv graph ctx ?beams K s"
    and g: "g = \<lparr>sg_nodes = sort_key (\<lambda>r. rank_key (fm_get f32_zero (hm_weight_sum (heat_all ?beams)) (nr_name r)) (nr_name r)) (fs_nodes s),
       sg_edges = sort_key edge_key (rebuild_edges ho graph ctx (fs_set s))\<rparr>"
    unfolding g_def K_def by (rule multi_beam_unfold [OF assms(1,2)])
  have K: "fset (fs_set s) = K" using inv by (simp add: filter_inv_def)
  have edges: "set (sg_edges g) = {e. er_source e \<in> K \<and> first_by_key (edge_offers graph ctx (fs_set s) (er_source e)) e}"
    by (simp add: g rebuild_edges_set [OF assms(2)] K)
  show "e \<in> set (sg_edges g) \<Longrightarrow> er_source e \<in> K \<and> er_target e \<in> K \<and>
      is_edge_visible ctx (er_valid_from e) (er_valid_to e) (er_acl e)"
  proof -
    assume "e \<in> set (sg_edges g)"
    then have src: "er_source e \<in> K" and "first_by_key (edge_offers graph ctx (fs_set s) (er_source e)) e"
      by (simp_all add: edges)
    from offer_visible [OF first_by_key_mem [OF this(2)]] src K show ?thesis by simp
  qed
  have "mset (map edge_key (sg_edges g)) = mset (map edge_key (rebuild_edges ho graph ctx (fs_set s)))" by (simp add: g)
  then show "distinct (map edge_key (sg_edges g))"
    using rebuild_edges_set(1) [OF assms(2)] by (metis mset_eq_imp_distinct_iff)
  have offered: "edge_key x \<in> edge_key ` set (sg_edges g)" if x: "x \<in> set (edge_offers graph ctx (fs_set s) a)" and a: "a \<in> K" for x
  proof -
    obtain e' where e': "edge_key e' = edge_key x" "first_by_key (edge_offers graph ctx (fs_set s) a) e'"
      using first_by_key_ex [OF x] by blast
    have "er_source e' = a" using offer_visible [OF first_by_key_mem [OF e'(2)]] by blast
    then have "e' \<in> set (sg_edges g)" using e'(2) a by (simp add: edges)
    then show ?thesis using e'(1) by (metis image_eqI)
  qed
  show "(a, nb_target_name nb, nb_edge_kind nb) \<in> edge_key ` set (sg_edges g)"
    if "nb \<in> set (acc_outgoing graph a)" "a \<in> K" "nb_target_name nb \<in> K"
      "is_edge_visible ctx (nb_valid_from nb) (nb_valid_to nb) (nb_acl nb)"
    using offered [of "result_edge a (base_entry nb)"] that K
    by (auto simp: edge_offers_def edge_key_def base_entry_def result_edge_def)
  show "(a, t, ed_kind ed) \<in> edge_key ` set (sg_edges g)"
    if "(a, t, ed) \<in> set (overlay_edges ctx)" "a \<in> K" "t \<in> K" "edge_visible ctx ed"
  proof -
    have "result_edge a (overlay_entry (a, t, ed)) \<in> set (edge_offers graph ctx (fs_set s) a)"
      using that K by (auto simp: edge_offers_def)
    from offered [OF this that(2)] show ?thesis by (simp add: edge_key_def overlay_entry_def result_edge_def)
  qed
qed

lemma multi_beam_order:
  assumes "names_ok graph" and "hash_order ho"
  shows "multi_beam_intersection ho graph ctx starts k depth threshold = multi_beam_intersection id graph ctx starts k depth threshold"
proof -
  have beams: "beams_of ho graph ctx starts k depth = beams_of id graph ctx starts k depth"
    using assms by (simp add: beams_of_def beam_traverse_spec hash_order_id)
  then have K: "beam_names ho graph ctx starts k depth threshold = beam_names id graph ctx starts k depth threshold"
    by (simp add: beam_names_def)
  let ?beams = "beams_of id graph ctx starts k depth"
  let ?key = "\<lambda>r. rank_key (fm_get f32_zero (hm_weight_sum (heat_all ?beams)) (nr_name r)) (nr_name r)"
  obtain s where s: "filter_inv graph ctx ?beams (beam_names id graph ctx starts k depth threshold) s"
    "multi_beam_intersection ho graph ctx starts k depth threshold =
      \<lparr>sg_nodes = sort_key ?key (fs_nodes s), sg_edges = sort_key edge_key (rebuild_edges ho graph ctx (fs_set s))\<rparr>"
    by (rule multi_beam_unfold [OF assms, where starts = starts and k = k and depth = depth and threshold = threshold and ctx = ctx,
        unfolded beams K])
  obtain s' where s': "filter_inv graph ctx ?beams (beam_names id graph ctx starts k depth threshold) s'"
    "multi_beam_intersection id graph ctx starts k depth threshold =
      \<lparr>sg_nodes = sort_key ?key (fs_nodes s'), sg_edges = sort_key edge_key (rebuild_edges id graph ctx (fs_set s'))\<rparr>"
    by (rule multi_beam_unfold [OF assms(1) hash_order_id(1)])
  have "set (fs_nodes t) = (\<lambda>n. the (node_score graph ctx n)) ` {n \<in> beam_names id graph ctx starts k depth threshold. node_score graph ctx n \<noteq> None}"
    if "filter_inv graph ctx ?beams (beam_names id graph ctx starts k depth threshold) t" for t
  proof -
    have "set (fs_nodes t) = (\<lambda>n. the (node_score graph ctx n)) ` nr_name ` set (fs_nodes t)"
    proof -
      have "\<forall>r \<in> set (fs_nodes t). the (node_score graph ctx (nr_name r)) = r"
        using that by (simp add: filter_inv_def scored_def)
      then show ?thesis by (simp add: image_image)
    qed
    then show ?thesis using that by (simp add: filter_inv_def)
  qed
  then have "set (fs_nodes s) = set (fs_nodes s')" using s s' by simp
  moreover have "distinct (fs_nodes s)" "distinct (fs_nodes s')" using s(1) s'(1) by (auto simp: filter_inv_def distinct_map)
  ultimately have "mset (fs_nodes s) = mset (fs_nodes s')" by (simp add: set_eq_iff_mset_eq_distinct [symmetric])
  moreover have "inj_on ?key (set (fs_nodes s))"
    using s(1) by (auto simp: filter_inv_def distinct_map inj_on_def rank_key_def)
  ultimately have "sort_key ?key (fs_nodes s) = sort_key ?key (fs_nodes s')" by (rule sort_key_mset_cong)
  moreover have "fs_set s = fs_set s'" using s(1) s'(1) by (metis filter_inv_def fset_inject)
  ultimately show ?thesis using s(2) s'(2) rebuild_edges_order [OF assms(2)] by simp
qed

end
