(* ===== verification/OG_Delta.thy ===== *)
theory OG_Delta
  imports OG_Overlay
begin

text \<open>
  The mutable overlay of \<open>src/delta.rs\<close>: the operations, the two-pass batch \<open>apply\<close>, the infallible
  mutators with their four counters, the debug recomputation of those counters, the merged read view
  (\<open>DeltaAccessor\<close>) and \<open>materialize\<close>. The counters are \<open>int\<close> so that an underflow of the
  code's \<open>usize\<close> would show as a negative value; positions in \<open>added_edges\<close> keep their \<open>u32\<close> width.
\<close>

section \<open>Operations and errors\<close>

datatype op =
    UpsertNode node_data
  | RemoveNode string
  | AddEdge string string edge_data
  | RemoveEdge string string string

datatype delta_error =
    MissingEndpoint (me_op_index: nat) (me_from: string) (me_to: string) (me_endpoint: string)
      (me_tombstoned: bool)
  | InvalidEdgeValidity (iv_op_index: nat) (iv_from: string) (iv_to: string) (iv_valid_from: u64)
      (iv_valid_to: u64)

record delta_edge =
  de_from :: string
  de_to :: string
  de_edge :: edge_data
  de_dead :: bool

record graph_delta =
  added_nodes :: "(string \<times> node_data) list"
  added_edges :: "delta_edge list"
  removed_nodes :: "string fset"
  removed_edges :: "(string \<times> string \<times> string) fset"
  out_index :: "(string, u32 list) fmap"
  in_index :: "(string, u32 list) fmap"
  tombstone_base_hits :: int
  added_non_base :: int
  masked_base_edge_count :: int
  live_delta_edge_count :: int

definition delta_new :: graph_delta where
  "delta_new = \<lparr>added_nodes = [], added_edges = [], removed_nodes = {||}, removed_edges = {||},
     out_index = fmempty, in_index = fmempty, tombstone_base_hits = 0, added_non_base = 0,
     masked_base_edge_count = 0, live_delta_edge_count = 0\<rparr>"

definition delta_is_empty :: "graph_delta \<Rightarrow> bool" where
  "delta_is_empty d \<longleftrightarrow> added_nodes d = [] \<and> added_edges d = [] \<and>
     removed_nodes d = {||} \<and> removed_edges d = {||}"

section \<open>Pass 1: validation against the simulated batch\<close>

definition is_present :: "graph_delta \<Rightarrow> (string \<rightharpoonup> bool) \<Rightarrow> accessor \<Rightarrow> string \<Rightarrow> bool" where
  "is_present d scratch base x =
     (case scratch x of Some p \<Rightarrow> p
      | None \<Rightarrow> map_of (added_nodes d) x \<noteq> None \<or>
                (x |\<notin>| removed_nodes d \<and> acc_get_node base x \<noteq> None))"

definition is_tombstoned :: "graph_delta \<Rightarrow> (string \<rightharpoonup> bool) \<Rightarrow> string \<Rightarrow> bool" where
  "is_tombstoned d scratch x =
     (case scratch x of Some present \<Rightarrow> \<not> present | None \<Rightarrow> x |\<in>| removed_nodes d)"

fun pass1 :: "accessor \<Rightarrow> graph_delta \<Rightarrow> (string \<rightharpoonup> bool) \<Rightarrow> nat \<Rightarrow> op list \<Rightarrow> delta_error option" where
  "pass1 base d scratch i [] = None"
| "pass1 base d scratch i (UpsertNode nd # ops) =
     pass1 base d (scratch(nd_name nd \<mapsto> True)) (Suc i) ops"
| "pass1 base d scratch i (RemoveNode name # ops) =
     pass1 base d (scratch(name \<mapsto> False)) (Suc i) ops"
| "pass1 base d scratch i (AddEdge from to edge # ops) =
     (case (ed_valid_from edge, ed_valid_to edge) of
        (Some vf, Some vt) \<Rightarrow>
          if vt < vf then Some (InvalidEdgeValidity i from to vf vt)
          else if \<not> is_present d scratch base from then
            Some (MissingEndpoint i from to from (is_tombstoned d scratch from))
          else if \<not> is_present d scratch base to then
            Some (MissingEndpoint i from to to (is_tombstoned d scratch to))
          else pass1 base d scratch (Suc i) ops
      | _ \<Rightarrow>
          if \<not> is_present d scratch base from then
            Some (MissingEndpoint i from to from (is_tombstoned d scratch from))
          else if \<not> is_present d scratch base to then
            Some (MissingEndpoint i from to to (is_tombstoned d scratch to))
          else pass1 base d scratch (Suc i) ops)"
| "pass1 base d scratch i (RemoveEdge from to kind # ops) = pass1 base d scratch (Suc i) ops"

section \<open>The infallible mutators\<close>

text \<open>The counting loops over the incident base edges: a \<open>continue\<close> leaves the counter alone.\<close>

fun count_out_transitions :: "graph_delta \<Rightarrow> string \<Rightarrow> neighbor_view list \<Rightarrow> int" where
  "count_out_transitions d name [] = 0"
| "count_out_transitions d name (nb # nbs) =
     (if nb_target_name nb |\<in>| removed_nodes d then count_out_transitions d name nbs
      else if (name, nb_target_name nb, nb_edge_kind nb) |\<in>| removed_edges d
        then count_out_transitions d name nbs
      else 1 + count_out_transitions d name nbs)"

fun count_in_transitions :: "graph_delta \<Rightarrow> string \<Rightarrow> neighbor_view list \<Rightarrow> int" where
  "count_in_transitions d name [] = 0"
| "count_in_transitions d name (nb # nbs) =
     (if nb_target_name nb = name then count_in_transitions d name nbs
      else if nb_target_name nb |\<in>| removed_nodes d then count_in_transitions d name nbs
      else if (nb_target_name nb, name, nb_edge_kind nb) |\<in>| removed_edges d
        then count_in_transitions d name nbs
      else 1 + count_in_transitions d name nbs)"

definition mask_incident_base_edges :: "accessor \<Rightarrow> string \<Rightarrow> graph_delta \<Rightarrow> graph_delta" where
  "mask_incident_base_edges base name d =
     d\<lparr>masked_base_edge_count := masked_base_edge_count d
         + count_out_transitions d name (acc_outgoing base name)
         + count_in_transitions d name (acc_incoming base name)\<rparr>"

definition unmask_incident_base_edges :: "accessor \<Rightarrow> string \<Rightarrow> graph_delta \<Rightarrow> graph_delta" where
  "unmask_incident_base_edges base name d =
     d\<lparr>masked_base_edge_count := masked_base_edge_count d
         - count_out_transitions d name (acc_outgoing base name)
         - count_in_transitions d name (acc_incoming base name)\<rparr>"

definition upsert_node :: "accessor \<Rightarrow> node_data \<Rightarrow> graph_delta \<Rightarrow> graph_delta" where
  "upsert_node base nd d =
     (let name = nd_name nd;
          in_base = (acc_get_node base name \<noteq> None);
          was_removed = (name |\<in>| removed_nodes d);
          d = d\<lparr>removed_nodes := removed_nodes d |-| {|name|}\<rparr>;
          d = (if was_removed \<and> in_base
               then unmask_incident_base_edges base name
                      (d\<lparr>tombstone_base_hits := tombstone_base_hits d - 1\<rparr>)
               else d);
          newly = (map_of (added_nodes d) name = None);
          d = d\<lparr>added_nodes := AList.update name nd (added_nodes d)\<rparr>
      in if newly \<and> \<not> in_base then d\<lparr>added_non_base := added_non_base d + 1\<rparr> else d)"

text \<open>The loops that mark delta edges dead at cached positions; an edge already dead is skipped, so
  a position listed twice (a self-loop) is counted once.\<close>

fun kill_positions ::
  "(delta_edge \<Rightarrow> bool) \<Rightarrow> u32 list \<Rightarrow> delta_edge list \<Rightarrow> int \<Rightarrow> delta_edge list \<times> int" where
  "kill_positions P [] es live = (es, live)"
| "kill_positions P (p # ps) es live =
     (let e = es ! unat p in
      if \<not> de_dead e \<and> P e
      then kill_positions P ps (es[unat p := e\<lparr>de_dead := True\<rparr>]) (live - 1)
      else kill_positions P ps es live)"

definition index_get :: "(string, u32 list) fmap \<Rightarrow> string \<Rightarrow> u32 list" where
  "index_get m n = (case fmlookup m n of None \<Rightarrow> [] | Some v \<Rightarrow> v)"

definition remove_node :: "accessor \<Rightarrow> string \<Rightarrow> graph_delta \<Rightarrow> graph_delta" where
  "remove_node base name d =
     (let in_base = (acc_get_node base name \<noteq> None);
          was_added = (map_of (added_nodes d) name \<noteq> None);
          d = d\<lparr>added_nodes := AList.delete name (added_nodes d)\<rparr>;
          d = (if was_added \<and> \<not> in_base then d\<lparr>added_non_base := added_non_base d - 1\<rparr> else d);
          newly_tombstoned = (name |\<notin>| removed_nodes d);
          d = (if newly_tombstoned \<and> in_base
               then (mask_incident_base_edges base name d)
                      \<lparr>tombstone_base_hits := tombstone_base_hits d + 1\<rparr>
               else d);
          d = d\<lparr>removed_nodes := finsert name (removed_nodes d)\<rparr>;
          positions = index_get (out_index d) name @ index_get (in_index d) name;
          r = kill_positions (\<lambda>_. True) positions (added_edges d) (live_delta_edge_count d)
      in d\<lparr>added_edges := fst r, live_delta_edge_count := snd r\<rparr>)"

definition add_edge :: "string \<Rightarrow> string \<Rightarrow> edge_data \<Rightarrow> graph_delta \<Rightarrow> graph_delta" where
  "add_edge from to edge d =
     (let edge = edge\<lparr>ed_acl := normalize_acl (ed_acl edge)\<rparr>;
          p = (of_nat (length (added_edges d)) :: u32)
      in d\<lparr>out_index := fmupd from (index_get (out_index d) from @ [p]) (out_index d),
           in_index := fmupd to (index_get (in_index d) to @ [p]) (in_index d),
           added_edges := added_edges d @
             [\<lparr>de_from = from, de_to = to, de_edge = edge, de_dead = False\<rparr>],
           live_delta_edge_count := live_delta_edge_count d + 1\<rparr>)"

definition count_live_base_edges_matching ::
  "accessor \<Rightarrow> graph_delta \<Rightarrow> string \<Rightarrow> string \<Rightarrow> string \<Rightarrow> nat" where
  "count_live_base_edges_matching base d from to kind =
     (if from |\<in>| removed_nodes d \<or> to |\<in>| removed_nodes d then 0
      else length (filter (\<lambda>nb. nb_target_name nb = to \<and> nb_edge_kind nb = kind)
                     (acc_outgoing base from)))"

definition remove_edge :: "accessor \<Rightarrow> string \<Rightarrow> string \<Rightarrow> string \<Rightarrow> graph_delta \<Rightarrow> graph_delta" where
  "remove_edge base from to kind d =
     (let positions = index_get (out_index d) from;
          r = kill_positions (\<lambda>e. de_to e = to \<and> ed_kind (de_edge e) = kind) positions
                (added_edges d) (live_delta_edge_count d);
          d = d\<lparr>added_edges := fst r, live_delta_edge_count := snd r\<rparr>;
          newly = ((from, to, kind) |\<notin>| removed_edges d);
          d = d\<lparr>removed_edges := finsert (from, to, kind) (removed_edges d)\<rparr>
      in if newly
         then d\<lparr>masked_base_edge_count := masked_base_edge_count d
                  + int (count_live_base_edges_matching base d from to kind)\<rparr>
         else d)"

section \<open>Apply and replay\<close>

fun apply_op :: "accessor \<Rightarrow> op \<Rightarrow> graph_delta \<Rightarrow> graph_delta" where
  "apply_op base (UpsertNode nd) d = upsert_node base nd d"
| "apply_op base (RemoveNode name) d = remove_node base name d"
| "apply_op base (AddEdge from to edge) d = add_edge from to edge d"
| "apply_op base (RemoveEdge from to kind) d = remove_edge base from to kind d"

definition delta_replay :: "accessor \<Rightarrow> op list \<Rightarrow> graph_delta \<Rightarrow> graph_delta" where
  "delta_replay base ops d = fold (apply_op base) ops d"

text \<open>The result and the delta afterwards; on an error it is the delta before.\<close>

definition delta_apply :: "accessor \<Rightarrow> op list \<Rightarrow> graph_delta \<Rightarrow> (delta_error + unit) \<times> graph_delta" where
  "delta_apply base ops d =
     (case pass1 base d Map.empty 0 ops of
        Some e \<Rightarrow> (Inl e, d)
      | None \<Rightarrow> (Inr (), fold (apply_op base) ops d))"

section \<open>The debug recomputation\<close>

definition recompute_counts :: "accessor \<Rightarrow> graph_delta \<Rightarrow> nat \<times> nat \<times> nat \<times> nat" where
  "recompute_counts base d =
     (let tbh = fcard (ffilter (\<lambda>n. acc_get_node base n \<noteq> None) (removed_nodes d));
          anb = length (filter (\<lambda>n. acc_get_node base n = None) (map fst (added_nodes d)));
          live = length (filter (\<lambda>e. \<not> de_dead e) (added_edges d));
          node_masked = (\<Sum>n \<in> fset (removed_nodes d).
             if acc_get_node base n = None then 0
             else length (acc_outgoing base n) +
                  length (filter (\<lambda>nb. nb_target_name nb |\<notin>| removed_nodes d) (acc_incoming base n)));
          edge_only_masked = (\<Sum>(f, t, k) \<in> fset (removed_edges d).
             count_live_base_edges_matching base d f t k)
      in (tbh, anb, node_masked + edge_only_masked, live))"

definition debug_check_invariants :: "accessor \<Rightarrow> graph_delta \<Rightarrow> bool" where
  "debug_check_invariants base d \<longleftrightarrow>
     list_all (\<lambda>k. k |\<notin>| removed_nodes d) (map fst (added_nodes d)) \<and>
     (case recompute_counts base d of (tbh, anb, masked, live) \<Rightarrow>
        tombstone_base_hits d = int tbh \<and> added_non_base d = int anb \<and>
        masked_base_edge_count d = int masked \<and> live_delta_edge_count d = int live)"

section \<open>The merged view\<close>

definition base_edge_kept :: "graph_delta \<Rightarrow> string \<Rightarrow> string \<Rightarrow> string \<Rightarrow> string \<Rightarrow> bool" where
  "base_edge_kept d other from to kind \<longleftrightarrow>
     \<not> (removed_nodes d \<noteq> {||} \<and> other |\<in>| removed_nodes d) \<and>
     \<not> (removed_edges d \<noteq> {||} \<and> (from, to, kind) |\<in>| removed_edges d)"

definition delta_outgoing :: "accessor \<Rightarrow> graph_delta \<Rightarrow> string \<Rightarrow> neighbor_view list" where
  "delta_outgoing base d name =
     (if delta_is_empty d then acc_outgoing base name
      else if removed_nodes d \<noteq> {||} \<and> name |\<in>| removed_nodes d then []
      else
        let out = acc_outgoing base name;
            out = (if removed_nodes d \<noteq> {||} \<or> removed_edges d \<noteq> {||}
                   then filter (\<lambda>nb. base_edge_kept d (nb_target_name nb) name
                                  (nb_target_name nb) (nb_edge_kind nb)) out
                   else out)
        in out @ map (\<lambda>p. neighbor_view_of (de_to (added_edges d ! unat p)) (de_edge (added_edges d ! unat p)))
                   (filter (\<lambda>p. let e = added_edges d ! unat p in
                       \<not> (de_dead e \<or> (removed_nodes d \<noteq> {||} \<and> de_to e |\<in>| removed_nodes d)))
                     (index_get (out_index d) name)))"

definition delta_incoming :: "accessor \<Rightarrow> graph_delta \<Rightarrow> string \<Rightarrow> neighbor_view list" where
  "delta_incoming base d name =
     (if delta_is_empty d then acc_incoming base name
      else if removed_nodes d \<noteq> {||} \<and> name |\<in>| removed_nodes d then []
      else
        let inc = acc_incoming base name;
            inc = (if removed_nodes d \<noteq> {||} \<or> removed_edges d \<noteq> {||}
                   then filter (\<lambda>nb. base_edge_kept d (nb_target_name nb) (nb_target_name nb)
                                  name (nb_edge_kind nb)) inc
                   else inc)
        in inc @ map (\<lambda>p. neighbor_view_of (de_from (added_edges d ! unat p)) (de_edge (added_edges d ! unat p)))
                   (filter (\<lambda>p. let e = added_edges d ! unat p in
                       \<not> (de_dead e \<or> (removed_nodes d \<noteq> {||} \<and> de_from e |\<in>| removed_nodes d)))
                     (index_get (in_index d) name)))"

definition delta_get_node :: "accessor \<Rightarrow> graph_delta \<Rightarrow> string \<Rightarrow> node_view option" where
  "delta_get_node base d name =
     (case (if added_nodes d \<noteq> [] then map_of (added_nodes d) name else None) of
        Some nd \<Rightarrow> Some (node_view_from nd)
      | None \<Rightarrow> if removed_nodes d \<noteq> {||} \<and> name |\<in>| removed_nodes d then None
                else acc_get_node base name)"

definition delta_accessor :: "accessor \<Rightarrow> graph_delta \<Rightarrow> accessor" where
  "delta_accessor base d = \<lparr>
     acc_node_count = nat (int (acc_node_count base) + added_non_base d - tombstone_base_hits d),
     acc_edge_count = nat (int (acc_edge_count base) + live_delta_edge_count d - masked_base_edge_count d),
     acc_get_node = delta_get_node base d,
     acc_outgoing = delta_outgoing base d,
     acc_incoming = delta_incoming base d\<rparr>"

section \<open>Materialize\<close>

fun push_unseen :: "string list \<Rightarrow> string list \<Rightarrow> string list" where
  "push_unseen names [] = names"
| "push_unseen names (n # ns) =
     (if n \<in> set names then push_unseen names ns else push_unseen (names @ [n]) ns)"

definition live_names :: "string list \<Rightarrow> graph_delta \<Rightarrow> string list" where
  "live_names base_node_names d =
     push_unseen
       (push_unseen [] (filter (\<lambda>n. \<not> (map_of (added_nodes d) n \<noteq> None \<or> n |\<in>| removed_nodes d)) base_node_names))
       (map fst (added_nodes d))"

definition node_input_of :: "node_view \<Rightarrow> node_input" where
  "node_input_of nv = \<lparr>ni_name = nv_name nv, ni_kind = nv_kind nv, ni_metadata = nv_metadata nv,
     ni_base_weight = nv_base_weight nv, ni_noise_penalty = nv_noise_penalty nv\<rparr>"

definition edge_input_of :: "string \<Rightarrow> neighbor_view \<Rightarrow> edge_input" where
  "edge_input_of name nb = \<lparr>ei_from = name, ei_to = nb_target_name nb, ei_kind = nb_edge_kind nb,
     ei_field_name = nb_field_name nb, ei_base_weight = nb_edge_weight nb,
     ei_valid_from = nb_valid_from nb, ei_valid_to = nb_valid_to nb, ei_acl = nb_acl nb\<rparr>"

definition materialize ::
  "accessor \<Rightarrow> string list \<Rightarrow> graph_delta \<Rightarrow> node_input list \<times> edge_input list" where
  "materialize base base_node_names d =
     (let acc = delta_accessor base d;
          names = live_names base_node_names d
      in (concat (map (\<lambda>name. case acc_get_node acc name of
                          Some nv \<Rightarrow> [node_input_of nv] | None \<Rightarrow> []) names),
          concat (map (\<lambda>name. map (edge_input_of name) (acc_outgoing acc name)) names)))"

end
