(* ===== verification/OG_Error.thy ===== *)
theory OG_Error
  imports OG_Delta
begin

text \<open>
  The errors of the persistent store, \<open>src/persist/error.rs\<close>. A message is the fixed text of the
  source's format string, without the formatted values.
\<close>

datatype io_error = NotFoundIo | WouldBlockIo | OtherIo string

datatype persist_error =
    Io io_error
  | Poisoned
  | Conflict (cf_expected: u64) (cf_actual: u64)
  | DeltaErr delta_error
  | Corrupt string
  | UnsupportedVersion (uv_found: u32) (uv_max: u32)
  | LockHeld string
  | NotFound string

definition from_io :: "io_error + 'a \<Rightarrow> persist_error + 'a" where
  "from_io r = (case r of Inl e \<Rightarrow> Inl (Io e) | Inr x \<Rightarrow> Inr x)"

definition from_delta :: "delta_error + 'a \<Rightarrow> persist_error + 'a" where
  "from_delta r = (case r of Inl e \<Rightarrow> Inl (DeltaErr e) | Inr x \<Rightarrow> Inr x)"

lemma from_simps [simp]:
  "from_io (Inl e) = Inl (Io e)" "from_io (Inr x) = Inr x"
  "from_delta (Inl d) = Inl (DeltaErr d)" "from_delta (Inr x) = Inr x"
  by (simp_all add: from_io_def from_delta_def)

text \<open>The checks of a validation pass: stop with \<open>Corrupt\<close> unless the condition holds.\<close>

definition ensure :: "bool \<Rightarrow> string \<Rightarrow> persist_error + unit" where
  "ensure b msg = (if b then Inr () else Inl (Corrupt msg))"

lemma ensure_Inr [simp]: "ensure b msg = Inr u \<longleftrightarrow> b"
  by (simp add: ensure_def)

lemma ensure_simps [simp]:
  "ensure True msg = Inr ()" "ensure False msg = Inl (Corrupt msg)"
  by (simp_all add: ensure_def)

fun check_all :: "('a \<Rightarrow> persist_error + unit) \<Rightarrow> 'a list \<Rightarrow> persist_error + unit" where
  "check_all f [] = Inr ()"
| "check_all f (x # xs) = bindE (f x) (\<lambda>_. check_all f xs)"

lemma check_all_Inr [simp]: "check_all f xs = Inr u \<longleftrightarrow> (\<forall>x \<in> set xs. f x = Inr ())"
  by (induction xs) (auto simp: bindE_Inr_iff)

text \<open>\<open>slice.get(i)\<close>.\<close>

definition get_at :: "'a list \<Rightarrow> nat \<Rightarrow> 'a option" where
  "get_at xs i = (if i < length xs then Some (xs ! i) else None)"

lemma get_at_Some: "get_at xs i = Some x \<longleftrightarrow> i < length xs \<and> x = xs ! i"
  by (auto simp: get_at_def)

end
