(* ===== verification/OG_Vfs.thy ===== *)
theory OG_Vfs
  imports OG_Error
begin

text \<open>
  The file-system seam of \<open>src/persist/vfs.rs\<close>, with the \<open>std::fs\<close> calls it passes through to: a
  directory of names, files with contents, open descriptors with a position, and for every file
  and for the directory the state that is on stable storage. Every operation asks the fault oracle
  whether it succeeds; a failing operation may have taken effect in part (a short write) or in full
  (an fsync that errs after the data reached the disk). A crash at an instant is an oracle that
  fails everything from there on.

  All paths of the store are names in its one directory.
\<close>

section \<open>State\<close>

datatype fault = Pass | FailAfter nat io_error

record vfile =
  vf_inode :: nat
  vf_pos :: nat
  vf_append :: bool

record fs =
  fs_dir :: "(string, nat) fmap"
  fs_dir_disk :: "(string, nat) fmap"
  fs_data :: "nat \<Rightarrow> bytes"
  fs_disk :: "nat \<Rightarrow> bytes"
  fs_next_inode :: nat
  fs_fds :: "nat \<Rightarrow> vfile"
  fs_next_fd :: nat
  fs_locked :: bool
  fs_faults :: "nat \<Rightarrow> fault"
  fs_entropy :: "nat \<Rightarrow> io_error + bytes"
  fs_clock :: nat

text \<open>Fallible computations that thread a state.\<close>

type_synonym ('s, 'a) eff = "'s \<Rightarrow> (persist_error + 'a) \<times> 's"

definition returnI :: "'a \<Rightarrow> ('s, 'a) eff" where
  "returnI x s = (Inr x, s)"

definition failI :: "persist_error \<Rightarrow> ('s, 'a) eff" where
  "failI e s = (Inl e, s)"

definition bindI :: "('s, 'a) eff \<Rightarrow> ('a \<Rightarrow> ('s, 'b) eff) \<Rightarrow> ('s, 'b) eff" where
  "bindI m f s = (case m s of (Inl e, s') \<Rightarrow> (Inl e, s') | (Inr x, s') \<Rightarrow> f x s')"

definition liftE :: "persist_error + 'a \<Rightarrow> ('s, 'a) eff" where
  "liftE r s = (r, s)"

definition io :: "('s \<Rightarrow> (io_error + 'a) \<times> 's) \<Rightarrow> ('s, 'a) eff" where
  "io m s = (case m s of (r, s') \<Rightarrow> (from_io r, s'))"

lemma eff_simps [simp]:
  "returnI x s = (Inr x, s)" "failI e s = (Inl e, s)" "liftE r s = (r, s)"
  by (simp_all add: returnI_def failI_def liftE_def)

lemma bindI_Inr: "bindI m f s = (Inr y, s'') \<longleftrightarrow> (\<exists>x s'. m s = (Inr x, s') \<and> f x s' = (Inr y, s''))"
  by (auto simp: bindI_def split: prod.splits sum.splits)

lemma bindI_step:
  "m s = (Inr x, s') \<Longrightarrow> bindI m f s = f x s'"
  "m s = (Inl e, s') \<Longrightarrow> bindI m f s = (Inl e, s')"
  by (simp_all add: bindI_def)

section \<open>Primitive effects\<close>

definition tick :: "fs \<Rightarrow> fault \<times> fs" where
  "tick s = (fs_faults s (fs_clock s), s\<lparr>fs_clock := Suc (fs_clock s)\<rparr>)"

text \<open>An all-or-nothing effect: a failure may still have taken effect.\<close>

definition effect :: "(fs \<Rightarrow> fs) \<Rightarrow> fs \<Rightarrow> (io_error + unit) \<times> fs" where
  "effect f s =
     (case tick s of
        (Pass, s) \<Rightarrow> (Inr (), f s)
      | (FailAfter n e, s) \<Rightarrow> (Inl e, if n = 0 then s else f s))"

definition query :: "(fs \<Rightarrow> 'a) \<Rightarrow> fs \<Rightarrow> (io_error + 'a) \<times> fs" where
  "query f s = (case tick s of (Pass, s) \<Rightarrow> (Inr (f s), s) | (FailAfter n e, s) \<Rightarrow> (Inl e, s))"

definition fd_data :: "fs \<Rightarrow> nat \<Rightarrow> bytes" where
  "fd_data s fd = fs_data s (vf_inode (fs_fds s fd))"

definition set_data :: "nat \<Rightarrow> bytes \<Rightarrow> fs \<Rightarrow> fs" where
  "set_data i bs s = s\<lparr>fs_data := (fs_data s)(i := bs)\<rparr>"

definition set_pos :: "nat \<Rightarrow> nat \<Rightarrow> fs \<Rightarrow> fs" where
  "set_pos fd p s = s\<lparr>fs_fds := (fs_fds s)(fd := (fs_fds s fd)\<lparr>vf_pos := p\<rparr>)\<rparr>"

text \<open>\<open>write_at\<close> overwrites from a position, extending the file (with zeros over a gap); an empty
  write does nothing.\<close>

definition write_at :: "bytes \<Rightarrow> nat \<Rightarrow> bytes \<Rightarrow> bytes" where
  "write_at old pos buf =
     (if buf = [] then old
      else take pos old @ replicate (pos - length old) 0 @ buf @ drop (pos + length buf) old)"

definition resize :: "nat \<Rightarrow> bytes \<Rightarrow> bytes" where
  "resize n bs = take n bs @ replicate (n - length bs) 0"

section \<open>VfsFile\<close>

definition file_read_to_end :: "nat \<Rightarrow> fs \<Rightarrow> (io_error + bytes) \<times> fs" where
  "file_read_to_end fd s =
     (case tick s of
        (Pass, s) \<Rightarrow> (Inr (drop (vf_pos (fs_fds s fd)) (fd_data s fd)),
           set_pos fd (max (vf_pos (fs_fds s fd)) (length (fd_data s fd))) s)
      | (FailAfter n e, s) \<Rightarrow> (Inl e, s))"

definition put_bytes :: "nat \<Rightarrow> bytes \<Rightarrow> fs \<Rightarrow> fs" where
  "put_bytes fd buf s =
     (let f = fs_fds s fd;
          pos = (if vf_append f then length (fd_data s fd) else vf_pos f)
      in set_pos fd (pos + length buf) (set_data (vf_inode f) (write_at (fd_data s fd) pos buf) s))"

definition file_write_all :: "nat \<Rightarrow> bytes \<Rightarrow> fs \<Rightarrow> (io_error + unit) \<times> fs" where
  "file_write_all fd buf s =
     (case tick s of
        (Pass, s) \<Rightarrow> (Inr (), put_bytes fd buf s)
      | (FailAfter n e, s) \<Rightarrow> (Inl e, put_bytes fd (take n buf) s))"

definition file_seek_start :: "nat \<Rightarrow> nat \<Rightarrow> fs \<Rightarrow> (io_error + unit) \<times> fs" where
  "file_seek_start fd p = effect (set_pos fd p)"

definition file_sync_all :: "nat \<Rightarrow> fs \<Rightarrow> (io_error + unit) \<times> fs" where
  "file_sync_all fd = effect (\<lambda>s. s\<lparr>fs_disk := (fs_disk s)(vf_inode (fs_fds s fd) := fd_data s fd)\<rparr>)"

definition file_set_len :: "nat \<Rightarrow> nat \<Rightarrow> fs \<Rightarrow> (io_error + unit) \<times> fs" where
  "file_set_len fd n = effect (\<lambda>s. set_data (vf_inode (fs_fds s fd)) (resize n (fd_data s fd)) s)"

definition file_len :: "nat \<Rightarrow> fs \<Rightarrow> (io_error + nat) \<times> fs" where
  "file_len fd = query (\<lambda>s. length (fd_data s fd))"

section \<open>Vfs\<close>

definition new_fd :: "nat \<Rightarrow> bool \<Rightarrow> fs \<Rightarrow> nat \<times> fs" where
  "new_fd inode app s =
     (fs_next_fd s, s\<lparr>fs_fds := (fs_fds s)(fs_next_fd s := \<lparr>vf_inode = inode, vf_pos = 0, vf_append = app\<rparr>),
        fs_next_fd := Suc (fs_next_fd s)\<rparr>)"

definition vfs_create :: "string \<Rightarrow> fs \<Rightarrow> (io_error + nat) \<times> fs" where
  "vfs_create path s =
     (case tick s of
        (FailAfter n e, s) \<Rightarrow> (Inl e, s)
      | (Pass, s) \<Rightarrow>
          (case fmlookup (fs_dir s) path of
             Some i \<Rightarrow> (case new_fd i False (set_data i [] s) of (fd, s) \<Rightarrow> (Inr fd, s))
           | None \<Rightarrow>
               let i = fs_next_inode s;
                   s = s\<lparr>fs_next_inode := Suc i, fs_dir := fmupd path i (fs_dir s)\<rparr>
               in (case new_fd i False (set_data i [] s) of (fd, s) \<Rightarrow> (Inr fd, s))))"

definition open_existing :: "bool \<Rightarrow> string \<Rightarrow> fs \<Rightarrow> (io_error + nat) \<times> fs" where
  "open_existing app path s =
     (case tick s of
        (FailAfter n e, s) \<Rightarrow> (Inl e, s)
      | (Pass, s) \<Rightarrow>
          (case fmlookup (fs_dir s) path of
             None \<Rightarrow> (Inl NotFoundIo, s)
           | Some i \<Rightarrow> (case new_fd i app s of (fd, s) \<Rightarrow> (Inr fd, s))))"

definition vfs_open_rw :: "string \<Rightarrow> fs \<Rightarrow> (io_error + nat) \<times> fs" where
  "vfs_open_rw = open_existing False"

definition vfs_open_append :: "string \<Rightarrow> fs \<Rightarrow> (io_error + nat) \<times> fs" where
  "vfs_open_append = open_existing True"

definition vfs_rename :: "string \<Rightarrow> string \<Rightarrow> fs \<Rightarrow> (io_error + unit) \<times> fs" where
  "vfs_rename from to s =
     (case fmlookup (fs_dir s) from of
        None \<Rightarrow> (case effect id s of (Inl e, s) \<Rightarrow> (Inl e, s) | (Inr _, s) \<Rightarrow> (Inl NotFoundIo, s))
      | Some i \<Rightarrow> effect (\<lambda>s. s\<lparr>fs_dir := fmupd to i (fmdrop from (fs_dir s))\<rparr>) s)"

definition vfs_remove_file :: "string \<Rightarrow> fs \<Rightarrow> (io_error + unit) \<times> fs" where
  "vfs_remove_file path s =
     (case fmlookup (fs_dir s) path of
        None \<Rightarrow> (case effect id s of (Inl e, s) \<Rightarrow> (Inl e, s) | (Inr _, s) \<Rightarrow> (Inl NotFoundIo, s))
      | Some i \<Rightarrow> effect (\<lambda>s. s\<lparr>fs_dir := fmdrop path (fs_dir s)\<rparr>) s)"

definition vfs_fsync_dir :: "fs \<Rightarrow> (io_error + unit) \<times> fs" where
  "vfs_fsync_dir = effect (\<lambda>s. s\<lparr>fs_dir_disk := fs_dir s\<rparr>)"

section \<open>Calls that go to std::fs directly\<close>

definition path_exists :: "string \<Rightarrow> fs \<Rightarrow> bool" where
  "path_exists path s \<longleftrightarrow> fmlookup (fs_dir s) path \<noteq> None"

definition file_bytes :: "fs \<Rightarrow> string \<Rightarrow> bytes option" where
  "file_bytes s path = map_option (fs_data s) (fmlookup (fs_dir s) path)"

definition fs_read :: "string \<Rightarrow> fs \<Rightarrow> (io_error + bytes) \<times> fs" where
  "fs_read path s =
     (case tick s of
        (FailAfter n e, s) \<Rightarrow> (Inl e, s)
      | (Pass, s) \<Rightarrow> (case file_bytes s path of None \<Rightarrow> (Inl NotFoundIo, s) | Some bs \<Rightarrow> (Inr bs, s)))"

text \<open>\<open>read_dir\<close> yields the names in some order.\<close>

definition fs_read_dir :: "(string list \<Rightarrow> string list) \<Rightarrow> fs \<Rightarrow> (io_error + string list) \<times> fs" where
  "fs_read_dir ho = query (\<lambda>s. fm_keys ho (fs_dir s))"

definition fs_create_dir_all :: "fs \<Rightarrow> (io_error + unit) \<times> fs" where
  "fs_create_dir_all = effect id"

text \<open>\<open>getrandom\<close> draws 16 bytes.\<close>

definition draw_entropy :: "fs \<Rightarrow> (io_error + bytes) \<times> fs" where
  "draw_entropy s = (fs_entropy s (fs_clock s), s\<lparr>fs_clock := Suc (fs_clock s)\<rparr>)"

section \<open>The lock file\<close>

text \<open>\<open>DirLock\<close> of \<open>src/persist/lock.rs\<close>: opening \<open>LOCK\<close> may fail; the flock is a flag of the
  directory. Dropping the holder releases it.\<close>

definition open_lock_file :: "fs \<Rightarrow> (io_error + unit) \<times> fs" where
  "open_lock_file = effect (\<lambda>s.
     if path_exists ''LOCK'' s then s
     else s\<lparr>fs_next_inode := Suc (fs_next_inode s), fs_dir := fmupd ''LOCK'' (fs_next_inode s) (fs_dir s),
       fs_data := (fs_data s)(fs_next_inode s := [])\<rparr>)"

definition try_lock_exclusive :: "fs \<Rightarrow> (io_error + unit) \<times> fs" where
  "try_lock_exclusive s =
     (case tick s of
        (FailAfter n e, s) \<Rightarrow> (Inl e, s)
      | (Pass, s) \<Rightarrow> if fs_locked s then (Inl WouldBlockIo, s) else (Inr (), s\<lparr>fs_locked := True\<rparr>))"

definition lock_acquire :: "(fs, unit) eff" where
  "lock_acquire =
     bindI (io open_lock_file) (\<lambda>_ s.
       case try_lock_exclusive s of
         (Inr _, s) \<Rightarrow> (Inr (), s)
       | (Inl e, s) \<Rightarrow> (Inl (if e = WouldBlockIo then LockHeld [] else Io e), s))"

definition lock_release :: "fs \<Rightarrow> fs" where
  "lock_release s = s\<lparr>fs_locked := False\<rparr>"

section \<open>Runs without faults\<close>

definition calm :: "fs \<Rightarrow> bool" where
  "calm s \<longleftrightarrow> fs_faults s = (\<lambda>_. Pass) \<and> (\<forall>t. \<exists>bs. fs_entropy s t = Inr bs)"

lemma tick_calm: "calm s \<Longrightarrow> tick s = (Pass, s\<lparr>fs_clock := Suc (fs_clock s)\<rparr>)"
  by (simp add: tick_def calm_def)

lemma write_at_end [simp]: "write_at old (length old) buf = old @ buf"
  by (simp add: write_at_def)

lemma write_at_start: "write_at old 0 buf = buf @ drop (length buf) old"
  by (simp add: write_at_def)

end
