(* ===== verification/OG_Wal.thy ===== *)
theory OG_Wal
  imports OG_Vfs
begin

text \<open>
  The write-ahead log of \<open>src/persist/wal.rs\<close>: frames, the recovery scan and the append writer.
  postcard (\<open>to_wal\<close>, \<open>of_wal\<close>) and crc32 are parameters.
\<close>

section \<open>Frames\<close>

record wal_record =
  wr_seq :: u64
  wr_ops :: "op list"

definition frame_crc :: "(bytes \<Rightarrow> u32) \<Rightarrow> bytes \<Rightarrow> u32" where
  "frame_crc crc32 payload = crc32 (u32_le (of_nat (length payload)) @ payload)"

definition frame_of :: "(bytes \<Rightarrow> u32) \<Rightarrow> bytes \<Rightarrow> bytes" where
  "frame_of crc32 payload = u32_le (of_nat (length payload)) @ u32_le (frame_crc crc32 payload) @ payload"

definition encode_frame :: "(bytes \<Rightarrow> u32) \<Rightarrow> (wal_record \<Rightarrow> bytes option) \<Rightarrow> wal_record \<Rightarrow> persist_error + bytes" where
  "encode_frame crc32 to_wal rec =
     (case to_wal rec of
        None \<Rightarrow> Inl (Corrupt ''postcard WAL encode failed'')
      | Some payload \<Rightarrow>
          if length payload > 2 ^ 32 - 1 then Inl (Corrupt ''WAL frame payload exceeds u32::MAX'')
          else Inr (frame_of crc32 payload))"

section \<open>The scan\<close>

record scan_result =
  sr_records :: "wal_record list"
  sr_valid_end :: nat
  sr_tail_truncated :: bool
  sr_dropped :: nat

definition torn_tail :: "wal_record list \<Rightarrow> nat \<Rightarrow> scan_result" where
  "torn_tail records offset = \<lparr>sr_records = records, sr_valid_end = offset, sr_tail_truncated = True, sr_dropped = 1\<rparr>"

function scan_loop ::
  "(bytes \<Rightarrow> u32) \<Rightarrow> (bytes \<Rightarrow> wal_record option) \<Rightarrow> bytes \<Rightarrow> nat \<Rightarrow> wal_record list \<Rightarrow> persist_error + scan_result" where
  "scan_loop crc32 of_wal buf offset records =
     (let remaining = length buf - offset in
      if remaining = 0 then
        Inr \<lparr>sr_records = records, sr_valid_end = offset, sr_tail_truncated = False, sr_dropped = 0\<rparr>
      else if remaining < 8 then Inr (torn_tail records offset)
      else
        let len = u32_of_le (take 4 (drop offset buf));
            crc_stored = u32_of_le (take 4 (drop (offset + 4) buf)) in
        if unat len > remaining - 8 then Inr (torn_tail records offset)
        else
          let payload = take (unat len) (drop (offset + 8) buf) in
          if crc32 (u32_le len @ payload) \<noteq> crc_stored then Inr (torn_tail records offset)
          else case of_wal payload of
                 None \<Rightarrow> Inl (Corrupt ''WAL frame: crc-valid but postcard decode failed'')
               | Some rec \<Rightarrow> scan_loop crc32 of_wal buf (offset + (8 + unat len)) (records @ [rec]))"
  by pat_completeness auto
termination by (relation "measure (\<lambda>(crc32, of_wal, buf, offset, records). length buf - offset)") auto

declare scan_loop.simps [simp del]

definition scan_wal_bytes ::
  "(bytes \<Rightarrow> u32) \<Rightarrow> (bytes \<Rightarrow> wal_record option) \<Rightarrow> bytes \<Rightarrow> persist_error + scan_result" where
  "scan_wal_bytes crc32 of_wal buf = scan_loop crc32 of_wal buf 0 []"

definition read_and_scan ::
  "(bytes \<Rightarrow> u32) \<Rightarrow> (bytes \<Rightarrow> wal_record option) \<Rightarrow> nat \<Rightarrow> (fs, scan_result) eff" where
  "read_and_scan crc32 of_wal fd =
     bindI (io (file_seek_start fd 0)) (\<lambda>_.
     bindI (io (file_read_to_end fd)) (\<lambda>buf.
       liftE (scan_wal_bytes crc32 of_wal buf)))"

section \<open>The writer\<close>

datatype fsync_policy = OnFlush | EveryBatch | EveryN u32

record wal_writer =
  ww_file :: nat
  ww_policy :: fsync_policy
  ww_since_fsync :: u32
  ww_poisoned :: bool
  ww_len :: u64

definition wal_new :: "nat \<Rightarrow> fsync_policy \<Rightarrow> u64 \<Rightarrow> wal_writer" where
  "wal_new fd policy len = \<lparr>ww_file = fd, ww_policy = policy, ww_since_fsync = 0, ww_poisoned = False, ww_len = len\<rparr>"

definition wal_set_policy :: "fsync_policy \<Rightarrow> wal_writer \<Rightarrow> wal_writer" where
  "wal_set_policy policy w = w\<lparr>ww_policy := policy\<rparr>"

text \<open>An I/O step of the writer: a failure poisons it.\<close>

definition poisoning :: "(fs \<Rightarrow> (io_error + 'a) \<times> fs) \<Rightarrow> (wal_writer \<times> fs, 'a) eff" where
  "poisoning m = (\<lambda>(w, s).
     case m s of
       (Inl e, s) \<Rightarrow> (Inl (Io e), (w\<lparr>ww_poisoned := True\<rparr>, s))
     | (Inr x, s) \<Rightarrow> (Inr x, (w, s)))"

definition update_wal :: "(wal_writer \<Rightarrow> wal_writer) \<Rightarrow> (wal_writer \<times> fs, unit) eff" where
  "update_wal f = (\<lambda>(w, s). (Inr (), (f w, s)))"

definition wal_fsync_now :: "(wal_writer \<times> fs, unit) eff" where
  "wal_fsync_now = (\<lambda>(w, s).
     bindI (poisoning (file_sync_all (ww_file w))) (\<lambda>_. update_wal (\<lambda>w. w\<lparr>ww_since_fsync := 0\<rparr>)) (w, s))"

definition sync_by_policy :: "(wal_writer \<times> fs, bool) eff" where
  "sync_by_policy = (\<lambda>(w, s).
     case ww_policy w of
       EveryBatch \<Rightarrow> bindI wal_fsync_now (\<lambda>_. returnI True) (w, s)
     | EveryN n \<Rightarrow>
         let w = w\<lparr>ww_since_fsync := ww_since_fsync w + 1\<rparr> in
         if ww_since_fsync w \<ge> max n 1 then bindI wal_fsync_now (\<lambda>_. returnI True) (w, s)
         else (Inr False, (w, s))
     | OnFlush \<Rightarrow> (Inr False, (w, s)))"

definition wal_append :: "bytes \<Rightarrow> (wal_writer \<times> fs, bool) eff" where
  "wal_append frame = (\<lambda>(w, s).
     bindI (poisoning (file_write_all (ww_file w) frame)) (\<lambda>_.
     bindI (update_wal (\<lambda>w. w\<lparr>ww_len := ww_len w + of_nat (length frame)\<rparr>)) (\<lambda>_.
       sync_by_policy)) (w, s))"

definition wal_flush :: "(wal_writer \<times> fs, unit) eff" where
  "wal_flush = (\<lambda>(w, s). if ww_poisoned w then (Inl Poisoned, (w, s)) else wal_fsync_now (w, s))"

definition wal_truncate :: "(wal_writer \<times> fs, unit) eff" where
  "wal_truncate = (\<lambda>(w, s).
     if ww_poisoned w then (Inl Poisoned, (w, s))
     else
       bindI (poisoning (file_set_len (ww_file w) 0)) (\<lambda>_.
       bindI (poisoning (file_seek_start (ww_file w) 0)) (\<lambda>_.
       bindI (update_wal (\<lambda>w. w\<lparr>ww_len := 0, ww_since_fsync := 0\<rparr>)) (\<lambda>_.
         poisoning (file_sync_all (ww_file w))))) (w, s))"

section \<open>Scanning what was appended\<close>

definition wal_codec_ok :: "(wal_record \<Rightarrow> bytes option) \<Rightarrow> (bytes \<Rightarrow> wal_record option) \<Rightarrow> bool" where
  "wal_codec_ok to_wal of_wal \<longleftrightarrow> (\<forall>r p. to_wal r = Some p \<longrightarrow> of_wal p = Some r)"

fun frames :: "(bytes \<Rightarrow> u32) \<Rightarrow> (wal_record \<Rightarrow> bytes option) \<Rightarrow> wal_record list \<Rightarrow> persist_error + bytes" where
  "frames crc32 to_wal [] = Inr []"
| "frames crc32 to_wal (r # rs) =
     bindE (encode_frame crc32 to_wal r) (\<lambda>f. bindE (frames crc32 to_wal rs) (\<lambda>fs. Inr (f @ fs)))"

lemma frames_append:
  "frames crc32 to_wal (rs @ ss) =
     bindE (frames crc32 to_wal rs) (\<lambda>a. bindE (frames crc32 to_wal ss) (\<lambda>b. Inr (a @ b)))"
  by (induction rs) (auto simp: bindE_def split: sum.splits)

lemma frames_split:
  assumes "frames crc32 to_wal rs = Inr bs"
  shows "\<exists>a b. frames crc32 to_wal (take n rs) = Inr a \<and> frames crc32 to_wal (drop n rs) = Inr b \<and> bs = a @ b"
proof -
  have "bindE (frames crc32 to_wal (take n rs)) (\<lambda>a. bindE (frames crc32 to_wal (drop n rs)) (\<lambda>b. Inr (a @ b))) = Inr bs"
    using assms frames_append [of crc32 to_wal "take n rs" "drop n rs"] by simp
  then show ?thesis by (auto simp: bindE_Inr_iff)
qed

lemma frames_take: "frames crc32 to_wal rs = Inr bs \<Longrightarrow> \<exists>a. frames crc32 to_wal (take n rs) = Inr a"
  using frames_split by blast

lemma encode_frame_Inr:
  assumes "encode_frame crc32 to_wal r = Inr f"
  obtains p where "to_wal r = Some p" and "length p < 2 ^ 32" and "f = frame_of crc32 p"
  using assms by (auto simp: encode_frame_def split: option.splits if_splits)

lemma length_frame_of [simp]: "length (frame_of crc32 p) = 8 + length p"
  by (simp add: frame_of_def)

lemma frame_of_nonempty [simp]: "frame_of crc32 p \<noteq> []"
proof
  assume "frame_of crc32 p = []"
  then have "length (frame_of crc32 p) = 0" by simp
  then show False by simp
qed

lemma frame_fields:
  assumes "length p < 2 ^ 32"
  shows "u32_of_le (take 4 (frame_of crc32 p @ rest)) = of_nat (length p)"
    and "u32_of_le (take 4 (drop 4 (frame_of crc32 p @ rest))) = frame_crc crc32 p"
    and "take (length p) (drop 8 (frame_of crc32 p @ rest)) = p"
    and "unat (of_nat (length p) :: u32) = length p"
  using assms by (simp_all add: frame_of_def unat_of_nat)

text \<open>One intact frame is consumed, whatever follows it.\<close>

lemma scan_loop_frame:
  assumes "8 \<le> length buf - offset" and "u32_of_le (take 4 (drop offset buf)) = len"
    and "unat len \<le> length buf - offset - 8" and "take (unat len) (drop (offset + 8) buf) = payload"
    and "crc32 (u32_le len @ payload) = u32_of_le (take 4 (drop (offset + 4) buf))" and "of_wal payload = Some r"
  shows "scan_loop crc32 of_wal buf offset records = scan_loop crc32 of_wal buf (offset + (8 + unat len)) (records @ [r])"
proof -
  have c: "(length buf - offset = 0) = False" "(length buf - offset < 8) = False"
    "(unat len > length buf - offset - 8) = False" using assms(1,3) by simp_all
  show ?thesis
    by (subst scan_loop.simps)
      (simp only: Let_def assms(2,4,6) assms(5) [symmetric] c if_False option.case not_True_eq_False simp_thms)
qed

lemma scan_step:
  assumes "length p < 2 ^ 32" and "of_wal p = Some r"
  shows "scan_loop crc32 of_wal (pre @ frame_of crc32 p @ rest) (length pre) records =
    scan_loop crc32 of_wal (pre @ frame_of crc32 p @ rest) (length pre + length (frame_of crc32 p)) (records @ [r])"
proof -
  let ?buf = "pre @ frame_of crc32 p @ rest"
  have drops: "drop (length pre + n) ?buf = drop n (frame_of crc32 p @ rest)" for n by simp
  have "scan_loop crc32 of_wal ?buf (length pre) records =
      scan_loop crc32 of_wal ?buf (length pre + (8 + unat (of_nat (length p) :: u32))) (records @ [r])"
  proof (rule scan_loop_frame)
    show "8 \<le> length ?buf - length pre" by simp
    show "u32_of_le (take 4 (drop (length pre) ?buf)) = of_nat (length p)"
      using frame_fields(1) [OF assms(1), of crc32 rest] by simp
    show "unat (of_nat (length p) :: u32) \<le> length ?buf - length pre - 8"
      using frame_fields(4) [OF assms(1)] by simp
    show "take (unat (of_nat (length p) :: u32)) (drop (length pre + 8) ?buf) = p"
      unfolding drops frame_fields(4) [OF assms(1)] by (rule frame_fields(3) [OF assms(1)])
    show "crc32 (u32_le (of_nat (length p)) @ p) = u32_of_le (take 4 (drop (length pre + 4) ?buf))"
      unfolding drops frame_fields(2) [OF assms(1)] frame_crc_def ..
  qed (rule assms(2))
  then show ?thesis using frame_fields(4) [OF assms(1)] by simp
qed

lemma scan_frames_from:
  assumes "wal_codec_ok to_wal of_wal" and "frames crc32 to_wal rs = Inr bs"
  shows "scan_loop crc32 of_wal (pre @ bs @ rest) (length pre) records =
    scan_loop crc32 of_wal (pre @ bs @ rest) (length pre + length bs) (records @ rs)"
  using assms(2)
proof (induction rs arbitrary: bs pre records)
  case (Cons r rs)
  from Cons.prems obtain f bs' where f: "encode_frame crc32 to_wal r = Inr f" and b: "frames crc32 to_wal rs = Inr bs'"
    and bs: "bs = f @ bs'" by (auto simp: bindE_Inr_iff)
  obtain p where p: "to_wal r = Some p" "length p < 2 ^ 32" "f = frame_of crc32 p" using encode_frame_Inr [OF f] .
  have "of_wal p = Some r" using assms(1) p(1) by (simp add: wal_codec_ok_def)
  from scan_step [where of_wal = of_wal, OF p(2) this, of crc32 pre "bs' @ rest" records]
  show ?case
    using Cons.IH [OF b, of "pre @ f" "records @ [r]"] by (simp add: bs p(3) add.assoc)
qed simp

text \<open>Round trip: the scan of a log of frames is the list of records.\<close>

lemma scan_frames:
  assumes "wal_codec_ok to_wal of_wal" and "frames crc32 to_wal rs = Inr bs"
  shows "scan_wal_bytes crc32 of_wal bs =
    Inr \<lparr>sr_records = rs, sr_valid_end = length bs, sr_tail_truncated = False, sr_dropped = 0\<rparr>"
  using scan_frames_from [OF assms, of "[]" "[]" "[]"]
  by (simp add: scan_wal_bytes_def) (simp add: scan_loop.simps)

text \<open>A tail that is not an intact frame: too short for a header, for its length, or with a wrong crc.\<close>

definition not_a_frame :: "(bytes \<Rightarrow> u32) \<Rightarrow> bytes \<Rightarrow> bool" where
  "not_a_frame crc32 tail \<longleftrightarrow>
     tail \<noteq> [] \<and>
     (length tail < 8 \<or>
      (let len = u32_of_le (take 4 tail); payload = take (unat len) (drop 8 tail)
       in unat len > length tail - 8 \<or> crc32 (u32_le len @ payload) \<noteq> u32_of_le (take 4 (drop 4 tail))))"

lemma scan_torn:
  assumes "wal_codec_ok to_wal of_wal" and "frames crc32 to_wal rs = Inr bs" and "not_a_frame crc32 tail"
  shows "scan_wal_bytes crc32 of_wal (bs @ tail) = Inr (torn_tail rs (length bs))"
proof -
  have drops: "drop (length bs + 4) (bs @ tail) = drop 4 tail" "drop (length bs + 8) (bs @ tail) = drop 8 tail"
    by (simp_all add: drop_append)
  have "scan_loop crc32 of_wal (bs @ tail) (length bs) rs = Inr (torn_tail rs (length bs))"
    using assms(3) by (subst scan_loop.simps) (auto simp: Let_def drops not_a_frame_def)
  then show ?thesis using scan_frames_from [OF assms(1,2), of "[]" tail "[]"] by (simp add: scan_wal_bytes_def)
qed

text \<open>A proper prefix of a frame is such a tail, unless its crc collides.\<close>

lemma prefix_not_a_frame:
  assumes "length p < 2 ^ 32" and "k < length (frame_of crc32 p)" and "0 < k"
  shows "not_a_frame crc32 (take k (frame_of crc32 p))"
proof (cases "k < 8")
  case True
  then have l: "length (take k (frame_of crc32 p)) = k" by simp
  then have "take k (frame_of crc32 p) \<noteq> []" using assms(3) by (metis length_greater_0_conv)
  then show ?thesis using l True by (simp add: not_a_frame_def)
next
  case False
  have "take 4 (take k (frame_of crc32 p)) = take 4 (frame_of crc32 p)" using False by (simp add: min_def)
  then have "u32_of_le (take 4 (take k (frame_of crc32 p))) = of_nat (length p)"
    using frame_fields(1) [OF assms(1), of crc32 "[]"] by simp
  then show ?thesis using assms False frame_fields(4) [OF assms(1)]
    by (auto simp: not_a_frame_def Let_def)
qed

section \<open>Every scan returns a valid prefix\<close>

lemma scan_loop_bounds:
  assumes "scan_loop crc32 of_wal buf offset records = Inr r" and "offset \<le> length buf"
  shows "offset \<le> sr_valid_end r \<and> sr_valid_end r \<le> length buf \<and> sr_dropped r \<le> 1 \<and>
    (sr_tail_truncated r \<longleftrightarrow> sr_valid_end r < length buf) \<and> (\<exists>more. sr_records r = records @ more)"
  using assms
proof (induction crc32 of_wal buf offset records rule: scan_loop.induct)
  case (1 crc32 of_wal buf offset records)
  let ?len = "u32_of_le (take 4 (drop offset buf))"
  let ?payload = "take (unat ?len) (drop (offset + 8) buf)"
  note eq = scan_loop.simps [of crc32 of_wal buf offset records, unfolded Let_def]
  show ?case
  proof (cases "8 \<le> length buf - offset \<and> \<not> unat ?len > length buf - offset - 8 \<and>
      \<not> crc32 (u32_le ?len @ ?payload) \<noteq> u32_of_le (take 4 (drop (offset + 4) buf)) \<and> of_wal ?payload \<noteq> None")
    case True
    then obtain rec where rec: "of_wal ?payload = Some rec" by blast
    have step: "scan_loop crc32 of_wal buf offset records =
        scan_loop crc32 of_wal buf (offset + (8 + unat ?len)) (records @ [rec])"
      using True rec by (intro scan_loop_frame [where payload = ?payload]) auto
    have "offset + (8 + unat ?len) \<le> length buf" using True by linarith
    then show ?thesis
      using 1(1) [OF refl _ _ refl refl _ refl _ rec] 1(2,3) True unfolding step by fastforce
  next
    case False
    then show ?thesis
      using 1(2,3) unfolding eq by (auto simp: torn_tail_def split: if_splits option.splits)
  qed
qed

end
