(* ===== verification/OG_Commit.thy ===== *)
theory OG_Commit
  imports OG_Vfs
begin

text \<open>
  The COMMIT sidecar of \<open>src/persist/commit.rs\<close>: two fixed-size slots written alternately, of which
  the reader trusts the crc-valid one with the highest \<open>gen\<close>. The \<open>+ 1\<close> on the write counter
  wraps, as in a release build.
\<close>

section \<open>Slots\<close>

record commit_record =
  cr_epoch :: u128
  cr_committed_seq :: u64
  cr_gen :: u64

definition commit_magic :: bytes where "commit_magic = map of_char ''OGCM''"

definition commit_version :: u32 where "commit_version = 1"

definition slot_size :: nat where "slot_size = 44"

definition slot_content :: "commit_record \<Rightarrow> bytes" where
  "slot_content r = commit_magic @ u32_le commit_version @ u64_le (cr_gen r) @ u128_le (cr_epoch r) @
     u64_le (cr_committed_seq r)"

definition encode_slot :: "(bytes \<Rightarrow> u32) \<Rightarrow> commit_record \<Rightarrow> bytes" where
  "encode_slot crc32 r = slot_content r @ u32_le (crc32 (slot_content r))"

definition slice :: "nat \<Rightarrow> nat \<Rightarrow> 'a list \<Rightarrow> 'a list" where
  "slice a b xs = take (b - a) (drop a xs)"

definition decode_slot :: "(bytes \<Rightarrow> u32) \<Rightarrow> bytes \<Rightarrow> commit_record option" where
  "decode_slot crc32 bytes =
     (if length bytes < slot_size then None
      else if slice 0 4 bytes \<noteq> commit_magic then None
      else if u32_of_le (slice 4 8 bytes) \<noteq> commit_version then None
      else if crc32 (slice 0 40 bytes) \<noteq> u32_of_le (slice 40 44 bytes) then None
      else Some \<lparr>cr_epoch = u128_of_le (slice 16 32 bytes),
                 cr_committed_seq = u64_of_le (slice 32 40 bytes),
                 cr_gen = u64_of_le (slice 8 16 bytes)\<rparr>)"

section \<open>The file\<close>

record commit_file =
  cf_file :: nat
  cf_next_slot :: nat
  cf_next_gen :: u64

definition commit_name :: string where "commit_name = ''COMMIT''"

definition commit_create ::
  "(bytes \<Rightarrow> u32) \<Rightarrow> u128 \<Rightarrow> u64 \<Rightarrow> (fs, commit_file) eff" where
  "commit_create crc32 epoch committed_seq =
     bindI (io (vfs_create commit_name)) (\<lambda>fd.
     bindI (io (file_seek_start fd 0)) (\<lambda>_.
     bindI (io (file_write_all fd (encode_slot crc32
       \<lparr>cr_epoch = epoch, cr_committed_seq = committed_seq, cr_gen = 0\<rparr>))) (\<lambda>_.
     bindI (io (file_sync_all fd)) (\<lambda>_.
     bindI (io vfs_fsync_dir) (\<lambda>_.
       returnI \<lparr>cf_file = fd, cf_next_slot = 1, cf_next_gen = 1\<rparr>)))))"

text \<open>\<open>buf.get(a..b)\<close> is \<open>None\<close> when the range reaches past the end.\<close>

definition slot_at :: "(bytes \<Rightarrow> u32) \<Rightarrow> bytes \<Rightarrow> nat \<Rightarrow> commit_record option" where
  "slot_at crc32 buf i =
     (if (i + 1) * slot_size \<le> length buf
      then decode_slot crc32 (slice (i * slot_size) ((i + 1) * slot_size) buf) else None)"

definition pick_slot :: "(bytes \<Rightarrow> u32) \<Rightarrow> bytes \<Rightarrow> (commit_record \<times> nat) option" where
  "pick_slot crc32 buf =
     (case (slot_at crc32 buf 0, slot_at crc32 buf 1) of
        (Some a, Some b) \<Rightarrow> if cr_gen a \<ge> cr_gen b then Some (a, 0) else Some (b, 1)
      | (Some a, None) \<Rightarrow> Some (a, 0)
      | (None, Some b) \<Rightarrow> Some (b, 1)
      | (None, None) \<Rightarrow> None)"

definition open_commit_file :: "(fs, nat) eff" where
  "open_commit_file s =
     (case vfs_open_rw commit_name s of
        (Inr fd, s) \<Rightarrow> (Inr fd, s)
      | (Inl e, s) \<Rightarrow> (Inl (if e = NotFoundIo then Corrupt ''COMMIT sidecar missing'' else Io e), s))"

definition commit_open :: "(bytes \<Rightarrow> u32) \<Rightarrow> (fs, commit_record \<times> commit_file) eff" where
  "commit_open crc32 =
     bindI open_commit_file (\<lambda>fd.
     bindI (io (file_seek_start fd 0)) (\<lambda>_.
     bindI (io (file_read_to_end fd)) (\<lambda>buf.
       case pick_slot crc32 buf of
         None \<Rightarrow> failI (Corrupt ''COMMIT sidecar has no crc-valid slot'')
       | Some (r, chosen) \<Rightarrow>
           returnI (r, \<lparr>cf_file = fd, cf_next_slot = 1 - chosen, cf_next_gen = cr_gen r + 1\<rparr>))))"

definition on_fs :: "(fs \<Rightarrow> (io_error + 'a) \<times> fs) \<Rightarrow> ('w \<times> fs, 'a) eff" where
  "on_fs m = (\<lambda>(w, s). case m s of (r, s) \<Rightarrow> (from_io r, (w, s)))"

definition commit_advance :: "(bytes \<Rightarrow> u32) \<Rightarrow> u128 \<Rightarrow> u64 \<Rightarrow> (commit_file \<times> fs, unit) eff" where
  "commit_advance crc32 epoch committed_seq = (\<lambda>(c, s).
     bindI (on_fs (file_seek_start (cf_file c) (cf_next_slot c * slot_size))) (\<lambda>_.
     bindI (on_fs (file_write_all (cf_file c) (encode_slot crc32
       \<lparr>cr_epoch = epoch, cr_committed_seq = committed_seq, cr_gen = cf_next_gen c\<rparr>))) (\<lambda>_.
     bindI (on_fs (file_sync_all (cf_file c))) (\<lambda>_ (c, s).
       (Inr (), (c\<lparr>cf_next_slot := 1 - cf_next_slot c, cf_next_gen := cf_next_gen c + 1\<rparr>, s))))) (c, s))"

section \<open>Slot round trip\<close>

lemma length_commit_magic [simp]: "length commit_magic = 4"
  by (simp add: commit_magic_def)

lemma length_slot_content [simp]: "length (slot_content r) = 40"
  by (simp add: slot_content_def)

lemma length_encode_slot [simp]: "length (encode_slot crc32 r) = 44"
  by (simp add: encode_slot_def)

lemma decode_encode_slot: "decode_slot crc32 (encode_slot crc32 r) = Some r"
proof -
  have "slice 0 40 (encode_slot crc32 r) = slot_content r" by (simp add: slice_def encode_slot_def)
  moreover have "slice 40 44 (encode_slot crc32 r) = u32_le (crc32 (slot_content r))"
    by (simp add: slice_def encode_slot_def)
  moreover have "slice 0 4 (encode_slot crc32 r) = commit_magic" "slice 4 8 (encode_slot crc32 r) = u32_le commit_version"
    "slice 8 16 (encode_slot crc32 r) = u64_le (cr_gen r)" "slice 16 32 (encode_slot crc32 r) = u128_le (cr_epoch r)"
    "slice 32 40 (encode_slot crc32 r) = u64_le (cr_committed_seq r)"
    by (simp_all add: slice_def encode_slot_def slot_content_def)
  ultimately show ?thesis by (simp add: decode_slot_def slot_size_def)
qed

section \<open>Ping-pong\<close>

text \<open>The live record sits in the slot that is not written next, and the other slot is older.\<close>

definition commit_ok :: "(bytes \<Rightarrow> u32) \<Rightarrow> bytes \<Rightarrow> commit_record \<Rightarrow> commit_file \<Rightarrow> bool" where
  "commit_ok crc32 buf r c \<longleftrightarrow>
     cf_next_slot c \<le> 1 \<and> length buf \<le> 2 * slot_size \<and> cf_next_slot c * slot_size \<le> length buf \<and>
     slot_at crc32 buf (1 - cf_next_slot c) = Some r \<and>
     cf_next_gen c = cr_gen r + 1 \<and> cr_gen r + 1 \<noteq> 0 \<and>
     (\<forall>old. slot_at crc32 buf (cf_next_slot c) = Some old \<longrightarrow> cr_gen old < cr_gen r)"

definition next_record :: "u128 \<Rightarrow> u64 \<Rightarrow> commit_file \<Rightarrow> commit_record" where
  "next_record epoch seq c = \<lparr>cr_epoch = epoch, cr_committed_seq = seq, cr_gen = cf_next_gen c\<rparr>"

lemma pick_commit_ok:
  assumes "commit_ok crc32 buf r c"
  shows "pick_slot crc32 buf = Some (r, 1 - cf_next_slot c)"
proof (cases "cf_next_slot c")
  case 0
  then show ?thesis using assms by (auto simp: commit_ok_def pick_slot_def not_le split: option.splits)
next
  case (Suc n)
  then have one: "cf_next_slot c = 1" using assms by (simp add: commit_ok_def)
  then show ?thesis using assms by (auto simp: commit_ok_def pick_slot_def split: option.splits)
qed

text \<open>A write of the next slot, torn in any way, keeps the other slot.\<close>

definition overwritten :: "bytes \<Rightarrow> nat \<Rightarrow> bytes \<Rightarrow> bool" where
  "overwritten buf i buf' \<longleftrightarrow>
     length buf \<le> length buf' \<and> length buf' \<le> max (length buf) ((i + 1) * slot_size) \<and>
     (\<forall>k < length buf. k < i * slot_size \<or> (i + 1) * slot_size \<le> k \<longrightarrow> buf' ! k = buf ! k)"

lemma slot_at_other:
  assumes "overwritten buf i buf'" and "i \<le> 1" and "slot_at crc32 buf (1 - i) = Some r"
  shows "slot_at crc32 buf' (1 - i) = Some r"
proof -
  let ?j = "1 - i"
  have len: "(?j + 1) * slot_size \<le> length buf" using assms(3) by (auto simp: slot_at_def split: if_splits)
  have le: "length buf \<le> length buf'" using assms(1) by (simp add: overwritten_def)
  have "slice (?j * slot_size) ((?j + 1) * slot_size) buf' = slice (?j * slot_size) ((?j + 1) * slot_size) buf"
  proof (rule nth_equalityI)
    show "length (slice (?j * slot_size) ((?j + 1) * slot_size) buf') = length (slice (?j * slot_size) ((?j + 1) * slot_size) buf)"
      using len le by (simp add: slice_def)
    fix k assume "k < length (slice (?j * slot_size) ((?j + 1) * slot_size) buf')"
    then have k: "k < slot_size" using len le by (simp add: slice_def)
    have out: "?j * slot_size + k < i * slot_size \<or> (i + 1) * slot_size \<le> ?j * slot_size + k"
      using k assms(2) by (cases i) (auto simp: slot_size_def)
    have "?j * slot_size + k < length buf" using k len by simp
    then have "buf' ! (?j * slot_size + k) = buf ! (?j * slot_size + k)" using assms(1) out unfolding overwritten_def by blast
    then show "slice (?j * slot_size) ((?j + 1) * slot_size) buf' ! k = slice (?j * slot_size) ((?j + 1) * slot_size) buf ! k"
      using k len le by (simp add: slice_def)
  qed
  then show ?thesis using assms(3) len le by (simp add: slot_at_def split: if_splits)
qed

lemma torn_advance_picks:
  assumes ok: "commit_ok crc32 buf r c" and w: "overwritten buf (cf_next_slot c) buf'"
    and torn: "slot_at crc32 buf' (cf_next_slot c) \<in>
      {None, slot_at crc32 buf (cf_next_slot c), Some (next_record epoch seq c)}"
  shows "pick_slot crc32 buf' \<in> {Some (r, 1 - cf_next_slot c), Some (next_record epoch seq c, cf_next_slot c)}"
proof -
  let ?i = "cf_next_slot c" let ?n = "next_record epoch seq c"
  have i: "?i \<le> 1" using ok by (simp add: commit_ok_def)
  have keep: "slot_at crc32 buf' (1 - ?i) = Some r"
    using slot_at_other [OF w i] ok by (simp add: commit_ok_def)
  have newer: "cr_gen r < cr_gen ?n"
    using ok unatSuc [of "cr_gen r"] by (simp add: commit_ok_def next_record_def word_less_nat_alt add.commute)
  have older: "cr_gen old < cr_gen r" if "slot_at crc32 buf ?i = Some old" for old
    using ok that by (simp add: commit_ok_def)
  consider "?i = 0" | "?i = 1" using i by linarith
  then show ?thesis
  proof cases
    case 1
    then show ?thesis using keep torn newer older by (auto simp: pick_slot_def not_le split: option.splits)
  next
    case 2
    then show ?thesis using keep torn newer older by (auto simp: pick_slot_def not_le split: option.splits)
  qed
qed

end
