(* ===== verification/OG_Manifest.thy ===== *)
theory OG_Manifest
  imports OG_Vfs
begin

text \<open>
  The MANIFEST of \<open>src/persist/manifest.rs\<close>: the root record, its integrity checksum, epoch minting
  and the tmp, fsync, rename, fsync-dir discipline. The JSON text (\<open>to_json\<close>, \<open>of_json\<close>) and crc32
  are parameters.
\<close>

definition format_version :: u32 where "format_version = 3"

definition created_by_stamp :: string where "created_by_stamp = ''orpheusgraph 0.1.0''"

record manifest =
  mf_format_version :: u32
  mf_snapshot_file :: string
  mf_snapshot_seq :: u64
  mf_snapshot_crc32 :: u32
  mf_compaction_id :: u64
  mf_epoch :: u128
  mf_high_seq :: u64
  mf_clean_shutdown :: bool
  mf_created_by :: string
  mf_checksum :: u32

definition manifest_name :: string where "manifest_name = ''MANIFEST.json''"

definition mint_epoch :: "(fs, u128) eff" where
  "mint_epoch = bindI (io draw_entropy) (\<lambda>buf. returnI (u128_of_le buf))"

definition manifest_checksum :: "(bytes \<Rightarrow> u32) \<Rightarrow> manifest \<Rightarrow> u32" where
  "manifest_checksum crc32 m = crc32
     (u32_le (mf_format_version m) @ map of_char (mf_snapshot_file m) @ u64_le (mf_snapshot_seq m) @
      u32_le (mf_snapshot_crc32 m) @ u64_le (mf_compaction_id m) @ u128_le (mf_epoch m) @ u64_le (mf_high_seq m) @
      [if mf_clean_shutdown m then 1 else 0])"

definition check_manifest :: "(bytes \<Rightarrow> u32) \<Rightarrow> (bytes \<Rightarrow> manifest option) \<Rightarrow> bytes \<Rightarrow> persist_error + manifest" where
  "check_manifest crc32 of_json bytes =
     (case of_json bytes of
        None \<Rightarrow> Inl (Corrupt ''MANIFEST parse failed'')
      | Some m \<Rightarrow>
          if mf_checksum m \<noteq> 0 \<and> mf_checksum m \<noteq> manifest_checksum crc32 m
          then Inl (Corrupt ''MANIFEST checksum mismatch'') else Inr m)"

definition read_manifest :: "(bytes \<Rightarrow> u32) \<Rightarrow> (bytes \<Rightarrow> manifest option) \<Rightarrow> string \<Rightarrow> (fs, manifest) eff" where
  "read_manifest crc32 of_json path =
     bindI (io (fs_read path)) (\<lambda>bytes. liftE (check_manifest crc32 of_json bytes))"

definition tmp_name :: "string \<Rightarrow> string" where "tmp_name n = n @ ''.tmp''"

definition write_file_atomic :: "string \<Rightarrow> bytes \<Rightarrow> (fs, unit) eff" where
  "write_file_atomic name bytes =
     bindI (io (vfs_create (tmp_name name))) (\<lambda>fd.
     bindI (io (file_write_all fd bytes)) (\<lambda>_.
     bindI (io (file_sync_all fd)) (\<lambda>_.
     bindI (io (vfs_rename (tmp_name name) name)) (\<lambda>_.
     io vfs_fsync_dir))))"

text \<open>A computed checksum of 0 is stored as 1, so that 0 means unchecked.\<close>

definition stamp_manifest :: "(bytes \<Rightarrow> u32) \<Rightarrow> manifest \<Rightarrow> manifest" where
  "stamp_manifest crc32 m =
     m\<lparr>mf_checksum := (if manifest_checksum crc32 m = 0 then 1 else manifest_checksum crc32 m)\<rparr>"

definition write_manifest_atomic ::
  "(bytes \<Rightarrow> u32) \<Rightarrow> (manifest \<Rightarrow> bytes option) \<Rightarrow> manifest \<Rightarrow> (fs, unit) eff" where
  "write_manifest_atomic crc32 to_json m =
     (case to_json (stamp_manifest crc32 m) of
        None \<Rightarrow> failI (Corrupt ''MANIFEST serialize failed'')
      | Some json \<Rightarrow> write_file_atomic manifest_name json)"

section \<open>The checksum\<close>

definition json_ok :: "(manifest \<Rightarrow> bytes option) \<Rightarrow> (bytes \<Rightarrow> manifest option) \<Rightarrow> bool" where
  "json_ok to_json of_json \<longleftrightarrow> (\<forall>m b. to_json m = Some b \<longrightarrow> of_json b = Some m)"

lemma checksum_stamp [simp]:
  "manifest_checksum crc32 (m\<lparr>mf_checksum := c\<rparr>) = manifest_checksum crc32 m"
  by (simp add: manifest_checksum_def)

lemma stamp_nonzero: "mf_checksum (stamp_manifest crc32 m) \<noteq> 0"
  by (simp add: stamp_manifest_def)

text \<open>The exact rule of the reader: a nonzero stored checksum must equal the recomputed one.\<close>

lemma check_manifest_iff:
  "check_manifest crc32 of_json bytes = Inr m \<longleftrightarrow>
     of_json bytes = Some m \<and> (mf_checksum m = 0 \<or> mf_checksum m = manifest_checksum crc32 m)"
  by (auto simp: check_manifest_def split: option.splits)

lemma read_stamped:
  assumes "json_ok to_json of_json" and "to_json (stamp_manifest crc32 m) = Some b" and "manifest_checksum crc32 m \<noteq> 0"
  shows "check_manifest crc32 of_json b = Inr (stamp_manifest crc32 m)"
  using assms by (auto simp: check_manifest_iff json_ok_def stamp_manifest_def)

section \<open>The atomic write\<close>

text \<open>Well-formed directories, in memory and on stable storage: names of distinct files, allocated inodes.\<close>

definition fs_ok :: "fs \<Rightarrow> bool" where
  "fs_ok s \<longleftrightarrow>
     (\<forall>p q i. fmlookup (fs_dir s) p = Some i \<longrightarrow> fmlookup (fs_dir s) q = Some i \<longrightarrow> p = q) \<and>
     (\<forall>p i. fmlookup (fs_dir s) p = Some i \<longrightarrow> i < fs_next_inode s) \<and>
     (\<forall>p i. fmlookup (fs_dir_disk s) p = Some i \<longrightarrow> i < fs_next_inode s) \<and>
     (\<forall>p q i. fmlookup (fs_dir_disk s) p = Some i \<longrightarrow> fmlookup (fs_dir_disk s) q = Some i \<longrightarrow> p = q)"

end
