(* ===== verification/OG_Graph.thy ===== *)
theory OG_Graph
  imports OG_Accessor
begin

text \<open>
  The owned graph of \<open>src/graph.rs\<close>, its \<open>GraphAccessor\<close> implementation in \<open>src/accessor.rs\<close> and
  the rebuild of \<open>src/builder.rs\<close>. The container is petgraph's \<open>DiGraph\<close>, which is not part of the
  repository: its operations are the record \<open>digraph_ops\<close>, and \<open>digraph_laws\<close> states its
  documented behaviour (indices are handed out in insertion order, \<open>edges_directed\<close> yields the
  incident edges in some order, at most \<open>2^32 - 1\<close> nodes and edges).
\<close>

section \<open>The graph container\<close>

type_synonym indexed_edge = "nat \<times> nat \<times> edge_data"

record 'g digraph_ops =
  dg_new :: 'g
  dg_add_node :: "'g \<Rightarrow> node_data \<Rightarrow> 'g \<times> nat"
  dg_add_edge :: "'g \<Rightarrow> nat \<Rightarrow> nat \<Rightarrow> edge_data \<Rightarrow> 'g"
  dg_set_node :: "'g \<Rightarrow> nat \<Rightarrow> node_data \<Rightarrow> 'g"
  dg_nodes :: "'g \<Rightarrow> node_data list"
  dg_edges :: "'g \<Rightarrow> indexed_edge list"
  dg_out :: "'g \<Rightarrow> nat \<Rightarrow> indexed_edge list"
  dg_in :: "'g \<Rightarrow> nat \<Rightarrow> indexed_edge list"

definition dg_limit :: nat where "dg_limit = 2 ^ 32 - 1"

definition digraph_laws :: "'g digraph_ops \<Rightarrow> bool" where
  "digraph_laws ops \<longleftrightarrow>
     dg_nodes ops (dg_new ops) = [] \<and> dg_edges ops (dg_new ops) = [] \<and>
     (\<forall>g n. length (dg_nodes ops g) < dg_limit \<longrightarrow>
        snd (dg_add_node ops g n) = length (dg_nodes ops g) \<and>
        dg_nodes ops (fst (dg_add_node ops g n)) = dg_nodes ops g @ [n] \<and>
        dg_edges ops (fst (dg_add_node ops g n)) = dg_edges ops g) \<and>
     (\<forall>g i j e. i < length (dg_nodes ops g) \<longrightarrow> j < length (dg_nodes ops g) \<longrightarrow>
        length (dg_edges ops g) < dg_limit \<longrightarrow>
        dg_nodes ops (dg_add_edge ops g i j e) = dg_nodes ops g \<and>
        dg_edges ops (dg_add_edge ops g i j e) = dg_edges ops g @ [(i, j, e)]) \<and>
     (\<forall>g i n. i < length (dg_nodes ops g) \<longrightarrow>
        dg_nodes ops (dg_set_node ops g i n) = (dg_nodes ops g)[i := n] \<and>
        dg_edges ops (dg_set_node ops g i n) = dg_edges ops g) \<and>
     (\<forall>g i. mset (dg_out ops g i) = filter_mset (\<lambda>(f, t, e). f = i) (mset (dg_edges ops g))) \<and>
     (\<forall>g i. mset (dg_in ops g i) = filter_mset (\<lambda>(f, t, e). t = i) (mset (dg_edges ops g)))"

lemma digraph_lawsD:
  assumes "digraph_laws ops"
  shows dg_new_nodes: "dg_nodes ops (dg_new ops) = []"
    and dg_new_edges: "dg_edges ops (dg_new ops) = []"
    and dg_add_node_laws: "length (dg_nodes ops g) < dg_limit \<Longrightarrow> snd (dg_add_node ops g n) = length (dg_nodes ops g)"
      "length (dg_nodes ops g) < dg_limit \<Longrightarrow> dg_nodes ops (fst (dg_add_node ops g n)) = dg_nodes ops g @ [n]"
      "length (dg_nodes ops g) < dg_limit \<Longrightarrow> dg_edges ops (fst (dg_add_node ops g n)) = dg_edges ops g"
    and dg_add_edge_laws: "i < length (dg_nodes ops g) \<Longrightarrow> j < length (dg_nodes ops g) \<Longrightarrow>
        length (dg_edges ops g) < dg_limit \<Longrightarrow> dg_nodes ops (dg_add_edge ops g i j e) = dg_nodes ops g"
      "i < length (dg_nodes ops g) \<Longrightarrow> j < length (dg_nodes ops g) \<Longrightarrow>
        length (dg_edges ops g) < dg_limit \<Longrightarrow> dg_edges ops (dg_add_edge ops g i j e) = dg_edges ops g @ [(i, j, e)]"
    and dg_set_node_laws: "i < length (dg_nodes ops g) \<Longrightarrow> dg_nodes ops (dg_set_node ops g i n) = (dg_nodes ops g)[i := n]"
      "i < length (dg_nodes ops g) \<Longrightarrow> dg_edges ops (dg_set_node ops g i n) = dg_edges ops g"
    and dg_out_law: "mset (dg_out ops g k) = filter_mset (\<lambda>(f, t, e). f = k) (mset (dg_edges ops g))"
    and dg_in_law: "mset (dg_in ops g k) = filter_mset (\<lambda>(f, t, e). t = k) (mset (dg_edges ops g))"
  using assms unfolding digraph_laws_def by blast+

text \<open>A concrete container with these laws, for the witnesses.\<close>

definition list_digraph :: "(node_data list \<times> indexed_edge list) digraph_ops" where
  "list_digraph = \<lparr>
     dg_new = ([], []),
     dg_add_node = (\<lambda>(ns, es) n. ((ns @ [n], es), length ns)),
     dg_add_edge = (\<lambda>(ns, es) i j e. (ns, es @ [(i, j, e)])),
     dg_set_node = (\<lambda>(ns, es) i n. (ns[i := n], es)),
     dg_nodes = fst,
     dg_edges = snd,
     dg_out = (\<lambda>(ns, es) i. rev (filter (\<lambda>(f, t, e). f = i) es)),
     dg_in = (\<lambda>(ns, es) i. rev (filter (\<lambda>(f, t, e). t = i) es))\<rparr>"

lemma list_digraph_laws: "digraph_laws list_digraph"
  by (simp add: digraph_laws_def list_digraph_def)

section \<open>The owned graph\<close>

record 'g orpheus_graph =
  og_graph :: 'g
  og_index :: "(string, nat) fmap"

definition og_node_count :: "'g digraph_ops \<Rightarrow> 'g orpheus_graph \<Rightarrow> nat" where
  "og_node_count ops G = length (dg_nodes ops (og_graph G))"

definition og_edge_count :: "'g digraph_ops \<Rightarrow> 'g orpheus_graph \<Rightarrow> nat" where
  "og_edge_count ops G = length (dg_edges ops (og_graph G))"

definition og_get_node :: "'g digraph_ops \<Rightarrow> 'g orpheus_graph \<Rightarrow> string \<Rightarrow> node_data option" where
  "og_get_node ops G n = map_option (\<lambda>i. dg_nodes ops (og_graph G) ! i) (fmlookup (og_index G) n)"

definition og_get_index :: "'g orpheus_graph \<Rightarrow> string \<Rightarrow> nat option" where
  "og_get_index G n = fmlookup (og_index G) n"

definition edge_result_of :: "string \<Rightarrow> string \<Rightarrow> edge_data \<Rightarrow> edge_result" where
  "edge_result_of s t e = \<lparr>er_source = s, er_target = t, er_kind = ed_kind e, er_field_name = ed_field_name e,
     er_weight = ed_base_weight e, er_valid_from = ed_valid_from e, er_valid_to = ed_valid_to e, er_acl = ed_acl e\<rparr>"

definition og_outgoing_edges :: "'g digraph_ops \<Rightarrow> 'g orpheus_graph \<Rightarrow> string \<Rightarrow> edge_result list" where
  "og_outgoing_edges ops G n =
     (case fmlookup (og_index G) n of
        None \<Rightarrow> []
      | Some idx \<Rightarrow>
          let source_name = nd_name (dg_nodes ops (og_graph G) ! idx)
          in map (\<lambda>(f, t, e). edge_result_of source_name (nd_name (dg_nodes ops (og_graph G) ! t)) e)
               (dg_out ops (og_graph G) idx))"

definition og_incoming_edges :: "'g digraph_ops \<Rightarrow> 'g orpheus_graph \<Rightarrow> string \<Rightarrow> edge_result list" where
  "og_incoming_edges ops G n =
     (case fmlookup (og_index G) n of
        None \<Rightarrow> []
      | Some idx \<Rightarrow>
          let target_name = nd_name (dg_nodes ops (og_graph G) ! idx)
          in map (\<lambda>(f, t, e). edge_result_of (nd_name (dg_nodes ops (og_graph G) ! f)) target_name e)
               (dg_in ops (og_graph G) idx))"

section \<open>The accessor\<close>

definition graph_out_neighbors :: "'g digraph_ops \<Rightarrow> 'g orpheus_graph \<Rightarrow> string \<Rightarrow> neighbor_view list" where
  "graph_out_neighbors ops G n =
     (case fmlookup (og_index G) n of
        None \<Rightarrow> []
      | Some idx \<Rightarrow> map (\<lambda>(f, t, e). neighbor_view_of (nd_name (dg_nodes ops (og_graph G) ! t)) e)
                     (dg_out ops (og_graph G) idx))"

definition graph_in_neighbors :: "'g digraph_ops \<Rightarrow> 'g orpheus_graph \<Rightarrow> string \<Rightarrow> neighbor_view list" where
  "graph_in_neighbors ops G n =
     (case fmlookup (og_index G) n of
        None \<Rightarrow> []
      | Some idx \<Rightarrow> map (\<lambda>(f, t, e). neighbor_view_of (nd_name (dg_nodes ops (og_graph G) ! f)) e)
                     (dg_in ops (og_graph G) idx))"

definition graph_accessor :: "'g digraph_ops \<Rightarrow> 'g orpheus_graph \<Rightarrow> accessor" where
  "graph_accessor ops G = \<lparr>
     acc_node_count = og_node_count ops G,
     acc_edge_count = og_edge_count ops G,
     acc_get_node = (\<lambda>n. map_option (\<lambda>i. node_view_from (dg_nodes ops (og_graph G) ! i)) (og_get_index G n)),
     acc_outgoing = graph_out_neighbors ops G,
     acc_incoming = graph_in_neighbors ops G\<rparr>"

section \<open>Rebuilding from serialized data\<close>

definition insert_node :: "'g digraph_ops \<Rightarrow> 'g orpheus_graph \<Rightarrow> node_data \<Rightarrow> 'g orpheus_graph" where
  "insert_node ops G node =
     (case dg_add_node ops (og_graph G) node of
        (g, idx) \<Rightarrow> \<lparr>og_graph = g, og_index = fmupd (nd_name node) idx (og_index G)\<rparr>)"

definition empty_graph :: "'g digraph_ops \<Rightarrow> 'g orpheus_graph" where
  "empty_graph ops = \<lparr>og_graph = dg_new ops, og_index = fmempty\<rparr>"

text \<open>\<open>idx_vec\<close> holds the index of every node inserted; an edge with an index beyond it is dropped.\<close>

definition rebuild_from_serialized ::
  "'g digraph_ops \<Rightarrow> node_data list \<Rightarrow> indexed_edge list \<Rightarrow> 'g orpheus_graph" where
  "rebuild_from_serialized ops nodes edges =
     (case foldl (\<lambda>(G, idx_vec) node.
              let G' = insert_node ops G node in (G', idx_vec @ [snd (dg_add_node ops (og_graph G) node)]))
            (empty_graph ops, []) nodes of
        (G, idx_vec) \<Rightarrow>
          G\<lparr>og_graph := foldl (\<lambda>g (from_idx, to_idx, edge).
               if from_idx < length idx_vec \<and> to_idx < length idx_vec
               then dg_add_edge ops g (idx_vec ! from_idx) (idx_vec ! to_idx) edge else g)
             (og_graph G) edges\<rparr>)"

section \<open>Well-formed graphs\<close>

text \<open>Index of every name, for a list of nodes with distinct names.\<close>

definition name_index :: "node_data list \<Rightarrow> (string, nat) fmap" where
  "name_index ns = foldl (\<lambda>m i. fmupd (nd_name (ns ! i)) i m) fmempty [0..<length ns]"

lemma name_index_snoc: "name_index (ns @ [n]) = fmupd (nd_name n) (length ns) (name_index ns)"
proof -
  have "foldl (\<lambda>m i. fmupd (nd_name ((ns @ [n]) ! i)) i m) m xs = foldl (\<lambda>m i. fmupd (nd_name (ns ! i)) i m) m xs"
    if "\<forall>i \<in> set xs. i < length ns" for m xs
    using that by (induction xs arbitrary: m) (auto simp: nth_append)
  then show ?thesis by (simp add: name_index_def)
qed

lemma name_index_Some:
  "fmlookup (name_index ns) n = Some i \<Longrightarrow> i < length ns \<and> nd_name (ns ! i) = n"
proof (induction ns rule: rev_induct)
  case Nil
  then show ?case by (simp add: name_index_def)
next
  case (snoc x ns)
  then show ?case by (cases "nd_name x = n") (auto simp: name_index_snoc nth_append)
qed

lemma nth_name_eq:
  "distinct (map nd_name ns) \<Longrightarrow> i < length ns \<Longrightarrow> j < length ns \<Longrightarrow> nd_name (ns ! i) = nd_name (ns ! j) \<longleftrightarrow> i = j"
  by (metis length_map nth_eq_iff_index_eq nth_map)

lemma name_index_nth:
  "distinct (map nd_name ns) \<Longrightarrow> i < length ns \<Longrightarrow> fmlookup (name_index ns) (nd_name (ns ! i)) = Some i"
proof (induction ns rule: rev_induct)
  case (snoc n ns)
  show ?case
  proof (cases "i = length ns")
    case False
    then have i: "i < length ns" using snoc.prems by simp
    then have "nd_name (ns ! i) \<noteq> nd_name n"
      using nth_name_eq [OF snoc.prems(1), of i "length ns"] by (simp add: nth_append)
    then show ?thesis using snoc i by (simp add: name_index_snoc nth_append)
  qed (simp add: name_index_snoc)
qed simp

lemma name_index_None: "fmlookup (name_index ns) n = None \<longleftrightarrow> n \<notin> nd_name ` set ns"
proof (induction ns rule: rev_induct)
  case (snoc x ns)
  then show ?case by (cases "nd_name x = n") (auto simp: name_index_snoc)
qed (simp add: name_index_def)

definition og_ok :: "'g digraph_ops \<Rightarrow> 'g orpheus_graph \<Rightarrow> bool" where
  "og_ok ops G \<longleftrightarrow>
     distinct (map nd_name (dg_nodes ops (og_graph G))) \<and>
     og_index G = name_index (dg_nodes ops (og_graph G)) \<and>
     (\<forall>(f, t, e) \<in> set (dg_edges ops (og_graph G)).
        f < length (dg_nodes ops (og_graph G)) \<and> t < length (dg_nodes ops (og_graph G)))"

text \<open>The logical graph: nodes by name, edges between names.\<close>

definition og_nodes :: "'g digraph_ops \<Rightarrow> 'g orpheus_graph \<Rightarrow> string \<Rightarrow> node_view option" where
  "og_nodes ops G = map_of (map (\<lambda>d. (nd_name d, node_view_from d)) (dg_nodes ops (og_graph G)))"

definition named_edge :: "node_data list \<Rightarrow> indexed_edge \<Rightarrow> graph_edge" where
  "named_edge ns x = (case x of (f, t, e) \<Rightarrow> (nd_name (ns ! f), nd_name (ns ! t), e))"

definition og_edges :: "'g digraph_ops \<Rightarrow> 'g orpheus_graph \<Rightarrow> graph_edge multiset" where
  "og_edges ops G = image_mset (named_edge (dg_nodes ops (og_graph G))) (mset (dg_edges ops (og_graph G)))"

lemma map_of_names:
  "distinct (map nd_name ns) \<Longrightarrow>
   map_of (map (\<lambda>d. (nd_name d, node_view_from d)) ns) n =
   map_option (\<lambda>i. node_view_from (ns ! i)) (fmlookup (name_index ns) n)"
proof (cases "fmlookup (name_index ns) n")
  case None
  then have "map_of (map (\<lambda>d. (nd_name d, node_view_from d)) ns) n = None"
    by (force simp: name_index_None map_of_eq_None_iff)
  then show ?thesis using None by simp
next
  case (Some i)
  assume d: "distinct (map nd_name ns)"
  from name_index_Some [OF Some] have i: "i < length ns" "nd_name (ns ! i) = n" by auto
  have "map_of (map (\<lambda>d. (nd_name d, node_view_from d)) ns) n = Some (node_view_from (ns ! i))"
    using i d by (intro map_of_is_SomeI) (auto simp: o_def image_iff intro!: bexI [of _ "ns ! i"])
  then show ?thesis using Some by simp
qed

lemma out_views_edges:
  assumes "distinct (map nd_name ns)" and "i < length ns" and "\<forall>(f, t, e) \<in># M. f < length ns \<and> t < length ns"
  shows "out_views (image_mset (named_edge ns) M) (nd_name (ns ! i)) =
    image_mset (\<lambda>(f, t, e). neighbor_view_of (nd_name (ns ! t)) e) (filter_mset (\<lambda>(f, t, e). f = i) M)"
  using assms(3) by (induction M)
    (auto simp: out_views_def named_edge_def out_view_def nth_name_eq [OF assms(1) _ assms(2)])

lemma in_views_edges:
  assumes "distinct (map nd_name ns)" and "i < length ns" and "\<forall>(f, t, e) \<in># M. f < length ns \<and> t < length ns"
  shows "in_views (image_mset (named_edge ns) M) (nd_name (ns ! i)) =
    image_mset (\<lambda>(f, t, e). neighbor_view_of (nd_name (ns ! f)) e) (filter_mset (\<lambda>(f, t, e). t = i) M)"
  using assms(3) by (induction M)
    (auto simp: in_views_def named_edge_def in_view_def nth_name_eq [OF assms(1) _ assms(2)])

lemma views_absent:
  assumes "n \<notin> nd_name ` set ns" and "\<forall>(f, t, e) \<in># M. f < length ns \<and> t < length ns"
  shows "out_views (image_mset (named_edge ns) M) n = {#}" and "in_views (image_mset (named_edge ns) M) n = {#}"
proof -
  have ne: "nd_name (ns ! i) \<noteq> n" if "i < length ns" for i
    using assms(1) nth_mem [OF that] by blast
  have "nd_name (ns ! f) \<noteq> n \<and> nd_name (ns ! t) \<noteq> n" if "(f, t, e) \<in># M" for f t e
    using bspec [OF assms(2) that] ne by simp
  then have *: "filter_mset (\<lambda>(f, t, e). f = n) (image_mset (named_edge ns) M) = {#}"
    "filter_mset (\<lambda>(f, t, e). t = n) (image_mset (named_edge ns) M) = {#}"
    by (auto intro!: filter_mset_none simp: named_edge_def)
  show "out_views (image_mset (named_edge ns) M) n = {#}" "in_views (image_mset (named_edge ns) M) n = {#}"
    unfolding out_views_def in_views_def * by simp_all
qed

text \<open>A list of nodes with distinct names and a list of indexed edges are a graph; an accessor
  that answers by index answers for it.\<close>

lemma indexed_accessor_ok:
  assumes d: "distinct (map nd_name ns)" and b: "\<forall>(f, t, e) \<in> set es. f < length ns \<and> t < length ns"
    and "acc_node_count A = length ns" and "acc_edge_count A = length es"
    and get: "\<And>n. acc_get_node A n = map_option (\<lambda>i. node_view_from (ns ! i)) (fmlookup (name_index ns) n)"
    and out: "\<And>n. mset (acc_outgoing A n) = (case fmlookup (name_index ns) n of None \<Rightarrow> {#} | Some i \<Rightarrow>
        image_mset (\<lambda>(f, t, e). neighbor_view_of (nd_name (ns ! t)) e) (filter_mset (\<lambda>(f, t, e). f = i) (mset es)))"
    and inc: "\<And>n. mset (acc_incoming A n) = (case fmlookup (name_index ns) n of None \<Rightarrow> {#} | Some i \<Rightarrow>
        image_mset (\<lambda>(f, t, e). neighbor_view_of (nd_name (ns ! f)) e) (filter_mset (\<lambda>(f, t, e). t = i) (mset es)))"
  shows "accessor_ok A (map_of (map (\<lambda>d. (nd_name d, node_view_from d)) ns)) (image_mset (named_edge ns) (mset es))"
proof -
  let ?N = "map_of (map (\<lambda>d. (nd_name d, node_view_from d)) ns)"
  have bm: "\<forall>(f, t, e) \<in># mset es. f < length ns \<and> t < length ns" using b by simp
  have dom: "dom ?N = nd_name ` set ns" by (auto simp: dom_map_of_conv_image_fst image_image)
  have card: "length ns = card (nd_name ` set ns)" using d by (metis distinct_card length_map list.set_map)
  have "mset (acc_outgoing A n) = out_views (image_mset (named_edge ns) (mset es)) n \<and>
      mset (acc_incoming A n) = in_views (image_mset (named_edge ns) (mset es)) n" for n
  proof (cases "fmlookup (name_index ns) n")
    case None
    then have "n \<notin> nd_name ` set ns" by (simp add: name_index_None)
    then show ?thesis using None views_absent [OF _ bm] by (simp add: out inc)
  next
    case (Some i)
    from name_index_Some [OF Some] have i: "i < length ns" "nd_name (ns ! i) = n" by auto
    show ?thesis using out_views_edges [OF d i(1) bm] in_views_edges [OF d i(1) bm] Some i(2)
      by (simp add: out inc)
  qed
  moreover have "f \<in> dom ?N \<and> t \<in> dom ?N" if "(f, t, e) \<in># image_mset (named_edge ns) (mset es)" for f t e
    using that b unfolding dom by (fastforce simp: named_edge_def)
  moreover have "nv_name v = n" if "?N n = Some v" for n v
    using map_of_SomeD [OF that] by auto
  ultimately show ?thesis
    unfolding accessor_ok_def using assms(3,4) card dom get map_of_names [OF d] by auto
qed

lemma graph_accessor_ok:
  assumes "digraph_laws ops" and "og_ok ops G"
  shows "accessor_ok (graph_accessor ops G) (og_nodes ops G) (og_edges ops G)"
  unfolding og_nodes_def og_edges_def
  by (rule indexed_accessor_ok)
    (use assms(2) in \<open>auto simp: og_ok_def graph_accessor_def og_node_count_def og_edge_count_def og_get_index_def
      graph_out_neighbors_def graph_in_neighbors_def dg_out_law [OF assms(1)] dg_in_law [OF assms(1)]
      split: option.splits\<close>)

interpretation owned_view: graph_view "graph_accessor ops" "\<lambda>G. digraph_laws ops \<and> og_ok ops G" "og_nodes ops" "og_edges ops"
  for ops :: "'g digraph_ops"
  by unfold_locales (simp add: graph_accessor_ok)

section \<open>What a rebuild yields\<close>

lemma insert_nodes:
  assumes "digraph_laws ops" and "length (dg_nodes ops (og_graph G)) + length ns \<le> dg_limit"
    and "idx_vec = [0..<length (dg_nodes ops (og_graph G))]" and "og_index G = name_index (dg_nodes ops (og_graph G))"
  shows "\<exists>g. foldl (\<lambda>(G, idx_vec) node.
        let G' = insert_node ops G node in (G', idx_vec @ [snd (dg_add_node ops (og_graph G) node)])) (G, idx_vec) ns =
      (\<lparr>og_graph = g, og_index = name_index (dg_nodes ops (og_graph G) @ ns)\<rparr>,
       [0..<length (dg_nodes ops (og_graph G) @ ns)]) \<and>
      dg_nodes ops g = dg_nodes ops (og_graph G) @ ns \<and> dg_edges ops g = dg_edges ops (og_graph G)"
  using assms(2-)
proof (induction ns arbitrary: G idx_vec)
  case Nil
  then show ?case by (cases G) simp
next
  case (Cons n ns)
  obtain g i where gi: "dg_add_node ops (og_graph G) n = (g, i)" by (cases "dg_add_node ops (og_graph G) n")
  have lim: "length (dg_nodes ops (og_graph G)) < dg_limit" using Cons.prems(1) by simp
  note add = dg_add_node_laws [OF assms(1) lim, of n, unfolded gi, simplified]
  let ?G = "\<lparr>og_graph = g, og_index = fmupd (nd_name n) i (og_index G)\<rparr>"
  have "\<exists>g'. foldl (\<lambda>(G, idx_vec) node.
        let G' = insert_node ops G node in (G', idx_vec @ [snd (dg_add_node ops (og_graph G) node)])) (?G, idx_vec @ [i]) ns =
      (\<lparr>og_graph = g', og_index = name_index (dg_nodes ops (og_graph ?G) @ ns)\<rparr>,
       [0..<length (dg_nodes ops (og_graph ?G) @ ns)]) \<and>
      dg_nodes ops g' = dg_nodes ops (og_graph ?G) @ ns \<and> dg_edges ops g' = dg_edges ops (og_graph ?G)"
    using Cons.prems add by (intro Cons.IH) (simp_all add: name_index_snoc)
  then show ?case using add by (simp add: insert_node_def gi)
qed

lemma insert_edges:
  assumes "digraph_laws ops" and "length (dg_edges ops g) + length es \<le> dg_limit"
    and "m = length (dg_nodes ops g)"
  shows "dg_nodes ops (foldl (\<lambda>g (f, t, e). if f < length [0..<m] \<and> t < length [0..<m]
           then dg_add_edge ops g ([0..<m] ! f) ([0..<m] ! t) e else g) g es) = dg_nodes ops g \<and>
    dg_edges ops (foldl (\<lambda>g (f, t, e). if f < length [0..<m] \<and> t < length [0..<m]
           then dg_add_edge ops g ([0..<m] ! f) ([0..<m] ! t) e else g) g es) =
      dg_edges ops g @ filter (\<lambda>(f, t, e). f < m \<and> t < m) es"
  using assms(2-)
proof (induction es arbitrary: g)
  case (Cons x es)
  obtain f t e where x: "x = (f, t, e)" by (cases x)
  show ?case
  proof (cases "f < m \<and> t < m")
    case True
    have add: "dg_nodes ops (dg_add_edge ops g f t e) = dg_nodes ops g"
      "dg_edges ops (dg_add_edge ops g f t e) = dg_edges ops g @ [(f, t, e)]"
    proof -
      have "f < length (dg_nodes ops g)" "t < length (dg_nodes ops g)" "length (dg_edges ops g) < dg_limit"
        using True Cons.prems by auto
      from dg_add_edge_laws [OF assms(1) this] show "dg_nodes ops (dg_add_edge ops g f t e) = dg_nodes ops g"
        "dg_edges ops (dg_add_edge ops g f t e) = dg_edges ops g @ [(f, t, e)]" by this+
    qed
    show ?thesis using Cons.IH [of "dg_add_edge ops g f t e"] Cons.prems add True by (simp add: x)
  next
    case False
    then have skip: "(f < length [0..<m] \<and> t < length [0..<m]) = False" "(f < m \<and> t < m) = False" by simp_all
    show ?thesis using Cons.IH [of g] Cons.prems
      unfolding x foldl.simps filter.simps prod.case skip if_False by simp
  qed
qed simp

lemma rebuild_contents:
  assumes "digraph_laws ops" and "length nodes \<le> dg_limit" and "length edges \<le> dg_limit"
  defines "G \<equiv> rebuild_from_serialized ops nodes edges"
  shows "dg_nodes ops (og_graph G) = nodes" and "og_index G = name_index nodes"
    and "dg_edges ops (og_graph G) = filter (\<lambda>(f, t, e). f < length nodes \<and> t < length nodes) edges"
proof -
  have "og_index (empty_graph ops) = name_index (dg_nodes ops (og_graph (empty_graph ops)))"
    by (simp add: empty_graph_def dg_new_nodes [OF assms(1)] name_index_def)
  then obtain g where g: "foldl (\<lambda>(G, idx_vec) node.
        let G' = insert_node ops G node in (G', idx_vec @ [snd (dg_add_node ops (og_graph G) node)])) (empty_graph ops, []) nodes =
      (\<lparr>og_graph = g, og_index = name_index nodes\<rparr>, [0..<length nodes])"
    "dg_nodes ops g = nodes" "dg_edges ops g = []"
    using insert_nodes [OF assms(1), of "empty_graph ops" nodes "[]"] assms(2)
    by (auto simp: empty_graph_def dg_new_nodes [OF assms(1)] dg_new_edges [OF assms(1)])
  have "length (dg_edges ops g) + length edges \<le> dg_limit" "length nodes = length (dg_nodes ops g)"
    using g assms(3) by simp_all
  note e = insert_edges [OF assms(1) this]
  show "dg_nodes ops (og_graph G) = nodes" "og_index G = name_index nodes"
    "dg_edges ops (og_graph G) = filter (\<lambda>(f, t, e). f < length nodes \<and> t < length nodes) edges"
    unfolding G_def rebuild_from_serialized_def g(1) using e g(2,3) by simp_all
qed

lemma rebuild_ok:
  assumes "digraph_laws ops" and "length nodes \<le> dg_limit" and "length edges \<le> dg_limit" and "distinct (map nd_name nodes)"
  shows "og_ok ops (rebuild_from_serialized ops nodes edges)"
  using rebuild_contents [OF assms(1-3)] assms(4) by (auto simp: og_ok_def)

end
