(* ===== verification/OG_Builder.thy ===== *)
theory OG_Builder
  imports OG_Graph OG_F32_Facts
begin

text \<open>
  Graph construction, \<open>src/builder.rs\<close>: deduplication by name, canonical node order, weight
  normalisation, edge insertion and PageRank, all over the container of \<open>OG_Graph\<close>.
\<close>

section \<open>Nodes\<close>

definition dedup_step ::
  "node_input list \<times> (string, nat) fmap \<Rightarrow> node_input \<Rightarrow> node_input list \<times> (string, nat) fmap" where
  "dedup_step s input =
     (case s of (deduped, name_pos) \<Rightarrow>
        (case fmlookup name_pos (ni_name input) of
           Some pos \<Rightarrow> (deduped[pos := input], name_pos)
         | None \<Rightarrow> (deduped @ [input], fmupd (ni_name input) (length deduped) name_pos)))"

definition dedup_nodes :: "node_input list \<Rightarrow> node_input list" where
  "dedup_nodes nodes = sort_key ni_name (fst (foldl dedup_step ([], fmempty) nodes))"

definition sanitize :: "f32 \<Rightarrow> f32" where
  "sanitize w = (if f32_is_finite w then f32_max w f32_zero else f32_zero)"

definition norm_divisor :: "bool \<Rightarrow> node_input list \<Rightarrow> f32" where
  "norm_divisor rescale deduped =
     (if rescale then
        let max_weight = foldl f32_max f32_zero (map (\<lambda>n. sanitize (ni_base_weight n)) deduped)
        in if f32_is_finite max_weight \<and> f32_lt f32_epsilon max_weight then max_weight else f32_one
      else f32_one)"

definition built_node :: "bool \<Rightarrow> f32 \<Rightarrow> node_input \<Rightarrow> node_data" where
  "built_node rescale divisor input = \<lparr>
     nd_name = ni_name input, nd_kind = ni_kind input, nd_metadata = ni_metadata input,
     nd_base_weight = (if rescale then f32_div (sanitize (ni_base_weight input)) divisor else ni_base_weight input),
     nd_noise_penalty = (if rescale then f32_clamp (sanitize (ni_noise_penalty input)) f32_zero f32_one
                         else ni_noise_penalty input),
     nd_pagerank_weight = f32_zero\<rparr>"

section \<open>Edges\<close>

definition empty_window :: "u64 option \<Rightarrow> u64 option \<Rightarrow> bool" where
  "empty_window valid_from valid_to =
     (case valid_from of None \<Rightarrow> False | Some vf \<Rightarrow> (case valid_to of None \<Rightarrow> False | Some vt \<Rightarrow> vt < vf))"

definition built_edge :: "edge_input \<Rightarrow> edge_data" where
  "built_edge edge = \<lparr>
     ed_kind = ei_kind edge, ed_field_name = ei_field_name edge, ed_base_weight = ei_base_weight edge,
     ed_valid_from = ei_valid_from edge, ed_valid_to = ei_valid_to edge, ed_acl = normalize_acl (ei_acl edge)\<rparr>"

definition insert_edge :: "'g digraph_ops \<Rightarrow> 'g orpheus_graph \<Rightarrow> edge_input \<Rightarrow> 'g orpheus_graph" where
  "insert_edge ops G edge =
     (case fmlookup (og_index G) (ei_from edge) of
        None \<Rightarrow> G
      | Some from_idx \<Rightarrow>
          (case fmlookup (og_index G) (ei_to edge) of
             None \<Rightarrow> G
           | Some to_idx \<Rightarrow>
               if empty_window (ei_valid_from edge) (ei_valid_to edge) then G
               else G\<lparr>og_graph := dg_add_edge ops (og_graph G) from_idx to_idx (built_edge edge)\<rparr>))"

section \<open>PageRank\<close>

definition add_share :: "f32 \<Rightarrow> f32 list \<Rightarrow> nat \<Rightarrow> f32 list" where
  "add_share share s j = s[j := f32_add (s ! j) share]"

text \<open>One power iteration; \<open>succ i\<close> are the targets of the outgoing edges of node \<open>i\<close>.\<close>

definition pagerank_iter :: "nat \<Rightarrow> (nat \<Rightarrow> nat list) \<Rightarrow> f32 \<Rightarrow> f32 list \<Rightarrow> f32 list" where
  "pagerank_iter n succ damping scores =
     (let n_f32 = f32_of_nat n;
          teleport = f32_div (f32_sub f32_one damping) n_f32;
          out_degree = map (\<lambda>i. length (succ i)) [0..<n];
          dangling_sum = foldl f32_add f32_zero
            (map (\<lambda>i. scores ! i) (filter (\<lambda>i. out_degree ! i = 0) [0..<n]));
          base = f32_add teleport (f32_div (f32_mul damping dangling_sum) n_f32)
      in foldl (\<lambda>new i.
           if out_degree ! i = 0 then new
           else foldl (add_share (f32_div (f32_mul damping (scores ! i)) (f32_of_nat (out_degree ! i)))) new (succ i))
         (replicate n base) [0..<n])"

definition pagerank_scores :: "nat \<Rightarrow> (nat \<Rightarrow> nat list) \<Rightarrow> f32 \<Rightarrow> nat \<Rightarrow> f32 list" where
  "pagerank_scores n succ damping iterations =
     (pagerank_iter n succ damping ^^ iterations) (replicate n (f32_div f32_one (f32_of_nat n)))"

definition pagerank_norm :: "f32 list \<Rightarrow> f32" where
  "pagerank_norm scores =
     (let max_score = foldl f32_max f32_zero scores
      in if f32_lt f32_epsilon max_score then max_score else f32_one)"

definition set_pagerank :: "'g digraph_ops \<Rightarrow> f32 list \<Rightarrow> f32 \<Rightarrow> 'g \<Rightarrow> nat \<Rightarrow> 'g" where
  "set_pagerank ops scores norm g i =
     dg_set_node ops g i ((dg_nodes ops g ! i)\<lparr>nd_pagerank_weight := f32_div (scores ! i) norm\<rparr>)"

definition compute_pagerank :: "'g digraph_ops \<Rightarrow> 'g \<Rightarrow> f32 \<Rightarrow> nat \<Rightarrow> 'g" where
  "compute_pagerank ops g damping iterations =
     (let n = length (dg_nodes ops g) in
      if n = 0 then g
      else let succ = (\<lambda>i. map (\<lambda>(f, t, e). t) (dg_out ops g i));
               scores = pagerank_scores n succ damping iterations
           in foldl (set_pagerank ops scores (pagerank_norm scores)) g [0..<n])"

section \<open>The build\<close>

definition build_graph_inner ::
  "'g digraph_ops \<Rightarrow> node_input list \<Rightarrow> edge_input list \<Rightarrow> bool \<Rightarrow> 'g orpheus_graph" where
  "build_graph_inner ops nodes edges rescale =
     (let deduped = dedup_nodes nodes;
          divisor = norm_divisor rescale deduped;
          G = foldl (\<lambda>G input. insert_node ops G (built_node rescale divisor input)) (empty_graph ops) deduped;
          G = foldl (insert_edge ops) G edges
      in G\<lparr>og_graph := compute_pagerank ops (og_graph G) f32_0_85 20\<rparr>)"

definition build_graph :: "'g digraph_ops \<Rightarrow> node_input list \<Rightarrow> edge_input list \<Rightarrow> 'g orpheus_graph" where
  "build_graph ops nodes edges = build_graph_inner ops nodes edges True"

definition build_graph_prenormalized ::
  "'g digraph_ops \<Rightarrow> node_input list \<Rightarrow> edge_input list \<Rightarrow> 'g orpheus_graph" where
  "build_graph_prenormalized ops nodes edges = build_graph_inner ops nodes edges False"

section \<open>Deduplication keeps the last input of every name\<close>

definition last_input :: "node_input list \<Rightarrow> string \<Rightarrow> node_input option" where
  "last_input nodes n = List.find (\<lambda>x. ni_name x = n) (rev nodes)"

lemma last_input_snoc: "last_input (nodes @ [x]) n = (if ni_name x = n then Some x else last_input nodes n)"
  by (simp add: last_input_def)

lemma last_input_name: "last_input nodes n = Some x \<Longrightarrow> ni_name x = n"
  by (auto simp: last_input_def find_Some_iff)

lemma last_input_None: "last_input nodes n = None \<longleftrightarrow> n \<notin> ni_name ` set nodes"
  by (auto simp: last_input_def find_None_iff)

definition dedup_inv :: "node_input list \<Rightarrow> node_input list \<times> (string, nat) fmap \<Rightarrow> bool" where
  "dedup_inv nodes s \<longleftrightarrow>
     (\<forall>n. fmlookup (snd s) n = None \<longrightarrow> last_input nodes n = None) \<and>
     (\<forall>n i. fmlookup (snd s) n = Some i \<longrightarrow> i < length (fst s) \<and> last_input nodes n = Some (fst s ! i)) \<and>
     (\<forall>i < length (fst s). fmlookup (snd s) (ni_name (fst s ! i)) = Some i)"

lemma dedup_invD:
  assumes "dedup_inv nodes s"
  shows "fmlookup (snd s) n = None \<Longrightarrow> last_input nodes n = None"
    and "fmlookup (snd s) n = Some i \<Longrightarrow> i < length (fst s) \<and> last_input nodes n = Some (fst s ! i)"
    and "i < length (fst s) \<Longrightarrow> fmlookup (snd s) (ni_name (fst s ! i)) = Some i"
  using assms unfolding dedup_inv_def by blast+

lemma dedup_step_inv:
  assumes inv: "dedup_inv nodes s"
  shows "dedup_inv (nodes @ [x]) (dedup_step s x)"
proof -
  obtain D P where s: "s = (D, P)" by (cases s)
  note I = dedup_invD [OF inv, unfolded s fst_conv snd_conv]
  show ?thesis
  proof (cases "fmlookup P (ni_name x)")
    case None
    have new: "ni_name (D ! i) \<noteq> ni_name x" if "i < length D" for i using I(3) [OF that] None by auto
    have step: "dedup_step s x = (D @ [x], fmupd (ni_name x) (length D) P)"
      using None by (simp add: s dedup_step_def)
    show ?thesis unfolding dedup_inv_def step fst_conv snd_conv
    proof (intro conjI allI impI)
      fix n assume "fmlookup (fmupd (ni_name x) (length D) P) n = None"
      then show "last_input (nodes @ [x]) n = None" using I(1) by (auto simp: last_input_snoc split: if_splits)
    next
      fix n i assume l: "fmlookup (fmupd (ni_name x) (length D) P) n = Some i"
      show "i < length (D @ [x])" and "last_input (nodes @ [x]) n = Some ((D @ [x]) ! i)"
        using l I(2) [of n i] by (auto simp: last_input_snoc nth_append split: if_splits)
    next
      fix i assume "i < length (D @ [x])"
      then show "fmlookup (fmupd (ni_name x) (length D) P) (ni_name ((D @ [x]) ! i)) = Some i"
        using I(3) [of i] new [of i] by (auto simp: nth_append less_Suc_eq)
    qed
  next
    case (Some pos)
    have pos: "pos < length D" "ni_name (D ! pos) = ni_name x"
      using I(2) [OF Some] last_input_name by auto
    have name: "ni_name (D[pos := x] ! i) = ni_name (D ! i)" for i
      using pos by (cases "i = pos") auto
    have step: "dedup_step s x = (D[pos := x], P)" using Some by (simp add: s dedup_step_def)
    show ?thesis unfolding dedup_inv_def step fst_conv snd_conv
    proof (intro conjI allI impI)
      fix n assume "fmlookup P n = None"
      then show "last_input (nodes @ [x]) n = None" using I(1) Some by (auto simp: last_input_snoc)
    next
      fix n i assume l: "fmlookup P n = Some i"
      from I(2) [OF l] have i: "i < length D" "last_input nodes n = Some (D ! i)" by auto
      have "ni_name (D ! i) = n" by (rule last_input_name [OF i(2)])
      then have "i = pos \<longleftrightarrow> ni_name x = n" using pos(2) Some l by (metis option.inject)
      then show "i < length (D[pos := x])" and "last_input (nodes @ [x]) n = Some (D[pos := x] ! i)"
        using i pos(1) by (auto simp: last_input_snoc)
    next
      fix i assume "i < length (D[pos := x])"
      then show "fmlookup P (ni_name (D[pos := x] ! i)) = Some i" using I(3) [of i] by (simp add: name)
    qed
  qed
qed

lemma dedup_inv_all: "dedup_inv nodes (foldl dedup_step ([], fmempty) nodes)"
  by (induction nodes rule: rev_induct) (simp_all add: dedup_step_inv, simp add: dedup_inv_def last_input_def)

lemma dedup_facts:
  shows dedup_distinct: "distinct (map ni_name (dedup_nodes nodes))"
    and dedup_mem: "x \<in> set (dedup_nodes nodes) \<longleftrightarrow> last_input nodes (ni_name x) = Some x"
    and dedup_sorted: "sorted (map ni_name (dedup_nodes nodes))"
proof -
  let ?s = "foldl dedup_step ([], fmempty) nodes"
  note inv = dedup_inv_all [of nodes]
  note A = dedup_invD(2,1) [OF inv] and B = dedup_invD(3) [OF inv]
  have "distinct (map ni_name (fst ?s))"
    unfolding distinct_conv_nth
  proof (intro allI impI notI)
    fix i j assume i: "i < length (map ni_name (fst ?s))" "j < length (map ni_name (fst ?s))" "i \<noteq> j"
      and "map ni_name (fst ?s) ! i = map ni_name (fst ?s) ! j"
    then have "ni_name (fst ?s ! i) = ni_name (fst ?s ! j)" by simp
    then show False using B [of i] B [of j] i by simp
  qed
  moreover have "mset (map ni_name (dedup_nodes nodes)) = mset (map ni_name (fst ?s))" by (simp add: dedup_nodes_def)
  ultimately show "distinct (map ni_name (dedup_nodes nodes))" by (metis mset_eq_imp_distinct_iff)
  have "x \<in> set (fst ?s) \<longleftrightarrow> last_input nodes (ni_name x) = Some x"
  proof
    assume "x \<in> set (fst ?s)"
    then obtain i where i: "i < length (fst ?s)" "fst ?s ! i = x" by (auto simp: in_set_conv_nth)
    show "last_input nodes (ni_name x) = Some x" using A(1) [OF B [OF i(1)]] i(2) by simp
  next
    assume l: "last_input nodes (ni_name x) = Some x"
    then obtain i where "fmlookup (snd ?s) (ni_name x) = Some i" using A(2) [of "ni_name x"] by (cases "fmlookup (snd ?s) (ni_name x)") auto
    from A(1) [OF this] l show "x \<in> set (fst ?s)" by auto
  qed
  then show "x \<in> set (dedup_nodes nodes) \<longleftrightarrow> last_input nodes (ni_name x) = Some x" by (simp add: dedup_nodes_def)
  show "sorted (map ni_name (dedup_nodes nodes))" by (simp add: dedup_nodes_def)
qed

lemma dedup_names: "ni_name ` set (dedup_nodes nodes) = ni_name ` set nodes"
proof -
  have "n \<in> ni_name ` set (dedup_nodes nodes) \<longleftrightarrow> last_input nodes n \<noteq> None" for n
  proof
    assume "n \<in> ni_name ` set (dedup_nodes nodes)"
    then obtain x where "x \<in> set (dedup_nodes nodes)" "n = ni_name x" by blast
    then show "last_input nodes n \<noteq> None" by (simp add: dedup_mem)
  next
    assume "last_input nodes n \<noteq> None"
    then obtain x where x: "last_input nodes n = Some x" by blast
    then have "x \<in> set (dedup_nodes nodes)" using last_input_name [OF x] by (simp add: dedup_mem)
    then show "n \<in> ni_name ` set (dedup_nodes nodes)" using last_input_name [OF x] by blast
  qed
  then show ?thesis by (auto simp: last_input_None)
qed

lemma sorted_names_unique:
  assumes "sorted (map f xs)" "distinct (map f xs)" "sorted (map f ys)" "distinct (map f ys)" "set xs = set ys"
  shows "xs = ys"
proof -
  have "mset xs = mset ys" using assms by (simp add: set_eq_iff_mset_eq_distinct [symmetric] distinct_map)
  moreover have "inj_on f (set xs)" using assms(2) by (simp add: distinct_map)
  ultimately have "sort_key f xs = sort_key f ys" by (rule sort_key_mset_cong)
  then show ?thesis using assms by (simp add: sorted_sort_id sort_key_id_if_sorted)
qed

text \<open>Two inputs with the same last entries, in whatever order, deduplicate to the same list.\<close>

lemma dedup_cong:
  assumes "\<And>n. last_input nodes n = last_input nodes' n"
  shows "dedup_nodes nodes = dedup_nodes nodes'"
  by (rule sorted_names_unique [where f = ni_name])
    (auto simp: dedup_distinct dedup_sorted dedup_mem assms)

lemma last_input_permuted:
  assumes "distinct (map ni_name nodes)" and "mset nodes = mset nodes'"
  shows "last_input nodes n = last_input nodes' n"
proof -
  have d': "distinct (map ni_name nodes')" using assms by (metis mset_eq_imp_distinct_iff mset_map)
  have *: "last_input xs n = Some x \<longleftrightarrow> x \<in> set xs \<and> ni_name x = n" if "distinct (map ni_name xs)" for xs x
    using that by (induction xs rule: rev_induct) (auto simp: last_input_snoc, auto simp: last_input_def)
  have "set nodes = set nodes'" using assms(2) by (metis set_mset_mset)
  then show ?thesis using * [OF assms(1)] * [OF d'] by (cases "last_input nodes n"; cases "last_input nodes' n") fastforce+
qed

section \<open>What a build contains\<close>

lemma insert_nodes_plain:
  assumes "digraph_laws ops" and "length ns \<le> dg_limit"
  defines "G \<equiv> foldl (insert_node ops) (empty_graph ops) ns"
  shows "dg_nodes ops (og_graph G) = ns" and "dg_edges ops (og_graph G) = []" and "og_index G = name_index ns"
proof -
  have fst: "fst (foldl (\<lambda>(G, idx_vec) node.
        let G' = insert_node ops G node in (G', idx_vec @ [snd (dg_add_node ops (og_graph G) node)])) (G, v) ns) =
      foldl (insert_node ops) G ns" for G v
    by (induction ns arbitrary: G v) (simp_all add: Let_def)
  have "length (dg_nodes ops (og_graph (empty_graph ops))) + length ns \<le> dg_limit"
    "[] = [0..<length (dg_nodes ops (og_graph (empty_graph ops)))]"
    "og_index (empty_graph ops) = name_index (dg_nodes ops (og_graph (empty_graph ops)))"
    using assms(2) by (simp_all add: empty_graph_def dg_new_nodes [OF assms(1)] name_index_def)
  from insert_nodes [OF assms(1) this] obtain g where
    g: "foldl (\<lambda>(G, idx_vec) node.
        let G' = insert_node ops G node in (G', idx_vec @ [snd (dg_add_node ops (og_graph G) node)])) (empty_graph ops, []) ns =
      (\<lparr>og_graph = g, og_index = name_index ns\<rparr>, [0..<length ns])"
    "dg_nodes ops g = ns" "dg_edges ops g = []"
    by (auto simp: empty_graph_def dg_new_nodes [OF assms(1)] dg_new_edges [OF assms(1)])
  have "G = \<lparr>og_graph = g, og_index = name_index ns\<rparr>"
    unfolding G_def fst [of "empty_graph ops" "[]", symmetric] g(1) by simp
  then show "dg_nodes ops (og_graph G) = ns" "dg_edges ops (og_graph G) = []" "og_index G = name_index ns"
    using g(2,3) by simp_all
qed

definition index_edge :: "(string, nat) fmap \<Rightarrow> edge_input \<Rightarrow> indexed_edge list" where
  "index_edge index e =
     (case fmlookup index (ei_from e) of None \<Rightarrow> [] | Some i \<Rightarrow>
        (case fmlookup index (ei_to e) of None \<Rightarrow> [] | Some j \<Rightarrow>
           if empty_window (ei_valid_from e) (ei_valid_to e) then [] else [(i, j, built_edge e)]))"

lemma insert_edges_plain:
  assumes "digraph_laws ops" and "length (dg_edges ops (og_graph G)) + length es \<le> dg_limit"
    and "og_index G = name_index (dg_nodes ops (og_graph G))"
  shows "dg_nodes ops (og_graph (foldl (insert_edge ops) G es)) = dg_nodes ops (og_graph G) \<and>
    og_index (foldl (insert_edge ops) G es) = og_index G \<and>
    dg_edges ops (og_graph (foldl (insert_edge ops) G es)) =
      dg_edges ops (og_graph G) @ concat (map (index_edge (og_index G)) es)"
  using assms(2,3)
proof (induction es arbitrary: G)
  case (Cons e es)
  show ?case
  proof (cases "index_edge (og_index G) e")
    case Nil
    then have "insert_edge ops G e = G"
      by (auto simp: insert_edge_def index_edge_def split: option.splits if_splits)
    then show ?thesis using Cons Nil by simp
  next
    case (Cons x xs)
    then obtain i j where ij: "fmlookup (og_index G) (ei_from e) = Some i" "fmlookup (og_index G) (ei_to e) = Some j"
      "\<not> empty_window (ei_valid_from e) (ei_valid_to e)" "index_edge (og_index G) e = [(i, j, built_edge e)]"
      by (auto simp: index_edge_def split: option.splits if_splits)
    have bound: "i < length (dg_nodes ops (og_graph G))" "j < length (dg_nodes ops (og_graph G))"
      "length (dg_edges ops (og_graph G)) < dg_limit"
      using ij(1,2) name_index_Some Cons.prems by auto
    note add = dg_add_edge_laws [OF assms(1) bound, of "built_edge e"]
    have step: "insert_edge ops G e = G\<lparr>og_graph := dg_add_edge ops (og_graph G) i j (built_edge e)\<rparr>"
      using ij by (simp add: insert_edge_def)
    show ?thesis using Cons.IH [of "insert_edge ops G e"] Cons.prems ij(4) by (simp add: step add)
  qed
qed simp

lemma set_pagerank_all:
  assumes "digraph_laws ops" and "n \<le> length (dg_nodes ops g)"
  shows "dg_nodes ops (foldl (set_pagerank ops scores m) g [0..<n]) =
      map (\<lambda>i. if i < n then (dg_nodes ops g ! i)\<lparr>nd_pagerank_weight := f32_div (scores ! i) m\<rparr> else dg_nodes ops g ! i)
        [0..<length (dg_nodes ops g)] \<and>
    dg_edges ops (foldl (set_pagerank ops scores m) g [0..<n]) = dg_edges ops g"
  using assms(2)
proof (induction n)
  case 0
  then show ?case by (simp add: map_nth)
next
  case (Suc n)
  let ?g = "foldl (set_pagerank ops scores m) g [0..<n]"
  have IH: "dg_nodes ops ?g = map (\<lambda>i. if i < n then (dg_nodes ops g ! i)\<lparr>nd_pagerank_weight := f32_div (scores ! i) m\<rparr> else dg_nodes ops g ! i)
        [0..<length (dg_nodes ops g)]" "dg_edges ops ?g = dg_edges ops g"
    using Suc by auto
  have n: "n < length (dg_nodes ops ?g)" using Suc.prems by (simp add: IH)
  have "dg_nodes ops (set_pagerank ops scores m ?g n) = (dg_nodes ops ?g)[n := (dg_nodes ops g ! n)\<lparr>nd_pagerank_weight := f32_div (scores ! n) m\<rparr>]"
    "dg_edges ops (set_pagerank ops scores m ?g n) = dg_edges ops g"
    using dg_set_node_laws [OF assms(1) n] Suc.prems by (simp_all add: set_pagerank_def IH)
  moreover have "(dg_nodes ops ?g)[n := (dg_nodes ops g ! n)\<lparr>nd_pagerank_weight := f32_div (scores ! n) m\<rparr>] =
      map (\<lambda>i. if i < Suc n then (dg_nodes ops g ! i)\<lparr>nd_pagerank_weight := f32_div (scores ! i) m\<rparr> else dg_nodes ops g ! i)
        [0..<length (dg_nodes ops g)]"
    by (rule nth_equalityI) (auto simp: IH nth_list_update less_Suc_eq)
  ultimately show ?case by simp
qed

definition with_pagerank :: "(nat \<Rightarrow> nat list) \<Rightarrow> f32 \<Rightarrow> nat \<Rightarrow> node_data list \<Rightarrow> node_data list" where
  "with_pagerank succ damping iterations ns =
     (let scores = pagerank_scores (length ns) succ damping iterations
      in map (\<lambda>i. (ns ! i)\<lparr>nd_pagerank_weight := f32_div (scores ! i) (pagerank_norm scores)\<rparr>) [0..<length ns])"

lemma compute_pagerank_contents:
  assumes "digraph_laws ops"
  shows "dg_nodes ops (compute_pagerank ops g damping iterations) =
      with_pagerank (\<lambda>i. map (\<lambda>(f, t, e). t) (dg_out ops g i)) damping iterations (dg_nodes ops g)"
    and "dg_edges ops (compute_pagerank ops g damping iterations) = dg_edges ops g"
proof -
  let ?succ = "\<lambda>i. map (\<lambda>(f, t, e). t) (dg_out ops g i)"
  let ?scores = "pagerank_scores (length (dg_nodes ops g)) ?succ damping iterations"
  note s = set_pagerank_all [OF assms order_refl, where g = g and scores = ?scores and m = "pagerank_norm ?scores"]
  have eq: "map (\<lambda>i. if i < length (dg_nodes ops g) then (dg_nodes ops g ! i)\<lparr>nd_pagerank_weight := f32_div (?scores ! i) (pagerank_norm ?scores)\<rparr> else dg_nodes ops g ! i) [0..<length (dg_nodes ops g)] =
      map (\<lambda>i. (dg_nodes ops g ! i)\<lparr>nd_pagerank_weight := f32_div (?scores ! i) (pagerank_norm ?scores)\<rparr>) [0..<length (dg_nodes ops g)]"
    by (rule map_cong) simp_all
  show "dg_nodes ops (compute_pagerank ops g damping iterations) = with_pagerank ?succ damping iterations (dg_nodes ops g)"
    and "dg_edges ops (compute_pagerank ops g damping iterations) = dg_edges ops g"
    using s unfolding eq by (simp_all add: compute_pagerank_def with_pagerank_def Let_def)
qed

lemma with_pagerank_names:
  "map nd_name (with_pagerank succ damping iterations ns) = map nd_name ns"
  "length (with_pagerank succ damping iterations ns) = length ns"
  "i < length ns \<Longrightarrow> (with_pagerank succ damping iterations ns ! i)\<lparr>nd_pagerank_weight := z\<rparr> = (ns ! i)\<lparr>nd_pagerank_weight := z\<rparr>"
proof -
  show len: "length (with_pagerank succ damping iterations ns) = length ns" by (simp add: with_pagerank_def Let_def)
  show "map nd_name (with_pagerank succ damping iterations ns) = map nd_name ns"
    by (rule nth_equalityI) (simp_all add: len, simp add: with_pagerank_def Let_def)
  show "i < length ns \<Longrightarrow> (with_pagerank succ damping iterations ns ! i)\<lparr>nd_pagerank_weight := z\<rparr> = (ns ! i)\<lparr>nd_pagerank_weight := z\<rparr>"
    by (simp add: with_pagerank_def Let_def)
qed

lemma name_index_names: "map nd_name ns = map nd_name ms \<Longrightarrow> name_index ns = name_index ms"
proof -
  assume m: "map nd_name ns = map nd_name ms"
  then have l: "length ns = length ms" by (metis length_map)
  have "nd_name (ns ! i) = nd_name (ms ! i)" if "i < length ms" for i
    using arg_cong [OF m, of "\<lambda>l. l ! i"] that l by simp
  then show ?thesis unfolding name_index_def l by (intro foldl_cong) auto
qed

text \<open>The node list before PageRank, and the accepted edges.\<close>

definition raw_nodes :: "bool \<Rightarrow> node_input list \<Rightarrow> node_data list" where
  "raw_nodes rescale nodes =
     map (built_node rescale (norm_divisor rescale (dedup_nodes nodes))) (dedup_nodes nodes)"

lemma raw_nodes_names: "map nd_name (raw_nodes rescale nodes) = map ni_name (dedup_nodes nodes)"
  by (simp add: raw_nodes_def built_node_def)

lemma build_contents:
  fixes rescale :: bool
  assumes "digraph_laws ops" and "length (dedup_nodes nodes) \<le> dg_limit" and "length edges \<le> dg_limit"
  defines "G \<equiv> build_graph_inner ops nodes edges rescale"
  shows "\<exists>succ. dg_nodes ops (og_graph G) = with_pagerank succ f32_0_85 20 (raw_nodes rescale nodes) \<and>
      (\<forall>i. mset (succ i) = image_mset (\<lambda>(f, t, e). t)
        (filter_mset (\<lambda>(f, t, e). f = i) (mset (concat (map (index_edge (name_index (raw_nodes rescale nodes))) edges)))))"
    and "og_index G = name_index (raw_nodes rescale nodes)"
    and "dg_edges ops (og_graph G) = concat (map (index_edge (name_index (raw_nodes rescale nodes))) edges)"
proof -
  let ?ns = "raw_nodes rescale nodes"
  let ?G1 = "foldl (insert_node ops) (empty_graph ops) ?ns"
  let ?G2 = "foldl (insert_edge ops) ?G1 edges"
  have len: "length ?ns \<le> dg_limit" using assms(2) by (simp add: raw_nodes_def)
  note n = insert_nodes_plain [OF assms(1) len]
  have "length (dg_edges ops (og_graph ?G1)) + length edges \<le> dg_limit"
    "og_index ?G1 = name_index (dg_nodes ops (og_graph ?G1))"
    using assms(3) by (simp_all add: n)
  note e = insert_edges_plain [OF assms(1) this, unfolded n, simplified]
  have "foldl (\<lambda>G input. insert_node ops G (built_node rescale d input)) H xs =
      foldl (insert_node ops) H (map (built_node rescale d) xs)" for d H xs
    by (induction xs arbitrary: H) simp_all
  then have G: "G = ?G2\<lparr>og_graph := compute_pagerank ops (og_graph ?G2) f32_0_85 20\<rparr>"
    by (simp add: G_def build_graph_inner_def Let_def raw_nodes_def)
  let ?succ = "\<lambda>i. map (\<lambda>(f, t, e). t) (dg_out ops (og_graph ?G2) i)"
  note p = compute_pagerank_contents [OF assms(1)]
  show "\<exists>succ. dg_nodes ops (og_graph G) = with_pagerank succ f32_0_85 20 ?ns \<and>
      (\<forall>i. mset (succ i) = image_mset (\<lambda>(f, t, e). t)
        (filter_mset (\<lambda>(f, t, e). f = i) (mset (concat (map (index_edge (name_index ?ns)) edges)))))"
  proof (intro exI [of _ ?succ] conjI allI)
    show "dg_nodes ops (og_graph G) = with_pagerank ?succ f32_0_85 20 ?ns" using e by (simp add: G p)
    fix i
    have "mset (dg_out ops (og_graph ?G2) i) =
        filter_mset (\<lambda>(f, t, e). f = i) (mset (concat (map (index_edge (name_index ?ns)) edges)))"
      unfolding dg_out_law [OF assms(1)] using e by simp
    then show "mset (?succ i) = image_mset (\<lambda>(f, t, e). t)
        (filter_mset (\<lambda>(f, t, e). f = i) (mset (concat (map (index_edge (name_index ?ns)) edges))))"
      unfolding mset_map by (rule arg_cong)
  qed
  show "og_index G = name_index ?ns"
    and "dg_edges ops (og_graph G) = concat (map (index_edge (name_index ?ns)) edges)"
    using e by (simp_all add: G p)
qed

definition edge_accepted :: "string set \<Rightarrow> edge_input \<Rightarrow> bool" where
  "edge_accepted names e \<longleftrightarrow>
     ei_from e \<in> names \<and> ei_to e \<in> names \<and> \<not> empty_window (ei_valid_from e) (ei_valid_to e)"

definition built_graph_edge :: "edge_input \<Rightarrow> graph_edge" where
  "built_graph_edge e = (ei_from e, ei_to e, built_edge e)"

lemma index_edge_named:
  "map (named_edge ns) (index_edge (name_index ns) e) =
     (if edge_accepted (nd_name ` set ns) e then [built_graph_edge e] else [])"
proof (cases "fmlookup (name_index ns) (ei_from e)")
  case None
  then have "ei_from e \<notin> nd_name ` set ns" by (simp add: name_index_None)
  then show ?thesis unfolding index_edge_def None option.case list.map edge_accepted_def by simp
next
  case (Some i)
  then have i: "i < length ns" "nd_name (ns ! i) = ei_from e" using name_index_Some by auto
  show ?thesis
  proof (cases "fmlookup (name_index ns) (ei_to e)")
    case None
    then have "ei_to e \<notin> nd_name ` set ns" by (simp add: name_index_None)
    then show ?thesis unfolding index_edge_def None Some option.case list.map edge_accepted_def by simp
  next
    case (Some j)
    then have j: "j < length ns" "nd_name (ns ! j) = ei_to e" using name_index_Some by auto
    have "ei_from e \<in> nd_name ` set ns" "ei_to e \<in> nd_name ` set ns"
      using i j by (metis image_eqI nth_mem)+
    then show ?thesis using \<open>fmlookup (name_index ns) (ei_from e) = Some i\<close> Some i j
      by (simp add: index_edge_def edge_accepted_def built_graph_edge_def named_edge_def)
  qed
qed

lemma build_ok:
  assumes "digraph_laws ops" and "length (dedup_nodes nodes) \<le> dg_limit" and "length edges \<le> dg_limit"
  shows "og_ok ops (build_graph_inner ops nodes edges rescale)"
proof -
  let ?ns = "raw_nodes rescale nodes"
  obtain succ where n: "dg_nodes ops (og_graph (build_graph_inner ops nodes edges rescale)) = with_pagerank succ f32_0_85 20 ?ns"
    using build_contents(1) [OF assms, of rescale] by blast
  note c = build_contents(2,3) [OF assms, of rescale]
  have d: "distinct (map nd_name ?ns)" by (simp add: raw_nodes_names dedup_distinct)
  have "f < length ?ns \<and> t < length ?ns" if "(f, t, x) \<in> set (index_edge (name_index ?ns) e)" for f t x e
    using that name_index_Some by (fastforce simp: index_edge_def split: option.splits if_splits)
  then have b: "\<forall>(f, t, x) \<in> set (concat (map (index_edge (name_index ?ns)) edges)). f < length ?ns \<and> t < length ?ns"
    by auto
  have i: "name_index (with_pagerank succ f32_0_85 20 ?ns) = name_index ?ns"
    by (rule name_index_names) (simp add: with_pagerank_names)
  show ?thesis unfolding og_ok_def n c i with_pagerank_names using d b by simp
qed

text \<open>The logical graph of a build: the last input of every name, and every accepted edge.\<close>

lemma build_edges:
  assumes "digraph_laws ops" and "length (dedup_nodes nodes) \<le> dg_limit" and "length edges \<le> dg_limit"
  shows "og_edges ops (build_graph_inner ops nodes edges rescale) =
    mset (map built_graph_edge (filter (edge_accepted (ni_name ` set nodes)) edges))"
proof -
  let ?ns = "raw_nodes rescale nodes"
  obtain succ where n: "dg_nodes ops (og_graph (build_graph_inner ops nodes edges rescale)) = with_pagerank succ f32_0_85 20 ?ns"
    using build_contents(1) [OF assms, of rescale] by blast
  note c = build_contents(2,3) [OF assms, of rescale]
  have d: "named_edge (with_pagerank succ f32_0_85 20 ?ns) x = named_edge ?ns x"
    if x: "x \<in> set (concat (map (index_edge (name_index ?ns)) edges))" for x
  proof -
    obtain f t e where fte: "x = (f, t, e)" by (cases x)
    have "f < length ?ns \<and> t < length ?ns"
      using x name_index_Some unfolding fte by (fastforce simp: index_edge_def split: option.splits if_splits)
    moreover have "nd_name (with_pagerank succ f32_0_85 20 ?ns ! i) = nd_name (?ns ! i)" if "i < length ?ns" for i
      using that with_pagerank_names(1,2) [of succ f32_0_85 20 ?ns] by (metis nth_map)
    ultimately show ?thesis by (simp add: fte named_edge_def)
  qed
  have "nd_name ` set ?ns = ni_name ` set nodes"
    using arg_cong [OF raw_nodes_names, of set rescale nodes] by (simp add: dedup_names)
  then have "map (named_edge ?ns) (concat (map (index_edge (name_index ?ns)) es)) =
      map built_graph_edge (filter (edge_accepted (ni_name ` set nodes)) es)" for es
    by (induction es) (simp_all add: index_edge_named)
  moreover have "map (named_edge (with_pagerank succ f32_0_85 20 ?ns)) (concat (map (index_edge (name_index ?ns)) edges)) =
      map (named_edge ?ns) (concat (map (index_edge (name_index ?ns)) edges))"
    using d by (intro map_cong) auto
  ultimately show ?thesis unfolding og_edges_def n c mset_map [symmetric] by simp
qed

lemma build_sizes:
  assumes "digraph_laws ops" and "length (dedup_nodes nodes) \<le> dg_limit" and "length edges \<le> dg_limit"
  shows "length (dg_nodes ops (og_graph (build_graph_inner ops nodes edges rescale))) = length (dedup_nodes nodes)"
    and "length (dg_edges ops (og_graph (build_graph_inner ops nodes edges rescale))) \<le> length edges"
proof -
  show "length (dg_nodes ops (og_graph (build_graph_inner ops nodes edges rescale))) = length (dedup_nodes nodes)"
    using build_contents(1) [OF assms, of rescale] by (auto simp: with_pagerank_names raw_nodes_def)
  have "length (dg_edges ops (og_graph (build_graph_inner ops nodes edges rescale))) =
      size (og_edges ops (build_graph_inner ops nodes edges rescale))" by (simp add: og_edges_def)
  also have "\<dots> = length (filter (edge_accepted (ni_name ` set nodes)) edges)"
    unfolding build_edges [OF assms] by (simp flip: mset_filter)
  finally show "length (dg_edges ops (og_graph (build_graph_inner ops nodes edges rescale))) \<le> length edges" by simp
qed

lemma build_nodes:
  assumes "digraph_laws ops" and "length (dedup_nodes nodes) \<le> dg_limit" and "length edges \<le> dg_limit"
  shows "map_option (\<lambda>v. v\<lparr>nv_pagerank_weight := f32_zero\<rparr>) (og_nodes ops (build_graph_inner ops nodes edges rescale) n) =
    map_option (\<lambda>x. node_view_from (built_node rescale (norm_divisor rescale (dedup_nodes nodes)) x)) (last_input nodes n)"
proof -
  let ?ns = "raw_nodes rescale nodes"
  obtain succ where nd: "dg_nodes ops (og_graph (build_graph_inner ops nodes edges rescale)) = with_pagerank succ f32_0_85 20 ?ns"
    using build_contents(1) [OF assms, of rescale] by blast
  let ?ps = "with_pagerank succ f32_0_85 20 ?ns"
  have d: "distinct (map nd_name ?ps)" by (simp add: with_pagerank_names raw_nodes_names dedup_distinct)
  have lk: "fmlookup (name_index ?ps) n = fmlookup (name_index ?ns) n"
    by (simp add: name_index_names [OF with_pagerank_names(1)])
  have og: "og_nodes ops (build_graph_inner ops nodes edges rescale) n = map_option (\<lambda>i. node_view_from (?ps ! i)) (fmlookup (name_index ?ns) n)"
    unfolding og_nodes_def nd map_of_names [OF d] lk ..
  show ?thesis
  proof (cases "fmlookup (name_index ?ns) n")
    case None
    then have "n \<notin> nd_name ` set ?ns" by (simp add: name_index_None)
    then have "last_input nodes n = None"
      using arg_cong [OF raw_nodes_names, of set rescale nodes] by (simp add: last_input_None dedup_names)
    then show ?thesis using None by (simp add: og)
  next
    case (Some i)
    then have i: "i < length ?ns" "nd_name (?ns ! i) = n" using name_index_Some by auto
    let ?x = "dedup_nodes nodes ! i"
    have il: "i < length (dedup_nodes nodes)" using i(1) by (simp add: raw_nodes_def)
    have nsi: "?ns ! i = built_node rescale (norm_divisor rescale (dedup_nodes nodes)) ?x"
      using il by (simp add: raw_nodes_def)
    have "ni_name ?x = n" using i(2) by (simp add: nsi built_node_def)
    then have "last_input nodes n = Some ?x" using dedup_mem [of ?x nodes] nth_mem [OF il] by simp
    moreover have "(node_view_from (?ps ! i))\<lparr>nv_pagerank_weight := f32_zero\<rparr> = node_view_from ((?ps ! i)\<lparr>nd_pagerank_weight := f32_zero\<rparr>)"
      by (simp add: node_view_from_def)
    moreover have "(?ps ! i)\<lparr>nd_pagerank_weight := f32_zero\<rparr> = ?ns ! i"
      using with_pagerank_names(3) [OF i(1)] by (simp add: nsi built_node_def)
    ultimately show ?thesis using Some by (simp add: og nsi)
  qed
qed

section \<open>A build does not depend on the order of its inputs\<close>

lemma add_share_commute: "add_share a (add_share a s i) j = add_share a (add_share a s j) i"
proof (cases "i = j")
  case False
  then show ?thesis by (simp add: add_share_def list_update_swap)
qed simp

lemma add_share_mset:
  assumes "mset js = mset js'"
  shows "foldl (add_share a) s js = foldl (add_share a) s js'"
proof -
  have "fold (\<lambda>j s. add_share a s j) js = fold (\<lambda>j s. add_share a s j) js'"
    by (rule fold_multiset_equiv [OF _ assms]) (simp add: fun_eq_iff add_share_commute)
  then show ?thesis by (simp add: foldl_conv_fold)
qed

lemma pagerank_cong:
  assumes "\<And>i. i < n \<Longrightarrow> mset (succ i) = mset (succ' i)"
  shows "pagerank_scores n succ damping iterations = pagerank_scores n succ' damping iterations"
proof -
  have deg: "map (\<lambda>i. length (succ i)) [0..<n] = map (\<lambda>i. length (succ' i)) [0..<n]"
    using assms by (auto intro: mset_eq_length)
  have step: "foldl (add_share c) new (succ i) = foldl (add_share c) new (succ' i)" if "i < n" for c new i
    using assms [OF that] by (rule add_share_mset)
  have "pagerank_iter n succ damping = pagerank_iter n succ' damping"
    unfolding fun_eq_iff pagerank_iter_def deg Let_def
    by (intro allI foldl_cong) (auto simp: step)
  then show ?thesis by (simp add: pagerank_scores_def)
qed

lemma with_pagerank_cong:
  "(\<And>i. i < length ns \<Longrightarrow> mset (succ i) = mset (succ' i)) \<Longrightarrow>
   with_pagerank succ damping iterations ns = with_pagerank succ' damping iterations ns"
  by (simp add: with_pagerank_def pagerank_cong [of "length ns" succ succ'])

lemma build_deterministic:
  assumes "digraph_laws ops" and "length (dedup_nodes nodes) \<le> dg_limit" and "length edges \<le> dg_limit"
    and "distinct (map ni_name nodes)" and "mset nodes' = mset nodes" and "mset edges' = mset edges"
  shows "dg_nodes ops (og_graph (build_graph_inner ops nodes' edges' rescale)) =
      dg_nodes ops (og_graph (build_graph_inner ops nodes edges rescale))"
    and "mset (dg_edges ops (og_graph (build_graph_inner ops nodes' edges' rescale))) =
      mset (dg_edges ops (og_graph (build_graph_inner ops nodes edges rescale)))"
proof -
  have dd: "dedup_nodes nodes' = dedup_nodes nodes"
    using last_input_permuted [OF assms(4) assms(5) [symmetric]] by (intro dedup_cong) simp
  then have rn: "raw_nodes rescale nodes' = raw_nodes rescale nodes" by (simp add: raw_nodes_def)
  have len: "length (dedup_nodes nodes') \<le> dg_limit" "length edges' \<le> dg_limit"
    using assms(2,3) dd assms(6) by (simp, metis size_mset)
  note c = build_contents [OF assms(1-3), of rescale] and c' = build_contents [OF assms(1) len, of rescale, unfolded rn]
  have m: "mset (concat (map (index_edge I) edges')) = mset (concat (map (index_edge I) edges))" for I
  proof -
    have "mset (concat (map f xs)) = sum_mset (image_mset (\<lambda>x. mset (f x)) (mset xs))" for f :: "edge_input \<Rightarrow> indexed_edge list" and xs
      by (induction xs) simp_all
    then show ?thesis by (simp only: assms(6))
  qed
  show "mset (dg_edges ops (og_graph (build_graph_inner ops nodes' edges' rescale))) =
      mset (dg_edges ops (og_graph (build_graph_inner ops nodes edges rescale)))"
    unfolding c(3) c'(3) by (rule m)
  obtain succ where s: "dg_nodes ops (og_graph (build_graph_inner ops nodes edges rescale)) = with_pagerank succ f32_0_85 20 (raw_nodes rescale nodes)"
    "\<And>i. mset (succ i) = image_mset (\<lambda>(f, t, e). t)
        (filter_mset (\<lambda>(f, t, e). f = i) (mset (concat (map (index_edge (name_index (raw_nodes rescale nodes))) edges))))"
    using c(1) by blast
  obtain succ' where s': "dg_nodes ops (og_graph (build_graph_inner ops nodes' edges' rescale)) = with_pagerank succ' f32_0_85 20 (raw_nodes rescale nodes)"
    "\<And>i. mset (succ' i) = image_mset (\<lambda>(f, t, e). t)
        (filter_mset (\<lambda>(f, t, e). f = i) (mset (concat (map (index_edge (name_index (raw_nodes rescale nodes))) edges'))))"
    using c'(1) by blast
  show "dg_nodes ops (og_graph (build_graph_inner ops nodes' edges' rescale)) =
      dg_nodes ops (og_graph (build_graph_inner ops nodes edges rescale))"
    unfolding s(1) s'(1) by (rule with_pagerank_cong) (simp only: s(2) s'(2) m)
qed

section \<open>Normalised weights\<close>

lemma div_lt_iff:
  assumes "0 < (q::int)"
  shows "p div q < k \<longleftrightarrow> p < k * q"
proof -
  have p: "p = (p div q) * q + p mod q" "0 \<le> p mod q" "p mod q < q" using assms by simp_all
  have "p < k * q" if "p div q < k"
  proof -
    have "(p div q + 1) * q \<le> k * q" using that assms by (intro mult_right_mono) auto
    then show ?thesis using p unfolding distrib_right by linarith
  qed
  moreover have "k * q \<le> p" if "k \<le> p div q"
  proof -
    have "k * q \<le> (p div q) * q" using that assms by (intro mult_right_mono) auto
    then show ?thesis using p by linarith
  qed
  ultimately show ?thesis by (meson not_less)
qed

text \<open>A quotient of at most one rounds to at most one.\<close>

lemma round_mag_le_one:
  assumes "0 \<le> p" and "0 < q" and "p \<le> 2 ^ 149 * q"
  shows "round_mag p q \<le> f32_mag f32_one"
proof -
  have one: "f32_mag f32_one = 127 * 8388608" by code_simp
  define e where "e = bitlength (p div q) - 24"
  have d: "0 \<le> p div q" using assms by (simp add: pos_imp_zdiv_nonneg_iff)
  have q: "0 < q * 2 ^ e" using assms by simp
  have "int e * 8388608 + half_even p (q * 2 ^ e) \<le> 127 * 8388608"
  proof (cases "p = 2 ^ 149 * q")
    case True
    then have "p div q = 2 ^ 149" using assms by simp
    moreover have "bitlength (2 ^ 149) = 150" by code_simp
    ultimately have e: "e = 126" by (simp add: e_def)
    have "p = 8388608 * (q * 2 ^ e)" by (simp add: True e)
    then have "half_even p (q * 2 ^ e) = 8388608" using half_even_exact [OF q, of 8388608] by simp
    then show ?thesis by (simp add: e)
  next
    case False
    then have lt: "p < 2 ^ 149 * q" using assms by simp
    then have "p div q < 2 ^ 149" by (simp only: div_lt_iff [OF assms(2)])
    then have "bitlength (p div q) \<le> 149" using d by (intro bitlength_le) auto
    then have e: "e \<le> 125" by (simp add: e_def)
    have "p div q < 2 ^ (e + 24)"
    proof -
      have "p div q < 2 ^ bitlength (p div q)" using bitlength_bounds [of "p div q"] d by (cases "p div q = 0") auto
      also have "\<dots> \<le> 2 ^ (e + 24)" by (rule power_increasing) (auto simp: e_def)
      finally show ?thesis .
    qed
    then have "p < 2 ^ (e + 24) * q" by (simp only: div_lt_iff [OF assms(2)])
    then have "p \<le> 16777216 * (q * 2 ^ e)" by (simp add: power_add mult.commute mult.left_commute)
    then have "half_even p (q * 2 ^ e) \<le> 16777216" by (rule half_even_le [OF q])
    then show ?thesis using e by simp
  qed
  then show ?thesis by (simp add: round_mag_def Let_def one e_def)
qed

lemma f32_one_facts: "f32_nonneg f32_one" "f32_key f32_one = f32_mag f32_one" "f32_mag f32_one = 1065353216"
  by code_simp+

lemma f32_div_le_one:
  assumes "f32_nonneg a" and "f32_nonneg b" and "f32_key a \<le> f32_key b" and "0 < f32_key b" and "\<not> f32_is_inf b"
  shows "f32_nonneg (f32_div a b)" and "f32_key (f32_div a b) \<le> f32_key f32_one"
proof -
  note ka = f32_nonneg_key [OF assms(1)] and kb = f32_nonneg_key [OF assms(2)]
  have nan: "\<not> f32_is_nan a" "\<not> f32_is_nan b" "\<not> f32_sign a" "\<not> f32_sign b"
    using assms(1,2) by (auto simp: f32_nonneg_def)
  have fin: "\<not> f32_is_inf a" "\<not> f32_is_zero b" using assms ka kb by (auto simp: f32_is_inf_def f32_is_zero_def)
  have u: "0 \<le> f32_ulps a" "f32_ulps a \<le> f32_ulps b"
    using nan ka kb assms(3) by (auto simp: f32_ulps_def mag_val_nonneg intro: mag_val_mono)
  have ub: "0 < f32_ulps b"
  proof -
    have "mag_val (f32_mag b) \<noteq> 0" using round_mag_exact [of "f32_mag b"] kb assms(4) by auto
    then show ?thesis using nan kb mag_val_nonneg [of "f32_mag b"] by (simp add: f32_ulps_def)
  qed
  let ?m = "round_mag (f32_ulps a * 2 ^ 149) (f32_ulps b)"
  have q: "f32_div a b = f32_make False ?m"
    using nan fin assms(5) u ub by (simp add: f32_div_def Let_def)
  have m: "0 \<le> ?m" "?m \<le> f32_mag f32_one"
    using round_mag_nonneg [of "f32_ulps a * 2 ^ 149" "f32_ulps b"]
      round_mag_le_one [of "f32_ulps a * 2 ^ 149" "f32_ulps b"] u ub by simp_all
  then show "f32_nonneg (f32_div a b)" "f32_key (f32_div a b) \<le> f32_key f32_one"
    using f32_one_facts by (simp_all add: q f32_nonneg_def f32_is_nan_def f32_key_def f32_make_mag)
qed

lemma sanitize_nonneg: "f32_nonneg (sanitize w) \<or> f32_is_zero (sanitize w)" "\<not> f32_is_nan (sanitize w)" "\<not> f32_is_inf (sanitize w)"
  "0 \<le> f32_key (sanitize w)"
proof -
  have z: "f32_key f32_zero = 0" "\<not> f32_is_nan f32_zero" "\<not> f32_is_inf f32_zero" "f32_nonneg f32_zero" by code_simp+
  have "(f32_nonneg (sanitize w) \<or> f32_is_zero (sanitize w)) \<and> \<not> f32_is_nan (sanitize w) \<and> \<not> f32_is_inf (sanitize w) \<and> 0 \<le> f32_key (sanitize w)"
  proof (cases "f32_is_finite w")
    case True
    then have w: "\<not> f32_is_nan w" "\<not> f32_is_inf w" by (auto simp: f32_is_finite_def f32_is_nan_def f32_is_inf_def)
    show ?thesis using True w z f32_mag_range [of w]
      by (auto simp: sanitize_def f32_max_def f32_lt_def f32_nonneg_def f32_is_zero_def f32_key_def split: if_splits)
  next
    case False
    then show ?thesis using z by (simp add: sanitize_def)
  qed
  then show "f32_nonneg (sanitize w) \<or> f32_is_zero (sanitize w)" "\<not> f32_is_nan (sanitize w)" "\<not> f32_is_inf (sanitize w)"
    "0 \<le> f32_key (sanitize w)" by blast+
qed

text \<open>Every normalised weight is a number between zero and one.\<close>

definition f32_unit :: "f32 \<Rightarrow> bool" where
  "f32_unit x \<longleftrightarrow> f32_le f32_zero x \<and> f32_le x f32_one"

lemma f32_max_key:
  "\<not> f32_is_nan a \<Longrightarrow> \<not> f32_is_nan b \<Longrightarrow>
   \<not> f32_is_nan (f32_max a b) \<and> f32_key a \<le> f32_key (f32_max a b) \<and> f32_key b \<le> f32_key (f32_max a b) \<and>
   f32_max a b \<in> {a, b}"
  by (auto simp: f32_max_def f32_lt_def)

lemma foldl_max:
  assumes "\<not> f32_is_nan m" and "\<forall>w \<in> set ws. \<not> f32_is_nan w"
  shows "\<not> f32_is_nan (foldl f32_max m ws) \<and> f32_key m \<le> f32_key (foldl f32_max m ws) \<and>
    (\<forall>w \<in> set ws. f32_key w \<le> f32_key (foldl f32_max m ws))"
  using assms
proof (induction ws arbitrary: m)
  case (Cons w ws)
  note m = f32_max_key [of m w]
  from Cons.IH [of "f32_max m w"] m Cons.prems show ?case by (auto intro: order.trans)
qed simp

lemma norm_divisor_facts:
  assumes "x \<in> set deduped"
  shows "f32_nonneg (norm_divisor True deduped)" and "f32_key (sanitize (ni_base_weight x)) \<le> f32_key (norm_divisor True deduped) \<or>
      norm_divisor True deduped = f32_one \<and> f32_key (sanitize (ni_base_weight x)) \<le> f32_key f32_epsilon"
    and "0 < f32_key (norm_divisor True deduped)" and "\<not> f32_is_inf (norm_divisor True deduped)"
proof -
  let ?m = "foldl f32_max f32_zero (map (\<lambda>n. sanitize (ni_base_weight n)) deduped)"
  have c: "\<not> f32_is_nan f32_zero" "0 < f32_key f32_one" "\<not> f32_is_inf f32_one" "\<not> f32_is_nan f32_epsilon"
    "0 < f32_key f32_epsilon" by code_simp+
  have m: "\<not> f32_is_nan ?m" "f32_key (sanitize (ni_base_weight x)) \<le> f32_key ?m"
    using foldl_max [of f32_zero "map (\<lambda>n. sanitize (ni_base_weight n)) deduped"] c sanitize_nonneg(2) assms by auto
  have fin: "f32_is_finite ?m"
  proof -
    have "foldl f32_max z ws \<in> insert z (set ws)" for z ws
      by (induction ws arbitrary: z) (auto simp: f32_max_def)
    then have "?m = f32_zero \<or> (\<exists>w. ?m = sanitize w)" by fastforce
    then show ?thesis using sanitize_nonneg(2,3) m(1) f32_mag_range [of ?m]
      by (elim disjE exE) (simp_all add: f32_is_finite_def f32_is_nan_def f32_is_inf_def, code_simp, smt (verit))
  qed
  show "f32_nonneg (norm_divisor True deduped)" "f32_key (sanitize (ni_base_weight x)) \<le> f32_key (norm_divisor True deduped) \<or>
      norm_divisor True deduped = f32_one \<and> f32_key (sanitize (ni_base_weight x)) \<le> f32_key f32_epsilon"
    "0 < f32_key (norm_divisor True deduped)" "\<not> f32_is_inf (norm_divisor True deduped)"
    using fin m c f32_one_facts(1) f32_mag_range [of ?m]
    by (auto simp: norm_divisor_def Let_def f32_lt_def f32_nonneg_def f32_is_finite_def f32_is_inf_def f32_key_def split: if_splits)
qed

lemma f32_unit_div:
  assumes "x \<in> set deduped"
  shows "f32_unit (f32_div (sanitize (ni_base_weight x)) (norm_divisor True deduped))"
proof -
  let ?a = "sanitize (ni_base_weight x)" and ?b = "norm_divisor True deduped"
  note b = norm_divisor_facts [OF assms]
  have e: "f32_key f32_epsilon \<le> f32_key f32_one" by code_simp
  have le: "f32_key ?a \<le> f32_key ?b" using b(2) e by auto
  have z: "\<not> f32_is_nan f32_zero" "f32_key f32_zero = 0" "\<not> f32_is_nan f32_one" "0 \<le> f32_key f32_one" by code_simp+
  show ?thesis
  proof (cases "f32_nonneg ?a")
    case True
    from f32_div_le_one [OF True b(1) le b(3,4)] show ?thesis
      using z f32_nonneg_key by (auto simp: f32_unit_def f32_le_def f32_nonneg_def f32_key_def f32_mag_range)
  next
    case False
    then have zero: "f32_is_zero ?a" using sanitize_nonneg(1) by blast
    have "f32_ulps ?a = 0" using zero by (simp add: f32_ulps_def f32_is_zero_def mag_val_def)
    then have "\<exists>s. f32_div ?a ?b = f32_make s 0"
      using zero b sanitize_nonneg(2,3) [of "ni_base_weight x"]
      by (auto simp: f32_div_def Let_def f32_nonneg_def f32_is_zero_def f32_key_def round_mag_def half_even_def)
    then show ?thesis using z by (auto simp: f32_unit_def f32_le_def f32_is_nan_def f32_key_def f32_make_mag)
  qed
qed

lemma f32_unit_clamp: "f32_unit (f32_clamp (sanitize w) f32_zero f32_one)"
proof -
  have z: "\<not> f32_is_nan f32_zero" "f32_key f32_zero = 0" "\<not> f32_is_nan f32_one" "0 < f32_key f32_one" by code_simp+
  show ?thesis using sanitize_nonneg(2,4) [of w] z
    by (auto simp: f32_unit_def f32_clamp_def f32_le_def f32_lt_def Let_def)
qed

lemma build_weights:
  assumes "digraph_laws ops" and "length (dedup_nodes nodes) \<le> dg_limit" and "length edges \<le> dg_limit"
    and "d \<in> set (dg_nodes ops (og_graph (build_graph ops nodes edges)))"
  shows "f32_unit (nd_base_weight d) \<and> f32_unit (nd_noise_penalty d)"
proof -
  obtain succ where s: "dg_nodes ops (og_graph (build_graph_inner ops nodes edges True)) = with_pagerank succ f32_0_85 20 (raw_nodes True nodes)"
    using build_contents(1) [OF assms(1-3), of True] by blast
  then obtain i where i: "i < length (raw_nodes True nodes)" "d = with_pagerank succ f32_0_85 20 (raw_nodes True nodes) ! i"
    using assms(4) by (auto simp: build_graph_def in_set_conv_nth with_pagerank_names)
  have "d\<lparr>nd_pagerank_weight := f32_zero\<rparr> = (raw_nodes True nodes ! i)\<lparr>nd_pagerank_weight := f32_zero\<rparr>"
    unfolding i(2) by (rule with_pagerank_names(3) [OF i(1)])
  then have "nd_base_weight d = nd_base_weight (raw_nodes True nodes ! i)" "nd_noise_penalty d = nd_noise_penalty (raw_nodes True nodes ! i)"
    by (metis node_data.select_convs node_data.surjective node_data.update_convs(6))+
  moreover have "dedup_nodes nodes ! i \<in> set (dedup_nodes nodes)" using i(1) by (simp add: raw_nodes_def)
  ultimately show ?thesis
    using i(1) f32_unit_div f32_unit_clamp by (simp add: raw_nodes_def built_node_def)
qed

end
