(* ===== verification/OG_Serialization.thy ===== *)
theory OG_Serialization
  imports OG_Builder
begin

text \<open>
  The flat snapshot of \<open>src/serialization.rs\<close>: extraction of nodes and indexed edges, the owned
  rebuild and the zero-copy \<open>ArchivedGraphView\<close>. The byte format is rkyv's, which is not part of
  the repository: \<open>to_bytes\<close> and \<open>access\<close> are parameters; \<open>codec_ok\<close> says that access to bytes
  produced by \<open>to_bytes\<close> succeeds and sees the value (\<open>rkyv::from_bytes\<close> is that access followed by a
  total copy).
\<close>

definition codec_ok :: "('a \<Rightarrow> bytes) \<Rightarrow> (bytes \<Rightarrow> 'a option) \<Rightarrow> bool" where
  "codec_ok to_bytes access \<longleftrightarrow> (\<forall>x. access (to_bytes x) = Some x)"

lemma codec_okD: "codec_ok to_bytes access \<Longrightarrow> access (to_bytes x) = Some x"
  by (simp add: codec_ok_def)

section \<open>The archived types\<close>

record serializable_edge =
  se_from_idx :: u32
  se_to_idx :: u32
  se_kind :: string
  se_field_name :: "string option"
  se_base_weight :: f32
  se_valid_from :: "u64 option"
  se_valid_to :: "u64 option"
  se_acl :: "string list"

record serializable_graph =
  sg_node_list :: "node_data list"
  sg_edge_list :: "serializable_edge list"

definition serializable_edge_of :: "u32 \<Rightarrow> u32 \<Rightarrow> edge_data \<Rightarrow> serializable_edge" where
  "serializable_edge_of f t e = \<lparr>
     se_from_idx = f, se_to_idx = t, se_kind = ed_kind e, se_field_name = ed_field_name e,
     se_base_weight = ed_base_weight e, se_valid_from = ed_valid_from e, se_valid_to = ed_valid_to e,
     se_acl = ed_acl e\<rparr>"

definition se_edge :: "serializable_edge \<Rightarrow> edge_data" where
  "se_edge e = \<lparr>
     ed_kind = se_kind e, ed_field_name = se_field_name e, ed_base_weight = se_base_weight e,
     ed_valid_from = se_valid_from e, ed_valid_to = se_valid_to e, ed_acl = se_acl e\<rparr>"

lemma se_edge_of [simp]: "se_edge (serializable_edge_of f t e) = e"
  "se_from_idx (serializable_edge_of f t e) = f" "se_to_idx (serializable_edge_of f t e) = t"
  by (simp_all add: se_edge_def serializable_edge_of_def)

section \<open>Writing and rebuilding\<close>

definition to_serializable :: "'g digraph_ops \<Rightarrow> 'g orpheus_graph \<Rightarrow> serializable_graph" where
  "to_serializable ops G =
     (let nodes = dg_nodes ops (og_graph G);
          name_to_idx = (\<lambda>n. of_nat (the (fmlookup (name_index nodes) n)) :: u32)
      in \<lparr>sg_node_list = nodes,
          sg_edge_list = map (\<lambda>(from, to, e).
             serializable_edge_of (name_to_idx (nd_name (nodes ! from))) (name_to_idx (nd_name (nodes ! to))) e)
             (dg_edges ops (og_graph G))\<rparr>)"

definition to_rkyv :: "(serializable_graph \<Rightarrow> bytes) \<Rightarrow> 'g digraph_ops \<Rightarrow> 'g orpheus_graph \<Rightarrow> bytes" where
  "to_rkyv to_bytes ops G = to_bytes (to_serializable ops G)"

definition from_rkyv_rebuild ::
  "(bytes \<Rightarrow> serializable_graph option) \<Rightarrow> 'g digraph_ops \<Rightarrow> bytes \<Rightarrow> string + 'g orpheus_graph" where
  "from_rkyv_rebuild access ops data =
     (case access data of
        None \<Rightarrow> Inl ''rkyv deserialization failed''
      | Some sg \<Rightarrow> Inr (rebuild_from_serialized ops (sg_node_list sg)
          (map (\<lambda>e. (unat (se_from_idx e), unat (se_to_idx e), se_edge e)) (sg_edge_list sg))))"

section \<open>The zero-copy view\<close>

record archived_view =
  av_graph :: serializable_graph
  av_name_index :: "(string, nat) fmap"

fun first_bad_edge :: "nat \<Rightarrow> serializable_edge list \<Rightarrow> bool" where
  "first_bad_edge node_count [] = False"
| "first_bad_edge node_count (e # es) =
     (unat (se_from_idx e) \<ge> node_count \<or> unat (se_to_idx e) \<ge> node_count \<or> first_bad_edge node_count es)"

definition archived_from_bytes :: "(bytes \<Rightarrow> serializable_graph option) \<Rightarrow> bytes \<Rightarrow> string + archived_view" where
  "archived_from_bytes access data =
     (case access data of
        None \<Rightarrow> Inl ''rkyv validation failed''
      | Some sg \<Rightarrow>
          if first_bad_edge (length (sg_node_list sg)) (sg_edge_list sg)
          then Inl ''corrupt snapshot: edge references out-of-bounds node index''
          else Inr \<lparr>av_graph = sg, av_name_index = name_index (sg_node_list sg)\<rparr>)"

definition archived_get_node :: "archived_view \<Rightarrow> string \<Rightarrow> node_view option" where
  "archived_get_node v n =
     (case fmlookup (av_name_index v) n of
        None \<Rightarrow> None | Some idx \<Rightarrow> Some (node_view_from (sg_node_list (av_graph v) ! idx)))"

definition archived_outgoing :: "archived_view \<Rightarrow> string \<Rightarrow> neighbor_view list" where
  "archived_outgoing v n =
     (case fmlookup (av_name_index v) n of
        None \<Rightarrow> []
      | Some from_idx \<Rightarrow>
          map (\<lambda>e. neighbor_view_of (nd_name (sg_node_list (av_graph v) ! unat (se_to_idx e))) (se_edge e))
            (filter (\<lambda>e. se_from_idx e = of_nat from_idx) (sg_edge_list (av_graph v))))"

definition archived_incoming :: "archived_view \<Rightarrow> string \<Rightarrow> neighbor_view list" where
  "archived_incoming v n =
     (case fmlookup (av_name_index v) n of
        None \<Rightarrow> []
      | Some to_idx \<Rightarrow>
          map (\<lambda>e. neighbor_view_of (nd_name (sg_node_list (av_graph v) ! unat (se_from_idx e))) (se_edge e))
            (filter (\<lambda>e. se_to_idx e = of_nat to_idx) (sg_edge_list (av_graph v))))"

definition archived_accessor :: "archived_view \<Rightarrow> accessor" where
  "archived_accessor v = \<lparr>
     acc_node_count = length (sg_node_list (av_graph v)),
     acc_edge_count = length (sg_edge_list (av_graph v)),
     acc_get_node = archived_get_node v,
     acc_outgoing = archived_outgoing v,
     acc_incoming = archived_incoming v\<rparr>"

section \<open>An opened view reads the graph\<close>

definition sg_indexed :: "serializable_graph \<Rightarrow> indexed_edge list" where
  "sg_indexed sg = map (\<lambda>e. (unat (se_from_idx e), unat (se_to_idx e), se_edge e)) (sg_edge_list sg)"

definition sg_nodes_map :: "serializable_graph \<Rightarrow> string \<Rightarrow> node_view option" where
  "sg_nodes_map sg = map_of (map (\<lambda>d. (nd_name d, node_view_from d)) (sg_node_list sg))"

definition sg_edges_of :: "serializable_graph \<Rightarrow> graph_edge multiset" where
  "sg_edges_of sg = image_mset (named_edge (sg_node_list sg)) (mset (sg_indexed sg))"

lemma first_bad_edge_iff:
  "\<not> first_bad_edge n es \<longleftrightarrow> (\<forall>e \<in> set es. unat (se_from_idx e) < n \<and> unat (se_to_idx e) < n)"
  by (induction es) auto

text \<open>Loading rejects every dangling edge, so a view with distinct names is a view of a graph.\<close>

definition view_ok :: "archived_view \<Rightarrow> bool" where
  "view_ok v \<longleftrightarrow>
     distinct (map nd_name (sg_node_list (av_graph v))) \<and> length (sg_node_list (av_graph v)) \<le> 2 ^ 32 \<and>
     av_name_index v = name_index (sg_node_list (av_graph v)) \<and>
     \<not> first_bad_edge (length (sg_node_list (av_graph v))) (sg_edge_list (av_graph v))"

lemma u32_eq_iff: "i < 2 ^ 32 \<Longrightarrow> (w :: u32) = of_nat i \<longleftrightarrow> unat w = i"
proof -
  assume "i < 2 ^ 32"
  then have "unat (of_nat i :: u32) = i" by (simp add: unat_of_nat)
  then show ?thesis by (metis word_unat_eq_iff)
qed

lemma archived_accessor_ok:
  assumes "view_ok v"
  shows "accessor_ok (archived_accessor v) (sg_nodes_map (av_graph v)) (sg_edges_of (av_graph v))"
proof -
  let ?ns = "sg_node_list (av_graph v)" and ?es = "sg_edge_list (av_graph v)"
  have I: "av_name_index v = name_index ?ns" and D: "distinct (map nd_name ?ns)" and L: "length ?ns \<le> 2 ^ 32"
    and B: "\<forall>e \<in> set ?es. unat (se_from_idx e) < length ?ns \<and> unat (se_to_idx e) < length ?ns"
    using assms by (auto simp: view_ok_def first_bad_edge_iff)
  have out: "mset (map f (filter (\<lambda>e. se_from_idx e = of_nat i) es)) =
      image_mset (\<lambda>(a, b, x). g b x) (filter_mset (\<lambda>(a, b, x). a = i)
        (mset (map (\<lambda>e. (unat (se_from_idx e), unat (se_to_idx e), se_edge e)) es)))"
    if "i < 2 ^ 32" "\<And>e. f e = g (unat (se_to_idx e)) (se_edge e)" for f g i es
    using that(2) by (induction es) (auto simp: u32_eq_iff [OF that(1)])
  have inc: "mset (map f (filter (\<lambda>e. se_to_idx e = of_nat i) es)) =
      image_mset (\<lambda>(a, b, x). g a x) (filter_mset (\<lambda>(a, b, x). b = i)
        (mset (map (\<lambda>e. (unat (se_from_idx e), unat (se_to_idx e), se_edge e)) es)))"
    if "i < 2 ^ 32" "\<And>e. f e = g (unat (se_from_idx e)) (se_edge e)" for f g i es
    using that(2) by (induction es) (auto simp: u32_eq_iff [OF that(1)])
  have lt: "i < 2 ^ 32" if "fmlookup (name_index ?ns) n = Some i" for i n
    using name_index_Some [OF that] L by simp
  show ?thesis unfolding sg_nodes_map_def sg_edges_of_def sg_indexed_def
  proof (rule indexed_accessor_ok [OF D])
    show "\<forall>(f, t, e) \<in> set (map (\<lambda>e. (unat (se_from_idx e), unat (se_to_idx e), se_edge e)) ?es).
        f < length ?ns \<and> t < length ?ns" using B by auto
    show "acc_get_node (archived_accessor v) n = map_option (\<lambda>i. node_view_from (?ns ! i)) (fmlookup (name_index ?ns) n)" for n
      by (simp add: archived_accessor_def archived_get_node_def I split: option.split)
    show "mset (acc_outgoing (archived_accessor v) n) = (case fmlookup (name_index ?ns) n of None \<Rightarrow> {#} | Some i \<Rightarrow>
        image_mset (\<lambda>(f, t, e). neighbor_view_of (nd_name (?ns ! t)) e) (filter_mset (\<lambda>(f, t, e). f = i)
          (mset (map (\<lambda>e. (unat (se_from_idx e), unat (se_to_idx e), se_edge e)) ?es))))" for n
    proof (cases "fmlookup (name_index ?ns) n")
      case (Some i)
      show ?thesis
        using out [OF lt [OF Some], of "\<lambda>e. neighbor_view_of (nd_name (?ns ! unat (se_to_idx e))) (se_edge e)"
            "\<lambda>t e. neighbor_view_of (nd_name (?ns ! t)) e" ?es]
        by (simp only: archived_accessor_def accessor.select_convs archived_outgoing_def I Some option.case)
    qed (simp add: archived_accessor_def archived_outgoing_def I)
    show "mset (acc_incoming (archived_accessor v) n) = (case fmlookup (name_index ?ns) n of None \<Rightarrow> {#} | Some i \<Rightarrow>
        image_mset (\<lambda>(f, t, e). neighbor_view_of (nd_name (?ns ! f)) e) (filter_mset (\<lambda>(f, t, e). t = i)
          (mset (map (\<lambda>e. (unat (se_from_idx e), unat (se_to_idx e), se_edge e)) ?es))))" for n
    proof (cases "fmlookup (name_index ?ns) n")
      case (Some i)
      show ?thesis
        using inc [OF lt [OF Some], of "\<lambda>e. neighbor_view_of (nd_name (?ns ! unat (se_from_idx e))) (se_edge e)"
            "\<lambda>t e. neighbor_view_of (nd_name (?ns ! t)) e" ?es]
        by (simp only: archived_accessor_def accessor.select_convs archived_incoming_def I Some option.case)
    qed (simp add: archived_accessor_def archived_incoming_def I)
  qed (simp_all add: archived_accessor_def)
qed

interpretation archived_view: graph_view archived_accessor view_ok "\<lambda>v. sg_nodes_map (av_graph v)" "\<lambda>v. sg_edges_of (av_graph v)"
  by unfold_locales (rule archived_accessor_ok)

section \<open>Round trip\<close>

lemma to_serializable_indexed:
  assumes "og_ok ops G" and "length (dg_nodes ops (og_graph G)) \<le> 2 ^ 32"
  shows "sg_indexed (to_serializable ops G) = dg_edges ops (og_graph G)"
proof -
  let ?ns = "dg_nodes ops (og_graph G)"
  have idx: "unat (of_nat (the (fmlookup (name_index ?ns) (nd_name (?ns ! i)))) :: u32) = i" if "i < length ?ns" for i
  proof -
    have "fmlookup (name_index ?ns) (nd_name (?ns ! i)) = Some i"
      using assms(1) that by (intro name_index_nth) (simp_all add: og_ok_def)
    then show ?thesis using that assms(2) by (simp add: unat_of_nat)
  qed
  show ?thesis
    unfolding sg_indexed_def to_serializable_def Let_def serializable_graph.select_convs map_map
  proof (rule map_idI)
    fix x assume x: "x \<in> set (dg_edges ops (og_graph G))"
    obtain f t e where fte: "x = (f, t, e)" by (cases x)
    have "f < length ?ns" "t < length ?ns" using assms(1) x by (auto simp: og_ok_def fte)
    then show "((\<lambda>e. (unat (se_from_idx e), unat (se_to_idx e), se_edge e)) \<circ>
        (\<lambda>(from, to, e). serializable_edge_of (of_nat (the (fmlookup (name_index ?ns) (nd_name (?ns ! from)))))
          (of_nat (the (fmlookup (name_index ?ns) (nd_name (?ns ! to))))) e)) x = x"
      by (simp only: fte o_apply prod.case se_edge_of idx)
  qed
qed

lemma to_rkyv_opens:
  assumes "codec_ok to_bytes access" and "og_ok ops G" and "length (dg_nodes ops (og_graph G)) \<le> 2 ^ 32"
  shows "\<exists>v. archived_from_bytes access (to_rkyv to_bytes ops G) = Inr v \<and> view_ok v \<and>
    sg_nodes_map (av_graph v) = og_nodes ops G \<and> sg_edges_of (av_graph v) = og_edges ops G"
proof -
  let ?sg = "to_serializable ops G"
  have ns: "sg_node_list ?sg = dg_nodes ops (og_graph G)" by (simp add: to_serializable_def Let_def)
  note ix = to_serializable_indexed [OF assms(2,3)]
  have "\<forall>x \<in> set (sg_indexed ?sg). case x of (f, t, e) \<Rightarrow> f < length (sg_node_list ?sg) \<and> t < length (sg_node_list ?sg)"
    unfolding ix ns using assms(2) by (auto simp: og_ok_def)
  then have good: "\<not> first_bad_edge (length (sg_node_list ?sg)) (sg_edge_list ?sg)"
    by (simp add: first_bad_edge_iff sg_indexed_def)
  let ?v = "\<lparr>av_graph = ?sg, av_name_index = name_index (sg_node_list ?sg)\<rparr>"
  have "archived_from_bytes access (to_rkyv to_bytes ops G) = Inr ?v"
    using good by (simp add: archived_from_bytes_def to_rkyv_def codec_okD [OF assms(1)])
  moreover have "view_ok ?v" using good assms(2,3) by (simp add: view_ok_def ns og_ok_def)
  moreover have "sg_nodes_map ?sg = og_nodes ops G" by (simp add: sg_nodes_map_def og_nodes_def ns)
  moreover have "sg_edges_of ?sg = og_edges ops G" by (simp add: sg_edges_of_def og_edges_def ns ix)
  ultimately show ?thesis by (intro exI [of _ ?v]) simp
qed

lemma rkyv_rebuild_roundtrip:
  assumes "codec_ok to_bytes access" and "digraph_laws ops" and "og_ok ops G"
    and "length (dg_nodes ops (og_graph G)) \<le> dg_limit" and "length (dg_edges ops (og_graph G)) \<le> dg_limit"
  shows "\<exists>G'. from_rkyv_rebuild access ops (to_rkyv to_bytes ops G) = Inr G' \<and> og_ok ops G' \<and>
    dg_nodes ops (og_graph G') = dg_nodes ops (og_graph G) \<and> dg_edges ops (og_graph G') = dg_edges ops (og_graph G)"
proof -
  let ?sg = "to_serializable ops G"
  have ns: "sg_node_list ?sg = dg_nodes ops (og_graph G)" by (simp add: to_serializable_def Let_def)
  have "length (dg_nodes ops (og_graph G)) \<le> 2 ^ 32" using assms(4) by (simp add: dg_limit_def)
  note ix = to_serializable_indexed [OF assms(3) this]
  let ?G = "rebuild_from_serialized ops (dg_nodes ops (og_graph G)) (dg_edges ops (og_graph G))"
  have "from_rkyv_rebuild access ops (to_rkyv to_bytes ops G) = Inr ?G"
    by (simp add: from_rkyv_rebuild_def to_rkyv_def codec_okD [OF assms(1)] ns sg_indexed_def [symmetric] ix)
  moreover have "filter (\<lambda>(f, t, e). f < length (dg_nodes ops (og_graph G)) \<and> t < length (dg_nodes ops (og_graph G)))
      (dg_edges ops (og_graph G)) = dg_edges ops (og_graph G)"
    using assms(3) by (intro filter_True) (auto simp: og_ok_def)
  ultimately show ?thesis
    using rebuild_contents [OF assms(2,4,5)] rebuild_ok [OF assms(2,4,5)] assms(3) by (simp add: og_ok_def)
qed

end
