(* ===== verification/OG_Snapshot.thy ===== *)
theory OG_Snapshot
  imports OG_Error OG_Serialization
begin

unbundle bit_operations_syntax

text \<open>
  The CSR snapshot of \<open>src/persist/snapshot.rs\<close>: the archive types, the persisted name index, the
  deterministic writer, the validation sweep, the index probe and the accessor over the archive,
  and the open path. rkyv and crc32 are parameters.
\<close>

section \<open>Archive types\<close>

record csr_node =
  cn_name :: string
  cn_kind :: string
  cn_metadata :: "(string \<times> string) list"
  cn_base_weight :: f32
  cn_noise_penalty :: f32
  cn_pagerank_weight :: f32

record csr_edge =
  ce_from_idx :: u32
  ce_to_idx :: u32
  ce_kind :: string
  ce_field_name :: "string option"
  ce_base_weight :: f32
  ce_valid_from :: "u64 option"
  ce_valid_to :: "u64 option"
  ce_acl :: "string list"

record csr_graph =
  cg_nodes :: "csr_node list"
  cg_edges :: "csr_edge list"
  cg_node_offsets :: "u32 list"
  cg_in_offsets :: "u32 list"
  cg_in_mirror :: "u32 list"
  cg_name_buckets :: "u32 list"

text \<open>The metadata entries come in hash order and are sorted; \<open>sorted_list_of_fset\<close> is that sorted list.\<close>

definition csr_node_of :: "node_data \<Rightarrow> csr_node" where
  "csr_node_of nd = \<lparr>
     cn_name = nd_name nd, cn_kind = nd_kind nd,
     cn_metadata = map (\<lambda>k. (k, the (fmlookup (nd_metadata nd) k))) (sorted_list_of_fset (fmdom (nd_metadata nd))),
     cn_base_weight = nd_base_weight nd, cn_noise_penalty = nd_noise_penalty nd,
     cn_pagerank_weight = nd_pagerank_weight nd\<rparr>"

definition node_data_of :: "csr_node \<Rightarrow> node_data" where
  "node_data_of cn = \<lparr>
     nd_name = cn_name cn, nd_kind = cn_kind cn,
     nd_metadata = foldl (\<lambda>m (k, v). fmupd k v m) fmempty (cn_metadata cn),
     nd_base_weight = cn_base_weight cn, nd_noise_penalty = cn_noise_penalty cn,
     nd_pagerank_weight = cn_pagerank_weight cn\<rparr>"

definition csr_edge_of :: "u32 \<Rightarrow> u32 \<Rightarrow> edge_data \<Rightarrow> csr_edge" where
  "csr_edge_of f t e = \<lparr>
     ce_from_idx = f, ce_to_idx = t, ce_kind = ed_kind e, ce_field_name = ed_field_name e,
     ce_base_weight = ed_base_weight e, ce_valid_from = ed_valid_from e, ce_valid_to = ed_valid_to e,
     ce_acl = ed_acl e\<rparr>"

definition ce_edge :: "csr_edge \<Rightarrow> edge_data" where
  "ce_edge e = \<lparr>
     ed_kind = ce_kind e, ed_field_name = ce_field_name e, ed_base_weight = ce_base_weight e,
     ed_valid_from = ce_valid_from e, ed_valid_to = ce_valid_to e, ed_acl = ce_acl e\<rparr>"

lemma ce_edge_of [simp]:
  "ce_edge (csr_edge_of f t e) = e" "ce_from_idx (csr_edge_of f t e) = f" "ce_to_idx (csr_edge_of f t e) = t"
  by (simp_all add: ce_edge_def csr_edge_of_def)

section \<open>The name index\<close>

definition empty_bucket :: u32 where "empty_bucket = - 1"

definition name_bytes :: "string \<Rightarrow> bytes" where "name_bytes s = map of_char s"

definition fnv1a :: "bytes \<Rightarrow> u64" where
  "fnv1a bs = foldl (\<lambda>h b. (h XOR ucast b) * 0x100000001b3) 0xcbf29ce484222325 bs"

text \<open>\<open>usize\<close> has 64 bits; \<open>checked_next_power_of_two\<close> tries the 64 powers that fit.\<close>

definition usize_sat :: "nat \<Rightarrow> nat" where "usize_sat x = min x (2 ^ 64 - 1)"

fun next_power_of_two :: "nat \<Rightarrow> nat \<Rightarrow> nat \<Rightarrow> nat option" where
  "next_power_of_two 0 p w = None"
| "next_power_of_two (Suc fuel) p w = (if w \<le> p then Some p else next_power_of_two fuel (2 * p) w)"

definition bucket_capacity :: "nat \<Rightarrow> nat" where
  "bucket_capacity n =
     (let want = max (usize_sat (usize_sat (n * 10) div 7 + 1)) (usize_sat (n + 1))
      in max (case next_power_of_two 64 1 want of Some p \<Rightarrow> p | None \<Rightarrow> want) 2)"

definition hash_home :: "nat \<Rightarrow> string \<Rightarrow> nat" where
  "hash_home m name = unat (fnv1a (name_bytes name) AND of_nat (m - 1))"

definition next_slot :: "nat \<Rightarrow> nat \<Rightarrow> nat" where
  "next_slot m slot = (slot + 1) AND (m - 1)"

text \<open>The insertion loop walks to the first empty slot; the fuel is the table size.\<close>

fun find_empty :: "nat \<Rightarrow> u32 list \<Rightarrow> nat \<Rightarrow> nat option" where
  "find_empty 0 buckets slot = None"
| "find_empty (Suc fuel) buckets slot =
     (if buckets ! slot = empty_bucket then Some slot
      else find_empty fuel buckets (next_slot (length buckets) slot))"

fun insert_names :: "u32 list \<Rightarrow> nat \<Rightarrow> string list \<Rightarrow> u32 list option" where
  "insert_names buckets i [] = Some buckets"
| "insert_names buckets i (n # ns) =
     (case find_empty (length buckets) buckets (hash_home (length buckets) n) of
        None \<Rightarrow> None
      | Some slot \<Rightarrow> insert_names (buckets[slot := of_nat i]) (Suc i) ns)"

definition build_name_buckets :: "node_data list \<Rightarrow> u32 list option" where
  "build_name_buckets nodes =
     insert_names (replicate (bucket_capacity (length nodes)) empty_bucket) 0 (map nd_name nodes)"

section \<open>The writer\<close>

definition edge_sort_key ::
  "csr_edge \<Rightarrow> u32 \<times> u32 \<times> string \<times> string option \<times> f32 \<times> u64 option \<times> u64 option \<times> string list" where
  "edge_sort_key e = (ce_from_idx e, ce_to_idx e, ce_kind e, ce_field_name e, ce_base_weight e,
     ce_valid_from e, ce_valid_to e, ce_acl e)"

fun prefix_sums :: "u32 \<Rightarrow> u32 list \<Rightarrow> u32 list" where
  "prefix_sums acc [] = []"
| "prefix_sums acc (c # cs) = (acc + c) # prefix_sums (acc + c) cs"

text \<open>Count into slot \<open>idx + 1\<close>, then sum: \<open>offsets[i]\<close> counts the edges below \<open>i\<close>.\<close>

definition csr_offsets :: "nat \<Rightarrow> u32 list \<Rightarrow> u32 list" where
  "csr_offsets n idxs =
     prefix_sums 0 (foldl (\<lambda>offs i. offs[unat i + 1 := offs ! (unat i + 1) + 1]) (replicate (n + 1) 0) idxs)"

definition sorted_nodes :: "'g digraph_ops \<Rightarrow> 'g orpheus_graph \<Rightarrow> node_data list" where
  "sorted_nodes ops G = sort_key nd_name (dg_nodes ops (og_graph G))"

definition sorted_edges :: "'g digraph_ops \<Rightarrow> 'g orpheus_graph \<Rightarrow> csr_edge list" where
  "sorted_edges ops G =
     (let name_to_idx = (\<lambda>n. of_nat (the (fmlookup (name_index (sorted_nodes ops G)) n)) :: u32);
          nodes = dg_nodes ops (og_graph G)
      in sort_key edge_sort_key
           (map (\<lambda>(from, to, e). csr_edge_of (name_to_idx (nd_name (nodes ! from))) (name_to_idx (nd_name (nodes ! to))) e)
             (dg_edges ops (og_graph G))))"

definition mirror_of :: "csr_edge list \<Rightarrow> u32 list" where
  "mirror_of edges =
     sort_key (\<lambda>x. (ce_to_idx (edges ! unat x), x)) (map of_nat [0..<length edges])"

text \<open>\<open>None\<close> stands for a probe loop that does not end; \<open>to_csr_total\<close> shows that it does not occur.\<close>

definition to_csr :: "'g digraph_ops \<Rightarrow> 'g orpheus_graph \<Rightarrow> csr_graph option" where
  "to_csr ops G =
     (let nodes = sorted_nodes ops G;
          edges = sorted_edges ops G;
          n = length nodes
      in case build_name_buckets nodes of
           None \<Rightarrow> None
         | Some buckets \<Rightarrow> Some \<lparr>
             cg_nodes = map csr_node_of nodes,
             cg_edges = edges,
             cg_node_offsets = csr_offsets n (map ce_from_idx edges),
             cg_in_offsets = csr_offsets n (map ce_to_idx edges),
             cg_in_mirror = mirror_of edges,
             cg_name_buckets = buckets\<rparr>)"

definition to_rkyv_v2 :: "(csr_graph \<Rightarrow> bytes) \<Rightarrow> 'g digraph_ops \<Rightarrow> 'g orpheus_graph \<Rightarrow> bytes option" where
  "to_rkyv_v2 to_bytes ops G = map_option to_bytes (to_csr ops G)"

definition from_rkyv_rebuild_v2 ::
  "(bytes \<Rightarrow> csr_graph option) \<Rightarrow> 'g digraph_ops \<Rightarrow> bytes \<Rightarrow> string + 'g orpheus_graph" where
  "from_rkyv_rebuild_v2 access ops data =
     (case access data of
        None \<Rightarrow> Inl ''rkyv V2 deserialization failed''
      | Some sg \<Rightarrow> Inr (rebuild_from_serialized ops (map node_data_of (cg_nodes sg))
          (map (\<lambda>e. (unat (ce_from_idx e), unat (ce_to_idx e), ce_edge e)) (cg_edges sg))))"

section \<open>Validation\<close>

datatype validate = Full | Crc | NoValidate

definition off_at :: "u32 list \<Rightarrow> nat \<Rightarrow> nat option" where
  "off_at v i = map_option unat (get_at v i)"

definition check_sorted :: "csr_node list \<Rightarrow> persist_error + unit" where
  "check_sorted nodes = check_all (\<lambda>i.
     case (get_at nodes (i - 1), get_at nodes i) of
       (Some p, Some c) \<Rightarrow> ensure (cn_name p < cn_name c) ''V2 CSR invalid: nodes not strictly name-sorted''
     | _ \<Rightarrow> Inl (Corrupt ''V2 CSR invalid: nodes short (sort check)'')) [1..<length nodes]"

definition check_bucket_len :: "nat \<Rightarrow> u32 list \<Rightarrow> persist_error + unit" where
  "check_bucket_len n buckets =
     (let m = length buckets in
      bindE (ensure (m = bucket_capacity n) ''V2 CSR invalid: name_buckets len != canonical bucket_capacity'') (\<lambda>_.
        ensure ((\<exists>k \<in> {..<64}. m = 2 ^ k) \<and> n < m) ''V2 CSR invalid: name_buckets len is not a power of two > N''))"

text \<open>The one pass over the table: which index sits where, and the prefix count of empty slots.\<close>

record bucket_scan =
  bs_seen :: "bool list"
  bs_slot_of :: "nat list"
  bs_empties :: "nat list"
  bs_occupied :: nat

fun scan_buckets :: "nat \<Rightarrow> nat \<Rightarrow> u32 list \<Rightarrow> bucket_scan \<Rightarrow> persist_error + bucket_scan" where
  "scan_buckets n slot [] s = Inr s"
| "scan_buckets n slot (b # bs) s =
     (let s = s\<lparr>bs_empties := bs_empties s @ [last (bs_empties s) + (if b = empty_bucket then 1 else 0)]\<rparr> in
      if b = empty_bucket then scan_buckets n (slot + 1) bs s
      else let idx = unat b in
           if idx \<ge> n then Inl (Corrupt ''V2 CSR invalid: name_buckets slot holds idx >= N'')
           else if bs_seen s ! idx then Inl (Corrupt ''V2 CSR invalid: name_buckets maps idx more than once'')
           else scan_buckets n (slot + 1) bs
                  (s\<lparr>bs_seen := (bs_seen s)[idx := True], bs_slot_of := (bs_slot_of s)[idx := slot],
                     bs_occupied := bs_occupied s + 1\<rparr>))"

definition empties_on_path :: "nat \<Rightarrow> nat list \<Rightarrow> nat \<Rightarrow> nat \<Rightarrow> nat" where
  "empties_on_path m empties home slot =
     (if home \<le> slot then empties ! slot - empties ! home
      else (empties ! m - empties ! home) + empties ! slot)"

definition check_buckets :: "csr_node list \<Rightarrow> u32 list \<Rightarrow> persist_error + unit" where
  "check_buckets nodes buckets =
     (let n = length nodes; m = length buckets in
      bindE (check_bucket_len n buckets) (\<lambda>_.
      bindE (scan_buckets n 0 buckets
        \<lparr>bs_seen = replicate n False, bs_slot_of = replicate n 0, bs_empties = [0], bs_occupied = 0\<rparr>) (\<lambda>s.
      bindE (ensure (bs_occupied s = n) ''V2 CSR invalid: name_buckets entries != node count'') (\<lambda>_.
        check_all (\<lambda>i. case get_at nodes i of
            None \<Rightarrow> Inl (Corrupt ''V2 CSR invalid: nodes short (reachability)'')
          | Some node \<Rightarrow> ensure (empties_on_path m (bs_empties s) (hash_home m (cn_name node)) (bs_slot_of s ! i) = 0)
              ''V2 CSR invalid: node is unreachable by its own hash probe'') [0..<n]))))"

definition check_endpoints :: "nat \<Rightarrow> csr_edge list \<Rightarrow> persist_error + unit" where
  "check_endpoints n edges = check_all (\<lambda>e.
     ensure (unat (ce_from_idx e) < n \<and> unat (ce_to_idx e) < n) ''V2 CSR invalid: edge endpoint out of range'') edges"

fun check_monotonic :: "nat \<Rightarrow> u32 list \<Rightarrow> nat \<Rightarrow> nat list \<Rightarrow> persist_error + nat" where
  "check_monotonic e v prev [] = Inr prev"
| "check_monotonic e v prev (i # is) =
     (case off_at v i of
        None \<Rightarrow> Inl (Corrupt ''V2 CSR invalid: offsets short'')
      | Some cur \<Rightarrow>
          if cur < prev then Inl (Corrupt ''V2 CSR invalid: offsets not monotonic'')
          else if e < cur then Inl (Corrupt ''V2 CSR invalid: offsets > E'')
          else check_monotonic e v cur is)"

definition check_offsets :: "nat \<Rightarrow> nat \<Rightarrow> u32 list \<Rightarrow> persist_error + unit" where
  "check_offsets n e v =
     bindE (ensure (length v = n + 1) ''V2 CSR invalid: offsets len != n+1'') (\<lambda>_.
     bindE (ensure (off_at v 0 = Some 0) ''V2 CSR invalid: offsets[0] must be 0 (canonical CSR base)'') (\<lambda>_.
     bindE (check_monotonic e v 0 [0..<n + 1]) (\<lambda>prev.
       ensure (prev = e) ''V2 CSR invalid: offsets sentinel != E'')))"

text \<open>The group checks: \<open>at\<close> reads the edge at a position of the group's list.\<close>

definition check_groups ::
  "nat \<Rightarrow> u32 list \<Rightarrow> (nat \<Rightarrow> csr_edge option) \<Rightarrow> (csr_edge \<Rightarrow> u32) \<Rightarrow> persist_error + unit" where
  "check_groups n v at idx = check_all (\<lambda>i.
     case (off_at v i, off_at v (i + 1)) of
       (Some lo, Some hi) \<Rightarrow> check_all (\<lambda>k.
         case at k of
           None \<Rightarrow> Inl (Corrupt ''V2 CSR invalid: offsets slice OOB'')
         | Some edge \<Rightarrow> ensure (unat (idx edge) = i) ''V2 CSR invalid: offsets group holds a foreign edge'') [lo..<hi]
     | _ \<Rightarrow> Inl (Corrupt ''V2 CSR invalid: offsets short (strong)'')) [0..<n]"

fun scan_mirror :: "nat \<Rightarrow> bool list \<Rightarrow> u32 list \<Rightarrow> persist_error + unit" where
  "scan_mirror e seen [] = Inr ()"
| "scan_mirror e seen (x # xs) =
     (let m = unat x in
      if m \<ge> e then Inl (Corrupt ''V2 CSR invalid: in_mirror >= E'')
      else if seen ! m then Inl (Corrupt ''V2 CSR invalid: in_mirror duplicate entry'')
      else scan_mirror e (seen[m := True]) xs)"

definition check_mirror :: "nat \<Rightarrow> u32 list \<Rightarrow> persist_error + unit" where
  "check_mirror e mirror =
     bindE (ensure (length mirror = e) ''V2 CSR invalid: in_mirror len != E'') (\<lambda>_.
       scan_mirror e (replicate e False) mirror)"

definition mirror_edge :: "csr_graph \<Rightarrow> nat \<Rightarrow> csr_edge option" where
  "mirror_edge a k = (case get_at (cg_in_mirror a) k of None \<Rightarrow> None | Some m \<Rightarrow> get_at (cg_edges a) (unat m))"

definition validate_csr :: "csr_graph \<Rightarrow> persist_error + unit" where
  "validate_csr a =
     (let n = length (cg_nodes a); e = length (cg_edges a) in
      bindE (check_sorted (cg_nodes a)) (\<lambda>_.
      bindE (check_buckets (cg_nodes a) (cg_name_buckets a)) (\<lambda>_.
      bindE (check_endpoints n (cg_edges a)) (\<lambda>_.
      bindE (check_offsets n e (cg_node_offsets a)) (\<lambda>_.
      bindE (check_groups n (cg_node_offsets a) (get_at (cg_edges a)) ce_from_idx) (\<lambda>_.
      bindE (check_offsets n e (cg_in_offsets a)) (\<lambda>_.
      bindE (check_mirror e (cg_in_mirror a)) (\<lambda>_.
        check_groups n (cg_in_offsets a) (mirror_edge a) ce_to_idx))))))))"

definition check_crc :: "(bytes \<Rightarrow> u32) \<Rightarrow> bytes \<Rightarrow> u32 \<Rightarrow> persist_error + unit" where
  "check_crc crc32 bytes expected = ensure (crc32 bytes = expected) ''V2 snapshot crc mismatch''"

definition access_checked :: "(bytes \<Rightarrow> csr_graph option) \<Rightarrow> bytes \<Rightarrow> persist_error + csr_graph" where
  "access_checked access bytes =
     (case access bytes of
        None \<Rightarrow> Inl (Corrupt ''V2 rkyv structural validation failed'') | Some a \<Rightarrow> Inr a)"

definition validate_v2 ::
  "(bytes \<Rightarrow> u32) \<Rightarrow> (bytes \<Rightarrow> csr_graph option) \<Rightarrow> bytes \<Rightarrow> validate \<Rightarrow> u32 \<Rightarrow> persist_error + unit" where
  "validate_v2 crc32 access bytes mode expected =
     (case mode of
        NoValidate \<Rightarrow> Inr ()
      | Crc \<Rightarrow> bindE (check_crc crc32 bytes expected) (\<lambda>_.
               bindE (access_checked access bytes) (\<lambda>_. Inr ()))
      | Full \<Rightarrow> bindE (check_crc crc32 bytes expected) (\<lambda>_.
                bindE (access_checked access bytes) validate_csr))"

section \<open>The archive accessor\<close>

definition csr_node_names :: "csr_graph \<Rightarrow> string list" where
  "csr_node_names a = map cn_name (cg_nodes a)"

fun probe :: "nat \<Rightarrow> csr_graph \<Rightarrow> string \<Rightarrow> nat \<Rightarrow> nat option" where
  "probe 0 a name slot = None"
| "probe (Suc fuel) a name slot =
     (case get_at (cg_name_buckets a) slot of
        None \<Rightarrow> None
      | Some bucket \<Rightarrow>
          if bucket = empty_bucket then None
          else case get_at (cg_nodes a) (unat bucket) of
                 None \<Rightarrow> None
               | Some node \<Rightarrow>
                   if cn_name node = name then Some (unat bucket)
                   else probe fuel a name (next_slot (length (cg_name_buckets a)) slot))"

definition idx_of :: "csr_graph \<Rightarrow> string \<Rightarrow> nat option" where
  "idx_of a name =
     (let m = length (cg_name_buckets a) in
      if m = 0 then None else probe m a name (hash_home m name))"

definition csr_get_node :: "csr_graph \<Rightarrow> string \<Rightarrow> node_view option" where
  "csr_get_node a name =
     (case idx_of a name of
        None \<Rightarrow> None
      | Some idx \<Rightarrow> map_option (\<lambda>node. node_view_from (node_data_of node)) (get_at (cg_nodes a) idx))"

text \<open>The loops over a group: a missing position ends the loop, a missing node skips the edge.\<close>

fun csr_collect :: "csr_graph \<Rightarrow> (csr_edge \<Rightarrow> u32) \<Rightarrow> nat list \<Rightarrow> neighbor_view list" where
  "csr_collect a other [] = []"
| "csr_collect a other (k # ks) =
     (case get_at (cg_edges a) k of
        None \<Rightarrow> []
      | Some edge \<Rightarrow>
          (case get_at (cg_nodes a) (unat (other edge)) of
             None \<Rightarrow> csr_collect a other ks
           | Some target \<Rightarrow> neighbor_view_of (cn_name target) (ce_edge edge) # csr_collect a other ks))"

definition csr_outgoing :: "csr_graph \<Rightarrow> string \<Rightarrow> neighbor_view list" where
  "csr_outgoing a name =
     (case idx_of a name of
        None \<Rightarrow> []
      | Some idx \<Rightarrow>
          (case (off_at (cg_node_offsets a) idx, off_at (cg_node_offsets a) (idx + 1)) of
             (Some lo, Some hi) \<Rightarrow> csr_collect a ce_to_idx [lo..<hi]
           | _ \<Rightarrow> []))"

fun mirror_collect :: "csr_graph \<Rightarrow> nat list \<Rightarrow> neighbor_view list" where
  "mirror_collect a [] = []"
| "mirror_collect a (k # ks) =
     (case get_at (cg_in_mirror a) k of
        None \<Rightarrow> []
      | Some m \<Rightarrow>
          (case get_at (cg_edges a) (unat m) of
             None \<Rightarrow> mirror_collect a ks
           | Some edge \<Rightarrow>
               (case get_at (cg_nodes a) (unat (ce_from_idx edge)) of
                  None \<Rightarrow> mirror_collect a ks
                | Some source \<Rightarrow> neighbor_view_of (cn_name source) (ce_edge edge) # mirror_collect a ks)))"

definition csr_incoming :: "csr_graph \<Rightarrow> string \<Rightarrow> neighbor_view list" where
  "csr_incoming a name =
     (case idx_of a name of
        None \<Rightarrow> []
      | Some idx \<Rightarrow>
          (case (off_at (cg_in_offsets a) idx, off_at (cg_in_offsets a) (idx + 1)) of
             (Some lo, Some hi) \<Rightarrow> mirror_collect a [lo..<hi]
           | _ \<Rightarrow> []))"

definition csr_accessor :: "csr_graph \<Rightarrow> accessor" where
  "csr_accessor a = \<lparr>
     acc_node_count = length (cg_nodes a),
     acc_edge_count = length (cg_edges a),
     acc_get_node = csr_get_node a,
     acc_outgoing = csr_outgoing a,
     acc_incoming = csr_incoming a\<rparr>"

end
