(* ===== verification/OG_Name_Index.thy ===== *)
theory OG_Name_Index
  imports OG_Snapshot
begin

text \<open>
  The persisted open-addressing name index: a table is sound when every node index sits in exactly
  one slot that its own probe reaches. The builder makes sound tables, the validation sweep accepts
  exactly such tables, and on them the probe is the lookup by name.
\<close>

section \<open>Table sizes\<close>

lemma next_power_of_two_Some:
  assumes "w \<le> p * 2 ^ fuel"
  shows "\<exists>j \<le> fuel. next_power_of_two (Suc fuel) p w = Some (p * 2 ^ j) \<and> w \<le> p * 2 ^ j"
  using assms
proof (induction fuel arbitrary: p)
  case (Suc fuel)
  show ?case
  proof (cases "w \<le> p")
    case True
    then show ?thesis by (intro exI [of _ 0]) simp
  next
    case False
    have "w \<le> (2 * p) * 2 ^ fuel" using Suc.prems by simp
    from Suc.IH [OF this] obtain j where "j \<le> fuel" "next_power_of_two (Suc fuel) (2 * p) w = Some (2 * p * 2 ^ j)"
      "w \<le> 2 * p * 2 ^ j" by blast
    then show ?thesis using False by (intro exI [of _ "Suc j"]) simp
  qed
qed simp

lemma bucket_capacity_pow:
  assumes "n < 2 ^ 32"
  obtains k where "0 < k" and "k < 64" and "bucket_capacity n = 2 ^ k" and "n < 2 ^ k"
proof -
  let ?w = "max (usize_sat (usize_sat (n * 10) div 7 + 1)) (usize_sat (n + 1))"
  have w: "?w \<le> 1 * 2 ^ 63" "n < ?w" using assms by (auto simp: usize_sat_def)
  obtain j where j: "j \<le> 63" "next_power_of_two (Suc 63) 1 ?w = Some (1 * 2 ^ j)" "?w \<le> 1 * 2 ^ j"
    using next_power_of_two_Some [OF w(1)] by blast
  have Suc63: "Suc 63 = 64" by simp
  have cap: "bucket_capacity n = max (2 ^ j) 2"
    using j(2) unfolding bucket_capacity_def Let_def Suc63 by simp
  have n: "n < 2 ^ j" using w(2) j(3) by linarith
  show thesis
  proof (cases "j = 0")
    case True
    then show thesis using cap n by (intro that [of 1]) simp_all
  next
    case False
    have "(2::nat) ^ 1 \<le> 2 ^ j" using False by (intro power_increasing) auto
    then show thesis using cap n j(1) False by (intro that [of j]) simp_all
  qed
qed

lemma next_slot_pow: "next_slot (2 ^ k) slot = (slot + 1) mod 2 ^ k"
proof -
  have "(2::nat) ^ k - 1 = mask k" by (simp add: mask_eq_exp_minus_1)
  then show ?thesis by (simp add: next_slot_def take_bit_eq_mask [symmetric] take_bit_eq_mod)
qed

lemma hash_home_less:
  assumes "k < 64"
  shows "hash_home (2 ^ k) name < 2 ^ k"
proof -
  have "(of_nat (2 ^ k - 1) :: u64) = mask k" by (simp add: mask_eq_exp_minus_1 of_nat_diff)
  then have "hash_home (2 ^ k) name = unat (take_bit k (fnv1a (name_bytes name)))"
    by (simp add: hash_home_def take_bit_eq_mask)
  also have "\<dots> = take_bit k (unat (fnv1a (name_bytes name)))" by (simp add: unsigned_take_bit_eq)
  finally show ?thesis by simp
qed

section \<open>Probe paths\<close>

definition clear :: "u32 list \<Rightarrow> nat \<Rightarrow> nat \<Rightarrow> bool" where
  "clear B home d \<longleftrightarrow> (\<forall>j < d. B ! ((home + j) mod length B) \<noteq> empty_bucket)"

definition reaches :: "u32 list \<Rightarrow> nat \<Rightarrow> nat \<Rightarrow> bool" where
  "reaches B home slot \<longleftrightarrow> (\<exists>d < length B. slot = (home + d) mod length B \<and> clear B home d)"

definition entries_ok :: "u32 list \<Rightarrow> nat \<Rightarrow> bool" where
  "entries_ok B n \<longleftrightarrow>
     (\<forall>s < length B. B ! s \<noteq> empty_bucket \<longrightarrow> unat (B ! s) < n) \<and>
     (\<forall>s < length B. \<forall>t < length B. B ! s \<noteq> empty_bucket \<longrightarrow> B ! s = B ! t \<longrightarrow> s = t)"

text \<open>Index \<open>x\<close> sits in a slot that the probe for \<open>name\<close> reaches.\<close>

definition placed :: "u32 list \<Rightarrow> string \<Rightarrow> nat \<Rightarrow> bool" where
  "placed B name x \<longleftrightarrow>
     (\<exists>s < length B. B ! s \<noteq> empty_bucket \<and> unat (B ! s) = x \<and> reaches B (hash_home (length B) name) s)"

definition table_ok :: "u32 list \<Rightarrow> string list \<Rightarrow> bool" where
  "table_ok B names \<longleftrightarrow> entries_ok B (length names) \<and> (\<forall>x < length names. placed B (names ! x) x)"

lemma empty_bucket_unat: "unat empty_bucket = 2 ^ 32 - 1"
  by (simp add: empty_bucket_def unsigned_minus_1_eq_mask mask_eq_exp_minus_1)

lemma of_nat_not_empty:
  assumes "x < 2 ^ 32 - 1"
  shows "(of_nat x :: u32) \<noteq> empty_bucket" and "unat (of_nat x :: u32) = x"
proof -
  show u: "unat (of_nat x :: u32) = x" using assms by (simp add: unat_of_nat)
  show "(of_nat x :: u32) \<noteq> empty_bucket"
  proof
    assume "(of_nat x :: u32) = empty_bucket"
    then have "x = 2 ^ 32 - 1" using u empty_bucket_unat by simp
    then show False using assms by simp
  qed
qed

lemma mod_shift_inj:
  fixes h j d m :: nat
  assumes "j < d" and "d < m"
  shows "(h + j) mod m \<noteq> (h + d) mod m"
proof
  assume "(h + j) mod m = (h + d) mod m"
  then have "m dvd (h + d) - (h + j)" using mod_eq_dvd_iff_nat [of "h + j" "h + d" m] assms by simp
  then have "m dvd d - j" by simp
  then show False using assms by (auto dest: dvd_imp_le)
qed

lemma cyclic_offset:
  fixes h s m :: nat
  assumes "h < m" and "s < m"
  defines "d \<equiv> if h \<le> s then s - h else m - h + s"
  shows "d < m" and "(h + d) mod m = s"
  using assms by (auto simp: d_def)

lemma reaches_iff:
  assumes "h < length B" and "s < length B"
  shows "reaches B h s \<longleftrightarrow> clear B h (if h \<le> s then s - h else length B - h + s)"
proof
  assume "reaches B h s"
  then obtain d where d: "d < length B" "s = (h + d) mod length B" "clear B h d" by (auto simp: reaches_def)
  define e where "e = (if h \<le> s then s - h else length B - h + s)"
  have e: "e < length B" "(h + e) mod length B = s" using cyclic_offset [OF assms] by (simp_all only: e_def)
  have "\<not> d < e" "\<not> e < d" using mod_shift_inj [of d e "length B" h] mod_shift_inj [of e d "length B" h] d(1,2) e by auto
  then have "d = (if h \<le> s then s - h else length B - h + s)" using e_def by linarith
  then show "clear B h (if h \<le> s then s - h else length B - h + s)" using d(3) by simp
next
  assume c: "clear B h (if h \<le> s then s - h else length B - h + s)"
  show "reaches B h s" unfolding reaches_def
    using cyclic_offset [OF assms] c by (intro exI conjI) (assumption | simp)+
qed

lemma next_slot_mod:
  assumes "length B = 2 ^ k"
  shows "(next_slot (length B) ((h + d) mod length B)) = (h + Suc d) mod length B"
  using assms by (simp add: next_slot_pow mod_Suc_eq)

section \<open>The builder makes sound tables\<close>

lemma find_empty_skip:
  assumes "length B = 2 ^ k" and "clear B h d"
  shows "find_empty (fuel + d) B (h mod length B) = find_empty fuel B ((h + d) mod length B)"
  using assms(2)
proof (induction d arbitrary: fuel)
  case (Suc d)
  have c: "clear B h d" "B ! ((h + d) mod length B) \<noteq> empty_bucket" using Suc.prems by (auto simp: clear_def)
  have "find_empty (fuel + Suc d) B (h mod length B) = find_empty (Suc fuel) B ((h + d) mod length B)"
    using Suc.IH [OF c(1), of "Suc fuel"] by simp
  then show ?case using c(2) next_slot_mod [OF assms(1), of h d] by simp
qed simp

lemma find_empty_finds:
  assumes "length B = 2 ^ k" and "h < length B" and "e < length B" and "B ! e = empty_bucket"
  obtains d where "d < length B" and "find_empty (length B) B h = Some ((h + d) mod length B)"
    and "clear B h d" and "B ! ((h + d) mod length B) = empty_bucket"
proof -
  let ?P = "\<lambda>d. B ! ((h + d) mod length B) = empty_bucket"
  define e' where "e' = (if h \<le> e then e - h else length B - h + e)"
  have e': "e' < length B" "?P e'"
    using cyclic_offset [OF assms(2,3)] assms(4) by (simp_all only: e'_def)
  define d where "d = (LEAST d. ?P d)"
  have d: "?P d" "d \<le> e'" using LeastI [of ?P e'] Least_le [of ?P e'] e'(2) by (simp_all only: d_def)
  have c: "clear B h d" using not_less_Least [of _ ?P] by (auto simp: clear_def d_def)
  obtain f where f: "length B - d = Suc f" using d(2) e'(1) by (metis Suc_diff_Suc le_less_trans)
  have "find_empty (length B) B h = find_empty ((length B - d) + d) B (h mod length B)"
    using d(2) e'(1) assms(2) by simp
  also have "\<dots> = find_empty (Suc f) B ((h + d) mod length B)"
    unfolding find_empty_skip [OF assms(1) c] f ..
  also have "\<dots> = Some ((h + d) mod length B)" using d(1) by simp
  finally have "find_empty (length B) B h = Some ((h + d) mod length B)" .
  then show thesis using that [of d] d e'(1) c by simp
qed

lemma entries_inj:
  assumes "entries_ok B n" and "s < length B" and "t < length B" and "B ! s \<noteq> empty_bucket"
    and "unat (B ! s) = unat (B ! t)"
  shows "s = t"
  using assms unfolding entries_ok_def word_unat_eq_iff by blast

lemma entries_room:
  assumes "entries_ok B i" and "i < length B"
  shows "\<exists>e < length B. B ! e = empty_bucket"
proof (rule ccontr)
  assume "\<not> (\<exists>e < length B. B ! e = empty_bucket)"
  then have full: "B ! s \<noteq> empty_bucket" if "s < length B" for s using that by blast
  have "inj_on (\<lambda>s. unat (B ! s)) {..<length B}"
    using entries_inj [OF assms(1)] full by (auto simp: inj_on_def)
  moreover have "(\<lambda>s. unat (B ! s)) ` {..<length B} \<subseteq> {..<i}"
    using assms(1) full by (auto simp: entries_ok_def)
  ultimately have "card {..<length B} \<le> card {..<i}" by (intro card_inj_on_le) auto
  then show False using assms(2) by simp
qed

lemma clear_update:
  assumes "clear B h d" and "v \<noteq> empty_bucket" and "s < length B"
  shows "clear (B[s := v]) h d"
  using assms by (auto simp: clear_def nth_list_update)

lemma reaches_update:
  assumes "reaches B h t" and "v \<noteq> empty_bucket" and "s < length B"
  shows "reaches (B[s := v]) h t"
  using assms clear_update by (force simp: reaches_def)

text \<open>After the first \<open>i\<close> names the table is sound for them; inserting one more keeps it so.\<close>

lemma insert_one:
  assumes m: "length B = 2 ^ k" "k < 64" and t: "table_ok B names"
    and room: "length names < length B" "length names < 2 ^ 32 - 1"
  obtains s where "find_empty (length B) B (hash_home (length B) n) = Some s"
    and "table_ok (B[s := of_nat (length names)]) (names @ [n])"
proof -
  let ?i = "length names" let ?h = "hash_home (length B) n"
  have h: "?h < length B" using hash_home_less [OF m(2)] m(1) by simp
  have ent: "entries_ok B ?i" using t by (simp add: table_ok_def)
  obtain e where e: "e < length B" "B ! e = empty_bucket" using entries_room [OF ent room(1)] by blast
  obtain d where d: "d < length B" "find_empty (length B) B ?h = Some ((?h + d) mod length B)" "clear B ?h d"
    "B ! ((?h + d) mod length B) = empty_bucket" using find_empty_finds [OF m(1) h e] .
  define s where "s = (?h + d) mod length B"
  note v = of_nat_not_empty [OF room(2)]
  have "0 < length B" using h by linarith
  then have s: "s < length B" "B ! s = empty_bucket" unfolding s_def using d(4) by simp_all
  let ?B = "B[s := of_nat ?i]"
  have fresh: "B ! t \<noteq> of_nat ?i" if "t < length B" for t
    using ent that v by (auto simp: entries_ok_def)
  have "entries_ok ?B (length (names @ [n]))"
    using ent s v fresh by (auto simp: entries_ok_def nth_list_update less_Suc_eq)
  moreover have "placed ?B ((names @ [n]) ! x) x" if x: "x < length (names @ [n])" for x
  proof (cases "x = ?i")
    case True
    have "reaches B ?h s" using d(1,3) by (auto simp: reaches_def s_def)
    then show ?thesis using True s(1) v reaches_update [OF _ v(1) s(1)] unfolding placed_def by (intro exI [of _ s]) simp
  next
    case False
    then have "x < ?i" using x by simp
    then obtain t where "t < length B" "B ! t \<noteq> empty_bucket" "unat (B ! t) = x" "reaches B (hash_home (length B) (names ! x)) t"
      using t by (auto simp: table_ok_def placed_def)
    moreover from this s(2) have "?B ! t = B ! t" by (metis nth_list_update_neq)
    ultimately show ?thesis using \<open>x < ?i\<close> reaches_update [OF _ v(1) s(1)]
      unfolding placed_def by (intro exI [of _ t]) (auto simp: nth_append)
  qed
  ultimately have "table_ok ?B (names @ [n])" by (simp add: table_ok_def)
  then show thesis using that d(2) by (simp add: s_def)
qed

lemma insert_names_ok:
  assumes m: "length B = 2 ^ k" "k < 64" and t: "table_ok B done_names"
    and room: "length (done_names @ ns) < length B" "length (done_names @ ns) < 2 ^ 32"
  obtains B' where "insert_names B (length done_names) ns = Some B'" and "length B' = length B"
    and "table_ok B' (done_names @ ns)"
  using assms
proof (induction ns arbitrary: B done_names thesis)
  case (Cons n ns)
  have r: "length done_names < length B" "length done_names < 2 ^ 32 - 1" using Cons.prems(5,6) by simp_all
  obtain s where s: "find_empty (length B) B (hash_home (length B) n) = Some s"
    "table_ok (B[s := of_nat (length done_names)]) (done_names @ [n])" using insert_one [OF Cons.prems(2,3,4) r] .
  let ?B = "B[s := of_nat (length done_names)]"
  obtain B' where B': "insert_names ?B (length (done_names @ [n])) ns = Some B'" "length B' = length ?B"
    "table_ok B' ((done_names @ [n]) @ ns)"
    using Cons.IH [where B = ?B and done_names = "done_names @ [n]"] Cons.prems s(2) by auto
  show ?case using s(1) B' by (intro Cons.prems(1) [of B']) simp_all
qed simp

lemma table_ok_empty: "table_ok (replicate m empty_bucket) []"
  by (simp add: table_ok_def entries_ok_def)

lemma build_name_buckets_ok:
  assumes "length nodes < 2 ^ 32"
  obtains B where "build_name_buckets nodes = Some B" and "length B = bucket_capacity (length nodes)"
    and "table_ok B (map nd_name nodes)"
proof -
  obtain k where k: "0 < k" "k < 64" "bucket_capacity (length nodes) = 2 ^ k" "length nodes < 2 ^ k"
    using bucket_capacity_pow [OF assms] .
  show thesis
    using insert_names_ok [of "replicate (2 ^ k) empty_bucket" k "[]" "map nd_name nodes"]
      that k table_ok_empty assms by (auto simp: build_name_buckets_def)
qed

section \<open>The probe is the lookup by name\<close>

lemma probe_sound:
  assumes "probe fuel a name slot = Some x"
  shows "x < length (cg_nodes a)" and "cn_name (cg_nodes a ! x) = name"
  using assms
  by (induction fuel arbitrary: slot) (auto simp: get_at_def split: option.splits if_splits)

lemma probe_skip:
  fixes a B defines "B \<equiv> cg_name_buckets a"
  assumes "length B = 2 ^ k" and "clear B h d"
    and other: "\<And>j. j < d \<Longrightarrow> unat (B ! ((h + j) mod length B)) < length (cg_nodes a) \<and>
      cn_name (cg_nodes a ! unat (B ! ((h + j) mod length B))) \<noteq> name"
  shows "probe (fuel + d) a name (h mod length B) = probe fuel a name ((h + d) mod length B)"
  using assms(3) other
proof (induction d arbitrary: fuel)
  case (Suc d)
  have c: "clear B h d" "B ! ((h + d) mod length B) \<noteq> empty_bucket" using Suc.prems(1) by (auto simp: clear_def)
  have lt: "(h + d) mod length B < length B" using assms(2) by simp
  have "probe (fuel + Suc d) a name (h mod length B) = probe (Suc fuel) a name ((h + d) mod length B)"
    using Suc.IH [OF c(1), of "Suc fuel"] Suc.prems(2) by simp
  then show ?case using c(2) Suc.prems(2) [of d] next_slot_mod [OF assms(2), of h d] lt
    by (simp add: get_at_def B_def [symmetric])
qed simp

theorem idx_of_iff:
  assumes m: "length (cg_name_buckets a) = 2 ^ k" "k < 64"
    and t: "table_ok (cg_name_buckets a) (csr_node_names a)" and dist: "distinct (csr_node_names a)"
  shows "idx_of a name = Some x \<longleftrightarrow> x < length (cg_nodes a) \<and> cn_name (cg_nodes a ! x) = name"
proof
  assume "idx_of a name = Some x"
  then show "x < length (cg_nodes a) \<and> cn_name (cg_nodes a ! x) = name"
    using probe_sound by (auto simp: idx_of_def Let_def split: if_splits)
next
  let ?B = "cg_name_buckets a" let ?h = "hash_home (length ?B) name"
  assume x: "x < length (cg_nodes a) \<and> cn_name (cg_nodes a ! x) = name"
  have ent: "entries_ok ?B (length (cg_nodes a))" using t by (simp add: table_ok_def csr_node_names_def)
  obtain s where s: "s < length ?B" "?B ! s \<noteq> empty_bucket" "unat (?B ! s) = x" "reaches ?B ?h s"
    using t x by (auto simp: table_ok_def placed_def csr_node_names_def)
  obtain d where d: "d < length ?B" "s = (?h + d) mod length ?B" "clear ?B ?h d" using s(4) by (auto simp: reaches_def)
  have other: "unat (?B ! ((?h + j) mod length ?B)) < length (cg_nodes a) \<and>
      cn_name (cg_nodes a ! unat (?B ! ((?h + j) mod length ?B))) \<noteq> name" if j: "j < d" for j
  proof -
    let ?t = "(?h + j) mod length ?B"
    have t': "?t < length ?B" "?B ! ?t \<noteq> empty_bucket" "?t \<noteq> s"
      using d j mod_shift_inj [OF j d(1), of ?h] m(1) by (auto simp: clear_def)
    have y: "unat (?B ! ?t) < length (cg_nodes a)" using ent t' by (simp add: entries_ok_def)
    have "unat (?B ! ?t) \<noteq> x" using entries_inj [OF ent t'(1) s(1) t'(2)] t'(3) s(3) by auto
    then have "cn_name (cg_nodes a ! unat (?B ! ?t)) \<noteq> name"
      using dist x y by (auto simp: csr_node_names_def distinct_conv_nth)
    then show ?thesis using y by simp
  qed
  have h: "?h < length ?B" using hash_home_less [OF m(2)] m(1) by simp
  obtain f where f: "length ?B - d = Suc f" using d(1) by (metis Suc_diff_Suc)
  have "probe (length ?B) a name ?h = probe ((length ?B - d) + d) a name (?h mod length ?B)" using d(1) h by simp
  also have "\<dots> = probe (length ?B - d) a name ((?h + d) mod length ?B)"
    by (rule probe_skip [OF m(1) d(3)]) (rule other)
  also have "\<dots> = probe (Suc f) a name s" unfolding f d(2) [symmetric] ..
  also have "\<dots> = Some x" using s x by (simp add: get_at_def)
  finally have "probe (length ?B) a name ?h = Some x" .
  then show "idx_of a name = Some x" using m(1) by (simp add: idx_of_def)
qed

section \<open>The validation sweep accepts exactly the sound tables\<close>

definition empties_before :: "u32 list \<Rightarrow> nat \<Rightarrow> nat" where
  "empties_before B i = length (filter (\<lambda>b. b = empty_bucket) (take i B))"

text \<open>What the scan knows after the slots in \<open>P\<close>.\<close>

definition scanned :: "nat \<Rightarrow> u32 list \<Rightarrow> bucket_scan \<Rightarrow> bool" where
  "scanned n P s \<longleftrightarrow>
     length (bs_seen s) = n \<and> length (bs_slot_of s) = n \<and>
     bs_empties s = map (empties_before P) [0..<Suc (length P)] \<and>
     bs_occupied s = length (filter (\<lambda>b. b \<noteq> empty_bucket) P) \<and>
     entries_ok P n \<and>
     (\<forall>x < n. bs_seen s ! x = (\<exists>t < length P. P ! t \<noteq> empty_bucket \<and> unat (P ! t) = x)) \<and>
     (\<forall>t < length P. P ! t \<noteq> empty_bucket \<longrightarrow> bs_slot_of s ! unat (P ! t) = t)"

lemma empties_before_snoc:
  "map (empties_before (P @ [b])) [0..<Suc (length (P @ [b]))] =
     map (empties_before P) [0..<Suc (length P)] @
       [last (map (empties_before P) [0..<Suc (length P)]) + (if b = empty_bucket then 1 else 0)]"
  by (auto simp: empties_before_def)

lemma ex_less_Suc_split: "(\<exists>t < Suc k. Q t) \<longleftrightarrow> (\<exists>t < k. Q t) \<or> Q k"
  by (auto simp: less_Suc_eq)

lemma all_less_Suc_split: "(\<forall>t < Suc k. Q t) \<longleftrightarrow> (\<forall>t < k. Q t) \<and> Q k"
  by (auto simp: less_Suc_eq)

lemma entries_ok_snoc_empty: "entries_ok (P @ [empty_bucket]) n \<longleftrightarrow> entries_ok P n"
  by (auto simp: entries_ok_def nth_append less_Suc_eq)

lemma entries_ok_snoc:
  assumes "b \<noteq> empty_bucket"
  shows "entries_ok (P @ [b]) n \<longleftrightarrow> entries_ok P n \<and> unat b < n \<and> (\<forall>t < length P. P ! t \<noteq> b)"
  using assms by (auto simp: entries_ok_def nth_append all_less_Suc_split)

lemma entries_ok_prefix:
  assumes "entries_ok (P @ S) n"
  shows "entries_ok P n"
proof -
  have nth: "(P @ S) ! s = P ! s" "s < length (P @ S)" if "s < length P" for s
    using that by (simp_all add: nth_append)
  show ?thesis unfolding entries_ok_def
    using assms nth unfolding entries_ok_def by metis
qed

lemma scanned_empty_slot:
  assumes "scanned n P s"
  shows "scanned n (P @ [empty_bucket]) (s\<lparr>bs_empties := bs_empties s @ [last (bs_empties s) + 1]\<rparr>)"
proof -
  have e: "bs_empties s @ [last (bs_empties s) + 1] =
      map (empties_before (P @ [empty_bucket])) [0..<Suc (length (P @ [empty_bucket]))]"
    unfolding empties_before_snoc using assms by (simp add: scanned_def)
  have seen: "bs_seen s ! x = (\<exists>t < Suc (length P). (P @ [empty_bucket]) ! t \<noteq> empty_bucket \<and> unat ((P @ [empty_bucket]) ! t) = x)"
    if "x < n" for x
    using that assms by (auto simp: scanned_def nth_append ex_less_Suc_split cong: conj_cong)
  have slot: "bs_slot_of s ! unat ((P @ [empty_bucket]) ! t) = t"
    if "t < Suc (length P)" "(P @ [empty_bucket]) ! t \<noteq> empty_bucket" for t
    using that assms by (auto simp: scanned_def nth_append less_Suc_eq)
  have ent: "entries_ok (P @ [empty_bucket]) n" using assms by (simp add: scanned_def entries_ok_snoc_empty)
  have len: "length (bs_seen s) = n" "length (bs_slot_of s) = n"
    "bs_occupied s = length (filter (\<lambda>b. b \<noteq> empty_bucket) P)" using assms by (auto simp: scanned_def)
  show ?thesis unfolding scanned_def using len e ent seen slot by (simp del: upt_Suc)
qed

lemma scanned_full_slot:
  assumes s: "scanned n P s" and b: "b \<noteq> empty_bucket" "unat b < n" "\<not> bs_seen s ! unat b"
  shows "scanned n (P @ [b]) (s\<lparr>bs_empties := bs_empties s @ [last (bs_empties s)],
     bs_seen := (bs_seen s)[unat b := True], bs_slot_of := (bs_slot_of s)[unat b := length P],
     bs_occupied := bs_occupied s + 1\<rparr>)"
proof -
  have e: "bs_empties s @ [last (bs_empties s)] =
      map (empties_before (P @ [b])) [0..<Suc (length (P @ [b]))]"
    unfolding empties_before_snoc using s b(1) by (simp add: scanned_def)
  have new: "P ! t \<noteq> b" if "t < length P" for t using s b that by (auto simp: scanned_def)
  then have ent: "entries_ok (P @ [b]) n" using s b by (simp add: entries_ok_snoc scanned_def)
  have slot: "(bs_slot_of s)[unat b := length P] ! unat ((P @ [b]) ! t) = t"
    if "t < Suc (length P)" "(P @ [b]) ! t \<noteq> empty_bucket" for t
  proof (cases "t = length P")
    case True
    then show ?thesis using s b by (simp add: scanned_def)
  next
    case False
    then have t: "t < length P" "P ! t \<noteq> empty_bucket" using that by (auto simp: nth_append)
    then have "unat (P ! t) \<noteq> unat b" using new by (simp add: word_unat_eq_iff)
    then show ?thesis using s t by (simp add: scanned_def nth_append)
  qed
  have seen: "(bs_seen s)[unat b := True] ! x = (\<exists>t < Suc (length P). (P @ [b]) ! t \<noteq> empty_bucket \<and> unat ((P @ [b]) ! t) = x)"
    if "x < n" for x
    using that s b by (auto simp: scanned_def nth_append ex_less_Suc_split nth_list_update cong: conj_cong)
  have len: "length (bs_seen s) = n" "length (bs_slot_of s) = n"
    "bs_occupied s = length (filter (\<lambda>b. b \<noteq> empty_bucket) P)" using s by (auto simp: scanned_def)
  show ?thesis
    unfolding scanned_def using b(1) len e ent slot seen by (simp del: upt_Suc)
qed

lemma scan_buckets_spec:
  assumes "scanned n P s"
  shows "(scan_buckets n (length P) S s = Inr s' \<longrightarrow> scanned n (P @ S) s') \<and>
         (entries_ok (P @ S) n \<longrightarrow> (\<exists>s'. scan_buckets n (length P) S s = Inr s'))"
  using assms
proof (induction S arbitrary: P s)
  case (Cons b S)
  show ?case
  proof (cases "b = empty_bucket")
    case True
    then show ?thesis using Cons.IH [OF scanned_empty_slot [OF Cons.prems]]
      by (auto simp: Let_def)
  next
    case False
    have pre: "entries_ok (P @ [b]) n" if "entries_ok (P @ b # S) n"
      using that entries_ok_prefix [of "P @ [b]" S n] by simp
    have ok: "unat b < n \<and> \<not> bs_seen s ! unat b" if "entries_ok (P @ [b]) n"
      using that Cons.prems False by (auto simp: entries_ok_snoc scanned_def word_unat_eq_iff)
    show ?thesis
    proof (cases "unat b < n \<and> \<not> bs_seen s ! unat b")
      case True
      then show ?thesis using Cons.IH [OF scanned_full_slot [OF Cons.prems False]] False
        by (auto simp: Let_def)
    next
      case no: False
      then show ?thesis using ok pre False by (auto simp: Let_def)
    qed
  qed
qed auto

lemma occupied_iff:
  assumes "entries_ok B n"
  shows "length (filter (\<lambda>b. b \<noteq> empty_bucket) B) = n \<longleftrightarrow>
     (\<forall>x < n. \<exists>t < length B. B ! t \<noteq> empty_bucket \<and> unat (B ! t) = x)"
proof -
  let ?S = "{t. t < length B \<and> B ! t \<noteq> empty_bucket}" let ?f = "\<lambda>t. unat (B ! t)"
  have inj: "inj_on ?f ?S" using entries_inj [OF assms] by (auto intro!: inj_onI)
  have sub: "?f ` ?S \<subseteq> {..<n}" using assms by (auto simp: entries_ok_def)
  have "length (filter (\<lambda>b. b \<noteq> empty_bucket) B) = card (?f ` ?S)"
    using inj by (simp add: length_filter_conv_card card_image)
  also have "\<dots> = n \<longleftrightarrow> ?f ` ?S = {..<n}"
    using card_subset_eq [OF finite_lessThan sub] by auto
  also have "\<dots> \<longleftrightarrow> {..<n} \<subseteq> ?f ` ?S" using sub by blast
  also have "\<dots> \<longleftrightarrow> (\<forall>x < n. \<exists>t < length B. B ! t \<noteq> empty_bucket \<and> unat (B ! t) = x)"
  proof -
    have m: "x \<in> ?f ` ?S \<longleftrightarrow> (\<exists>t < length B. B ! t \<noteq> empty_bucket \<and> unat (B ! t) = x)" for x by blast
    show ?thesis unfolding subset_eq Ball_def lessThan_iff m ..
  qed
  finally show ?thesis .
qed

lemma empties_between:
  assumes "a \<le> b" and "b \<le> length B"
  shows "empties_before B b - empties_before B a = 0 \<longleftrightarrow> (\<forall>t. a \<le> t \<and> t < b \<longrightarrow> B ! t \<noteq> empty_bucket)"
proof -
  have "take b B = take a B @ take (b - a) (drop a B)" using assms by (metis le_add_diff_inverse take_add)
  then have "empties_before B b - empties_before B a = length (filter (\<lambda>b. b = empty_bucket) (take (b - a) (drop a B)))"
    by (simp add: empties_before_def)
  also have "\<dots> = 0 \<longleftrightarrow> (\<forall>j < b - a. B ! (a + j) \<noteq> empty_bucket)"
    using assms by (auto simp: filter_empty_conv in_set_conv_nth)
  also have "\<dots> \<longleftrightarrow> (\<forall>t. a \<le> t \<and> t < b \<longrightarrow> B ! t \<noteq> empty_bucket)"
    by (metis add_diff_inverse_nat diff_less_mono le_add1 less_diff_conv add.commute not_le)
  finally show ?thesis .
qed

lemma empties_on_path_iff:
  assumes s: "scanned n B s" and h: "h < length B" and t: "t < length B"
  shows "empties_on_path (length B) (bs_empties s) h t = 0 \<longleftrightarrow> reaches B h t"
proof -
  have E: "bs_empties s ! i = empties_before B i" if "i \<le> length B" for i
  proof -
    have "bs_empties s = map (empties_before B) [0..<Suc (length B)]" using s by (simp add: scanned_def)
    then show ?thesis using that by (simp add: nth_append del: upt_Suc)
  qed
  show ?thesis
  proof (cases "h \<le> t")
    case True
    have "(\<forall>x. h \<le> x \<and> x < t \<longrightarrow> B ! x \<noteq> empty_bucket) \<longleftrightarrow> clear B h (t - h)"
    proof
      assume a: "\<forall>x. h \<le> x \<and> x < t \<longrightarrow> B ! x \<noteq> empty_bucket"
      show "clear B h (t - h)" using a t by (simp add: clear_def)
    next
      assume c: "clear B h (t - h)"
      show "\<forall>x. h \<le> x \<and> x < t \<longrightarrow> B ! x \<noteq> empty_bucket"
      proof (intro allI impI)
        fix x assume x: "h \<le> x \<and> x < t"
        then have "B ! ((h + (x - h)) mod length B) \<noteq> empty_bucket" using c unfolding clear_def by (metis diff_less_mono)
        then show "B ! x \<noteq> empty_bucket" using x t by simp
      qed
    qed
    then show ?thesis using True t h empties_between [OF True, of B]
      by (simp add: empties_on_path_def E reaches_iff)
  next
    case False
    have z: "empties_before B 0 = 0" by (simp add: empties_before_def)
    have "clear B h (length B - h + t) \<longleftrightarrow>
        (\<forall>x. h \<le> x \<and> x < length B \<longrightarrow> B ! x \<noteq> empty_bucket) \<and> (\<forall>x. 0 \<le> x \<and> x < t \<longrightarrow> B ! x \<noteq> empty_bucket)"
    proof
      assume c: "clear B h (length B - h + t)"
      have "B ! x \<noteq> empty_bucket" if "h \<le> x" "x < length B" for x
        using c [unfolded clear_def, rule_format, of "x - h"] that False by simp
      moreover have "B ! x \<noteq> empty_bucket" if "x < t" for x
        using c [unfolded clear_def, rule_format, of "length B - h + x"] that t h by simp
      ultimately show "(\<forall>x. h \<le> x \<and> x < length B \<longrightarrow> B ! x \<noteq> empty_bucket) \<and> (\<forall>x. 0 \<le> x \<and> x < t \<longrightarrow> B ! x \<noteq> empty_bucket)"
        by blast
    next
      assume a: "(\<forall>x. h \<le> x \<and> x < length B \<longrightarrow> B ! x \<noteq> empty_bucket) \<and> (\<forall>x. 0 \<le> x \<and> x < t \<longrightarrow> B ! x \<noteq> empty_bucket)"
      show "clear B h (length B - h + t)" unfolding clear_def
      proof (intro allI impI)
        fix j assume j: "j < length B - h + t"
        show "B ! ((h + j) mod length B) \<noteq> empty_bucket"
        proof (cases "h + j < length B")
          case True
          then show ?thesis using a by simp
        next
          case no: False
          then have "(h + j) mod length B = (h + j - length B) mod length B" using le_mod_geq [of "length B" "h + j"] by simp
          moreover have lt: "h + j - length B < t" using j h no by linarith
          moreover have "(h + j - length B) mod length B = h + j - length B" using lt t by (intro mod_less) linarith
          ultimately show ?thesis using a by simp
        qed
      qed
    qed
    then show ?thesis using False t h z empties_between [of h "length B" B] empties_between [of 0 t B]
      by (simp add: empties_on_path_def E reaches_iff)
  qed
qed

lemma scanned_init:
  "scanned n [] \<lparr>bs_seen = replicate n False, bs_slot_of = replicate n 0, bs_empties = [0], bs_occupied = 0\<rparr>"
  by (simp add: scanned_def entries_ok_def empties_before_def)

theorem check_buckets_iff:
  "check_buckets nodes B = Inr () \<longleftrightarrow>
     length B = bucket_capacity (length nodes) \<and> (\<exists>k < 64. length B = 2 ^ k) \<and> length nodes < length B \<and>
     table_ok B (map cn_name nodes)"
proof (cases "length B = bucket_capacity (length nodes) \<and> (\<exists>k < 64. length B = 2 ^ k) \<and> length nodes < length B")
  case False
  then show ?thesis by (auto simp: check_buckets_def check_bucket_len_def ensure_def Let_def)
next
  case True
  let ?n = "length nodes"
  let ?init = "\<lparr>bs_seen = replicate ?n False, bs_slot_of = replicate ?n 0, bs_empties = [0], bs_occupied = 0\<rparr>"
  obtain k where k: "k < 64" "length B = 2 ^ k" using True by blast
  have len: "check_bucket_len ?n B = Inr ()"
    using True bexI [of "\<lambda>k. length B = 2 ^ k" k "{..<64}"] k by (simp add: check_bucket_len_def Let_def)
  have home: "hash_home (length B) nm < length B" for nm using hash_home_less [OF k(1)] k(2) by simp
  note spec = scan_buckets_spec [OF scanned_init [of ?n], of B]
  show ?thesis
  proof (cases "scan_buckets ?n 0 B ?init")
    case (Inl err)
    then have "\<not> entries_ok B ?n" using spec by auto
    then show ?thesis using Inl len by (auto simp: check_buckets_def Let_def table_ok_def)
  next
    case (Inr s)
    then have s: "scanned ?n B s" using spec by simp
    then have ent: "entries_ok B ?n" and occ: "bs_occupied s = length (filter (\<lambda>b. b \<noteq> empty_bucket) B)"
      by (auto simp: scanned_def)
    have slot: "bs_slot_of s ! x = t" if "t < length B" "B ! t \<noteq> empty_bucket" "unat (B ! t) = x" for x t
      using s that by (auto simp: scanned_def)
    let ?all = "\<forall>x < ?n. \<exists>t < length B. B ! t \<noteq> empty_bucket \<and> unat (B ! t) = x"
    have reach: "empties_on_path (length B) (bs_empties s) (hash_home (length B) nm) (bs_slot_of s ! x) = 0 \<longleftrightarrow>
        placed B nm x"
      if ex: "\<exists>t < length B. B ! t \<noteq> empty_bucket \<and> unat (B ! t) = x" for x nm
    proof -
      obtain t where t: "t < length B" "B ! t \<noteq> empty_bucket" "unat (B ! t) = x" using ex by blast
      have uniq: "t' = t" if "t' < length B" "B ! t' \<noteq> empty_bucket" "unat (B ! t') = x" for t'
        using entries_inj [OF ent that(1) t(1) that(2)] that(3) t(3) by simp
      show ?thesis unfolding slot [OF t] empties_on_path_iff [OF s home t(1), of nm] placed_def using t uniq by blast
    qed
    have "check_buckets nodes B = Inr () \<longleftrightarrow> ?all \<and>
        (\<forall>x < ?n. empties_on_path (length B) (bs_empties s) (hash_home (length B) (cn_name (nodes ! x))) (bs_slot_of s ! x) = 0)"
      using len Inr occ occupied_iff [OF ent]
      by (auto simp: check_buckets_def Let_def get_at_def ensure_def split: if_splits)
    also have "\<dots> \<longleftrightarrow> (\<forall>x < ?n. placed B (cn_name (nodes ! x)) x)" (is "_ \<longleftrightarrow> ?found")
    proof
      assume "?all \<and> (\<forall>x < ?n. empties_on_path (length B) (bs_empties s)
        (hash_home (length B) (cn_name (nodes ! x))) (bs_slot_of s ! x) = 0)"
      then show ?found using reach by blast
    next
      assume f: ?found
      then have all: ?all unfolding placed_def by blast
      have "empties_on_path (length B) (bs_empties s) (hash_home (length B) (cn_name (nodes ! x))) (bs_slot_of s ! x) = 0"
        if x: "x < ?n" for x
      proof -
        have "\<exists>t < length B. B ! t \<noteq> empty_bucket \<and> unat (B ! t) = x" using all x by blast
        from reach [OF this] show ?thesis using f x by simp
      qed
      then show "?all \<and> (\<forall>x < ?n. empties_on_path (length B) (bs_empties s)
        (hash_home (length B) (cn_name (nodes ! x))) (bs_slot_of s ! x) = 0)" using all by simp
    qed
    also have "\<dots> \<longleftrightarrow> table_ok B (map cn_name nodes)"
      using ent by (simp add: table_ok_def)
    finally show ?thesis using True by blast
  qed
qed

end
