(* ===== verification/OG_Csr_View.thy ===== *)
theory OG_Csr_View
  imports OG_Name_Index
begin

text \<open>
  What the validation sweep of \<open>src/persist/snapshot.rs\<close> guarantees: an archive that passes
  \<open>validate_csr\<close> is read as a graph, whatever bytes it came from. The offset arrays cut the edge
  list (and the mirror) into the groups of each node.
\<close>

section \<open>Offset arrays\<close>

lemma filter_upt_interval:
  assumes "a \<le> b" and "b \<le> m" and "\<And>k. k < m \<Longrightarrow> P k \<longleftrightarrow> a \<le> k \<and> k < b"
  shows "filter P [0..<m] = [a..<b]"
proof -
  have "[0..<m] = [0..<b] @ [b..<m]" "[0..<b] = [0..<a] @ [a..<b]"
    using assms(1,2) upt_add_eq_append [of 0 b "m - b"] upt_add_eq_append [of 0 a "b - a"] by simp_all
  then have "[0..<m] = [0..<a] @ [a..<b] @ [b..<m]" by simp
  moreover have "filter P [0..<a] = []" "filter P [a..<b] = [a..<b]" "filter P [b..<m] = []"
    using assms by (auto simp: filter_empty_conv filter_id_conv)
  ultimately show ?thesis by simp
qed

lemma step_between:
  fixes v :: "nat \<Rightarrow> nat"
  assumes "v 0 \<le> k" and "k < v n"
  shows "\<exists>i < n. v i \<le> k \<and> k < v (Suc i)"
  using assms(2)
proof (induction n)
  case (Suc n)
  then show ?case by (cases "k < v n") (auto intro: less_SucI)
qed (use assms(1) in simp)

definition offsets_ok :: "nat \<Rightarrow> nat \<Rightarrow> u32 list \<Rightarrow> bool" where
  "offsets_ok n e v \<longleftrightarrow>
     length v = n + 1 \<and> unat (v ! 0) = 0 \<and> unat (v ! n) = e \<and> (\<forall>i < n. unat (v ! i) \<le> unat (v ! Suc i))"

lemma offsets_mono:
  assumes "offsets_ok n e v" and "i \<le> j" and "j \<le> n"
  shows "unat (v ! i) \<le> unat (v ! j)"
  using assms(2,3)
proof (induction j rule: dec_induct)
  case (step j)
  have "unat (v ! j) \<le> unat (v ! Suc j)" using step.prems assms(1) by (simp add: offsets_ok_def)
  then show ?case using step by simp
qed simp

lemma check_monotonic_Inr:
  assumes "\<forall>i \<in> set is. i < length v"
  shows "check_monotonic e v prev is = Inr r \<longleftrightarrow>
     sorted (prev # map (\<lambda>i. unat (v ! i)) is) \<and> (\<forall>i \<in> set is. unat (v ! i) \<le> e) \<and>
     r = last (prev # map (\<lambda>i. unat (v ! i)) is)"
  using assms
proof (induction "is" arbitrary: prev)
  case (Cons i "is")
  have "off_at v i = Some (unat (v ! i))" using Cons.prems by (simp add: off_at_def get_at_def)
  then show ?case using Cons by (auto simp: not_less)
qed auto

lemma check_offsets_iff: "check_offsets n e v = Inr () \<longleftrightarrow> offsets_ok n e v"
proof (cases "length v = n + 1 \<and> off_at v 0 = Some 0")
  case True
  then have v: "length v = Suc n" "unat (v ! 0) = 0" by (auto simp: off_at_def get_at_def split: if_splits)
  let ?ws = "map (\<lambda>i. unat (v ! i)) [0..<Suc n]"
  have all: "\<forall>i \<in> set [0..<n + 1]. i < length v" using v by simp
  have "check_offsets n e v = Inr () \<longleftrightarrow> sorted (0 # ?ws) \<and> (\<forall>i \<in> set [0..<Suc n]. unat (v ! i) \<le> e) \<and> e = last (0 # ?ws)"
    using True check_monotonic_Inr [OF all, of e 0 e] check_monotonic_Inr [OF all, of e 0]
    by (auto simp: check_offsets_def bindE_Inr_iff simp del: upt_Suc)
  also have "\<dots> \<longleftrightarrow> sorted ?ws \<and> (\<forall>i \<le> n. unat (v ! i) \<le> e) \<and> e = unat (v ! n)"
    by (auto simp: less_Suc_eq_le)
  also have "\<dots> \<longleftrightarrow> offsets_ok n e v"
  proof
    assume a: "sorted ?ws \<and> (\<forall>i \<le> n. unat (v ! i) \<le> e) \<and> e = unat (v ! n)"
    have "unat (v ! i) \<le> unat (v ! Suc i)" if "i < n" for i
      using sorted_nth_mono [of ?ws i "Suc i"] a that by (simp del: upt_Suc)
    then show "offsets_ok n e v" using a v by (simp add: offsets_ok_def)
  next
    assume o: "offsets_ok n e v"
    have "sorted ?ws" unfolding sorted_iff_nth_mono using offsets_mono [OF o] by (auto simp del: upt_Suc)
    then show "sorted ?ws \<and> (\<forall>i \<le> n. unat (v ! i) \<le> e) \<and> e = unat (v ! n)"
      using o offsets_mono [OF o, of _ n] by (auto simp: offsets_ok_def simp del: upt_Suc)
  qed
  finally show ?thesis .
next
  case False
  then show ?thesis by (auto simp: check_offsets_def offsets_ok_def bindE_Inr_iff off_at_def get_at_def)
qed

text \<open>The groups: between the offsets of \<open>i\<close> lie exactly the positions that belong to \<open>i\<close>.\<close>

lemma check_groups_iff:
  assumes "offsets_ok n e v" and "\<And>k. k < e \<Longrightarrow> at k = Some (f k)"
  shows "check_groups n v at idx = Inr () \<longleftrightarrow>
     (\<forall>i < n. \<forall>k. unat (v ! i) \<le> k \<and> k < unat (v ! Suc i) \<longrightarrow> unat (idx (f k)) = i)"
proof -
  have "(case (off_at v i, off_at v (i + 1)) of
       (Some lo, Some hi) \<Rightarrow> check_all (\<lambda>k. case at k of
           None \<Rightarrow> Inl (Corrupt ''V2 CSR invalid: offsets slice OOB'')
         | Some edge \<Rightarrow> ensure (unat (idx edge) = i) ''V2 CSR invalid: offsets group holds a foreign edge'') [lo..<hi]
     | _ \<Rightarrow> Inl (Corrupt ''V2 CSR invalid: offsets short (strong)'')) = Inr () \<longleftrightarrow>
     (\<forall>k. unat (v ! i) \<le> k \<and> k < unat (v ! Suc i) \<longrightarrow> unat (idx (f k)) = i)" if i: "i < n" for i
  proof -
    have "off_at v i = Some (unat (v ! i))" "off_at v (i + 1) = Some (unat (v ! Suc i))"
      using i assms(1) by (auto simp: off_at_def get_at_def offsets_ok_def)
    moreover have "at k = Some (f k)" if "k < unat (v ! Suc i)" for k
    proof -
      have "unat (v ! Suc i) \<le> e" using offsets_mono [OF assms(1), of "Suc i" n] i assms(1) by (simp add: offsets_ok_def)
      then show ?thesis using that assms(2) by simp
    qed
    ultimately show ?thesis by auto
  qed
  then show ?thesis by (simp only: check_groups_def check_all_Inr atLeastLessThan_iff set_upt Ball_def) auto
qed

lemma group_positions:
  assumes o: "offsets_ok n e v" and i: "i < n"
    and g: "\<forall>i < n. \<forall>k. unat (v ! i) \<le> k \<and> k < unat (v ! Suc i) \<longrightarrow> h k = i"
  shows "filter (\<lambda>k. h k = i) [0..<e] = [unat (v ! i)..<unat (v ! Suc i)]"
proof (rule filter_upt_interval)
  show "unat (v ! i) \<le> unat (v ! Suc i)" "unat (v ! Suc i) \<le> e"
    using offsets_mono [OF o, of "Suc i" n] o i by (auto simp: offsets_ok_def)
  fix k assume k: "k < e"
  obtain j where j: "j < n" "unat (v ! j) \<le> k" "k < unat (v ! Suc j)"
    using step_between [of "\<lambda>i. unat (v ! i)" k n] o k by (auto simp: offsets_ok_def)
  then have "h k = j" using g by blast
  then show "h k = i \<longleftrightarrow> unat (v ! i) \<le> k \<and> k < unat (v ! Suc i)" using g i j by metis
qed

section \<open>The mirror\<close>

lemma scan_mirror_Inr:
  assumes "length seen = e"
  shows "scan_mirror e seen xs = Inr () \<longleftrightarrow>
    (\<forall>x \<in> set xs. unat x < e \<and> \<not> seen ! unat x) \<and> distinct (map unat xs)"
  using assms
proof (induction xs arbitrary: seen)
  case (Cons x xs)
  show ?case
  proof (cases "unat x < e \<and> \<not> seen ! unat x")
    case True
    have "(\<forall>y \<in> set xs. unat y < e \<and> \<not> seen[unat x := True] ! unat y) \<longleftrightarrow>
        (\<forall>y \<in> set xs. unat y < e \<and> \<not> seen ! unat y) \<and> unat x \<notin> unat ` set xs"
      using True Cons.prems by (auto simp: nth_list_update)
    then show ?thesis using True Cons by (auto simp: Let_def)
  qed (auto simp: Let_def)
qed simp

lemma check_mirror_iff:
  "check_mirror e mirror = Inr () \<longleftrightarrow>
     length mirror = e \<and> (\<forall>x \<in> set mirror. unat x < e) \<and> distinct (map unat mirror)"
  by (auto simp: check_mirror_def bindE_Inr_iff scan_mirror_Inr)

lemma mirror_permutation:
  assumes "check_mirror e mirror = Inr ()"
  shows "mset (map unat mirror) = mset [0..<e]"
proof -
  have m: "length mirror = e" "\<forall>x \<in> set mirror. unat x < e" "distinct (map unat mirror)"
    using assms by (auto simp: check_mirror_iff)
  have "set (map unat mirror) = {..<e}"
    using m card_subset_eq [of "{..<e}" "set (map unat mirror)"] distinct_card [OF m(3)] by auto
  then show ?thesis using m(3) by (metis atLeast0LessThan atLeast_upt distinct_upt set_eq_iff_mset_eq_distinct)
qed

section \<open>What an archive holds\<close>

definition csr_node_data :: "csr_graph \<Rightarrow> node_data list" where
  "csr_node_data a = map node_data_of (cg_nodes a)"

definition csr_indexed :: "csr_edge \<Rightarrow> indexed_edge" where
  "csr_indexed e = (unat (ce_from_idx e), unat (ce_to_idx e), ce_edge e)"

definition csr_nodes :: "csr_graph \<Rightarrow> string \<Rightarrow> node_view option" where
  "csr_nodes a = map_of (map (\<lambda>d. (nd_name d, node_view_from d)) (csr_node_data a))"

definition csr_edges :: "csr_graph \<Rightarrow> graph_edge multiset" where
  "csr_edges a = image_mset (named_edge (csr_node_data a)) (mset (map csr_indexed (cg_edges a)))"

definition csr_ok :: "csr_graph \<Rightarrow> bool" where "csr_ok a \<longleftrightarrow> validate_csr a = Inr ()"

lemma nd_name_node_data_of [simp]: "nd_name (node_data_of cn) = cn_name cn"
  by (simp add: node_data_of_def)

lemma check_sorted_iff:
  "check_sorted nodes = Inr () \<longleftrightarrow> sorted_wrt (<) (map cn_name nodes)"
proof -
  have "(case (get_at nodes (i - 1), get_at nodes i) of
       (Some p, Some c) \<Rightarrow> ensure (cn_name p < cn_name c) m | _ \<Rightarrow> Inl (Corrupt m')) = Inr () \<longleftrightarrow>
     cn_name (nodes ! (i - 1)) < cn_name (nodes ! i)" if "1 \<le> i" "i < length nodes" for i m m'
  proof -
    have "i - 1 < length nodes" using that by linarith
    then show ?thesis using that(2) by (simp add: get_at_def)
  qed
  then have "check_sorted nodes = Inr () \<longleftrightarrow> (\<forall>i \<in> {1..<length nodes}. cn_name (nodes ! (i - 1)) < cn_name (nodes ! i))"
    by (simp add: check_sorted_def)
  also have "\<dots> \<longleftrightarrow> (\<forall>i. Suc i < length nodes \<longrightarrow> cn_name (nodes ! i) < cn_name (nodes ! Suc i))"
  proof
    assume a: "\<forall>i \<in> {1..<length nodes}. cn_name (nodes ! (i - 1)) < cn_name (nodes ! i)"
    show "\<forall>i. Suc i < length nodes \<longrightarrow> cn_name (nodes ! i) < cn_name (nodes ! Suc i)"
    proof (intro allI impI)
      fix i assume "Suc i < length nodes"
      then show "cn_name (nodes ! i) < cn_name (nodes ! Suc i)" using bspec [OF a, of "Suc i"] by simp
    qed
  next
    assume a: "\<forall>i. Suc i < length nodes \<longrightarrow> cn_name (nodes ! i) < cn_name (nodes ! Suc i)"
    show "\<forall>i \<in> {1..<length nodes}. cn_name (nodes ! (i - 1)) < cn_name (nodes ! i)"
    proof
      fix i assume "i \<in> {1..<length nodes}"
      then show "cn_name (nodes ! (i - 1)) < cn_name (nodes ! i)" using a [rule_format, of "i - 1"] by simp
    qed
  qed
  also have "\<dots> \<longleftrightarrow> sorted_wrt (<) (map cn_name nodes)"
    by (simp add: sorted_wrt_iff_nth_Suc_transp [OF transp_on_less])
  finally show ?thesis .
qed

text \<open>The conjunction of the checks, as facts about the arrays.\<close>

lemma csr_ok_iff:
  "csr_ok a \<longleftrightarrow>
     sorted_wrt (<) (csr_node_names a) \<and>
     check_buckets (cg_nodes a) (cg_name_buckets a) = Inr () \<and>
     (\<forall>e \<in> set (cg_edges a). unat (ce_from_idx e) < length (cg_nodes a) \<and> unat (ce_to_idx e) < length (cg_nodes a)) \<and>
     offsets_ok (length (cg_nodes a)) (length (cg_edges a)) (cg_node_offsets a) \<and>
     check_groups (length (cg_nodes a)) (cg_node_offsets a) (get_at (cg_edges a)) ce_from_idx = Inr () \<and>
     offsets_ok (length (cg_nodes a)) (length (cg_edges a)) (cg_in_offsets a) \<and>
     check_mirror (length (cg_edges a)) (cg_in_mirror a) = Inr () \<and>
     check_groups (length (cg_nodes a)) (cg_in_offsets a) (mirror_edge a) ce_to_idx = Inr ()"
  by (simp add: csr_ok_def validate_csr_def Let_def bindE_Inr_iff check_sorted_iff check_offsets_iff
      check_endpoints_def csr_node_names_def)

lemma csr_okD:
  assumes "csr_ok a"
  shows csr_ok_distinct: "distinct (csr_node_names a)"
    and csr_ok_ends: "e \<in> set (cg_edges a) \<Longrightarrow> unat (ce_from_idx e) < length (cg_nodes a) \<and> unat (ce_to_idx e) < length (cg_nodes a)"
    and csr_ok_offs: "offsets_ok (length (cg_nodes a)) (length (cg_edges a)) (cg_node_offsets a)"
    and csr_ok_in_offs: "offsets_ok (length (cg_nodes a)) (length (cg_edges a)) (cg_in_offsets a)"
    and csr_ok_mirror: "check_mirror (length (cg_edges a)) (cg_in_mirror a) = Inr ()"
    and csr_ok_groups: "check_groups (length (cg_nodes a)) (cg_node_offsets a) (get_at (cg_edges a)) ce_from_idx = Inr ()"
    and csr_ok_in_groups: "check_groups (length (cg_nodes a)) (cg_in_offsets a) (mirror_edge a) ce_to_idx = Inr ()"
  using assms by (auto simp: csr_ok_iff strict_sorted_iff)

lemma csr_idx_of:
  assumes "csr_ok a"
  shows "idx_of a name = fmlookup (name_index (csr_node_data a)) name"
proof -
  have b: "check_buckets (cg_nodes a) (cg_name_buckets a) = Inr ()" using assms by (simp add: csr_ok_iff)
  then obtain k where k: "length (cg_name_buckets a) = 2 ^ k" "k < 64"
    and t: "table_ok (cg_name_buckets a) (csr_node_names a)"
    unfolding check_buckets_iff csr_node_names_def by blast
  note iff = idx_of_iff [OF k t csr_ok_distinct [OF assms]]
  have d: "distinct (map nd_name (csr_node_data a))"
    using csr_ok_distinct [OF assms] by (simp add: csr_node_data_def csr_node_names_def o_def)
  show ?thesis
  proof (cases "fmlookup (name_index (csr_node_data a)) name")
    case None
    then have "cn_name (cg_nodes a ! x) \<noteq> name" if "x < length (cg_nodes a)" for x
      using nth_mem [OF that] by (auto simp: name_index_None csr_node_data_def image_image)
    then have "idx_of a name \<noteq> Some x" for x unfolding iff by blast
    then show ?thesis using None by (cases "idx_of a name") auto
  next
    case (Some x)
    then have "x < length (cg_nodes a) \<and> cn_name (cg_nodes a ! x) = name"
      using name_index_Some [OF Some] by (auto simp: csr_node_data_def)
    then show ?thesis using Some iff by simp
  qed
qed

lemma csr_group:
  assumes "csr_ok a" and "i < length (cg_nodes a)"
  shows "filter (\<lambda>k. unat (ce_from_idx (cg_edges a ! k)) = i) [0..<length (cg_edges a)] =
    [unat (cg_node_offsets a ! i)..<unat (cg_node_offsets a ! Suc i)]"
proof (rule group_positions [OF csr_ok_offs [OF assms(1)] assms(2)])
  have "get_at (cg_edges a) k = Some (cg_edges a ! k)" if "k < length (cg_edges a)" for k
    using that by (simp add: get_at_def)
  note at = this
  show "\<forall>i < length (cg_nodes a). \<forall>k. unat (cg_node_offsets a ! i) \<le> k \<and> k < unat (cg_node_offsets a ! Suc i) \<longrightarrow>
      unat (ce_from_idx (cg_edges a ! k)) = i"
    using csr_ok_groups [OF assms(1)]
    by (subst (asm) check_groups_iff [OF csr_ok_offs [OF assms(1)], where f = "(!) (cg_edges a)"]) (auto intro: at)
qed

lemma csr_in_group:
  assumes "csr_ok a" and "i < length (cg_nodes a)"
  shows "filter (\<lambda>k. unat (ce_to_idx (cg_edges a ! unat (cg_in_mirror a ! k))) = i) [0..<length (cg_edges a)] =
    [unat (cg_in_offsets a ! i)..<unat (cg_in_offsets a ! Suc i)]"
proof (rule group_positions [OF csr_ok_in_offs [OF assms(1)] assms(2)])
  have "mirror_edge a k = Some (cg_edges a ! unat (cg_in_mirror a ! k))" if "k < length (cg_edges a)" for k
    using that csr_ok_mirror [OF assms(1)] by (auto simp: check_mirror_iff mirror_edge_def get_at_def)
  note at = this
  show "\<forall>i < length (cg_nodes a). \<forall>k. unat (cg_in_offsets a ! i) \<le> k \<and> k < unat (cg_in_offsets a ! Suc i) \<longrightarrow>
      unat (ce_to_idx (cg_edges a ! unat (cg_in_mirror a ! k))) = i"
    using csr_ok_in_groups [OF assms(1)]
    by (subst (asm) check_groups_iff [OF csr_ok_in_offs [OF assms(1)],
          where f = "\<lambda>k. cg_edges a ! unat (cg_in_mirror a ! k)"]) (auto intro: at)
qed

section \<open>The accessor\<close>

lemma csr_collect_map:
  assumes "\<forall>k \<in> set ks. k < length (cg_edges a) \<and> unat (other (cg_edges a ! k)) < length (cg_nodes a)"
  shows "csr_collect a other ks =
    map (\<lambda>k. neighbor_view_of (cn_name (cg_nodes a ! unat (other (cg_edges a ! k)))) (ce_edge (cg_edges a ! k))) ks"
  using assms by (induction ks) (auto simp: get_at_def)

lemma mirror_collect_map:
  assumes "\<forall>k \<in> set ks. k < length (cg_in_mirror a) \<and> unat (cg_in_mirror a ! k) < length (cg_edges a) \<and>
    unat (ce_from_idx (cg_edges a ! unat (cg_in_mirror a ! k))) < length (cg_nodes a)"
  shows "mirror_collect a ks =
    map (\<lambda>k. let e = cg_edges a ! unat (cg_in_mirror a ! k)
             in neighbor_view_of (cn_name (cg_nodes a ! unat (ce_from_idx e))) (ce_edge e)) ks"
  using assms by (induction ks) (auto simp: get_at_def Let_def)

lemma csr_name_nth: "j < length (cg_nodes a) \<Longrightarrow> nd_name (csr_node_data a ! j) = cn_name (cg_nodes a ! j)"
  by (simp add: csr_node_data_def)

lemma csr_outgoing_mset:
  assumes "csr_ok a" and "idx_of a name = Some i" and "i < length (cg_nodes a)"
  shows "mset (csr_outgoing a name) = image_mset (\<lambda>(f, t, e). neighbor_view_of (nd_name (csr_node_data a ! t)) e)
    (filter_mset (\<lambda>(f, t, e). f = i) (mset (map csr_indexed (cg_edges a))))"
proof -
  let ?v = "cg_node_offsets a"
  let ?ks = "filter (\<lambda>k. unat (ce_from_idx (cg_edges a ! k)) = i) [0..<length (cg_edges a)]"
  have off: "off_at ?v i = Some (unat (?v ! i))" "off_at ?v (i + 1) = Some (unat (?v ! Suc i))"
    using csr_ok_offs [OF assms(1)] assms(3) by (auto simp: offsets_ok_def off_at_def get_at_def)
  have ks: "\<forall>k \<in> set ?ks. k < length (cg_edges a) \<and> unat (ce_to_idx (cg_edges a ! k)) < length (cg_nodes a)"
    using csr_ok_ends [OF assms(1)] by simp
  have "csr_outgoing a name = csr_collect a ce_to_idx ?ks"
    using csr_group [OF assms(1,3)] off assms(2) by (simp add: csr_outgoing_def)
  also have "\<dots> = map (\<lambda>k. neighbor_view_of (nd_name (csr_node_data a ! unat (ce_to_idx (cg_edges a ! k)))) (ce_edge (cg_edges a ! k))) ?ks"
    unfolding csr_collect_map [OF ks] by (rule map_cong [OF refl]) (simp only: csr_name_nth ks [rule_format])
  also have "\<dots> = map (\<lambda>(f, t, e). neighbor_view_of (nd_name (csr_node_data a ! t)) e)
      (filter (\<lambda>(f, t, e). f = i) (map (\<lambda>k. csr_indexed (cg_edges a ! k)) [0..<length (cg_edges a)]))"
    by (simp add: filter_map o_def csr_indexed_def)
  also have "map (\<lambda>k. csr_indexed (cg_edges a ! k)) [0..<length (cg_edges a)] = map csr_indexed (cg_edges a)"
    by (rule nth_equalityI) simp_all
  finally show ?thesis by (simp only: mset_map mset_filter)
qed

lemma csr_incoming_mset:
  assumes "csr_ok a" and "idx_of a name = Some i" and "i < length (cg_nodes a)"
  shows "mset (csr_incoming a name) = image_mset (\<lambda>(f, t, e). neighbor_view_of (nd_name (csr_node_data a ! f)) e)
    (filter_mset (\<lambda>(f, t, e). t = i) (mset (map csr_indexed (cg_edges a))))"
proof -
  let ?v = "cg_in_offsets a" and ?m = "\<lambda>k. unat (cg_in_mirror a ! k)" and ?E = "length (cg_edges a)"
  let ?ks = "filter (\<lambda>k. unat (ce_to_idx (cg_edges a ! ?m k)) = i) [0..<?E]"
  have mir: "length (cg_in_mirror a) = ?E" "\<And>k. k < ?E \<Longrightarrow> ?m k < ?E"
    using csr_ok_mirror [OF assms(1)] by (auto simp: check_mirror_iff)
  have off: "off_at ?v i = Some (unat (?v ! i))" "off_at ?v (i + 1) = Some (unat (?v ! Suc i))"
    using csr_ok_in_offs [OF assms(1)] assms(3) by (auto simp: offsets_ok_def off_at_def get_at_def)
  have ks: "\<forall>k \<in> set ?ks. k < length (cg_in_mirror a) \<and> ?m k < ?E \<and> unat (ce_from_idx (cg_edges a ! ?m k)) < length (cg_nodes a)"
    using csr_ok_ends [OF assms(1)] mir by simp
  have "csr_incoming a name = mirror_collect a ?ks"
    using csr_in_group [OF assms(1,3)] off assms(2) by (simp add: csr_incoming_def)
  also have "\<dots> = map (\<lambda>k. neighbor_view_of (nd_name (csr_node_data a ! unat (ce_from_idx (cg_edges a ! ?m k)))) (ce_edge (cg_edges a ! ?m k))) ?ks"
    unfolding mirror_collect_map [OF ks] Let_def by (rule map_cong [OF refl]) (simp only: csr_name_nth ks [rule_format])
  also have "\<dots> = map (\<lambda>(f, t, e). neighbor_view_of (nd_name (csr_node_data a ! f)) e)
      (filter (\<lambda>(f, t, e). t = i) (map (\<lambda>k. csr_indexed (cg_edges a ! ?m k)) [0..<?E]))"
    by (simp add: filter_map o_def csr_indexed_def)
  also have "map (\<lambda>k. csr_indexed (cg_edges a ! ?m k)) [0..<?E] = map (\<lambda>k. csr_indexed (cg_edges a ! k)) (map unat (cg_in_mirror a))"
    by (rule nth_equalityI) (simp_all add: mir(1))
  finally have "mset (csr_incoming a name) = image_mset (\<lambda>(f, t, e). neighbor_view_of (nd_name (csr_node_data a ! f)) e)
      (filter_mset (\<lambda>(f, t, e). t = i) (image_mset (\<lambda>k. csr_indexed (cg_edges a ! k)) (mset (map unat (cg_in_mirror a)))))"
    by (simp only: mset_map mset_filter)
  also have "image_mset (\<lambda>k. csr_indexed (cg_edges a ! k)) (mset (map unat (cg_in_mirror a))) = mset (map csr_indexed (cg_edges a))"
  proof -
    have e: "map csr_indexed (cg_edges a) = map (\<lambda>k. csr_indexed (cg_edges a ! k)) [0..<?E]"
      by (rule nth_equalityI) simp_all
    show ?thesis unfolding mirror_permutation [OF csr_ok_mirror [OF assms(1)]] e by (simp only: mset_map)
  qed
  finally show ?thesis .
qed

text \<open>A validated archive is a correct view of the graph it holds, whatever bytes it came from.\<close>

lemma csr_accessor_ok:
  assumes "csr_ok a"
  shows "accessor_ok (csr_accessor a) (csr_nodes a) (csr_edges a)"
  unfolding csr_nodes_def csr_edges_def
proof (rule indexed_accessor_ok)
  show "distinct (map nd_name (csr_node_data a))"
    using csr_ok_distinct [OF assms] by (simp add: csr_node_data_def csr_node_names_def o_def)
  show "\<forall>(f, t, e) \<in> set (map csr_indexed (cg_edges a)). f < length (csr_node_data a) \<and> t < length (csr_node_data a)"
    using csr_ok_ends [OF assms] by (auto simp: csr_indexed_def csr_node_data_def)
  have lt: "i < length (cg_nodes a)" if "fmlookup (name_index (csr_node_data a)) n = Some i" for i n
    using name_index_Some [OF that] by (simp add: csr_node_data_def)
  show "acc_get_node (csr_accessor a) n = map_option (\<lambda>i. node_view_from (csr_node_data a ! i)) (fmlookup (name_index (csr_node_data a)) n)" for n
    using lt [of n] by (cases "fmlookup (name_index (csr_node_data a)) n")
      (auto simp: csr_accessor_def csr_get_node_def csr_idx_of [OF assms] get_at_def csr_node_data_def)
  show "mset (acc_outgoing (csr_accessor a) n) = (case fmlookup (name_index (csr_node_data a)) n of None \<Rightarrow> {#} | Some i \<Rightarrow>
      image_mset (\<lambda>(f, t, e). neighbor_view_of (nd_name (csr_node_data a ! t)) e)
        (filter_mset (\<lambda>(f, t, e). f = i) (mset (map csr_indexed (cg_edges a)))))" for n
    using csr_outgoing_mset [OF assms, of n] lt [of n]
    by (cases "fmlookup (name_index (csr_node_data a)) n")
      (simp_all add: csr_accessor_def csr_idx_of [OF assms] csr_outgoing_def del: mset_map)
  show "mset (acc_incoming (csr_accessor a) n) = (case fmlookup (name_index (csr_node_data a)) n of None \<Rightarrow> {#} | Some i \<Rightarrow>
      image_mset (\<lambda>(f, t, e). neighbor_view_of (nd_name (csr_node_data a ! f)) e)
        (filter_mset (\<lambda>(f, t, e). t = i) (mset (map csr_indexed (cg_edges a)))))" for n
    using csr_incoming_mset [OF assms, of n] lt [of n]
    by (cases "fmlookup (name_index (csr_node_data a)) n")
      (simp_all add: csr_accessor_def csr_idx_of [OF assms] csr_incoming_def del: mset_map)
qed (simp_all add: csr_accessor_def csr_node_data_def)

interpretation csr_view: graph_view csr_accessor csr_ok csr_nodes csr_edges
  by unfold_locales (rule csr_accessor_ok)

end
