(* ===== verification/OG_Csr_Write.thy ===== *)
theory OG_Csr_Write
  imports OG_Csr_View
begin

text \<open>
  What the snapshot writer of \<open>src/persist/snapshot.rs\<close> produces: the archive passes the full
  validation sweep, holds the graph it was written from, depends only on the logical graph, and
  rebuilds to the same graph.
\<close>

section \<open>Counting into offsets\<close>

definition below :: "nat list \<Rightarrow> nat \<Rightarrow> nat" where
  "below ws i = length (filter (\<lambda>w. w < i) ws)"

lemma below_Suc: "below ws (Suc i) = below ws i + length (filter (\<lambda>w. w = i) ws)"
  by (induction ws) (auto simp: below_def)

lemma below_0 [simp]: "below ws 0 = 0"
  by (simp add: below_def)

lemma below_all: "\<forall>w \<in> set ws. w < n \<Longrightarrow> below ws n = length ws"
  by (simp add: below_def)

lemma sorted_below:
  assumes "sorted ws" and "k < length ws"
  shows "ws ! k < i \<longleftrightarrow> k < below ws i"
  using assms
proof (induction ws arbitrary: k)
  case (Cons w ws)
  show ?case
  proof (cases "w < i")
    case True
    then show ?thesis using Cons by (cases k) (auto simp: below_def)
  next
    case False
    then have "below (w # ws) i = 0" using Cons.prems(1) by (auto simp: below_def filter_empty_conv)
    moreover have "w \<le> (w # ws) ! k" using Cons.prems by (cases k) auto
    ultimately show ?thesis using False by simp
  qed
qed simp

lemma count_step:
  assumes "\<forall>i \<in> set idxs. unat i + 1 < length offs"
  shows "length (foldl (\<lambda>offs i. offs[unat i + 1 := offs ! (unat i + 1) + 1]) offs idxs) = length offs \<and>
    (\<forall>j < length offs. foldl (\<lambda>offs i. offs[unat i + 1 := offs ! (unat i + 1) + 1]) offs idxs ! j =
       offs ! j + (of_nat (length (filter (\<lambda>i. unat i + 1 = j) idxs)) :: u32))"
  using assms
proof (induction idxs arbitrary: offs)
  case (Cons i idxs)
  let ?o = "offs[unat i + 1 := offs ! (unat i + 1) + 1]"
  have "\<forall>x \<in> set idxs. unat x + 1 < length ?o" using Cons.prems by simp
  from Cons.IH [OF this] show ?case using Cons.prems by (auto simp: nth_list_update algebra_simps)
qed simp

lemma length_prefix_sums [simp]: "length (prefix_sums acc cs) = length cs"
  by (induction cs arbitrary: acc) auto

lemma prefix_sums_nth:
  "k < length cs \<Longrightarrow> prefix_sums acc cs ! k = acc + sum_list (take (Suc k) cs)"
proof (induction cs arbitrary: acc k)
  case (Cons c cs)
  then show ?case by (cases k) (auto simp: add.assoc)
qed simp

lemma csr_offsets_nth:
  assumes "\<forall>i \<in> set idxs. unat i < n" and "k \<le> n"
  shows "csr_offsets n idxs ! k = of_nat (below (map unat idxs) k)"
proof -
  define cs where "cs = foldl (\<lambda>offs i. offs[unat i + 1 := offs ! (unat i + 1) + 1]) (replicate (n + 1) (0 :: u32)) idxs"
  have len: "length cs = n + 1"
    and nth: "j < n + 1 \<Longrightarrow> cs ! j = of_nat (length (filter (\<lambda>i. unat i + 1 = j) idxs))" for j
    using count_step [of idxs "replicate (n + 1) 0"] assms(1)
    unfolding cs_def by (auto simp: nth_Cons split: nat.splits)
  have "sum_list (take (Suc k) cs) = of_nat (below (map unat idxs) k)"
    using assms(2)
  proof (induction k)
    case 0
    then show ?case using nth [of 0] len by (simp add: take_Suc_conv_app_nth)
  next
    case (Suc k)
    have "take (Suc (Suc k)) cs = take (Suc k) cs @ [cs ! Suc k]" using Suc.prems len by (simp add: take_Suc_conv_app_nth)
    moreover have "cs ! Suc k = of_nat (length (filter (\<lambda>w. w = k) (map unat idxs)))"
      using nth [of "Suc k"] Suc.prems by (simp add: filter_map o_def)
    ultimately show ?case using Suc by (simp add: below_Suc)
  qed
  moreover have "csr_offsets n idxs = prefix_sums 0 cs" by (simp add: csr_offsets_def cs_def)
  ultimately show ?thesis using prefix_sums_nth [of k cs 0] len assms(2) by simp
qed

lemma below_le: "below ws i \<le> length ws"
  by (simp add: below_def)

lemma csr_offsets_unat:
  assumes "\<forall>i \<in> set idxs. unat i < n" and "k \<le> n" and "length idxs < 2 ^ 32"
  shows "unat (csr_offsets n idxs ! k) = below (map unat idxs) k"
  using csr_offsets_nth [OF assms(1,2)] below_le [of "map unat idxs" k] assms(3) by (simp add: unat_of_nat)

lemma csr_offsets_ok:
  assumes "\<forall>i \<in> set idxs. unat i < n" and "length idxs < 2 ^ 32"
  shows "offsets_ok n (length idxs) (csr_offsets n idxs)"
proof -
  have "length (csr_offsets n idxs) = n + 1"
    using count_step [of idxs "replicate (n + 1) 0"] assms(1) by (simp add: csr_offsets_def)
  then show ?thesis unfolding offsets_ok_def
    using csr_offsets_unat [OF assms(1) _ assms(2)] assms(1) below_all [of "map unat idxs" n]
    by (simp add: below_Suc)
qed

text \<open>With the entries sorted, each position lies in the group of its own index.\<close>

lemma sorted_groups:
  assumes "\<forall>i \<in> set idxs. unat i < n" and "length idxs < 2 ^ 32" and "sorted (map unat idxs)"
    and "i < n" and "unat (csr_offsets n idxs ! i) \<le> k" and "k < unat (csr_offsets n idxs ! Suc i)"
  shows "k < length idxs \<and> unat (idxs ! k) = i"
proof -
  let ?ws = "map unat idxs"
  have b: "below ?ws i \<le> k" "k < below ?ws (Suc i)"
    using assms(4-6) csr_offsets_unat [OF assms(1) _ assms(2)] by simp_all
  then have k: "k < length ?ws" using below_le [of ?ws "Suc i"] by linarith
  then have "\<not> ?ws ! k < i" "?ws ! k < Suc i" using b sorted_below [OF assms(3) k] by auto
  then show ?thesis using k by simp
qed

section \<open>The archive written from a graph\<close>

definition small_graph :: "'g digraph_ops \<Rightarrow> 'g orpheus_graph \<Rightarrow> bool" where
  "small_graph ops G \<longleftrightarrow>
     length (dg_nodes ops (og_graph G)) \<le> dg_limit \<and> length (dg_edges ops (og_graph G)) \<le> dg_limit"

lemma node_data_of_csr_node [simp]: "node_data_of (csr_node_of nd) = nd"
proof -
  have "foldl (\<lambda>m (k, v). fmupd k v m) m0 (map (\<lambda>k. (k, the (fmlookup m k))) ks) =
      foldl (\<lambda>m' k. fmupd k (the (fmlookup m k)) m') m0 ks" for m0 m :: "(string, string) fmap" and ks
    by (induction ks arbitrary: m0) auto
  moreover have "fmlookup (foldl (\<lambda>m' k. fmupd k (the (fmlookup m k)) m') m0 ks) x =
      (if x \<in> set ks then Some (the (fmlookup m x)) else fmlookup m0 x)" for m0 m :: "(string, string) fmap" and ks x
    by (induction ks arbitrary: m0) auto
  ultimately have "foldl (\<lambda>m (k, v). fmupd k v m) fmempty
      (map (\<lambda>k. (k, the (fmlookup m k))) (sorted_list_of_fset (fmdom m))) = m" for m :: "(string, string) fmap"
    by (intro fmap_ext) (auto simp: fmlookup_dom_iff)
  then show ?thesis by (simp add: node_data_of_def csr_node_of_def)
qed

lemma cn_name_csr_node_of [simp]: "cn_name (csr_node_of nd) = nd_name nd"
  by (simp add: csr_node_of_def)

lemma sorted_nodes_distinct:
  assumes "og_ok ops G"
  shows "distinct (map nd_name (sorted_nodes ops G))"
proof -
  have "mset (map nd_name (sorted_nodes ops G)) = mset (map nd_name (dg_nodes ops (og_graph G)))"
    by (simp add: sorted_nodes_def)
  then show ?thesis using assms by (metis mset_eq_imp_distinct_iff og_ok_def)
qed

lemma sorted_nodes_length [simp]: "length (sorted_nodes ops G) = length (dg_nodes ops (og_graph G))"
  by (simp add: sorted_nodes_def)

lemma sorted_nodes_less: "small_graph ops G \<Longrightarrow> length (sorted_nodes ops G) < 2 ^ 32"
  by (simp add: small_graph_def dg_limit_def)

text \<open>The new index of a node of the graph.\<close>

lemma new_index:
  assumes "small_graph ops G" and "f < length (dg_nodes ops (og_graph G))"
  obtains i where "fmlookup (name_index (sorted_nodes ops G)) (nd_name (dg_nodes ops (og_graph G) ! f)) = Some i"
    and "i < length (sorted_nodes ops G)" and "nd_name (sorted_nodes ops G ! i) = nd_name (dg_nodes ops (og_graph G) ! f)"
    and "unat (of_nat i :: u32) = i"
proof -
  let ?n = "dg_nodes ops (og_graph G) ! f"
  have "?n \<in> set (sorted_nodes ops G)" using assms(2) by (simp add: sorted_nodes_def)
  then obtain i where l: "fmlookup (name_index (sorted_nodes ops G)) (nd_name ?n) = Some i"
    using name_index_None [of "sorted_nodes ops G" "nd_name ?n"] by fastforce
  from name_index_Some [OF l] have i: "i < length (sorted_nodes ops G)" "nd_name (sorted_nodes ops G ! i) = nd_name ?n"
    by auto
  have "unat (of_nat i :: u32) = i" using less_trans [OF i(1) sorted_nodes_less [OF assms(1)]] by (simp add: unat_of_nat)
  then show thesis using that l i by blast
qed

definition re_edge :: "node_data list \<Rightarrow> node_data list \<Rightarrow> indexed_edge \<Rightarrow> csr_edge" where
  "re_edge sorted_ns ns = (\<lambda>(from, to, e). csr_edge_of
     (of_nat (the (fmlookup (name_index sorted_ns) (nd_name (ns ! from)))))
     (of_nat (the (fmlookup (name_index sorted_ns) (nd_name (ns ! to))))) e)"

lemma sorted_edges_re:
  "sorted_edges ops G = sort_key edge_sort_key
     (map (re_edge (sorted_nodes ops G) (dg_nodes ops (og_graph G))) (dg_edges ops (og_graph G)))"
  by (simp add: sorted_edges_def re_edge_def Let_def)

lemma re_edge_ok:
  assumes "og_ok ops G" and "small_graph ops G" and "x \<in> set (dg_edges ops (og_graph G))"
  defines "y \<equiv> re_edge (sorted_nodes ops G) (dg_nodes ops (og_graph G)) x"
  shows "unat (ce_from_idx y) < length (sorted_nodes ops G)"
    and "unat (ce_to_idx y) < length (sorted_nodes ops G)"
    and "named_edge (sorted_nodes ops G) (csr_indexed y) = named_edge (dg_nodes ops (og_graph G)) x"
proof -
  obtain f t e where x: "x = (f, t, e)" by (cases x)
  have "f < length (dg_nodes ops (og_graph G))" "t < length (dg_nodes ops (og_graph G))"
    using assms(1,3) by (auto simp: og_ok_def x)
  from new_index [OF assms(2) this(1)] new_index [OF assms(2) this(2)] obtain i j where
    i: "fmlookup (name_index (sorted_nodes ops G)) (nd_name (dg_nodes ops (og_graph G) ! f)) = Some i"
      "i < length (sorted_nodes ops G)" "nd_name (sorted_nodes ops G ! i) = nd_name (dg_nodes ops (og_graph G) ! f)"
      "unat (of_nat i :: u32) = i" and
    j: "fmlookup (name_index (sorted_nodes ops G)) (nd_name (dg_nodes ops (og_graph G) ! t)) = Some j"
      "j < length (sorted_nodes ops G)" "nd_name (sorted_nodes ops G ! j) = nd_name (dg_nodes ops (og_graph G) ! t)"
      "unat (of_nat j :: u32) = j" by metis
  have y: "y = csr_edge_of (of_nat i) (of_nat j) e" by (simp add: y_def re_edge_def x i(1) j(1))
  show "unat (ce_from_idx y) < length (sorted_nodes ops G)" "unat (ce_to_idx y) < length (sorted_nodes ops G)"
    using i(2,4) j(2,4) by (simp_all only: y ce_edge_of)
  show "named_edge (sorted_nodes ops G) (csr_indexed y) = named_edge (dg_nodes ops (og_graph G)) x"
    by (simp only: y csr_indexed_def ce_edge_of named_edge_def prod.case x i(3,4) j(3,4))
qed

lemma set_sorted_edges:
  "set (sorted_edges ops G) = re_edge (sorted_nodes ops G) (dg_nodes ops (og_graph G)) ` set (dg_edges ops (og_graph G))"
  by (simp add: sorted_edges_re)

lemma sorted_edges_ends:
  assumes "og_ok ops G" and "small_graph ops G" and "e \<in> set (sorted_edges ops G)"
  shows "unat (ce_from_idx e) < length (sorted_nodes ops G) \<and> unat (ce_to_idx e) < length (sorted_nodes ops G)"
proof -
  obtain x where "x \<in> set (dg_edges ops (og_graph G))"
    and e: "e = re_edge (sorted_nodes ops G) (dg_nodes ops (og_graph G)) x"
    using assms(3) unfolding set_sorted_edges by blast
  then show ?thesis using re_edge_ok(1,2) [OF assms(1,2)] unfolding e by blast
qed

lemma sorted_edges_less: "small_graph ops G \<Longrightarrow> length (sorted_edges ops G) < 2 ^ 32"
  by (simp add: sorted_edges_re small_graph_def dg_limit_def)

text \<open>\<open>to_csr\<close> is total: the insertion loop always finds a free slot.\<close>

lemma to_csr_total:
  assumes "small_graph ops G"
  obtains a where "to_csr ops G = Some a" and "cg_nodes a = map csr_node_of (sorted_nodes ops G)"
    and "cg_edges a = sorted_edges ops G"
    and "cg_node_offsets a = csr_offsets (length (sorted_nodes ops G)) (map ce_from_idx (sorted_edges ops G))"
    and "cg_in_offsets a = csr_offsets (length (sorted_nodes ops G)) (map ce_to_idx (sorted_edges ops G))"
    and "cg_in_mirror a = mirror_of (sorted_edges ops G)"
    and "length (cg_name_buckets a) = bucket_capacity (length (sorted_nodes ops G))"
    and "table_ok (cg_name_buckets a) (map nd_name (sorted_nodes ops G))"
proof -
  obtain B where B: "build_name_buckets (sorted_nodes ops G) = Some B"
    "length B = bucket_capacity (length (sorted_nodes ops G))" "table_ok B (map nd_name (sorted_nodes ops G))"
    using build_name_buckets_ok [OF sorted_nodes_less [OF assms]] .
  show thesis by (rule that) (use B in \<open>auto simp: to_csr_def Let_def\<close>)
qed

section \<open>Sorted edges and the mirror\<close>

lemma sorted_by_first:
  assumes "sorted (map k xs)" and "\<And>p q. k p \<le> k q \<Longrightarrow> g p \<le> (g q :: u32)"
  shows "sorted (map (\<lambda>x. unat (g x)) xs)"
  using assms(1) unfolding sorted_map
  by (rule sorted_wrt_mono_rel [rotated]) (use assms(2) word_le_nat_alt in blast)

lemma sorted_from: "sorted (map (\<lambda>e. unat (ce_from_idx e)) (sort_key edge_sort_key es))"
  by (rule sorted_by_first [where k = edge_sort_key]) (auto simp: edge_sort_key_def less_eq_prod_def)

lemma mirror_facts:
  assumes "length es < 2 ^ 32"
  shows "mset (map unat (mirror_of es)) = mset [0..<length es]"
    and "sorted (map (\<lambda>x. unat (ce_to_idx (es ! unat x))) (mirror_of es))"
proof -
  have "map unat (map of_nat [0..<length es] :: u32 list) = [0..<length es]"
    using assms by (intro nth_equalityI) (simp_all add: unat_of_nat)
  moreover have "mset (map unat (mirror_of es)) = mset (map unat (map of_nat [0..<length es] :: u32 list))"
    by (simp only: mirror_of_def mset_map mset_sort)
  ultimately show "mset (map unat (mirror_of es)) = mset [0..<length es]" by simp
  have "sorted (map (\<lambda>x. (ce_to_idx (es ! unat x), x)) (mirror_of es))" by (simp add: mirror_of_def)
  then show "sorted (map (\<lambda>x. unat (ce_to_idx (es ! unat x))) (mirror_of es))"
    by (rule sorted_by_first) (auto simp: less_eq_prod_def)
qed

lemma check_mirror_mset:
  assumes "mset (map unat mirror) = mset [0..<e]"
  shows "check_mirror e mirror = Inr ()"
proof -
  have "length mirror = e" using arg_cong [OF assms, of size] by simp
  moreover have "set (map unat mirror) = {0..<e}" using arg_cong [OF assms, of set_mset] by simp
  moreover have "distinct (map unat mirror)" using mset_eq_imp_distinct_iff [OF assms] by simp
  ultimately show ?thesis unfolding check_mirror_iff by auto
qed

section \<open>The written archive validates\<close>

lemma to_csr_ok:
  assumes ok: "og_ok ops G" and small: "small_graph ops G" and a: "to_csr ops G = Some a"
  shows "csr_ok a"
proof -
  obtain a' where a': "to_csr ops G = Some a'" "cg_nodes a' = map csr_node_of (sorted_nodes ops G)"
    "cg_edges a' = sorted_edges ops G"
    "cg_node_offsets a' = csr_offsets (length (sorted_nodes ops G)) (map ce_from_idx (sorted_edges ops G))"
    "cg_in_offsets a' = csr_offsets (length (sorted_nodes ops G)) (map ce_to_idx (sorted_edges ops G))"
    "cg_in_mirror a' = mirror_of (sorted_edges ops G)"
    "length (cg_name_buckets a') = bucket_capacity (length (sorted_nodes ops G))"
    "table_ok (cg_name_buckets a') (map nd_name (sorted_nodes ops G))" using to_csr_total [OF small] .
  have aa: "a' = a" using a a'(1) by simp
  note A = a' [unfolded aa]
  let ?n = "length (sorted_nodes ops G)" and ?es = "sorted_edges ops G"
  have from_lt: "\<forall>i \<in> set (map ce_from_idx ?es). unat i < ?n" and to_lt: "\<forall>i \<in> set (map ce_to_idx ?es). unat i < ?n"
    using sorted_edges_ends [OF ok small] by auto
  have len: "length (map ce_from_idx ?es) < 2 ^ 32" "length (map ce_to_idx ?es) < 2 ^ 32"
    using sorted_edges_less [OF small] by simp_all
  have nm: "csr_node_names a = map nd_name (sorted_nodes ops G)" by (simp add: csr_node_names_def A o_def)
  have "sorted (map nd_name (sorted_nodes ops G))" by (simp add: sorted_nodes_def)
  then have srt: "sorted_wrt (<) (csr_node_names a)"
    unfolding nm strict_sorted_iff using sorted_nodes_distinct [OF ok] by simp
  obtain k where k: "0 < k" "k < 64" "bucket_capacity ?n = 2 ^ k" "?n < 2 ^ k"
    using bucket_capacity_pow [OF sorted_nodes_less [OF small]] .
  have buckets: "check_buckets (cg_nodes a) (cg_name_buckets a) = Inr ()"
    unfolding check_buckets_iff using k A by (auto simp: o_def)
  note offs = csr_offsets_ok [OF from_lt len(1)] and ioffs = csr_offsets_ok [OF to_lt len(2)]
  have sf: "sorted (map unat (map ce_from_idx ?es))"
    using sorted_from [of "map _ _"] by (simp add: sorted_edges_re o_def)
  have groups: "check_groups ?n (csr_offsets ?n (map ce_from_idx ?es)) (get_at ?es) ce_from_idx = Inr ()"
  proof (subst check_groups_iff [OF offs, where f = "(!) ?es"])
    show "get_at ?es k = Some (?es ! k)" if "k < length (map ce_from_idx ?es)" for k using that by (simp add: get_at_def)
    show "\<forall>i < ?n. \<forall>k. unat (csr_offsets ?n (map ce_from_idx ?es) ! i) \<le> k \<and>
        k < unat (csr_offsets ?n (map ce_from_idx ?es) ! Suc i) \<longrightarrow> unat (ce_from_idx (?es ! k)) = i"
      using sorted_groups [OF from_lt len(1) sf] by fastforce
  qed
  let ?m = "mirror_of ?es"
  note mf = mirror_facts [OF sorted_edges_less [OF small]]
  have mlen: "length ?m = length ?es" using arg_cong [OF mf(1), of size] by simp
  have mlt: "unat (?m ! k) < length ?es" if "k < length ?es" for k
  proof -
    have "unat (?m ! k) \<in> set (map unat ?m)" using that mlen by simp
    also have "set (map unat ?m) = {0..<length ?es}" using arg_cong [OF mf(1), of set_mset] by simp
    finally show ?thesis by simp
  qed
  let ?to = "map (\<lambda>x. ce_to_idx (?es ! unat x)) ?m"
  have perm: "mset ?to = mset (map ce_to_idx ?es)"
  proof -
    have "mset ?to = image_mset (\<lambda>k. ce_to_idx (?es ! k)) (mset (map unat ?m))"
      by (simp add: image_mset.compositionality o_def)
    also have "\<dots> = mset (map (\<lambda>k. ce_to_idx (?es ! k)) [0..<length ?es])" unfolding mf(1) by simp
    also have "map (\<lambda>k. ce_to_idx (?es ! k)) [0..<length ?es] = map ce_to_idx ?es" by (rule nth_equalityI) simp_all
    finally show ?thesis .
  qed
  have to2: "\<forall>i \<in> set ?to. unat i < ?n" using to_lt perm by (metis set_mset_mset)
  have st: "sorted (map unat ?to)" using mf(2) by (simp add: o_def)
  have same: "unat (csr_offsets ?n ?to ! i) = unat (csr_offsets ?n (map ce_to_idx ?es) ! i)" if "i \<le> ?n" for i
  proof -
    have "mset (map unat ?to) = mset (map unat (map ce_to_idx ?es))" using perm by (metis mset_map)
    then have "below (map unat ?to) i = below (map unat (map ce_to_idx ?es)) i"
      unfolding below_def by (metis mset_filter size_mset)
    then show ?thesis using csr_offsets_unat [OF to2 that] csr_offsets_unat [OF to_lt that len(2)] len(2) mlen by simp
  qed
  have igroups: "check_groups ?n (csr_offsets ?n (map ce_to_idx ?es)) (mirror_edge a) ce_to_idx = Inr ()"
  proof (subst check_groups_iff [OF ioffs, where f = "\<lambda>k. ?es ! unat (?m ! k)"])
    show "mirror_edge a k = Some (?es ! unat (?m ! k))" if "k < length (map ce_to_idx ?es)" for k
      using that mlen mlt by (simp add: mirror_edge_def get_at_def A)
    show "\<forall>i < ?n. \<forall>k. unat (csr_offsets ?n (map ce_to_idx ?es) ! i) \<le> k \<and>
        k < unat (csr_offsets ?n (map ce_to_idx ?es) ! Suc i) \<longrightarrow> unat (ce_to_idx (?es ! unat (?m ! k))) = i"
    proof (intro allI impI)
      fix i k assume i: "i < ?n" and k: "unat (csr_offsets ?n (map ce_to_idx ?es) ! i) \<le> k \<and>
        k < unat (csr_offsets ?n (map ce_to_idx ?es) ! Suc i)"
      have "length ?to < 2 ^ 32" using mlen len(2) by simp
      from sorted_groups [OF to2 this st i, of k] have "k < length ?to \<and> unat (?to ! k) = i"
        using k i same [of i] same [of "Suc i"] by fastforce
      then show "unat (ce_to_idx (?es ! unat (?m ! k))) = i" by (metis length_map nth_map)
    qed
  qed
  show ?thesis
    unfolding csr_ok_iff using srt buckets sorted_edges_ends [OF ok small] offs ioffs groups igroups check_mirror_mset [OF mf(1)]
    by (simp add: A)
qed

section \<open>The written archive holds the graph\<close>

lemma to_csr_data:
  assumes "small_graph ops G" and "to_csr ops G = Some a"
  shows "csr_node_data a = sorted_nodes ops G" and "cg_edges a = sorted_edges ops G"
proof -
  obtain a' where "to_csr ops G = Some a'" "cg_nodes a' = map csr_node_of (sorted_nodes ops G)"
    "cg_edges a' = sorted_edges ops G" using to_csr_total [OF assms(1)] .
  then show "csr_node_data a = sorted_nodes ops G" "cg_edges a = sorted_edges ops G"
    using assms(2) by (simp_all add: csr_node_data_def o_def)
qed

lemma named_nodes_perm:
  assumes "distinct (map nd_name xs)" and "mset xs = mset ys"
  shows "map_of (map (\<lambda>d. (nd_name d, node_view_from d)) xs) = map_of (map (\<lambda>d. (nd_name d, node_view_from d)) ys)"
proof (rule map_of_inject_set [THEN iffD2])
  have "mset (map nd_name xs) = mset (map nd_name ys)" using assms(2) by simp
  then have "distinct (map nd_name ys)" using assms(1) mset_eq_imp_distinct_iff by blast
  then show "distinct (map fst (map (\<lambda>d. (nd_name d, node_view_from d)) ys))" by (simp add: o_def)
  show "distinct (map fst (map (\<lambda>d. (nd_name d, node_view_from d)) xs))" using assms(1) by (simp add: o_def)
  show "set (map (\<lambda>d. (nd_name d, node_view_from d)) xs) = set (map (\<lambda>d. (nd_name d, node_view_from d)) ys)"
    using arg_cong [OF assms(2), of set_mset] by simp
qed

lemma to_csr_nodes:
  assumes "og_ok ops G" and "small_graph ops G" and "to_csr ops G = Some a"
  shows "csr_nodes a = og_nodes ops G"
  unfolding csr_nodes_def og_nodes_def to_csr_data(1) [OF assms(2,3)]
  by (rule named_nodes_perm [OF sorted_nodes_distinct [OF assms(1)]]) (simp add: sorted_nodes_def)

lemma to_csr_edges:
  assumes "og_ok ops G" and "small_graph ops G" and "to_csr ops G = Some a"
  shows "csr_edges a = og_edges ops G"
proof -
  let ?re = "re_edge (sorted_nodes ops G) (dg_nodes ops (og_graph G))"
  have "csr_edges a = image_mset (named_edge (sorted_nodes ops G)) (image_mset csr_indexed (image_mset ?re (mset (dg_edges ops (og_graph G)))))"
    by (simp add: csr_edges_def to_csr_data [OF assms(2,3)] sorted_edges_re)
  also have "\<dots> = image_mset (\<lambda>x. named_edge (sorted_nodes ops G) (csr_indexed (?re x))) (mset (dg_edges ops (og_graph G)))"
    by (simp add: image_mset.compositionality o_def)
  also have "\<dots> = og_edges ops G"
    unfolding og_edges_def using re_edge_ok(3) [OF assms(1,2)] by (intro image_mset_cong) simp
  finally show ?thesis .
qed

text \<open>The written archive is a correct view of the graph, at any validation level.\<close>

lemma to_csr_view:
  assumes "og_ok ops G" and "small_graph ops G" and "to_csr ops G = Some a"
  shows "accessor_ok (csr_accessor a) (og_nodes ops G) (og_edges ops G)"
  using csr_view.view [OF to_csr_ok [OF assms]] to_csr_nodes [OF assms] to_csr_edges [OF assms] by simp

section \<open>The bytes depend on the logical graph only\<close>

lemma edge_sort_key_inj: "inj edge_sort_key"
  by (rule injI) (simp add: edge_sort_key_def)

definition named_csr :: "node_data list \<Rightarrow> graph_edge \<Rightarrow> csr_edge" where
  "named_csr sorted_ns = (\<lambda>(f, t, e). csr_edge_of
     (of_nat (the (fmlookup (name_index sorted_ns) f))) (of_nat (the (fmlookup (name_index sorted_ns) t))) e)"

lemma to_csr_deterministic:
  assumes "og_ok ops G" and "mset (dg_nodes ops (og_graph G)) = mset (dg_nodes ops' (og_graph G'))"
    and "og_edges ops G = og_edges ops' G'"
  shows "to_csr ops G = to_csr ops' G'"
proof -
  have "inj_on nd_name (set (dg_nodes ops (og_graph G)))" using assms(1) by (simp add: og_ok_def distinct_map)
  then have ns: "sorted_nodes ops G = sorted_nodes ops' G'"
    unfolding sorted_nodes_def by (rule sort_key_mset_cong [OF assms(2)])
  have re: "mset (map (re_edge S (dg_nodes o1 (og_graph H))) (dg_edges o1 (og_graph H))) = image_mset (named_csr S) (og_edges o1 H)"
    for S :: "node_data list" and o1 :: "'z digraph_ops" and H
  proof -
    have "re_edge S (dg_nodes o1 (og_graph H)) = named_csr S \<circ> named_edge (dg_nodes o1 (og_graph H))"
      by (auto simp: re_edge_def named_csr_def named_edge_def)
    then show ?thesis by (simp add: og_edges_def image_mset.compositionality)
  qed
  have "sorted_edges ops G = sorted_edges ops' G'"
    unfolding sorted_edges_re ns
    by (rule sort_key_mset_cong) (simp_all only: re assms(3) inj_on_subset [OF edge_sort_key_inj] subset_UNIV)
  then show ?thesis by (simp add: to_csr_def ns)
qed

section \<open>Rebuilding\<close>

lemma rebuild_v2_roundtrip:
  assumes "codec_ok to_bytes access" and "digraph_laws ops" and "og_ok ops G" and "small_graph ops G"
    and "to_rkyv_v2 to_bytes ops G = Some bytes"
  obtains G' where "from_rkyv_rebuild_v2 access ops bytes = Inr G'" and "og_ok ops G'"
    and "dg_nodes ops (og_graph G') = sorted_nodes ops G"
    and "og_nodes ops G' = og_nodes ops G" and "og_edges ops G' = og_edges ops G"
proof -
  obtain a where a: "to_csr ops G = Some a" "bytes = to_bytes a" using assms(5) by (auto simp: to_rkyv_v2_def)
  note data = to_csr_data [OF assms(4) a(1)]
  let ?es = "map csr_indexed (cg_edges a)" and ?ns = "csr_node_data a"
  let ?G = "rebuild_from_serialized ops ?ns ?es"
  have r: "from_rkyv_rebuild_v2 access ops bytes = Inr ?G"
    by (simp add: from_rkyv_rebuild_v2_def a(2) codec_okD [OF assms(1)] csr_node_data_def csr_indexed_def [abs_def])
  have lim: "length ?ns \<le> dg_limit" "length ?es \<le> dg_limit"
    using assms(4) by (simp_all add: data small_graph_def sorted_edges_re)
  have d: "distinct (map nd_name ?ns)" using sorted_nodes_distinct [OF assms(3)] by (simp add: data)
  note c = rebuild_contents [OF assms(2) lim]
  have "filter (\<lambda>(f, t, e). f < length ?ns \<and> t < length ?ns) ?es = ?es"
    using sorted_edges_ends [OF assms(3,4)] by (intro filter_True) (auto simp: data csr_indexed_def simp del: sorted_nodes_length)
  then have e: "dg_edges ops (og_graph ?G) = ?es" using c(3) by simp
  have "og_nodes ops ?G = og_nodes ops G"
    unfolding og_nodes_def c(1) unfolding data(1)
    by (rule named_nodes_perm [OF sorted_nodes_distinct [OF assms(3)]]) (simp add: sorted_nodes_def)
  moreover have "og_edges ops ?G = og_edges ops G"
    using to_csr_edges [OF assms(3,4) a(1)] by (simp add: og_edges_def c(1) e csr_edges_def)
  ultimately show thesis using that [OF r rebuild_ok [OF assms(2) lim d]] c(1) data(1) by simp
qed

end
