(* ===== verification/OG_Base.thy ===== *)
theory OG_Base
  imports OG_Csr_Write
begin

text \<open>
  The two representations of the immutable base (\<open>BaseGraph\<close> of \<open>src/persist/mod.rs\<close>) and
  \<open>open_snapshot\<close> of \<open>src/persist/snapshot.rs\<close>. The file is what the read or the mapping returned;
  \<open>unchecked\<close> stands for \<open>rkyv::access_unchecked\<close>, which agrees with the checked access on
  structurally valid bytes. \<open>madvise\<close> has no observable effect.
\<close>

datatype base_mode = OwnedMode | MmapMode

datatype 'g base_graph = OwnedBase "'g orpheus_graph" | ArchivedBase csr_graph

fun as_accessor :: "'g digraph_ops \<Rightarrow> 'g base_graph \<Rightarrow> accessor" where
  "as_accessor ops (OwnedBase G) = graph_accessor ops G"
| "as_accessor ops (ArchivedBase a) = csr_accessor a"

fun base_node_names :: "(string list \<Rightarrow> string list) \<Rightarrow> 'g base_graph \<Rightarrow> string list" where
  "base_node_names ho (OwnedBase G) = fm_keys ho (og_index G)"
| "base_node_names ho (ArchivedBase a) = csr_node_names a"

definition open_owned ::
  "(bytes \<Rightarrow> u32) \<Rightarrow> (bytes \<Rightarrow> csr_graph option) \<Rightarrow> 'g digraph_ops \<Rightarrow> bytes \<Rightarrow> validate \<Rightarrow> u32 \<Rightarrow>
     persist_error + 'g base_graph" where
  "open_owned crc32 access ops bytes validate expected_crc =
     bindE (validate_v2 crc32 access bytes validate expected_crc) (\<lambda>_.
       case from_rkyv_rebuild_v2 access ops bytes of
         Inl msg \<Rightarrow> Inl (Corrupt msg)
       | Inr inner \<Rightarrow> Inr (OwnedBase inner))"

definition open_mapped ::
  "(bytes \<Rightarrow> u32) \<Rightarrow> (bytes \<Rightarrow> csr_graph option) \<Rightarrow> (bytes \<Rightarrow> csr_graph) \<Rightarrow> bytes \<Rightarrow> validate \<Rightarrow> u32 \<Rightarrow>
     persist_error + 'g base_graph" where
  "open_mapped crc32 access unchecked mmap validate expected_crc =
     bindE (validate_v2 crc32 access mmap validate expected_crc) (\<lambda>_.
       case validate of
         NoValidate \<Rightarrow> Inr (ArchivedBase (unchecked mmap))
       | _ \<Rightarrow> bindE (access_checked access mmap) (\<lambda>a. Inr (ArchivedBase a)))"

definition open_snapshot ::
  "(bytes \<Rightarrow> u32) \<Rightarrow> (bytes \<Rightarrow> csr_graph option) \<Rightarrow> (bytes \<Rightarrow> csr_graph) \<Rightarrow> 'g digraph_ops \<Rightarrow>
     io_error + bytes \<Rightarrow> base_mode \<Rightarrow> validate \<Rightarrow> bool \<Rightarrow> u32 \<Rightarrow> persist_error + 'g base_graph" where
  "open_snapshot crc32 access unchecked ops snap_file mode validate prefault expected_crc =
     bindE (from_io snap_file) (\<lambda>bytes.
       case mode of
         OwnedMode \<Rightarrow> open_owned crc32 access ops bytes validate expected_crc
       | MmapMode \<Rightarrow> open_mapped crc32 access unchecked bytes validate expected_crc)"

section \<open>Well-formed bases\<close>

fun base_ok :: "'g digraph_ops \<Rightarrow> 'g base_graph \<Rightarrow> bool" where
  "base_ok ops (OwnedBase G) \<longleftrightarrow> digraph_laws ops \<and> og_ok ops G"
| "base_ok ops (ArchivedBase a) \<longleftrightarrow> csr_ok a"

fun base_nodes :: "'g digraph_ops \<Rightarrow> 'g base_graph \<Rightarrow> string \<Rightarrow> node_view option" where
  "base_nodes ops (OwnedBase G) = og_nodes ops G"
| "base_nodes ops (ArchivedBase a) = csr_nodes a"

fun base_edges :: "'g digraph_ops \<Rightarrow> 'g base_graph \<Rightarrow> graph_edge multiset" where
  "base_edges ops (OwnedBase G) = og_edges ops G"
| "base_edges ops (ArchivedBase a) = csr_edges a"

interpretation base_view: graph_view "as_accessor ops" "base_ok ops" "base_nodes ops" "base_edges ops"
  for ops :: "'g digraph_ops"
proof
  fix b :: "'g base_graph"
  assume "base_ok ops b"
  then show "accessor_ok (as_accessor ops b) (base_nodes ops b) (base_edges ops b)"
    by (cases b) (auto intro: owned_view.view csr_view.view)
qed

lemma base_node_names_set:
  assumes "hash_order ho" and "base_ok ops b"
  shows "set (base_node_names ho b) = dom (base_nodes ops b)" and "distinct (base_node_names ho b)"
proof -
  have "set (base_node_names ho b) = dom (base_nodes ops b) \<and> distinct (base_node_names ho b)"
  proof (cases b)
    case (OwnedBase G)
    have "fset (fmdom (name_index ns)) = nd_name ` set ns" for ns
    proof (rule set_eqI)
      fix x show "x \<in> fset (fmdom (name_index ns)) \<longleftrightarrow> x \<in> nd_name ` set ns"
        using name_index_None [of ns x] by (metis fmdom_notD fmdom_notI)
    qed
    then show ?thesis
      using assms by (auto simp: OwnedBase set_fm_keys distinct_fm_keys og_ok_def og_nodes_def
          dom_map_of_conv_image_fst image_image)
  next
    case (ArchivedBase a)
    then show ?thesis using assms(2) csr_ok_distinct [of a]
      by (auto simp: csr_nodes_def csr_node_names_def csr_node_data_def dom_map_of_conv_image_fst image_image)
  qed
  then show "set (base_node_names ho b) = dom (base_nodes ops b)" "distinct (base_node_names ho b)" by auto
qed

section \<open>Opening untrusted bytes\<close>

lemma validate_full:
  "validate_v2 crc32 access bytes Full crc = Inr () \<longleftrightarrow>
     crc32 bytes = crc \<and> (\<exists>a. access bytes = Some a \<and> csr_ok a)"
  by (auto simp: validate_v2_def check_crc_def access_checked_def csr_ok_def bindE_Inr_iff split: option.splits)

lemma csr_ok_small:
  assumes "csr_ok a"
  shows "length (cg_nodes a) \<le> dg_limit" and "length (cg_edges a) \<le> dg_limit"
proof -
  have "check_buckets (cg_nodes a) (cg_name_buckets a) = Inr ()" using assms by (simp add: csr_ok_iff)
  then have t: "table_ok (cg_name_buckets a) (csr_node_names a)" by (simp add: check_buckets_iff csr_node_names_def)
  show "length (cg_nodes a) \<le> dg_limit"
  proof (cases "length (cg_nodes a)")
    case (Suc n)
    then obtain s where "cg_name_buckets a ! s \<noteq> empty_bucket" "unat (cg_name_buckets a ! s) = n"
      using t by (auto simp: table_ok_def placed_def csr_node_names_def)
    then have "n \<noteq> 2 ^ 32 - 1" "n < 2 ^ 32"
      using empty_bucket_unat unat_less_pow [of "cg_name_buckets a ! s"] by (auto simp: word_unat_eq_iff)
    then show ?thesis using Suc by (simp add: dg_limit_def)
  qed simp
  have "length (cg_edges a) = unat (cg_node_offsets a ! length (cg_nodes a))"
    using csr_ok_offs [OF assms] by (simp add: offsets_ok_def)
  then show "length (cg_edges a) \<le> dg_limit"
    using unat_less_pow [of "cg_node_offsets a ! length (cg_nodes a)"] by (simp add: dg_limit_def)
qed

lemma rebuild_csr:
  assumes "digraph_laws ops" and "csr_ok a" and "access bytes = Some a"
  obtains G where "from_rkyv_rebuild_v2 access ops bytes = Inr G" and "og_ok ops G"
    and "og_nodes ops G = csr_nodes a" and "og_edges ops G = csr_edges a"
proof -
  let ?es = "map csr_indexed (cg_edges a)" and ?ns = "csr_node_data a"
  let ?G = "rebuild_from_serialized ops ?ns ?es"
  have r: "from_rkyv_rebuild_v2 access ops bytes = Inr ?G"
    by (simp add: from_rkyv_rebuild_v2_def assms(3) csr_node_data_def csr_indexed_def [abs_def])
  have lim: "length ?ns \<le> dg_limit" "length ?es \<le> dg_limit"
    using csr_ok_small [OF assms(2)] by (simp_all add: csr_node_data_def)
  have d: "distinct (map nd_name ?ns)"
    using csr_ok_distinct [OF assms(2)] by (simp add: csr_node_data_def csr_node_names_def o_def)
  note c = rebuild_contents [OF assms(1) lim]
  have "filter (\<lambda>(f, t, e). f < length ?ns \<and> t < length ?ns) ?es = ?es"
    using csr_ok_ends [OF assms(2)] by (intro filter_True) (auto simp: csr_node_data_def csr_indexed_def)
  then have e: "dg_edges ops (og_graph ?G) = ?es" using c(3) by simp
  show thesis
    by (rule that [OF r rebuild_ok [OF assms(1) lim d]]) (simp_all add: og_nodes_def og_edges_def csr_nodes_def csr_edges_def c(1) e)
qed

text \<open>Opening arbitrary bytes with full validation either fails or yields a correct view of the
  graph the archive holds, in both modes.\<close>

lemma open_full:
  assumes "digraph_laws ops" and "open_snapshot crc32 access unchecked ops snap_file mode Full prefault crc = Inr b"
  obtains bytes a where "snap_file = Inr bytes" and "crc32 bytes = crc" and "access bytes = Some a" and "csr_ok a"
    and "base_ok ops b" and "base_nodes ops b = csr_nodes a" and "base_edges ops b = csr_edges a"
proof -
  obtain bytes where bytes: "snap_file = Inr bytes"
    using assms(2) by (cases snap_file) (auto simp: open_snapshot_def)
  have v: "validate_v2 crc32 access bytes Full crc = Inr ()"
    using assms(2) by (cases mode) (auto simp: open_snapshot_def bytes open_owned_def open_mapped_def bindE_Inr_iff)
  then obtain a where a: "crc32 bytes = crc" "access bytes = Some a" "csr_ok a" by (auto simp: validate_full)
  show thesis
  proof (cases mode)
    case OwnedMode
    obtain G where G: "from_rkyv_rebuild_v2 access ops bytes = Inr G" "og_ok ops G"
      "og_nodes ops G = csr_nodes a" "og_edges ops G = csr_edges a" using rebuild_csr [where access = access and bytes = bytes, OF assms(1) a(3,2)] .
    then have "b = OwnedBase G"
      using assms(2) v by (simp add: open_snapshot_def bytes OwnedMode open_owned_def)
    then show thesis using that [OF bytes a] G assms(1) by simp
  next
    case MmapMode
    then have "b = ArchivedBase a"
      using assms(2) v a by (simp add: open_snapshot_def bytes open_mapped_def access_checked_def)
    then show thesis using that [OF bytes a] a by simp
  qed
qed

lemma open_checked_crc:
  assumes "crc32 bytes \<noteq> crc" and "validate \<noteq> NoValidate"
  shows "\<exists>msg. open_snapshot crc32 access unchecked ops (Inr bytes) mode validate prefault crc = Inl (Corrupt msg)"
  using assms by (cases mode; cases validate)
    (auto simp: open_snapshot_def open_owned_def open_mapped_def validate_v2_def check_crc_def)

section \<open>Opening what was written\<close>

definition unchecked_ok :: "(bytes \<Rightarrow> csr_graph option) \<Rightarrow> (bytes \<Rightarrow> csr_graph) \<Rightarrow> bool" where
  "unchecked_ok access unchecked \<longleftrightarrow> (\<forall>b a. access b = Some a \<longrightarrow> unchecked b = a)"

lemma open_written:
  assumes codec: "codec_ok to_bytes access" "unchecked_ok access unchecked" and "digraph_laws ops"
    and G: "og_ok ops G" "small_graph ops G" and w: "to_rkyv_v2 to_bytes ops G = Some bytes"
  obtains b where "open_snapshot crc32 access unchecked ops (Inr bytes) mode validate prefault (crc32 bytes) = Inr b"
    and "base_ok ops b" and "base_nodes ops b = og_nodes ops G" and "base_edges ops b = og_edges ops G"
proof -
  obtain a where a: "to_csr ops G = Some a" "bytes = to_bytes a" using w by (auto simp: to_rkyv_v2_def)
  have ac: "access bytes = Some a" using codec(1) by (simp add: a(2) codec_okD)
  have un: "unchecked bytes = a" using codec(2) ac by (simp add: unchecked_ok_def)
  note ok = to_csr_ok [OF G a(1)] and N = to_csr_nodes [OF G a(1)] and E = to_csr_edges [OF G a(1)]
  have v: "validate_v2 crc32 access bytes validate (crc32 bytes) = Inr ()"
    using ok by (cases validate) (simp_all add: validate_v2_def check_crc_def access_checked_def ac csr_ok_def)
  show thesis
  proof (cases mode)
    case OwnedMode
    obtain G' where G': "from_rkyv_rebuild_v2 access ops bytes = Inr G'" "og_ok ops G'"
      "og_nodes ops G' = csr_nodes a" "og_edges ops G' = csr_edges a" using rebuild_csr [where access = access and bytes = bytes, OF assms(3) ok ac] .
    show thesis
      by (rule that [of "OwnedBase G'"]) (use v G' N E assms(3) in \<open>simp_all add: open_snapshot_def OwnedMode open_owned_def\<close>)
  next
    case MmapMode
    show thesis
      by (rule that [of "ArchivedBase a"])
        (use v un ok N E in \<open>auto simp: open_snapshot_def MmapMode open_mapped_def access_checked_def ac split: validate.split\<close>)
  qed
qed

end
