(* ===== verification/OG_Delta_Inv.thy ===== *)
theory OG_Delta_Inv
  imports OG_Delta
begin

text \<open>
  The invariant of a delta over a correct base and its preservation: the structural part
  (\<open>delta_wf\<close>: distinct shadow keys, disjoint from the tombstones, exact position indices), the four
  counters (\<open>delta_counts\<close>) and the presence of the endpoints of live delta edges
  (\<open>delta_closed\<close>). The logical graph of a base with node map \<open>N\<close> and edges \<open>E\<close> under a delta \<open>d\<close>
  has nodes \<open>delta_nodes base d\<close> and edges \<open>delta_edges E d\<close>.
\<close>

section \<open>The logical graph under a delta\<close>

definition delta_nodes :: "accessor \<Rightarrow> graph_delta \<Rightarrow> string \<Rightarrow> node_view option" where
  "delta_nodes base d n =
     (case map_of (added_nodes d) n of Some nd \<Rightarrow> Some (node_view_from nd)
      | None \<Rightarrow> if n |\<in>| removed_nodes d then None else acc_get_node base n)"

definition masked_by ::
  "string fset \<Rightarrow> (string \<times> string \<times> string) fset \<Rightarrow> graph_edge \<Rightarrow> bool" where
  "masked_by R RE x = (case x of (f, t, e) \<Rightarrow>
     f |\<in>| R \<or> t |\<in>| R \<or> (f, t, ed_kind e) |\<in>| RE)"

definition edge_of :: "delta_edge \<Rightarrow> graph_edge" where
  "edge_of e = (de_from e, de_to e, de_edge e)"

definition live_edges :: "graph_delta \<Rightarrow> graph_edge list" where
  "live_edges d = map edge_of (filter (\<lambda>e. \<not> de_dead e) (added_edges d))"

definition delta_edges :: "graph_edge multiset \<Rightarrow> graph_delta \<Rightarrow> graph_edge multiset" where
  "delta_edges E d =
     filter_mset (\<lambda>x. \<not> masked_by (removed_nodes d) (removed_edges d) x) E + mset (live_edges d)"

definition positions :: "(delta_edge \<Rightarrow> string) \<Rightarrow> delta_edge list \<Rightarrow> string \<Rightarrow> u32 list" where
  "positions f es n = map of_nat (filter (\<lambda>i. f (es ! i) = n) [0..<length es])"

definition delta_wf :: "graph_delta \<Rightarrow> bool" where
  "delta_wf d \<longleftrightarrow>
     distinct (map fst (added_nodes d)) \<and>
     (\<forall>k nd. map_of (added_nodes d) k = Some nd \<longrightarrow> nd_name nd = k \<and> k |\<notin>| removed_nodes d) \<and>
     length (added_edges d) \<le> 2 ^ 32 \<and>
     (\<forall>n. index_get (out_index d) n = positions de_from (added_edges d) n) \<and>
     (\<forall>n. index_get (in_index d) n = positions de_to (added_edges d) n)"

definition delta_counts :: "accessor \<Rightarrow> graph_edge multiset \<Rightarrow> graph_delta \<Rightarrow> bool" where
  "delta_counts base E d \<longleftrightarrow>
     tombstone_base_hits d = int (card {n \<in> fset (removed_nodes d). acc_get_node base n \<noteq> None}) \<and>
     added_non_base d = int (card {n \<in> dom (map_of (added_nodes d)). acc_get_node base n = None}) \<and>
     masked_base_edge_count d =
       int (size (filter_mset (masked_by (removed_nodes d) (removed_edges d)) E)) \<and>
     live_delta_edge_count d = int (length (live_edges d))"

definition delta_closed :: "accessor \<Rightarrow> graph_delta \<Rightarrow> bool" where
  "delta_closed base d \<longleftrightarrow>
     (\<forall>(f, t, e) \<in> set (live_edges d). delta_nodes base d f \<noteq> None \<and> delta_nodes base d t \<noteq> None)"

definition delta_inv :: "accessor \<Rightarrow> graph_edge multiset \<Rightarrow> graph_delta \<Rightarrow> bool" where
  "delta_inv base E d \<longleftrightarrow> delta_wf d \<and> delta_counts base E d \<and> delta_closed base d"

section \<open>Positions\<close>

lemma unat_of_nat_u32: "i < 2 ^ 32 \<Longrightarrow> unat (of_nat i :: u32) = i"
  by (simp add: unat_of_nat)

lemma positions_snoc:
  "positions f (es @ [e]) n = positions f es n @ (if f e = n then [of_nat (length es)] else [])"
proof -
  have "filter (\<lambda>i. f ((es @ [e]) ! i) = n) [0..<length es] = filter (\<lambda>i. f (es ! i) = n) [0..<length es]"
    by (rule filter_cong) (auto simp: nth_append)
  then show ?thesis by (simp add: positions_def)
qed

lemma positions_cong:
  assumes "length es' = length es" and "\<And>i. i < length es \<Longrightarrow> f (es' ! i) = f (es ! i)"
  shows "positions f es' n = positions f es n"
  unfolding positions_def using assms by (auto intro!: arg_cong [where f = "map of_nat"] filter_cong)

lemma positions_mem:
  assumes "length es \<le> 2 ^ 32"
  shows "unat ` set (positions f es n) = {i. i < length es \<and> f (es ! i) = n}"
proof -
  have "unat ` set (positions f es n) = (\<lambda>i. unat (of_nat i :: u32)) ` {i. i < length es \<and> f (es ! i) = n}"
    by (auto simp: positions_def image_image)
  also have "\<dots> = id ` {i. i < length es \<and> f (es ! i) = n}"
    using assms by (intro image_cong) (auto simp: unat_of_nat_u32)
  finally show ?thesis by simp
qed

lemma map_filter_positions:
  assumes "length es \<le> 2 ^ 32"
  shows "map (\<lambda>p. G (es ! unat p)) (filter (\<lambda>p. H (es ! unat p)) (positions f es n)) =
         map G (filter (\<lambda>e. f e = n \<and> H e) es)"
proof -
  have *: "filter (\<lambda>i. H (es ! unat (of_nat i :: u32))) xs = filter (\<lambda>i. H (es ! i)) xs"
    "map (\<lambda>i. G (es ! unat (of_nat i :: u32))) xs = map (\<lambda>i. G (es ! i)) xs"
    if "set xs \<subseteq> {0..<length es}" for xs
    using that assms by (auto intro!: filter_cong map_cong simp: unat_of_nat_u32 subset_iff)
  have "map G (filter (\<lambda>e. f e = n \<and> H e) es) =
      map G (filter (\<lambda>e. f e = n \<and> H e) (map ((!) es) [0..<length es]))"
    by (simp add: map_nth)
  also have "\<dots> = map (\<lambda>i. G (es ! i)) (filter (\<lambda>i. H (es ! i)) (filter (\<lambda>i. f (es ! i) = n) [0..<length es]))"
    by (simp add: filter_map o_def conj_commute)
  also have "\<dots> = map (\<lambda>i. G (es ! unat (of_nat i :: u32)))
      (filter (\<lambda>i. H (es ! i)) (filter (\<lambda>i. f (es ! i) = n) [0..<length es]))"
    by (subst *(2)) auto
  also have "\<dots> = map (\<lambda>i. G (es ! unat (of_nat i :: u32)))
      (filter (\<lambda>i. H (es ! unat (of_nat i :: u32))) (filter (\<lambda>i. f (es ! i) = n) [0..<length es]))"
    by (subst *(1)) auto
  finally show ?thesis by (simp add: positions_def filter_map o_def)
qed

section \<open>Killing delta edges\<close>

lemma kill_length [simp]: "length (fst (kill_positions P ps es live)) = length es"
  by (induction P ps es live rule: kill_positions.induct) (auto simp: Let_def)

lemma kill_nth:
  assumes "\<And>e. P (e\<lparr>de_dead := True\<rparr>) = P e" and "\<forall>p \<in> set ps. unat p < length es" and "i < length es"
  shows "fst (kill_positions P ps es live) ! i =
    (if i \<in> unat ` set ps \<and> P (es ! i) then (es ! i)\<lparr>de_dead := True\<rparr> else es ! i)"
  using assms(2,3)
proof (induction ps arbitrary: es live)
  case (Cons p ps)
  have dead: "de_dead e \<Longrightarrow> e\<lparr>de_dead := True\<rparr> = e" for e :: delta_edge by simp
  show ?case
  proof (cases "\<not> de_dead (es ! unat p) \<and> P (es ! unat p)")
    case True
    then show ?thesis using Cons by (auto simp: Let_def nth_list_update assms(1))
  next
    case False
    then show ?thesis using Cons dead by (auto simp: Let_def)
  qed
qed simp

lemma length_filter_update:
  assumes "i < length xs" and "Q (xs ! i)" and "\<not> Q y"
  shows "length (filter Q xs) = Suc (length (filter Q (xs[i := y])))"
proof -
  have xs: "xs = take i xs @ xs ! i # drop (Suc i) xs" using assms(1) by (rule id_take_nth_drop)
  have ys: "xs[i := y] = take i xs @ y # drop (Suc i) xs" using assms(1) by (rule upd_conv_take_nth_drop)
  have "length (filter Q xs) = length (filter Q (take i xs)) + Suc (length (filter Q (drop (Suc i) xs)))"
    using assms(2) by (subst xs) simp
  then show ?thesis using assms(3) by (simp add: ys)
qed

lemma kill_live:
  assumes "\<forall>p \<in> set ps. unat p < length es"
  shows "snd (kill_positions P ps es live) =
    live - int (length (filter (\<lambda>e. \<not> de_dead e) es))
         + int (length (filter (\<lambda>e. \<not> de_dead e) (fst (kill_positions P ps es live))))"
  using assms
proof (induction ps arbitrary: es live)
  case (Cons p ps)
  have "length (filter (\<lambda>e. \<not> de_dead e) es) =
      Suc (length (filter (\<lambda>e. \<not> de_dead e) (es[unat p := (es ! unat p)\<lparr>de_dead := True\<rparr>])))"
    if "\<not> de_dead (es ! unat p)"
    using that Cons.prems by (intro length_filter_update) auto
  then show ?case using Cons by (auto simp: Let_def)
qed simp

text \<open>When the positions are those of the edges that satisfy \<open>S\<close>, the kill is a map over the edges.\<close>

lemma kill_map:
  assumes "\<And>e. P (e\<lparr>de_dead := True\<rparr>) = P e"
    and "unat ` set ps = {i. i < length es \<and> S (es ! i)}"
  shows "fst (kill_positions P ps es live) = map (\<lambda>e. if S e \<and> P e then e\<lparr>de_dead := True\<rparr> else e) es"
proof (rule nth_equalityI)
  fix i assume "i < length (fst (kill_positions P ps es live))"
  then have i: "i < length es" by simp
  have "\<forall>p \<in> set ps. unat p < length es" using assms(2) by auto
  then show "fst (kill_positions P ps es live) ! i =
      map (\<lambda>e. if S e \<and> P e then e\<lparr>de_dead := True\<rparr> else e) es ! i"
    using i by (simp add: kill_nth assms)
qed simp

lemma filter_live_kill:
  "filter (\<lambda>e. \<not> de_dead e) (map (\<lambda>e. if K e then e\<lparr>de_dead := True\<rparr> else e) es) =
   filter (\<lambda>e. \<not> de_dead e \<and> \<not> K e) es"
  by (induction es) auto

section \<open>Masking\<close>

lemma count_out_transitions_eq:
  assumes "accessor_ok base N E"
  shows "count_out_transitions d n (acc_outgoing base n) =
    int (size (filter_mset (\<lambda>(f, t, e). f = n \<and> t |\<notin>| removed_nodes d \<and>
                              (n, t, ed_kind e) |\<notin>| removed_edges d) E))"
proof -
  let ?P = "\<lambda>nb. nb_target_name nb |\<notin>| removed_nodes d \<and>
    (n, nb_target_name nb, nb_edge_kind nb) |\<notin>| removed_edges d"
  have "count_out_transitions d n nbs = int (length (filter ?P nbs))" for nbs
    by (induction nbs) auto
  then show ?thesis using count_outgoing [OF assms, of ?P n] by simp
qed

lemma count_in_transitions_eq:
  assumes "accessor_ok base N E"
  shows "count_in_transitions d n (acc_incoming base n) =
    int (size (filter_mset (\<lambda>(f, t, e). t = n \<and> f \<noteq> n \<and> f |\<notin>| removed_nodes d \<and>
                              (f, n, ed_kind e) |\<notin>| removed_edges d) E))"
proof -
  let ?P = "\<lambda>nb. nb_target_name nb \<noteq> n \<and> nb_target_name nb |\<notin>| removed_nodes d \<and>
    (nb_target_name nb, n, nb_edge_kind nb) |\<notin>| removed_edges d"
  have "count_in_transitions d n nbs = int (length (filter ?P nbs))" for nbs
    by (induction nbs) auto
  then show ?thesis using count_incoming [OF assms, of ?P n] by simp
qed

lemma masked_insert_node:
  assumes "n |\<notin>| R"
  shows "size (filter_mset (masked_by (finsert n R) RE) E) =
    size (filter_mset (masked_by R RE) E)
    + size (filter_mset (\<lambda>(f, t, e). f = n \<and> t |\<notin>| R \<and> (n, t, ed_kind e) |\<notin>| RE) E)
    + size (filter_mset (\<lambda>(f, t, e). t = n \<and> f \<noteq> n \<and> f |\<notin>| R \<and> (f, n, ed_kind e) |\<notin>| RE) E)"
  using assms by (induction E) (auto simp: masked_by_def)

lemma masked_insert_edge:
  assumes "(a, b, k) |\<notin>| RE"
  shows "size (filter_mset (masked_by R (finsert (a, b, k) RE)) E) =
    size (filter_mset (masked_by R RE) E)
    + (if a |\<in>| R \<or> b |\<in>| R then 0
       else size (filter_mset (\<lambda>(f, t, e). f = a \<and> t = b \<and> ed_kind e = k) E))"
  using assms by (induction E) (auto simp: masked_by_def)

lemma masked_absent_node:
  assumes ok: "accessor_ok base N E" and "N n = None"
  shows "filter_mset (masked_by (finsert n R) RE) E = filter_mset (masked_by R RE) E"
proof (rule filter_mset_cong [OF refl])
  fix x assume "x \<in># E"
  moreover obtain f t e where "x = (f, t, e)" by (cases x)
  ultimately have "fst x \<noteq> n \<and> fst (snd x) \<noteq> n"
    using accessor_ok_src [OF ok, of f t e] accessor_ok_tgt [OF ok, of f t e] assms(2)
    by (auto simp: domIff)
  then show "masked_by (finsert n R) RE x = masked_by R RE x"
    by (auto simp: masked_by_def split: prod.splits)
qed

section \<open>The effect of each mutator on the fields\<close>

lemma index_get_fmupd: "index_get (fmupd k v m) n = (if n = k then v else index_get m n)"
  by (simp add: index_get_def)

lemma upsert_fields:
  "added_nodes (upsert_node base nd d) = AList.update (nd_name nd) nd (added_nodes d)"
  "added_edges (upsert_node base nd d) = added_edges d"
  "removed_nodes (upsert_node base nd d) = removed_nodes d |-| {|nd_name nd|}"
  "removed_edges (upsert_node base nd d) = removed_edges d"
  "out_index (upsert_node base nd d) = out_index d"
  "in_index (upsert_node base nd d) = in_index d"
  "live_delta_edge_count (upsert_node base nd d) = live_delta_edge_count d"
  by (simp_all add: upsert_node_def Let_def unmask_incident_base_edges_def)

lemma remove_node_fields:
  "added_nodes (remove_node base n d) = AList.delete n (added_nodes d)"
  "removed_nodes (remove_node base n d) = finsert n (removed_nodes d)"
  "removed_edges (remove_node base n d) = removed_edges d"
  "out_index (remove_node base n d) = out_index d"
  "in_index (remove_node base n d) = in_index d"
  "added_edges (remove_node base n d) = fst (kill_positions (\<lambda>_. True)
     (index_get (out_index d) n @ index_get (in_index d) n) (added_edges d) (live_delta_edge_count d))"
  "live_delta_edge_count (remove_node base n d) = snd (kill_positions (\<lambda>_. True)
     (index_get (out_index d) n @ index_get (in_index d) n) (added_edges d) (live_delta_edge_count d))"
  by (simp_all add: remove_node_def Let_def mask_incident_base_edges_def)

lemma remove_edge_fields:
  "added_nodes (remove_edge base f t k d) = added_nodes d"
  "removed_nodes (remove_edge base f t k d) = removed_nodes d"
  "removed_edges (remove_edge base f t k d) = finsert (f, t, k) (removed_edges d)"
  "out_index (remove_edge base f t k d) = out_index d"
  "in_index (remove_edge base f t k d) = in_index d"
  "tombstone_base_hits (remove_edge base f t k d) = tombstone_base_hits d"
  "added_non_base (remove_edge base f t k d) = added_non_base d"
  "added_edges (remove_edge base f t k d) =
     fst (kill_positions (\<lambda>e. de_to e = t \<and> ed_kind (de_edge e) = k)
       (index_get (out_index d) f) (added_edges d) (live_delta_edge_count d))"
  "live_delta_edge_count (remove_edge base f t k d) =
     snd (kill_positions (\<lambda>e. de_to e = t \<and> ed_kind (de_edge e) = k)
       (index_get (out_index d) f) (added_edges d) (live_delta_edge_count d))"
  by (simp_all add: remove_edge_def Let_def)

lemma add_edge_fields:
  "added_nodes (add_edge f t e d) = added_nodes d"
  "removed_nodes (add_edge f t e d) = removed_nodes d"
  "removed_edges (add_edge f t e d) = removed_edges d"
  "tombstone_base_hits (add_edge f t e d) = tombstone_base_hits d"
  "added_non_base (add_edge f t e d) = added_non_base d"
  "masked_base_edge_count (add_edge f t e d) = masked_base_edge_count d"
  "live_delta_edge_count (add_edge f t e d) = live_delta_edge_count d + 1"
  "added_edges (add_edge f t e d) = added_edges d @
     [\<lparr>de_from = f, de_to = t, de_edge = e\<lparr>ed_acl := normalize_acl (ed_acl e)\<rparr>, de_dead = False\<rparr>]"
  by (simp_all add: add_edge_def Let_def)

lemmas mutator_fields = upsert_fields remove_node_fields remove_edge_fields add_edge_fields

section \<open>Live edges after each mutator\<close>

lemma delta_wf_positions:
  assumes "delta_wf d"
  shows "unat ` set (index_get (out_index d) n) =
      {i. i < length (added_edges d) \<and> de_from (added_edges d ! i) = n}"
    and "unat ` set (index_get (in_index d) n) =
      {i. i < length (added_edges d) \<and> de_to (added_edges d ! i) = n}"
  using assms positions_mem [of "added_edges d"] by (auto simp: delta_wf_def)

lemma remove_node_edges:
  assumes "delta_wf d"
  shows "added_edges (remove_node base n d) =
    map (\<lambda>e. if de_from e = n \<or> de_to e = n then e\<lparr>de_dead := True\<rparr> else e) (added_edges d)"
proof -
  have "unat ` set (index_get (out_index d) n @ index_get (in_index d) n) =
      {i. i < length (added_edges d) \<and> (de_from (added_edges d ! i) = n \<or> de_to (added_edges d ! i) = n)}"
    unfolding set_append image_Un delta_wf_positions [OF assms] by blast
  from kill_map [OF _ this, of "\<lambda>_. True"] show ?thesis by (simp add: remove_node_fields)
qed

lemma remove_edge_edges:
  assumes "delta_wf d"
  shows "added_edges (remove_edge base f t k d) =
    map (\<lambda>e. if de_from e = f \<and> de_to e = t \<and> ed_kind (de_edge e) = k
             then e\<lparr>de_dead := True\<rparr> else e) (added_edges d)"
  using kill_map [OF _ delta_wf_positions(1) [OF assms, of f],
      where P = "\<lambda>e. de_to e = t \<and> ed_kind (de_edge e) = k"]
  by (simp add: remove_edge_fields)

lemma live_edges_upsert [simp]: "live_edges (upsert_node base nd d) = live_edges d"
  by (simp add: live_edges_def upsert_fields)

lemma live_edges_add:
  "live_edges (add_edge f t e d) = live_edges d @ [(f, t, e\<lparr>ed_acl := normalize_acl (ed_acl e)\<rparr>)]"
  by (simp add: live_edges_def add_edge_fields edge_of_def)

lemma live_edges_remove_node:
  assumes "delta_wf d"
  shows "live_edges (remove_node base n d) = filter (\<lambda>(f, t, e). f \<noteq> n \<and> t \<noteq> n) (live_edges d)"
proof -
  have "live_edges (remove_node base n d) = map edge_of
      (filter (\<lambda>e. \<not> de_dead e \<and> \<not> (de_from e = n \<or> de_to e = n)) (added_edges d))"
    by (simp add: live_edges_def remove_node_edges [OF assms] filter_live_kill)
  then show ?thesis by (simp add: live_edges_def filter_map o_def edge_of_def conj_commute)
qed

lemma live_edges_remove_edge:
  assumes "delta_wf d"
  shows "live_edges (remove_edge base a b k d) =
    filter (\<lambda>(f, t, e). \<not> (f = a \<and> t = b \<and> ed_kind e = k)) (live_edges d)"
proof -
  have "live_edges (remove_edge base a b k d) = map edge_of
      (filter (\<lambda>e. \<not> de_dead e \<and> \<not> (de_from e = a \<and> de_to e = b \<and> ed_kind (de_edge e) = k)) (added_edges d))"
    by (simp add: live_edges_def remove_edge_edges [OF assms] filter_live_kill)
  then show ?thesis by (simp add: live_edges_def filter_map o_def edge_of_def conj_commute)
qed

lemma live_count_kill:
  assumes "live = int (length (filter (\<lambda>e. \<not> de_dead e) es))" and "\<forall>p \<in> set ps. unat p < length es"
  shows "snd (kill_positions P ps es live) =
    int (length (filter (\<lambda>e. \<not> de_dead e) (fst (kill_positions P ps es live))))"
  using kill_live [OF assms(2), of P live] assms(1) by simp

lemma wf_positions_bound:
  assumes "delta_wf d"
  shows "\<forall>p \<in> set (index_get (out_index d) n @ index_get (in_index d) m). unat p < length (added_edges d)"
  using delta_wf_positions [OF assms] by fastforce

section \<open>Structural invariant\<close>

lemma map_of_update_Some: "map_of (AList.update k v al) x = Some y \<longleftrightarrow> (if x = k then y = v else map_of al x = Some y)"
  by (auto simp: map_of_AList_update)

lemma upsert_wf [og_inv]: "delta_wf d \<Longrightarrow> delta_wf (upsert_node base nd d)"
  by (auto simp: delta_wf_def upsert_fields distinct_update map_of_AList_update split: if_splits)

lemma remove_node_wf [og_inv]:
  assumes "delta_wf d" shows "delta_wf (remove_node base n d)"
proof -
  have "positions de_from (added_edges (remove_node base n d)) m = positions de_from (added_edges d) m"
    "positions de_to (added_edges (remove_node base n d)) m = positions de_to (added_edges d) m" for m
    by (auto intro!: positions_cong simp: remove_node_edges [OF assms])
  then show ?thesis using assms
    by (auto simp: delta_wf_def remove_node_fields distinct_delete map_of_AList_delete split: if_splits)
qed

lemma remove_edge_wf [og_inv]:
  assumes "delta_wf d" shows "delta_wf (remove_edge base f t k d)"
proof -
  have "positions de_from (added_edges (remove_edge base f t k d)) m = positions de_from (added_edges d) m"
    "positions de_to (added_edges (remove_edge base f t k d)) m = positions de_to (added_edges d) m" for m
    by (auto intro!: positions_cong simp: remove_edge_edges [OF assms])
  then show ?thesis using assms by (auto simp: delta_wf_def remove_edge_fields)
qed

lemma add_edge_wf [og_inv]:
  assumes "delta_wf d" and "length (added_edges d) < 2 ^ 32"
  shows "delta_wf (add_edge f t e d)"
  using assms
  by (auto simp: delta_wf_def add_edge_fields positions_snoc) (auto simp: add_edge_def Let_def index_get_fmupd)

section \<open>The counters\<close>

lemma length_live_edges: "length (live_edges d) = length (filter (\<lambda>e. \<not> de_dead e) (added_edges d))"
  by (simp add: live_edges_def)

lemma card_fremove:
  assumes "n |\<in>| R" and "P n"
  shows "card {m \<in> fset R. P m} = Suc (card {m \<in> fset (R |-| {|n|}). P m})"
proof -
  have "{m \<in> fset R. P m} = insert n {m \<in> fset (R |-| {|n|}). P m}" using assms by auto
  then show ?thesis by simp
qed

lemma card_finsert:
  "card {m \<in> fset (finsert n R). P m} =
     (if n |\<notin>| R \<and> P n then Suc (card {m \<in> fset R. P m}) else card {m \<in> fset R. P m})"
proof (cases "n |\<notin>| R \<and> P n")
  case True
  then have "{m \<in> fset (finsert n R). P m} = insert n {m \<in> fset R. P m}" by auto
  then show ?thesis using True by simp
next
  case False
  then have "{m \<in> fset (finsert n R). P m} = {m \<in> fset R. P m}" by auto
  then show ?thesis using False by simp
qed

lemma card_dom_update:
  "card {m \<in> dom (map_of (AList.update k v al)). P m} =
     (if map_of al k = None \<and> P k then Suc (card {m \<in> dom (map_of al). P m})
      else card {m \<in> dom (map_of al). P m})"
proof (cases "map_of al k = None \<and> P k")
  case True
  then have "{m \<in> dom (map_of (AList.update k v al)). P m} = insert k {m \<in> dom (map_of al). P m}"
    by (auto simp: map_of_AList_update)
  moreover have "finite {m \<in> dom (map_of al). P m}"
    by (rule finite_subset [OF _ finite_dom_map_of [of al]]) auto
  moreover have "k \<notin> {m \<in> dom (map_of al). P m}" using True by auto
  ultimately show ?thesis using True by (simp only: card_insert_disjoint) simp
next
  case False
  then have "{m \<in> dom (map_of (AList.update k v al)). P m} = {m \<in> dom (map_of al). P m}"
    by (auto simp: map_of_AList_update split: if_splits)
  then show ?thesis using False by simp
qed

lemma card_dom_delete:
  "card {m \<in> dom (map_of al). P m} =
     (if map_of al k \<noteq> None \<and> P k then Suc (card {m \<in> dom (map_of (AList.delete k al)). P m})
      else card {m \<in> dom (map_of (AList.delete k al)). P m})"
proof (cases "map_of al k \<noteq> None \<and> P k")
  case True
  then have "{m \<in> dom (map_of al). P m} = insert k {m \<in> dom (map_of (AList.delete k al)). P m}"
    by (auto simp: map_of_AList_delete split: if_splits)
  then show ?thesis using True
    by (simp add: finite_dom_map_of map_of_AList_delete)
next
  case False
  then have "{m \<in> dom (map_of al). P m} = {m \<in> dom (map_of (AList.delete k al)). P m}"
    by (auto simp: map_of_AList_delete split: if_splits)
  then show ?thesis using False by simp
qed

lemma upsert_counts [og_inv]:
  assumes ok: "accessor_ok base N E" and inv: "delta_counts base E d"
  shows "delta_counts base E (upsert_node base nd d)"
proof -
  let ?n = "nd_name nd" and ?R = "removed_nodes d" and ?RE = "removed_edges d"
  let ?R' = "?R |-| {|?n|}"
  have masked: "size (filter_mset (masked_by ?R ?RE) E) =
      size (filter_mset (masked_by ?R' ?RE) E)
      + size (filter_mset (\<lambda>(f, t, e). f = ?n \<and> t |\<notin>| ?R' \<and> (?n, t, ed_kind e) |\<notin>| ?RE) E)
      + size (filter_mset (\<lambda>(f, t, e). t = ?n \<and> f \<noteq> ?n \<and> f |\<notin>| ?R' \<and> (f, ?n, ed_kind e) |\<notin>| ?RE) E)"
    if "?n |\<in>| ?R"
    using masked_insert_node [of ?n ?R' ?RE E] that by (simp add: finsert_absorb)
  have absent: "filter_mset (masked_by ?R ?RE) E = filter_mset (masked_by ?R' ?RE) E"
    if "acc_get_node base ?n = None"
  proof (cases "?n |\<in>| ?R")
    case True
    then have "finsert ?n ?R' = ?R" by auto
    then show ?thesis
      using masked_absent_node [OF ok, of ?n ?R' ?RE] that by (simp add: accessor_ok_get [OF ok])
  next
    case False
    then show ?thesis by simp
  qed
  note counts = inv [unfolded delta_counts_def]
  show ?thesis
  proof (cases "?n |\<in>| ?R \<and> acc_get_node base ?n \<noteq> None")
    case True
    then show ?thesis
      using counts masked card_fremove [of ?n ?R "\<lambda>m. acc_get_node base m \<noteq> None"]
      by (simp add: delta_counts_def upsert_node_def Let_def unmask_incident_base_edges_def
          count_out_transitions_eq [OF ok] count_in_transitions_eq [OF ok] live_edges_def card_dom_update)
  next
    case False
    have same: "{m \<in> fset (?R |-| {|?n|}). acc_get_node base m \<noteq> None} =
        {m \<in> fset ?R. acc_get_node base m \<noteq> None}" using False by auto
    have "size (filter_mset (masked_by ?R' ?RE) E) = size (filter_mset (masked_by ?R ?RE) E)"
      using False absent by (cases "?n |\<in>| ?R") auto
    then show ?thesis
      using counts False same
      by (auto simp: delta_counts_def upsert_node_def Let_def live_edges_def card_dom_update)
  qed
qed

lemma remove_node_counts [og_inv]:
  assumes ok: "accessor_ok base N E" and wf: "delta_wf d" and inv: "delta_counts base E d"
  shows "delta_counts base E (remove_node base n d)"
proof -
  let ?R = "removed_nodes d" and ?RE = "removed_edges d"
  note counts = inv [unfolded delta_counts_def]
  have live: "live_delta_edge_count (remove_node base n d) = int (length (live_edges (remove_node base n d)))"
    unfolding length_live_edges remove_node_fields
    using counts by (intro live_count_kill wf_positions_bound [OF wf]) (simp add: length_live_edges)
  have absent: "filter_mset (masked_by (finsert n ?R) ?RE) E = filter_mset (masked_by ?R ?RE) E"
    if "acc_get_node base n = None \<or> n |\<in>| ?R"
    using that masked_absent_node [OF ok, of n ?R ?RE] by (auto simp: accessor_ok_get [OF ok] finsert_absorb)
  have masked: "masked_base_edge_count (remove_node base n d) =
      int (size (filter_mset (masked_by (finsert n ?R) ?RE) E))"
  proof (cases "acc_get_node base n = None \<or> n |\<in>| ?R")
    case True
    then show ?thesis using counts absent by (auto simp: remove_node_def Let_def)
  next
    case False
    then show ?thesis using counts masked_insert_node [of n ?R ?RE E]
      by (simp add: remove_node_def Let_def mask_incident_base_edges_def
          count_out_transitions_eq [OF ok] count_in_transitions_eq [OF ok])
  qed
  have tbh: "tombstone_base_hits (remove_node base n d) =
      int (card {m \<in> fset (finsert n ?R). acc_get_node base m \<noteq> None})"
    unfolding card_finsert using counts
    by (simp add: remove_node_def Let_def mask_incident_base_edges_def)
  have anb: "added_non_base (remove_node base n d) =
      int (card {m \<in> dom (map_of (AList.delete n (added_nodes d))). acc_get_node base m = None})"
    using counts card_dom_delete [of "added_nodes d" "\<lambda>m. acc_get_node base m = None" n]
    by (simp add: remove_node_def Let_def mask_incident_base_edges_def split: if_splits)
  show ?thesis
    unfolding delta_counts_def using live masked tbh anb by (simp add: remove_node_fields)
qed

lemma remove_edge_counts [og_inv]:
  assumes ok: "accessor_ok base N E" and wf: "delta_wf d" and inv: "delta_counts base E d"
  shows "delta_counts base E (remove_edge base a b k d)"
proof -
  let ?R = "removed_nodes d" and ?RE = "removed_edges d"
  note counts = inv [unfolded delta_counts_def]
  have live: "live_delta_edge_count (remove_edge base a b k d) = int (length (live_edges (remove_edge base a b k d)))"
    unfolding length_live_edges remove_edge_fields
    using counts wf_positions_bound [OF wf, of a]
    by (intro live_count_kill) (auto simp: length_live_edges)
  have "masked_base_edge_count (remove_edge base a b k d) =
      int (size (filter_mset (masked_by ?R (finsert (a, b, k) ?RE)) E))"
  proof (cases "(a, b, k) |\<in>| ?RE")
    case True
    then show ?thesis using counts by (simp add: remove_edge_def Let_def finsert_absorb)
  next
    case False
    then show ?thesis
      using counts masked_insert_edge [OF False, of ?R E]
        count_outgoing [OF ok, of "\<lambda>nb. nb_target_name nb = b \<and> nb_edge_kind nb = k" a]
      by (simp add: remove_edge_def Let_def count_live_base_edges_matching_def)
  qed
  then show ?thesis using counts live by (simp add: delta_counts_def remove_edge_fields)
qed

lemma add_edge_counts [og_inv]:
  assumes "delta_counts base E d" shows "delta_counts base E (add_edge f t e d)"
  using assms by (simp add: delta_counts_def add_edge_fields live_edges_add)

section \<open>The logical effect of each mutator\<close>

lemma delta_nodes_upsert:
  "delta_nodes base (upsert_node base nd d) = (delta_nodes base d)(nd_name nd \<mapsto> node_view_from nd)"
  by (auto simp: delta_nodes_def upsert_fields map_of_AList_update fun_eq_iff)

lemma delta_nodes_remove_node:
  "delta_nodes base (remove_node base n d) = (delta_nodes base d)(n := None)"
  by (auto simp: delta_nodes_def remove_node_fields map_of_AList_delete fun_eq_iff)

lemma delta_nodes_edge_ops [simp]:
  "delta_nodes base (add_edge f t e d) = delta_nodes base d"
  "delta_nodes base (remove_edge base f t k d) = delta_nodes base d"
  by (simp_all add: delta_nodes_def add_edge_fields remove_edge_fields fun_eq_iff)

lemma delta_edges_add:
  "delta_edges E (add_edge f t e d) =
     add_mset (f, t, e\<lparr>ed_acl := normalize_acl (ed_acl e)\<rparr>) (delta_edges E d)"
  by (simp add: delta_edges_def live_edges_add add_edge_fields)

lemma delta_edges_remove_node:
  assumes "delta_wf d"
  shows "delta_edges E (remove_node base n d) =
    filter_mset (\<lambda>(f, t, e). f \<noteq> n \<and> t \<noteq> n) (delta_edges E d)"
proof -
  have "filter_mset (\<lambda>x. \<not> masked_by (finsert n (removed_nodes d)) (removed_edges d) x) E =
      filter_mset (\<lambda>(f, t, e). f \<noteq> n \<and> t \<noteq> n)
        (filter_mset (\<lambda>x. \<not> masked_by (removed_nodes d) (removed_edges d) x) E)"
    by (induction E) (auto simp: masked_by_def)
  then show ?thesis
    by (simp add: delta_edges_def live_edges_remove_node [OF assms] remove_node_fields)
qed

lemma delta_edges_remove_edge:
  assumes "delta_wf d"
  shows "delta_edges E (remove_edge base a b k d) =
    filter_mset (\<lambda>(f, t, e). \<not> (f = a \<and> t = b \<and> ed_kind e = k)) (delta_edges E d)"
proof -
  have "filter_mset (\<lambda>x. \<not> masked_by (removed_nodes d) (finsert (a, b, k) (removed_edges d)) x) E =
      filter_mset (\<lambda>(f, t, e). \<not> (f = a \<and> t = b \<and> ed_kind e = k))
        (filter_mset (\<lambda>x. \<not> masked_by (removed_nodes d) (removed_edges d) x) E)"
    by (induction E) (auto simp: masked_by_def)
  then show ?thesis
    by (simp add: delta_edges_def live_edges_remove_edge [OF assms] remove_edge_fields)
qed

text \<open>Upserting a present node changes no edge; upserting a tombstoned one brings its base edges back.\<close>

lemma delta_edges_upsert:
  "nd_name nd |\<notin>| removed_nodes d \<Longrightarrow> delta_edges E (upsert_node base nd d) = delta_edges E d"
  by (simp add: delta_edges_def upsert_fields)

lemma delta_edges_upsert_mono: "delta_edges E d \<subseteq># delta_edges E (upsert_node base nd d)"
proof -
  have "filter_mset (\<lambda>x. \<not> masked_by (removed_nodes d) RE x) E \<subseteq>#
      filter_mset (\<lambda>x. \<not> masked_by (removed_nodes d |-| {|nd_name nd|}) RE x) E" for RE
    by (induction E) (auto simp: masked_by_def split: prod.splits intro: subset_mset.order_trans)
  then show ?thesis by (simp add: delta_edges_def upsert_fields)
qed

section \<open>Endpoints of live delta edges\<close>

lemma delta_closedD:
  "delta_closed base d \<Longrightarrow> (f, t, e) \<in> set (live_edges d) \<Longrightarrow>
     delta_nodes base d f \<noteq> None \<and> delta_nodes base d t \<noteq> None"
  by (auto simp: delta_closed_def)

lemma upsert_closed [og_inv]: "delta_closed base d \<Longrightarrow> delta_closed base (upsert_node base nd d)"
  by (auto simp: delta_closed_def delta_nodes_upsert)

lemma remove_node_closed [og_inv]:
  "delta_wf d \<Longrightarrow> delta_closed base d \<Longrightarrow> delta_closed base (remove_node base n d)"
  by (auto simp: delta_closed_def delta_nodes_remove_node live_edges_remove_node)

lemma remove_edge_closed [og_inv]:
  "delta_wf d \<Longrightarrow> delta_closed base d \<Longrightarrow> delta_closed base (remove_edge base f t k d)"
  by (auto simp: delta_closed_def live_edges_remove_edge)

lemma add_edge_closed [og_inv]:
  "delta_closed base d \<Longrightarrow> delta_nodes base d f \<noteq> None \<Longrightarrow> delta_nodes base d t \<noteq> None \<Longrightarrow>
     delta_closed base (add_edge f t e d)"
  by (auto simp: delta_closed_def live_edges_add)

lemma delta_new_inv: "delta_inv base E delta_new"
proof -
  have "filter_mset (masked_by {||} {||}) E = {#}" by (induction E) (auto simp: masked_by_def)
  then show ?thesis
    by (simp add: delta_inv_def delta_wf_def delta_counts_def delta_closed_def delta_new_def
        live_edges_def positions_def index_get_def)
qed

end
