(* ===== verification/OG_Delta_View.thy ===== *)
theory OG_Delta_View
  imports OG_Delta_Inv
begin

text \<open>
  What the delta promises its readers: over a correct base, the merged accessor of \<open>src/delta.rs\<close>
  is a correct view of the logical graph \<open>delta_nodes\<close>, \<open>delta_edges\<close>. The counts follow from the
  counters, the neighbour lists from the position indices and the masks. \<open>delta_view\<close> interprets the
  accessor contract on it.
\<close>

section \<open>The merged view is the logical graph\<close>

lemma dom_delta_nodes:
  "dom (delta_nodes base d) = dom (map_of (added_nodes d)) \<union>
     ({n. acc_get_node base n \<noteq> None} - fset (removed_nodes d))"
  by (auto simp: delta_nodes_def dom_def split: option.splits)

lemma card_delta_nodes:
  assumes ok: "accessor_ok base N E" and wf: "delta_wf d"
  shows "card (dom (delta_nodes base d)) + card {n \<in> fset (removed_nodes d). acc_get_node base n \<noteq> None} =
    card (dom N) + card {n \<in> dom (map_of (added_nodes d)). acc_get_node base n = None}"
proof -
  let ?R = "fset (removed_nodes d)" and ?K = "dom (map_of (added_nodes d))"
  have fin: "finite (dom N)" "finite ?K" using accessor_ok_finite [OF ok] by (simp_all add: finite_dom_map_of)
  have disj: "?K \<inter> ?R = {}" using wf by (auto simp: delta_wf_def)
  have base: "{n. acc_get_node base n \<noteq> None} = dom N" by (auto simp: accessor_ok_get [OF ok])
  have "dom (delta_nodes base d) = (dom N - ?R) \<union> {n \<in> ?K. acc_get_node base n = None}"
    unfolding dom_delta_nodes base using disj by (auto simp: accessor_ok_get [OF ok])
  moreover have "(dom N - ?R) \<inter> {n \<in> ?K. acc_get_node base n = None} = {}"
    by (auto simp: accessor_ok_get [OF ok])
  ultimately have 1: "card (dom (delta_nodes base d)) =
      card (dom N - ?R) + card {n \<in> ?K. acc_get_node base n = None}"
    using fin by (simp add: card_Un_disjoint)
  have "{n \<in> ?R. acc_get_node base n \<noteq> None} = dom N \<inter> ?R" by (auto simp: accessor_ok_get [OF ok])
  moreover have "card (dom N - ?R) + card (dom N \<inter> ?R) = card (dom N)"
    using fin by (metis card_Diff_subset_Int card_mono finite_Int inf_le1 le_add_diff_inverse2)
  ultimately show ?thesis using 1 by simp
qed

lemma delta_node_count:
  assumes ok: "accessor_ok base N E" and inv: "delta_inv base E d"
  shows "acc_node_count (delta_accessor base d) = card (dom (delta_nodes base d))"
proof -
  have "delta_wf d" and counts: "delta_counts base E d" using inv by (auto simp: delta_inv_def)
  from card_delta_nodes [OF ok \<open>delta_wf d\<close>] counts show ?thesis
    by (simp add: delta_accessor_def delta_counts_def accessor_ok_node_count [OF ok])
qed

lemma delta_edge_count:
  assumes ok: "accessor_ok base N E" and inv: "delta_inv base E d"
  shows "acc_edge_count (delta_accessor base d) = size (delta_edges E d)"
proof -
  have counts: "delta_counts base E d" using inv by (auto simp: delta_inv_def)
  let ?m = "masked_by (removed_nodes d) (removed_edges d)"
  have "size E = size (filter_mset ?m E) + size (filter_mset (\<lambda>x. \<not> ?m x) E)"
    by (metis multiset_partition size_union)
  then show ?thesis using counts
    by (simp add: delta_accessor_def delta_counts_def accessor_ok_edge_count [OF ok] delta_edges_def)
qed

lemma delta_get_node_eq: "delta_get_node base d n = delta_nodes base d n"
  by (auto simp: delta_get_node_def delta_nodes_def split: option.splits)

lemma delta_empty_edges:
  assumes "delta_is_empty d" shows "delta_edges E d = E"
proof -
  have "filter_mset (\<lambda>x. \<not> masked_by {||} {||} x) E = E" by (induction E) (auto simp: masked_by_def)
  then show ?thesis using assms by (simp add: delta_edges_def delta_is_empty_def live_edges_def)
qed

lemma live_endpoints_alive:
  assumes "delta_inv base E d" and "e \<in> set (added_edges d)" and "\<not> de_dead e"
  shows "de_from e |\<notin>| removed_nodes d" and "de_to e |\<notin>| removed_nodes d"
proof -
  have wf: "delta_wf d" and cl: "delta_closed base d" using assms(1) by (auto simp: delta_inv_def)
  have "(de_from e, de_to e, de_edge e) \<in> set (live_edges d)"
    using assms(2,3) by (force simp: live_edges_def edge_of_def)
  from delta_closedD [OF cl this] wf show "de_from e |\<notin>| removed_nodes d" "de_to e |\<notin>| removed_nodes d"
    by (fastforce simp: delta_nodes_def delta_wf_def split: option.splits)+
qed

lemma delta_outgoing_eq:
  assumes ok: "accessor_ok base N E" and inv: "delta_inv base E d"
  shows "mset (delta_outgoing base d n) = out_views (delta_edges E d) n"
proof (cases "delta_is_empty d")
  case True
  then show ?thesis by (simp add: delta_outgoing_def delta_empty_edges accessor_ok_out [OF ok])
next
  case False
  have wf: "delta_wf d" using inv by (simp add: delta_inv_def)
  then have idx: "index_get (out_index d) n = positions de_from (added_edges d) n"
    and len: "length (added_edges d) \<le> 2 ^ 32" by (auto simp: delta_wf_def)
  note alive = live_endpoints_alive [OF inv]
  show ?thesis
  proof (cases "n |\<in>| removed_nodes d")
    case True
    have "filter_mset (\<lambda>(f, t, e). f = n) (delta_edges E d) = {#}"
      using True alive
      by (intro filter_mset_none) (auto simp: delta_edges_def live_edges_def edge_of_def masked_by_def)
    then show ?thesis using True False by (auto simp: delta_outgoing_def out_views_def)
  next
    case nr: False
    let ?keep = "\<lambda>nb. base_edge_kept d (nb_target_name nb) n (nb_target_name nb) (nb_edge_kind nb)"
    have base: "image_mset out_view (filter_mset (\<lambda>(f, t, e). f = n)
          (filter_mset (\<lambda>x. \<not> masked_by (removed_nodes d) (removed_edges d) x) E)) =
        filter_mset ?keep (out_views E n)"
      unfolding out_views_def using nr
      by (induction E) (auto simp: masked_by_def base_edge_kept_def out_view_def)
    let ?H = "\<lambda>e. \<not> (de_dead e \<or> (removed_nodes d \<noteq> {||} \<and> de_to e |\<in>| removed_nodes d))"
    have "filter (\<lambda>e. de_from e = n \<and> ?H e) (added_edges d) =
        filter (\<lambda>e. \<not> de_dead e \<and> de_from e = n) (added_edges d)"
      using alive by (intro filter_cong) auto
    then have live: "map (\<lambda>p. neighbor_view_of (de_to (added_edges d ! unat p)) (de_edge (added_edges d ! unat p)))
          (filter (\<lambda>p. ?H (added_edges d ! unat p)) (index_get (out_index d) n)) =
        map out_view (filter (\<lambda>(f, t, e). f = n) (live_edges d))"
      unfolding idx map_filter_positions [OF len, of "\<lambda>e. neighbor_view_of (de_to e) (de_edge e)" ?H de_from n]
      by (simp add: live_edges_def filter_map o_def edge_of_def out_view_def conj_commute)
    have kept: "filter_mset ?keep (out_views E n) = out_views E n"
      if "removed_nodes d = {||}" "removed_edges d = {||}"
      using that by (simp add: base_edge_kept_def)
    have split: "out_views (delta_edges E d) n = filter_mset ?keep (out_views E n) +
        mset (map out_view (filter (\<lambda>(f, t, e). f = n) (live_edges d)))"
      using base by (simp add: out_views_def delta_edges_def)
    show ?thesis
      unfolding split delta_outgoing_def Let_def live
      using False nr kept by (auto simp: accessor_ok_out [OF ok])
  qed
qed

lemma delta_incoming_eq:
  assumes ok: "accessor_ok base N E" and inv: "delta_inv base E d"
  shows "mset (delta_incoming base d n) = in_views (delta_edges E d) n"
proof (cases "delta_is_empty d")
  case True
  then show ?thesis by (simp add: delta_incoming_def delta_empty_edges accessor_ok_in [OF ok])
next
  case False
  have wf: "delta_wf d" using inv by (simp add: delta_inv_def)
  then have idx: "index_get (in_index d) n = positions de_to (added_edges d) n"
    and len: "length (added_edges d) \<le> 2 ^ 32" by (auto simp: delta_wf_def)
  note alive = live_endpoints_alive [OF inv]
  show ?thesis
  proof (cases "n |\<in>| removed_nodes d")
    case True
    have "filter_mset (\<lambda>(f, t, e). t = n) (delta_edges E d) = {#}"
      using True alive
      by (intro filter_mset_none) (auto simp: delta_edges_def live_edges_def edge_of_def masked_by_def)
    then show ?thesis using True False by (auto simp: delta_incoming_def in_views_def)
  next
    case nr: False
    let ?keep = "\<lambda>nb. base_edge_kept d (nb_target_name nb) (nb_target_name nb) n (nb_edge_kind nb)"
    have base: "image_mset in_view (filter_mset (\<lambda>(f, t, e). t = n)
          (filter_mset (\<lambda>x. \<not> masked_by (removed_nodes d) (removed_edges d) x) E)) =
        filter_mset ?keep (in_views E n)"
      unfolding in_views_def using nr
      by (induction E) (auto simp: masked_by_def base_edge_kept_def in_view_def)
    let ?H = "\<lambda>e. \<not> (de_dead e \<or> (removed_nodes d \<noteq> {||} \<and> de_from e |\<in>| removed_nodes d))"
    have "filter (\<lambda>e. de_to e = n \<and> ?H e) (added_edges d) =
        filter (\<lambda>e. \<not> de_dead e \<and> de_to e = n) (added_edges d)"
      using alive by (intro filter_cong) auto
    then have live: "map (\<lambda>p. neighbor_view_of (de_from (added_edges d ! unat p)) (de_edge (added_edges d ! unat p)))
          (filter (\<lambda>p. ?H (added_edges d ! unat p)) (index_get (in_index d) n)) =
        map in_view (filter (\<lambda>(f, t, e). t = n) (live_edges d))"
      unfolding idx map_filter_positions [OF len, of "\<lambda>e. neighbor_view_of (de_from e) (de_edge e)" ?H de_to n]
      by (simp add: live_edges_def filter_map o_def edge_of_def in_view_def conj_commute)
    have kept: "filter_mset ?keep (in_views E n) = in_views E n"
      if "removed_nodes d = {||}" "removed_edges d = {||}"
      using that by (simp add: base_edge_kept_def)
    have split: "in_views (delta_edges E d) n = filter_mset ?keep (in_views E n) +
        mset (map in_view (filter (\<lambda>(f, t, e). t = n) (live_edges d)))"
      using base by (simp add: in_views_def delta_edges_def)
    show ?thesis
      unfolding split delta_incoming_def Let_def live
      using False nr kept by (auto simp: accessor_ok_in [OF ok])
  qed
qed

lemma delta_nodes_name:
  assumes "accessor_ok base N E" and "delta_wf d" and "delta_nodes base d n = Some v"
  shows "nv_name v = n"
  using assms(2,3) accessor_ok_name [OF assms(1)]
  by (auto simp: delta_nodes_def delta_wf_def accessor_ok_get [OF assms(1)] split: option.splits if_splits)

lemma delta_edges_endpoints:
  assumes ok: "accessor_ok base N E" and inv: "delta_inv base E d" and x: "(f, t, e) \<in># delta_edges E d"
  shows "f \<in> dom (delta_nodes base d) \<and> t \<in> dom (delta_nodes base d)"
proof (cases "(f, t, e) \<in> set (live_edges d)")
  case True
  then show ?thesis using inv by (auto simp: delta_inv_def dest: delta_closedD)
next
  case False
  then have "(f, t, e) \<in># E" and "f |\<notin>| removed_nodes d" and "t |\<notin>| removed_nodes d"
    using x by (auto simp: delta_edges_def masked_by_def)
  then show ?thesis
    using accessor_ok_src [OF ok] accessor_ok_tgt [OF ok]
    by (fastforce simp: delta_nodes_def accessor_ok_get [OF ok] split: option.splits)
qed

lemma delta_accessor_ok:
  assumes ok: "accessor_ok base N E" and inv: "delta_inv base E d"
  shows "accessor_ok (delta_accessor base d) (delta_nodes base d) (delta_edges E d)"
proof -
  have wf: "delta_wf d" using inv by (simp add: delta_inv_def)
  have "{n. acc_get_node base n \<noteq> None} = dom N" by (auto simp: accessor_ok_get [OF ok])
  then have "finite (dom (delta_nodes base d))"
    using accessor_ok_finite [OF ok] unfolding dom_delta_nodes by (simp add: finite_dom_map_of)
  then show ?thesis
    unfolding accessor_ok_def
    using delta_node_count [OF ok inv] delta_edge_count [OF ok inv] delta_nodes_name [OF ok wf]
      delta_edges_endpoints [OF ok inv]
    by (auto simp: delta_accessor_def delta_get_node_eq delta_outgoing_eq [OF ok inv]
        delta_incoming_eq [OF ok inv])
qed

text \<open>The delta accessor over a correct base keeps the accessor contract.\<close>

type_synonym layered = "accessor \<times> (string \<rightharpoonup> node_view) \<times> graph_edge multiset \<times> graph_delta"

interpretation delta_view: graph_view
  "\<lambda>(base, N, E, d). delta_accessor base d"
  "\<lambda>(base, N, E, d). accessor_ok base N E \<and> delta_inv base E d"
  "\<lambda>(base, N, E, d). delta_nodes base d"
  "\<lambda>(base, N, E, d). delta_edges E d"
  by unfold_locales (auto intro: delta_accessor_ok)

end
