(* ===== verification/OG_Delta_Apply.thy ===== *)
theory OG_Delta_Apply
  imports OG_Delta_View
begin

text \<open>
  What the delta promises its writer: the two-pass \<open>apply\<close> of \<open>src/delta.rs\<close> is the sequential
  execution of its operations that stops at the first invalid one and then changes nothing
  (\<open>delta_apply_eq_sequential\<close>), every accepted batch keeps the invariant, the debug recomputation
  never fires, and \<open>materialize\<close> lists the logical graph exactly once.
\<close>

section \<open>Sequential specification of apply\<close>

text \<open>The check one operation would get against the delta as it stands when its turn comes.\<close>

fun op_error :: "accessor \<Rightarrow> graph_delta \<Rightarrow> nat \<Rightarrow> op \<Rightarrow> delta_error option" where
  "op_error base d i (AddEdge from to edge) =
     (case (ed_valid_from edge, ed_valid_to edge) of
        (Some vf, Some vt) \<Rightarrow>
          if vt < vf then Some (InvalidEdgeValidity i from to vf vt)
          else if delta_nodes base d from = None then
            Some (MissingEndpoint i from to from (from |\<in>| removed_nodes d))
          else if delta_nodes base d to = None then
            Some (MissingEndpoint i from to to (to |\<in>| removed_nodes d))
          else None
      | _ \<Rightarrow>
          if delta_nodes base d from = None then
            Some (MissingEndpoint i from to from (from |\<in>| removed_nodes d))
          else if delta_nodes base d to = None then
            Some (MissingEndpoint i from to to (to |\<in>| removed_nodes d))
          else None)"
| "op_error base d i _ = None"

fun seq_apply :: "accessor \<Rightarrow> nat \<Rightarrow> op list \<Rightarrow> graph_delta \<Rightarrow> delta_error + graph_delta" where
  "seq_apply base i [] d = Inr d"
| "seq_apply base i (x # ops) d =
     (case op_error base d i x of Some e \<Rightarrow> Inl e
      | None \<Rightarrow> seq_apply base (Suc i) ops (apply_op base x d))"

definition simulates :: "accessor \<Rightarrow> graph_delta \<Rightarrow> (string \<rightharpoonup> bool) \<Rightarrow> graph_delta \<Rightarrow> bool" where
  "simulates base d0 scratch d \<longleftrightarrow>
     (\<forall>x. is_present d0 scratch base x = (delta_nodes base d x \<noteq> None)) \<and>
     (\<forall>x. delta_nodes base d x = None \<longrightarrow> is_tombstoned d0 scratch x = (x |\<in>| removed_nodes d))"

lemma simulates_start: "simulates base d Map.empty d"
  by (auto simp: simulates_def is_present_def is_tombstoned_def delta_nodes_def split: option.splits)

lemma simulates_upsert:
  "simulates base d0 s d \<Longrightarrow> simulates base d0 (s(nd_name nd \<mapsto> True)) (upsert_node base nd d)"
  by (auto simp: simulates_def is_present_def is_tombstoned_def delta_nodes_upsert upsert_fields)

lemma simulates_remove:
  "simulates base d0 s d \<Longrightarrow> simulates base d0 (s(n \<mapsto> False)) (remove_node base n d)"
  by (auto simp: simulates_def is_present_def is_tombstoned_def delta_nodes_remove_node remove_node_fields)

lemma simulates_edges:
  "simulates base d0 s d \<Longrightarrow> simulates base d0 s (add_edge f t e d)"
  "simulates base d0 s d \<Longrightarrow> simulates base d0 s (remove_edge base f t k d)"
  by (simp_all add: simulates_def add_edge_fields remove_edge_fields)

lemma pass1_add_edge:
  assumes "simulates base d0 s d"
  shows "pass1 base d0 s i (AddEdge f t e # ops) =
    (case op_error base d i (AddEdge f t e) of Some err \<Rightarrow> Some err | None \<Rightarrow> pass1 base d0 s (Suc i) ops)"
  using assms by (auto simp: simulates_def split: option.splits)

lemma pass1_seq:
  "simulates base d0 s d \<Longrightarrow>
     seq_apply base i ops d =
       (case pass1 base d0 s i ops of Some e \<Rightarrow> Inl e | None \<Rightarrow> Inr (fold (apply_op base) ops d))"
proof (induction ops arbitrary: i s d)
  case (Cons x ops)
  show ?case
  proof (cases x)
    case (AddEdge f t e)
    show ?thesis
      using Cons.IH [OF simulates_edges(1) [OF Cons.prems]]
      unfolding AddEdge pass1_add_edge [OF Cons.prems]
      by (auto simp del: op_error.simps pass1.simps split: option.splits)
  next
    case (UpsertNode nd)
    have "simulates base d0 (s(nd_name nd \<mapsto> True)) (upsert_node base nd d)"
      by (rule simulates_upsert [OF Cons.prems])
    from Cons.IH [OF this, of "Suc i"] show ?thesis
      by (simp only: UpsertNode seq_apply.simps op_error.simps option.case apply_op.simps pass1.simps fold_simps)
  next
    case (RemoveNode n)
    have "simulates base d0 (s(n \<mapsto> False)) (remove_node base n d)"
      by (rule simulates_remove [OF Cons.prems])
    from Cons.IH [OF this, of "Suc i"] show ?thesis
      by (simp only: RemoveNode seq_apply.simps op_error.simps option.case apply_op.simps pass1.simps fold_simps)
  next
    case (RemoveEdge f t k)
    have "simulates base d0 s (remove_edge base f t k d)"
      by (rule simulates_edges(2) [OF Cons.prems])
    from Cons.IH [OF this, of "Suc i"] show ?thesis
      by (simp only: RemoveEdge seq_apply.simps op_error.simps option.case apply_op.simps pass1.simps fold_simps)
  qed
qed simp

lemma delta_apply_eq_sequential:
  "delta_apply base ops d =
     (case seq_apply base 0 ops d of Inl e \<Rightarrow> (Inl e, d) | Inr d' \<Rightarrow> (Inr (), d'))"
  using pass1_seq [OF simulates_start, of base 0 ops d]
  by (auto simp: delta_apply_def split: option.splits)

section \<open>Accepted batches keep the invariant\<close>

lemma apply_op_inv:
  assumes ok: "accessor_ok base N E" and inv: "delta_inv base E d"
    and room: "length (added_edges d) < 2 ^ 32" and valid: "op_error base d i x = None"
  shows "delta_inv base E (apply_op base x d)"
proof (cases x)
  case (AddEdge f t e)
  then have "delta_nodes base d f \<noteq> None" "delta_nodes base d t \<noteq> None"
    using valid by (auto split: option.splits if_splits)
  then show ?thesis using inv room AddEdge by (auto simp: delta_inv_def intro: og_inv)
qed (use ok inv in \<open>auto simp: delta_inv_def intro: og_inv\<close>)

lemma length_added_edges_apply: "length (added_edges (apply_op base x d)) \<le> Suc (length (added_edges d))"
  by (cases x) (auto simp: mutator_fields)

lemma seq_apply_inv:
  assumes ok: "accessor_ok base N E"
  shows "delta_inv base E d \<Longrightarrow> length (added_edges d) + length ops \<le> 2 ^ 32 \<Longrightarrow>
    seq_apply base i ops d = Inr d' \<Longrightarrow> delta_inv base E d'"
proof (induction ops arbitrary: i d)
  case (Cons x ops)
  then have valid: "op_error base d i x = None"
    and rest: "seq_apply base (Suc i) ops (apply_op base x d) = Inr d'"
    by (auto split: option.splits)
  have "delta_inv base E (apply_op base x d)"
    using Cons.prems(1,2) valid by (intro apply_op_inv [OF ok]) auto
  then show ?case
    using Cons.prems(2) length_added_edges_apply [of base x d] rest
    by (intro Cons.IH [of "apply_op base x d" "Suc i"]) auto
qed simp

lemma delta_apply_inv:
  assumes "accessor_ok base N E" and "delta_inv base E d"
    and "length (added_edges d) + length ops \<le> 2 ^ 32"
    and "delta_apply base ops d = (r, d')"
  shows "delta_inv base E d'"
  using assms seq_apply_inv [OF assms(1-3)]
  by (auto simp: delta_apply_eq_sequential split: sum.splits)

section \<open>Reachable deltas\<close>

text \<open>The deltas a store can hold over a base: the empty one and the results of batches, accepted or
  rejected, while the edge log stays below the \<open>u32\<close> position limit.\<close>

inductive delta_reachable :: "accessor \<Rightarrow> graph_delta \<Rightarrow> bool" for base where
  empty: "delta_reachable base delta_new"
| batch: "delta_reachable base d \<Longrightarrow> length (added_edges d) + length ops \<le> 2 ^ 32 \<Longrightarrow>
    delta_apply base ops d = (r, d') \<Longrightarrow> delta_reachable base d'"

lemma delta_reachable_inv:
  assumes "delta_reachable base d" and "accessor_ok base N E"
  shows "delta_inv base E d"
  using assms(1)
proof (induction rule: delta_reachable.induct)
  case empty
  show ?case by (rule delta_new_inv)
next
  case (batch d ops r d')
  then show ?case using delta_apply_inv [OF assms(2)] by blast
qed

section \<open>The graph an operation produces\<close>

text \<open>The effect of an operation on a plain graph, with no base, no tombstones and no counters.\<close>

fun graph_step ::
  "op \<Rightarrow> (string \<rightharpoonup> node_view) \<times> graph_edge multiset \<Rightarrow> (string \<rightharpoonup> node_view) \<times> graph_edge multiset" where
  "graph_step (UpsertNode nd) (N, E) = (N(nd_name nd \<mapsto> node_view_from nd), E)"
| "graph_step (RemoveNode n) (N, E) = (N(n := None), filter_mset (\<lambda>(f, t, e). f \<noteq> n \<and> t \<noteq> n) E)"
| "graph_step (AddEdge f t e) (N, E) = (N, add_mset (f, t, e\<lparr>ed_acl := normalize_acl (ed_acl e)\<rparr>) E)"
| "graph_step (RemoveEdge a b k) (N, E) =
     (N, filter_mset (\<lambda>(f, t, e). \<not> (f = a \<and> t = b \<and> ed_kind e = k)) E)"

fun resurrects :: "graph_delta \<Rightarrow> op \<Rightarrow> bool" where
  "resurrects d (UpsertNode nd) = (nd_name nd |\<in>| removed_nodes d)"
| "resurrects d _ = False"

lemma apply_op_graph_step:
  assumes "delta_wf d" and "\<not> resurrects d x"
  shows "(delta_nodes base (apply_op base x d), delta_edges E (apply_op base x d)) =
    graph_step x (delta_nodes base d, delta_edges E d)"
  using assms
  by (cases x) (auto simp: delta_nodes_upsert delta_nodes_remove_node delta_edges_upsert
      delta_edges_add delta_edges_remove_node delta_edges_remove_edge)

text \<open>Upserting a tombstoned node un-masks exactly the base edges no other tombstone masks.\<close>

lemma upsert_resurrects:
  assumes "nd_name nd |\<in>| removed_nodes d"
  shows "delta_edges E (upsert_node base nd d) = delta_edges E d +
    filter_mset (\<lambda>(f, t, e). (f = nd_name nd \<or> t = nd_name nd) \<and>
      \<not> masked_by (removed_nodes d |-| {|nd_name nd|}) (removed_edges d) (f, t, e)) E"
proof -
  have "filter_mset (\<lambda>x. \<not> masked_by (R |-| {|n|}) RE x) E =
      filter_mset (\<lambda>x. \<not> masked_by R RE x) E +
      filter_mset (\<lambda>(f, t, e). (f = n \<or> t = n) \<and> \<not> masked_by (R |-| {|n|}) RE (f, t, e)) E"
    if "n |\<in>| R" for n R RE
    using that by (induction E) (auto simp: masked_by_def)
  from this [OF assms] show ?thesis by (simp add: delta_edges_def upsert_fields)
qed

section \<open>The base matters only as a graph\<close>

text \<open>Two correct views of one base give the same deltas, so a log replayed over another
  representation of the snapshot rebuilds the same delta.\<close>

lemma apply_op_same:
  assumes "accessor_ok A N E" and "accessor_ok A' N E"
  shows "apply_op A = apply_op A'"
proof (intro ext)
  fix x d
  have get: "acc_get_node A = acc_get_node A'"
    by (simp add: fun_eq_iff accessor_ok_get [OF assms(1)] accessor_ok_get [OF assms(2)])
  have out: "count_out_transitions d n (acc_outgoing A n) = count_out_transitions d n (acc_outgoing A' n)" for d n
    unfolding count_out_transitions_eq [OF assms(1)] count_out_transitions_eq [OF assms(2)] ..
  have inc: "count_in_transitions d n (acc_incoming A n) = count_in_transitions d n (acc_incoming A' n)" for d n
    unfolding count_in_transitions_eq [OF assms(1)] count_in_transitions_eq [OF assms(2)] ..
  have live: "count_live_base_edges_matching A = count_live_base_edges_matching A'"
    by (simp add: fun_eq_iff count_live_base_edges_matching_def count_outgoing [OF assms(1)] count_outgoing [OF assms(2)])
  have mask: "mask_incident_base_edges A = mask_incident_base_edges A'" "unmask_incident_base_edges A = unmask_incident_base_edges A'"
    by (simp_all add: fun_eq_iff mask_incident_base_edges_def unmask_incident_base_edges_def out inc)
  show "apply_op A x d = apply_op A' x d"
    by (cases x) (simp_all only: apply_op.simps upsert_node_def remove_node_def remove_edge_def get live mask)
qed

lemma delta_replay_same:
  assumes "accessor_ok A N E" and "accessor_ok A' N E"
  shows "delta_replay A ops d = delta_replay A' ops d"
  unfolding delta_replay_def apply_op_same [OF assms] ..

lemma pass1_same:
  assumes "accessor_ok A N E" and "accessor_ok A' N E"
  shows "pass1 A d scratch i ops = pass1 A' d scratch i ops"
proof -
  have "is_present d s A n = is_present d s A' n" for s n
    unfolding is_present_def accessor_ok_get [OF assms(1)] accessor_ok_get [OF assms(2)] ..
  then show ?thesis
    by (induction A d scratch i ops rule: pass1.induct) (simp_all split: option.split)
qed

lemma delta_apply_same:
  assumes "accessor_ok A N E" and "accessor_ok A' N E"
  shows "delta_apply A ops d = delta_apply A' ops d"
  unfolding delta_apply_def apply_op_same [OF assms] pass1_same [OF assms] ..

lemma delta_apply_replay: "delta_apply A ops d = (Inr u, d') \<Longrightarrow> d' = delta_replay A ops d"
  by (auto simp: delta_apply_def delta_replay_def split: option.splits)

lemma delta_reachable_same:
  assumes "accessor_ok A N E" and "accessor_ok A' N E" and "delta_reachable A d"
  shows "delta_reachable A' d"
  using assms(3)
proof (induction rule: delta_reachable.induct)
  case (batch d ops r d')
  then show ?case using delta_apply_same [OF assms(1,2)] by (metis delta_reachable.batch)
qed (rule delta_reachable.empty)

lemma delta_nodes_same:
  assumes "accessor_ok A N E" and "accessor_ok A' N E"
  shows "delta_nodes A d = delta_nodes A' d"
  by (auto simp: fun_eq_iff delta_nodes_def accessor_ok_get [OF assms(1)] accessor_ok_get [OF assms(2)] split: option.split)

section \<open>The debug recomputation\<close>

lemma sum_fset_indicator: "(\<Sum>n \<in> fset R. if f = n then k else 0) = (if f |\<in>| R then k else (0::nat))"
  by (simp add: sum.delta')

lemma recompute_masked:
  "(\<Sum>n \<in> fset R. size (filter_mset (\<lambda>(f, t, e). f = n) E)
        + size (filter_mset (\<lambda>(f, t, e). t = n \<and> f |\<notin>| R) E))
   + (\<Sum>(a, b, k) \<in> fset RE. if a |\<in>| R \<or> b |\<in>| R then 0
        else size (filter_mset (\<lambda>(f, t, e). f = a \<and> t = b \<and> ed_kind e = k) E))
   = size (filter_mset (masked_by R RE) E)"
proof (induction E)
  case empty
  then show ?case by (simp add: case_prod_beta)
next
  case (add x E)
  obtain f t e where x: "x = (f, t, e)" by (cases x)
  have n1: "(\<Sum>n \<in> fset R. size (filter_mset (\<lambda>(f, t, e). f = n) (add_mset x E))
        + size (filter_mset (\<lambda>(f, t, e). t = n \<and> f |\<notin>| R) (add_mset x E))) =
      (\<Sum>n \<in> fset R. size (filter_mset (\<lambda>(f, t, e). f = n) E)
        + size (filter_mset (\<lambda>(f, t, e). t = n \<and> f |\<notin>| R) E))
      + (if f |\<in>| R then 1 else 0) + (if t |\<in>| R then (if f |\<notin>| R then 1 else 0) else 0)"
  proof -
    have "(\<Sum>n \<in> fset R. size (filter_mset (\<lambda>(f, t, e). f = n) (add_mset x E))
          + size (filter_mset (\<lambda>(f, t, e). t = n \<and> f |\<notin>| R) (add_mset x E))) =
        (\<Sum>n \<in> fset R. (size (filter_mset (\<lambda>(f, t, e). f = n) E)
          + size (filter_mset (\<lambda>(f, t, e). t = n \<and> f |\<notin>| R) E))
          + ((if f = n then 1 else 0) + (if t = n then (if f |\<notin>| R then 1 else 0) else 0)))"
      by (intro sum.cong) (auto simp: x)
    then show ?thesis by (simp only: sum.distrib sum_fset_indicator add.assoc)
  qed
  have n2: "(\<Sum>(a, b, k) \<in> fset RE. if a |\<in>| R \<or> b |\<in>| R then 0
        else size (filter_mset (\<lambda>(f, t, e). f = a \<and> t = b \<and> ed_kind e = k) (add_mset x E))) =
      (\<Sum>(a, b, k) \<in> fset RE. if a |\<in>| R \<or> b |\<in>| R then 0
        else size (filter_mset (\<lambda>(f, t, e). f = a \<and> t = b \<and> ed_kind e = k) E))
      + (if (f, t, ed_kind e) |\<in>| RE then (if f |\<in>| R \<or> t |\<in>| R then 0 else 1) else 0)"
  proof -
    have "(\<Sum>(a, b, k) \<in> fset RE. if a |\<in>| R \<or> b |\<in>| R then 0
          else size (filter_mset (\<lambda>(f, t, e). f = a \<and> t = b \<and> ed_kind e = k) (add_mset x E))) =
        (\<Sum>y \<in> fset RE. (case y of (a, b, k) \<Rightarrow> if a |\<in>| R \<or> b |\<in>| R then 0
          else size (filter_mset (\<lambda>(f, t, e). f = a \<and> t = b \<and> ed_kind e = k) E))
          + (if (f, t, ed_kind e) = y then (if f |\<in>| R \<or> t |\<in>| R then 0 else 1) else 0))"
    proof (intro sum.cong refl)
      fix y
      show "(case y of (a, b, k) \<Rightarrow> if a |\<in>| R \<or> b |\<in>| R then 0
          else size (filter_mset (\<lambda>(f, t, e). f = a \<and> t = b \<and> ed_kind e = k) (add_mset x E))) =
        (case y of (a, b, k) \<Rightarrow> if a |\<in>| R \<or> b |\<in>| R then 0
          else size (filter_mset (\<lambda>(f, t, e). f = a \<and> t = b \<and> ed_kind e = k) E))
          + (if (f, t, ed_kind e) = y then (if f |\<in>| R \<or> t |\<in>| R then 0 else 1) else 0)"
        by (cases y) (auto simp: x split: if_splits)
    qed
    then show ?thesis by (simp only: sum.distrib sum_fset_indicator)
  qed
  have n3: "size (filter_mset (masked_by R RE) (add_mset x E)) =
      size (filter_mset (masked_by R RE) E) + (if masked_by R RE x then 1 else 0)"
    by simp
  show ?case unfolding n1 n2 n3 add.IH [symmetric] by (simp add: x masked_by_def)
qed

lemma recompute_counts_eq:
  assumes ok: "accessor_ok base N E" and inv: "delta_inv base E d"
  shows "debug_check_invariants base d"
proof -
  have wf: "delta_wf d" and counts: "delta_counts base E d" using inv by (auto simp: delta_inv_def)
  let ?R = "removed_nodes d" and ?RE = "removed_edges d"
  have node: "(if acc_get_node base n = None then 0 else length (acc_outgoing base n) +
        length (filter (\<lambda>nb. nb_target_name nb |\<notin>| ?R) (acc_incoming base n))) =
      size (filter_mset (\<lambda>(f, t, e). f = n) E) + size (filter_mset (\<lambda>(f, t, e). t = n \<and> f |\<notin>| ?R) E)" for n
  proof -
    have "size (filter_mset (\<lambda>(f, t, e). f = n) E) = length (acc_outgoing base n)"
      using count_outgoing [OF ok, of "\<lambda>_. True" n] by simp
    moreover have "size (filter_mset (\<lambda>(f, t, e). t = n \<and> f |\<notin>| ?R) E) =
        length (filter (\<lambda>nb. nb_target_name nb |\<notin>| ?R) (acc_incoming base n))"
      using count_incoming [OF ok, of "\<lambda>nb. nb_target_name nb |\<notin>| ?R" n] by simp
    ultimately show ?thesis
      using outgoing_absent [OF ok, of n] incoming_absent [OF ok, of n]
      by (simp add: accessor_ok_get [OF ok])
  qed
  have edge: "(\<lambda>(f, t, k). count_live_base_edges_matching base d f t k) =
      (\<lambda>(a, b, k). if a |\<in>| ?R \<or> b |\<in>| ?R then 0
        else size (filter_mset (\<lambda>(f, t, e). f = a \<and> t = b \<and> ed_kind e = k) E))"
    using count_outgoing [OF ok] by (auto simp: fun_eq_iff count_live_base_edges_matching_def)
  have tbh: "fcard (ffilter (\<lambda>n. acc_get_node base n \<noteq> None) ?R) =
      card {n \<in> fset ?R. acc_get_node base n \<noteq> None}"
    by (simp add: fcard.rep_eq ffilter.rep_eq Set.filter_eq Collect_conj_eq Int_commute)
  have "{n \<in> dom (map_of (added_nodes d)). acc_get_node base n = None} =
      set (filter (\<lambda>n. acc_get_node base n = None) (map fst (added_nodes d)))"
    by (auto simp: dom_map_of_conv_image_fst)
  moreover have "distinct (filter (\<lambda>n. acc_get_node base n = None) (map fst (added_nodes d)))"
    using wf by (simp add: delta_wf_def)
  ultimately have anb: "length (filter (\<lambda>n. acc_get_node base n = None) (map fst (added_nodes d))) =
      card {n \<in> dom (map_of (added_nodes d)). acc_get_node base n = None}"
    by (simp only: distinct_card)
  have disj: "list_all (\<lambda>k. k |\<notin>| ?R) (map fst (added_nodes d))"
    using wf by (fastforce simp: delta_wf_def list_all_iff)
  show ?thesis
    using counts disj
    unfolding debug_check_invariants_def recompute_counts_def Let_def node edge tbh anb recompute_masked
    by (simp add: delta_counts_def length_live_edges)
qed

section \<open>Materialize\<close>

lemma set_push_unseen [simp]: "set (push_unseen names ns) = set names \<union> set ns"
  by (induction names ns rule: push_unseen.induct) auto

lemma distinct_push_unseen: "distinct names \<Longrightarrow> distinct (push_unseen names ns)"
  by (induction names ns rule: push_unseen.induct) auto

lemma distinct_live_names: "distinct (live_names ns d)"
  by (simp add: live_names_def distinct_push_unseen)

lemma set_live_names:
  assumes ok: "accessor_ok base N E" and ns: "set ns = dom N"
  shows "set (live_names ns d) = dom (delta_nodes base d)"
proof -
  have "{n. acc_get_node base n \<noteq> None} = dom N" by (auto simp: accessor_ok_get [OF ok])
  then show ?thesis
    unfolding dom_delta_nodes live_names_def using ns
    by (auto simp: dom_map_of_conv_image_fst map_of_eq_None_iff)
qed

definition input_edge :: "graph_edge \<Rightarrow> edge_input" where
  "input_edge x = (case x of (f, t, e) \<Rightarrow> edge_input_of f (neighbor_view_of t e))"

lemma mset_edges_by_source:
  assumes ok: "accessor_ok A N E" and "distinct names"
  shows "mset (concat (map (\<lambda>n. map (edge_input_of n) (acc_outgoing A n)) names)) =
    image_mset input_edge (filter_mset (\<lambda>x. fst x \<in> set names) E)"
  using assms(2)
proof (induction names)
  case (Cons n names)
  have "mset (map (edge_input_of n) (acc_outgoing A n)) =
      image_mset input_edge (filter_mset (\<lambda>x. fst x = n) E)"
    unfolding mset_map accessor_ok_out [OF ok] out_views_def multiset.map_comp
    by (induction E) (auto simp: out_view_def input_edge_def)
  moreover have "filter_mset (\<lambda>x. fst x \<in> set (n # names)) E =
      filter_mset (\<lambda>x. fst x = n) E + filter_mset (\<lambda>x. fst x \<in> set names) E"
    using Cons.prems by (induction E) auto
  ultimately show ?case using Cons by simp
qed simp

lemma materialize_edges:
  assumes ok: "accessor_ok base N E" and inv: "delta_inv base E d" and ns: "set ns = dom N"
  shows "mset (snd (materialize base ns d)) = image_mset input_edge (delta_edges E d)"
proof -
  note dok = delta_accessor_ok [OF ok inv]
  have "filter_mset (\<lambda>x. fst x \<in> set (live_names ns d)) (delta_edges E d) = delta_edges E d"
    using accessor_ok_src [OF dok] unfolding set_live_names [OF ok ns]
    by (intro filter_mset_eq_conv [THEN iffD2]) (auto simp: split_paired_all)
  then show ?thesis
    using mset_edges_by_source [OF dok distinct_live_names [of ns d]] by (simp add: materialize_def Let_def)
qed

lemma materialize_nodes:
  assumes ok: "accessor_ok base N E" and inv: "delta_inv base E d" and ns: "set ns = dom N"
  shows "map ni_name (fst (materialize base ns d)) = live_names ns d"
    and "x \<in> set (fst (materialize base ns d)) \<longleftrightarrow>
      (\<exists>n v. delta_nodes base d n = Some v \<and> x = node_input_of v)"
proof -
  note dok = delta_accessor_ok [OF ok inv]
  note dom = set_live_names [OF ok ns, of d]
  have sel: "\<exists>v. delta_nodes base d n = Some v \<and> nv_name v = n" if "n \<in> set (live_names ns d)" for n
    using that accessor_ok_name [OF dok] unfolding dom by fastforce
  have "map ni_name (concat (map (\<lambda>n. case delta_nodes base d n of
      Some nv \<Rightarrow> [node_input_of nv] | None \<Rightarrow> []) names)) = names"
    if "set names \<subseteq> set (live_names ns d)" for names
    using that by (induction names) (use sel in \<open>fastforce simp: node_input_of_def split: option.splits\<close>)+
  then show "map ni_name (fst (materialize base ns d)) = live_names ns d"
    by (simp add: materialize_def Let_def accessor_ok_get [OF dok])
  show "x \<in> set (fst (materialize base ns d)) \<longleftrightarrow>
      (\<exists>n v. delta_nodes base d n = Some v \<and> x = node_input_of v)"
    using dom by (force simp: materialize_def Let_def accessor_ok_get [OF dok] split: option.splits)
qed

end
