(* ===== verification/OG_Compact.thy ===== *)
theory OG_Compact
  imports OG_Delta_Apply OG_Builder
begin

text \<open>
  Compaction: rebuilding a graph from the materialised base and delta
  (\<open>delta::materialize\<close> followed by \<open>builder::build_graph_prenormalized\<close>) yields the same logical
  graph, up to the recomputed PageRank.
\<close>

section \<open>Canonical edges\<close>

text \<open>Edges as the builder and the delta store them: the ACL sorted without repetitions, the
  validity window not empty.\<close>

definition edge_canon :: "edge_data \<Rightarrow> bool" where
  "edge_canon e \<longleftrightarrow> normalize_acl (ed_acl e) = ed_acl e \<and> \<not> empty_window (ed_valid_from e) (ed_valid_to e)"

definition edges_canon :: "graph_edge multiset \<Rightarrow> bool" where
  "edges_canon E \<longleftrightarrow> (\<forall>x \<in># E. edge_canon (snd (snd x)))"

lemma build_edges_canon:
  "edges_canon (mset (map built_graph_edge (filter (edge_accepted names) edges)))"
  by (auto simp: edges_canon_def edge_canon_def built_graph_edge_def built_edge_def edge_accepted_def)

lemma kill_edges: "map de_edge (fst (kill_positions P ps es live)) = map de_edge es"
proof (induction P ps es live rule: kill_positions.induct)
  case (2 P p ps es live)
  have "map de_edge (es[unat p := (es ! unat p)\<lparr>de_dead := True\<rparr>]) = map de_edge es"
  proof (rule nth_equalityI)
    fix i assume "i < length (map de_edge (es[unat p := (es ! unat p)\<lparr>de_dead := True\<rparr>]))"
    then have "i < length es" by simp
    then show "map de_edge (es[unat p := (es ! unat p)\<lparr>de_dead := True\<rparr>]) ! i = map de_edge es ! i"
      by (cases "i = unat p") simp_all
  qed simp
  then show ?case using 2 by (simp add: Let_def)
qed simp

definition delta_canon :: "graph_delta \<Rightarrow> bool" where
  "delta_canon d \<longleftrightarrow> (\<forall>e \<in> set (map de_edge (added_edges d)). edge_canon e)"

lemma apply_op_canon:
  assumes "delta_canon d" and "op_error base d i x = None"
  shows "delta_canon (apply_op base x d)"
proof (cases x)
  case (AddEdge f t e)
  have "\<not> empty_window (ed_valid_from e) (ed_valid_to e)"
    using assms(2) by (auto simp: AddEdge empty_window_def split: option.splits if_splits)
  then show ?thesis using assms(1) by (auto simp: AddEdge delta_canon_def add_edge_def Let_def edge_canon_def)
qed (use assms(1) in \<open>simp_all only: delta_canon_def apply_op.simps mutator_fields kill_edges\<close>)

lemma seq_apply_canon:
  "delta_canon d \<Longrightarrow> seq_apply base i ops d = Inr d' \<Longrightarrow> delta_canon d'"
  by (induction ops arbitrary: i d) (auto split: option.splits intro: apply_op_canon)

lemma reachable_canon:
  assumes "delta_reachable base d"
  shows "delta_canon d"
  using assms
proof (induction rule: delta_reachable.induct)
  case empty
  show ?case by (simp add: delta_canon_def delta_new_def)
next
  case (batch d ops r d')
  then show ?case using seq_apply_canon [of d base 0 ops]
    by (auto simp: delta_apply_eq_sequential split: sum.splits)
qed

lemma delta_edges_canon:
  assumes "edges_canon E" and "delta_canon d"
  shows "edges_canon (delta_edges E d)"
  using assms by (auto simp: edges_canon_def delta_canon_def delta_edges_def live_edges_def edge_of_def)

section \<open>The rebuilt graph\<close>

lemma built_input_edge: "edge_canon (snd (snd x)) \<Longrightarrow> built_graph_edge (input_edge x) = x"
  by (cases x) (simp add: edge_canon_def built_graph_edge_def built_edge_def input_edge_def edge_input_of_def)

lemma mset_eq_set: "mset xs = image_mset f M \<Longrightarrow> set xs = f ` set_mset M"
  by (metis set_image_mset set_mset_mset)

lemma last_input_mem: "last_input xs n = Some x \<Longrightarrow> x \<in> set xs"
  unfolding last_input_def find_Some_iff by (metis length_rev nth_mem set_rev)

lemma distinct_dedup_length:
  assumes "distinct (map ni_name nodes)"
  shows "length (dedup_nodes nodes) = length nodes"
proof -
  have "length (dedup_nodes nodes) = card (ni_name ` set (dedup_nodes nodes))"
    using dedup_distinct [of nodes] by (metis distinct_card length_map list.set_map)
  also have "\<dots> = length nodes" using assms unfolding dedup_names by (metis distinct_card length_map list.set_map)
  finally show ?thesis .
qed

lemma compaction_graph:
  assumes laws: "digraph_laws ops" and ok: "accessor_ok base N E" and reach: "delta_reachable base d"
    and names: "set names = dom N" and canon: "edges_canon E"
    and room: "card (dom (delta_nodes base d)) \<le> dg_limit" "size (delta_edges E d) \<le> dg_limit"
  defines "G \<equiv> build_graph_prenormalized ops (fst (materialize base names d)) (snd (materialize base names d))"
  shows "og_ok ops G" and "og_edges ops G = delta_edges E d"
    and "map_option (\<lambda>v. v\<lparr>nv_pagerank_weight := f32_zero\<rparr>) (og_nodes ops G n) =
         map_option (\<lambda>v. v\<lparr>nv_pagerank_weight := f32_zero\<rparr>) (delta_nodes base d n)"
    and "length (dg_nodes ops (og_graph G)) \<le> dg_limit" and "length (dg_edges ops (og_graph G)) \<le> dg_limit"
proof -
  let ?ns = "fst (materialize base names d)" and ?es = "snd (materialize base names d)"
  note inv = delta_reachable_inv [OF reach ok]
  note dok = delta_accessor_ok [OF ok inv]
  note mn = materialize_nodes [OF ok inv names] and me = materialize_edges [OF ok inv names]
  have dist: "distinct (map ni_name ?ns)" using distinct_live_names mn(1) by simp
  have nset: "ni_name ` set ?ns = dom (delta_nodes base d)"
    using set_live_names [OF ok names, of d] mn(1) by (metis list.set_map)
  have len: "length (dedup_nodes ?ns) \<le> dg_limit"
    using distinct_dedup_length [OF dist] dist nset room(1) by (metis distinct_card length_map list.set_map)
  have elen: "length ?es \<le> dg_limit" using room(2) me by (metis size_image_mset size_mset)
  note b = build_edges [OF laws len elen, of False] build_nodes [OF laws len elen, of False n] build_ok [OF laws len elen, of False]
  show "length (dg_nodes ops (og_graph G)) \<le> dg_limit" "length (dg_edges ops (og_graph G)) \<le> dg_limit"
    using build_sizes(1) [OF laws len elen, of False] len order_trans [OF build_sizes(2) [OF laws len elen, of False] elen]
    by (simp_all add: G_def build_graph_prenormalized_def)
  show "og_ok ops G" using b(3) by (simp add: G_def build_graph_prenormalized_def)
  have dc: "edges_canon (delta_edges E d)" by (rule delta_edges_canon [OF canon reachable_canon [OF reach]])
  have acc: "edge_accepted (ni_name ` set ?ns) e" if em: "e \<in> set ?es" for e
  proof -
    obtain x where x: "e = input_edge x" "x \<in># delta_edges E d"
      using em unfolding mset_eq_set [OF me] by (rule imageE)
    obtain f t ed where fte: "x = (f, t, ed)" by (cases x)
    have "f \<in> dom (delta_nodes base d)" "t \<in> dom (delta_nodes base d)"
      using accessor_ok_src [OF dok] accessor_ok_tgt [OF dok] x(2) unfolding fte by blast+
    moreover have "\<not> empty_window (ed_valid_from ed) (ed_valid_to ed)"
      using dc x(2) by (auto simp: edges_canon_def edge_canon_def fte)
    ultimately show ?thesis unfolding nset by (simp add: x(1) fte edge_accepted_def input_edge_def edge_input_of_def)
  qed
  have "og_edges ops G = image_mset built_graph_edge (mset (filter (edge_accepted (ni_name ` set ?ns)) ?es))"
    using b(1) by (simp add: G_def build_graph_prenormalized_def)
  also have "filter (edge_accepted (ni_name ` set ?ns)) ?es = ?es" using acc by (simp add: filter_id_conv)
  also have "image_mset built_graph_edge (mset ?es) = image_mset (\<lambda>x. built_graph_edge (input_edge x)) (delta_edges E d)"
    by (simp add: me multiset.map_comp o_def)
  also have "\<dots> = image_mset (\<lambda>x. x) (delta_edges E d)"
    using dc by (intro image_mset_cong) (simp add: edges_canon_def built_input_edge)
  finally show "og_edges ops G = delta_edges E d" by simp
  have last: "last_input ?ns n = map_option node_input_of (delta_nodes base d n)"
  proof (cases "delta_nodes base d n")
    case None
    then show ?thesis using nset by (simp add: last_input_None domIff)
  next
    case (Some v)
    then have mem: "node_input_of v \<in> set ?ns" using mn(2) by blast
    have nm: "ni_name (node_input_of v) = n" using accessor_ok_name [OF dok Some] by (simp add: node_input_of_def)
    have "last_input ?ns n \<noteq> None" using mem nm unfolding last_input_None by blast
    then obtain x where x: "last_input ?ns n = Some x" by blast
    have "x \<in> set ?ns" using last_input_mem [OF x] .
    moreover have "ni_name x = n" using last_input_name [OF x] .
    ultimately have "x = node_input_of v" using mem nm dist by (metis distinct_map inj_onD)
    then show ?thesis using x Some by simp
  qed
  have dv: "norm_divisor False (dedup_nodes ?ns) = f32_one" by (simp add: norm_divisor_def)
  have same: "node_view_from (built_node False f32_one (node_input_of v)) = v\<lparr>nv_pagerank_weight := f32_zero\<rparr>" for v
    by (simp add: node_view_from_def built_node_def node_input_of_def)
  show "map_option (\<lambda>v. v\<lparr>nv_pagerank_weight := f32_zero\<rparr>) (og_nodes ops G n) =
         map_option (\<lambda>v. v\<lparr>nv_pagerank_weight := f32_zero\<rparr>) (delta_nodes base d n)"
    using b(2) by (simp add: G_def build_graph_prenormalized_def last dv same option.map_comp o_def)
qed

end
