(* ===== verification/OG_Store.thy ===== *)
theory OG_Store
  imports OG_Wal OG_Commit OG_Manifest OG_Base OG_Compact "HOL-Library.Sublist"
begin

text \<open>
  The persistent store of \<open>src/persist/mod.rs\<close>: create, open with recovery, apply, compaction,
  flush and close, as functions that thread the store handle and the file system and return an
  error or a result. The external formats and petgraph are the fields of \<open>platform\<close>. The reader
  side (\<open>ArcSwap\<close>) is the field \<open>st_state\<close>, replaced in one step by each publication. Sequence
  arithmetic is on 64-bit words.
\<close>

record 'g platform =
  x_graph :: "'g digraph_ops"
  x_crc :: "bytes \<Rightarrow> u32"
  x_csr_to :: "csr_graph \<Rightarrow> bytes"
  x_csr_access :: "bytes \<Rightarrow> csr_graph option"
  x_csr_unchecked :: "bytes \<Rightarrow> csr_graph"
  x_wal_to :: "wal_record \<Rightarrow> bytes option"
  x_wal_of :: "bytes \<Rightarrow> wal_record option"
  x_json_to :: "manifest \<Rightarrow> bytes option"
  x_json_of :: "bytes \<Rightarrow> manifest option"
  x_order :: "string list \<Rightarrow> string list"

section \<open>State\<close>

record 'g graph_state =
  gs_base :: "'g base_graph"
  gs_delta :: graph_delta
  gs_seq :: u64
  gs_epoch :: u128

record recovery_report =
  rr_uncommitted_tail_frames :: nat
  rr_torn_tail_frames :: nat

record 'g writer =
  wt_wal :: wal_writer
  wt_commit :: commit_file
  wt_seq :: u64
  wt_durable_seq :: u64
  wt_epoch :: u128
  wt_base :: "'g base_graph"
  wt_delta :: graph_delta
  wt_snapshot_seq :: u64
  wt_snapshot_file :: string
  wt_snapshot_crc32 :: u32
  wt_format_version :: u32
  wt_compaction_id :: u64
  wt_delta_ops :: nat
  wt_auto_compact_override :: "nat option"
  wt_mode :: base_mode
  wt_prefault :: bool

record 'g persistent_graph =
  st_state :: "'g graph_state"
  st_writer :: "'g writer"
  st_recovery :: recovery_report

section \<open>Running the parts of the writer\<close>

definition with_wal :: "(wal_writer \<times> fs, 'a) eff \<Rightarrow> ('g writer \<times> fs, 'a) eff" where
  "with_wal m = (\<lambda>(w, s). case m (wt_wal w, s) of (r, (wal, s)) \<Rightarrow> (r, (w\<lparr>wt_wal := wal\<rparr>, s)))"

definition with_commit :: "(commit_file \<times> fs, 'a) eff \<Rightarrow> ('g writer \<times> fs, 'a) eff" where
  "with_commit m = (\<lambda>(w, s). case m (wt_commit w, s) of (r, (c, s)) \<Rightarrow> (r, (w\<lparr>wt_commit := c\<rparr>, s)))"

definition with_fs :: "(fs, 'a) eff \<Rightarrow> ('w \<times> fs, 'a) eff" where
  "with_fs m = (\<lambda>(w, s). case m s of (r, s) \<Rightarrow> (r, (w, s)))"

definition with_writer :: "('g writer \<times> fs, 'a) eff \<Rightarrow> ('g persistent_graph \<times> fs, 'a) eff" where
  "with_writer m = (\<lambda>(g, s). case m (st_writer g, s) of (r, (w, s)) \<Rightarrow> (r, (g\<lparr>st_writer := w\<rparr>, s)))"

definition poison :: "'g writer \<Rightarrow> 'g writer" where
  "poison w = w\<lparr>wt_wal := (wt_wal w)\<lparr>ww_poisoned := True\<rparr>\<rparr>"

definition poisoned :: "'g writer \<Rightarrow> bool" where
  "poisoned w \<longleftrightarrow> ww_poisoned (wt_wal w)"

definition advance_commit :: "'g platform \<Rightarrow> u64 \<Rightarrow> ('g writer \<times> fs, unit) eff" where
  "advance_commit pl committed_seq = (\<lambda>(w, s).
     case with_commit (commit_advance (x_crc pl) (wt_epoch w) committed_seq) (w, s) of
       (Inl e, (w, s)) \<Rightarrow> (Inl e, (poison w, s))
     | (Inr _, (w, s)) \<Rightarrow> (Inr (), (w\<lparr>wt_durable_seq := committed_seq\<rparr>, s)))"

definition build_manifest :: "'g writer \<Rightarrow> bool \<Rightarrow> manifest" where
  "build_manifest w clean = \<lparr>
     mf_format_version = wt_format_version w, mf_snapshot_file = wt_snapshot_file w,
     mf_snapshot_seq = wt_snapshot_seq w, mf_snapshot_crc32 = wt_snapshot_crc32 w,
     mf_compaction_id = wt_compaction_id w, mf_epoch = wt_epoch w, mf_high_seq = wt_durable_seq w,
     mf_clean_shutdown = clean, mf_created_by = created_by_stamp, mf_checksum = 0\<rparr>"

definition save_manifest :: "'g platform \<Rightarrow> manifest \<Rightarrow> (fs, unit) eff" where
  "save_manifest pl m = write_manifest_atomic (x_crc pl) (x_json_to pl) m"

definition empty_inner :: "'g platform \<Rightarrow> 'g orpheus_graph" where
  "empty_inner pl = build_graph (x_graph pl) [] []"

definition auto_compact_threshold :: "nat \<Rightarrow> nat" where
  "auto_compact_threshold base_node_count = max 1000 (base_node_count div 10)"

section \<open>Snapshot files\<close>

fun decimal :: "nat \<Rightarrow> string" where
  "decimal n = (if n < 10 then [char_of (48 + n)] else decimal (n div 10) @ [char_of (48 + n mod 10)])"

declare decimal.simps [simp del]

definition padded :: "nat \<Rightarrow> nat \<Rightarrow> string" where
  "padded width n = replicate (width - length (decimal n)) (CHR ''0'') @ decimal n"

definition snapshot_v2_name :: "u64 \<Rightarrow> u64 \<Rightarrow> string" where
  "snapshot_v2_name seq cid = ''snapshot-'' @ padded 20 (unat seq) @ ''-'' @ padded 10 (unat cid) @ ''.og''"

text \<open>Removal is best effort: every outcome is logged and ignored.\<close>

definition remove_snapshot_file :: "string \<Rightarrow> fs \<Rightarrow> fs" where
  "remove_snapshot_file path s = snd (vfs_remove_file path s)"

definition is_orphan :: "string \<Rightarrow> bool" where
  "is_orphan name \<longleftrightarrow>
     (prefix ''snapshot-'' name \<and> (suffix ''.og'' name \<or> suffix ''.og.tmp'' name)) \<or> name = ''MANIFEST.json.tmp''"

definition gc_orphan_snapshots :: "(string list \<Rightarrow> string list) \<Rightarrow> string \<Rightarrow> fs \<Rightarrow> fs" where
  "gc_orphan_snapshots ho keep s =
     (case fs_read_dir ho s of
        (Inl e, s) \<Rightarrow> s
      | (Inr names, s) \<Rightarrow>
          foldl (\<lambda>s name. if name \<noteq> keep \<and> is_orphan name then remove_snapshot_file name s else s) s names)"

text \<open>\<open>None\<close> would be a name-index insertion that does not end; \<open>to_csr_total\<close> excludes it.\<close>

definition snapshot_bytes :: "'g platform \<Rightarrow> 'g orpheus_graph \<Rightarrow> persist_error + bytes" where
  "snapshot_bytes pl G =
     (case to_rkyv_v2 (x_csr_to pl) (x_graph pl) G of
        None \<Rightarrow> Inl (Corrupt ''name index does not terminate'') | Some b \<Rightarrow> Inr b)"

definition load_snapshot :: "'g platform \<Rightarrow> string \<Rightarrow> base_mode \<Rightarrow> validate \<Rightarrow> bool \<Rightarrow> u32 \<Rightarrow> (fs, 'g base_graph) eff" where
  "load_snapshot pl path mode validate prefault crc s =
     (case fs_read path s of
        (r, s) \<Rightarrow> (open_snapshot (x_crc pl) (x_csr_access pl) (x_csr_unchecked pl) (x_graph pl) r mode validate prefault crc, s))"

section \<open>Creating a store\<close>

definition with_lock :: "(fs, 'a) eff \<Rightarrow> (fs, 'a) eff" where
  "with_lock body s =
     (case lock_acquire s of
        (Inl e, s) \<Rightarrow> (Inl e, s)
      | (Inr _, s) \<Rightarrow> (case body s of (Inl e, s) \<Rightarrow> (Inl e, lock_release s) | (Inr x, s) \<Rightarrow> (Inr x, s)))"

definition wal_name :: string where "wal_name = ''wal.log''"

definition fresh_manifest :: "string \<Rightarrow> u32 \<Rightarrow> u128 \<Rightarrow> manifest" where
  "fresh_manifest snapshot_file crc epoch = \<lparr>
     mf_format_version = format_version, mf_snapshot_file = snapshot_file, mf_snapshot_seq = 0,
     mf_snapshot_crc32 = crc, mf_compaction_id = 0, mf_epoch = epoch, mf_high_seq = 0,
     mf_clean_shutdown = False, mf_created_by = created_by_stamp, mf_checksum = 0\<rparr>"

definition fresh_store :: "'g orpheus_graph \<Rightarrow> nat \<Rightarrow> commit_file \<Rightarrow> string \<Rightarrow> u32 \<Rightarrow> u128 \<Rightarrow> 'g persistent_graph" where
  "fresh_store G wal_fd commit snapshot_file crc epoch = \<lparr>
     st_state = \<lparr>gs_base = OwnedBase G, gs_delta = delta_new, gs_seq = 0, gs_epoch = epoch\<rparr>,
     st_writer = \<lparr>
       wt_wal = wal_new wal_fd OnFlush 0, wt_commit = commit, wt_seq = 0, wt_durable_seq = 0, wt_epoch = epoch,
       wt_base = OwnedBase G, wt_delta = delta_new, wt_snapshot_seq = 0, wt_snapshot_file = snapshot_file,
       wt_snapshot_crc32 = crc, wt_format_version = format_version, wt_compaction_id = 0, wt_delta_ops = 0,
       wt_auto_compact_override = None, wt_mode = MmapMode, wt_prefault = False\<rparr>,
     st_recovery = \<lparr>rr_uncommitted_tail_frames = 0, rr_torn_tail_frames = 0\<rparr>\<rparr>"

definition create_locked :: "'g platform \<Rightarrow> 'g orpheus_graph \<Rightarrow> (fs, 'g persistent_graph) eff" where
  "create_locked pl G = (\<lambda>s.
     if path_exists manifest_name s then (Inl (Corrupt ''refusing to clobber existing store''), s)
     else
       (let snapshot_file = snapshot_v2_name 0 0 in
        bindI (liftE (snapshot_bytes pl G)) (\<lambda>bytes.
        let crc = x_crc pl bytes in
        bindI (write_file_atomic snapshot_file bytes) (\<lambda>_.
        bindI (io (vfs_create wal_name)) (\<lambda>fd.
        bindI (io (file_sync_all fd)) (\<lambda>_.
        bindI (io vfs_fsync_dir) (\<lambda>_.
        bindI mint_epoch (\<lambda>epoch.
        bindI (commit_create (x_crc pl) epoch 0) (\<lambda>commit.
        bindI (save_manifest pl (fresh_manifest snapshot_file crc epoch)) (\<lambda>_.
        bindI (io (vfs_open_append wal_name)) (\<lambda>wal_fd.
          returnI (fresh_store G wal_fd commit snapshot_file crc epoch))))))))))) s)"

definition create_with_vfs :: "'g platform \<Rightarrow> 'g orpheus_graph \<Rightarrow> (fs, 'g persistent_graph) eff" where
  "create_with_vfs pl G = bindI (io fs_create_dir_all) (\<lambda>_. with_lock (create_locked pl G))"

section \<open>Recovery\<close>

record replay_state =
  rp_delta :: graph_delta
  rp_expected_next :: u64
  rp_last_applied :: u64
  rp_committed_end :: nat
  rp_uncommitted :: nat

text \<open>The replay loop over the scanned records: committed frames only.\<close>

fun replay_records ::
  "'g platform \<Rightarrow> accessor \<Rightarrow> u64 \<Rightarrow> u64 \<Rightarrow> wal_record list \<Rightarrow> replay_state \<Rightarrow> persist_error + replay_state" where
  "replay_records pl base commit_hw snapshot_seq [] s = Inr s"
| "replay_records pl base commit_hw snapshot_seq (rec # recs) s =
     (if wr_seq rec > commit_hw
      then replay_records pl base commit_hw snapshot_seq recs (s\<lparr>rp_uncommitted := rp_uncommitted s + 1\<rparr>)
      else bindE (encode_frame (x_crc pl) (x_wal_to pl) rec) (\<lambda>frame.
        let s = s\<lparr>rp_committed_end := rp_committed_end s + length frame\<rparr> in
        if wr_seq rec \<le> snapshot_seq then replay_records pl base commit_hw snapshot_seq recs s
        else if wr_seq rec \<noteq> rp_expected_next s then Inl (Corrupt ''WAL seq gap'')
        else replay_records pl base commit_hw snapshot_seq recs
               (s\<lparr>rp_delta := delta_replay base (wr_ops rec) (rp_delta s),
                  rp_last_applied := wr_seq rec,
                  rp_expected_next := rp_expected_next s + 1\<rparr>)))"

definition replay_committed ::
  "'g platform \<Rightarrow> accessor \<Rightarrow> u64 \<Rightarrow> u64 \<Rightarrow> scan_result \<Rightarrow> persist_error + replay_state" where
  "replay_committed pl base commit_hw snapshot_seq scan =
     bindE (replay_records pl base commit_hw snapshot_seq (sr_records scan)
       \<lparr>rp_delta = delta_new, rp_expected_next = snapshot_seq + 1, rp_last_applied = snapshot_seq,
        rp_committed_end = 0, rp_uncommitted = 0\<rparr>) (\<lambda>r.
       if rp_last_applied r < commit_hw then Inl (Corrupt ''WAL lost committed data'')
       else if rp_committed_end r > sr_valid_end scan then Inl (Corrupt ''internal: committed boundary exceeds WAL valid end'')
       else Inr r)"

definition load_base :: "'g platform \<Rightarrow> manifest \<Rightarrow> base_mode \<Rightarrow> validate \<Rightarrow> bool \<Rightarrow> (fs, 'g base_graph) eff" where
  "load_base pl m mode validate prefault =
     (if mf_format_version m \<le> 2 then failI (Corrupt ''legacy store format_version is no longer supported'')
      else if mf_format_version m = 3
      then load_snapshot pl (mf_snapshot_file m) mode validate prefault (mf_snapshot_crc32 m)
      else failI (UnsupportedVersion (mf_format_version m) format_version))"

definition open_wal :: "(fs, nat) eff" where
  "open_wal s =
     (case vfs_open_append wal_name s of
        (Inr fd, s) \<Rightarrow> (Inr fd, s)
      | (Inl e, s) \<Rightarrow> (Inl (if e = NotFoundIo then Corrupt ''MANIFEST present but wal.log missing'' else Io e), s))"

text \<open>Step 4: drop everything past the committed boundary; tells whether anything was dropped.\<close>

definition truncate_to :: "nat \<Rightarrow> nat \<Rightarrow> (fs, bool) eff" where
  "truncate_to fd committed_end =
     bindI (io (file_len fd)) (\<lambda>file_len.
       if file_len > committed_end then
         bindI (io (file_set_len fd committed_end)) (\<lambda>_.
         bindI (io (file_sync_all fd)) (\<lambda>_.
         bindI (io vfs_fsync_dir) (\<lambda>_. returnI True)))
       else returnI False)"

definition advance_marker :: "'g platform \<Rightarrow> commit_file \<Rightarrow> u128 \<Rightarrow> u64 \<Rightarrow> (fs, commit_file) eff" where
  "advance_marker pl c epoch seq s =
     (case commit_advance (x_crc pl) epoch seq (c, s) of (Inl e, (c, s)) \<Rightarrow> (Inl e, s) | (Inr _, (c, s)) \<Rightarrow> (Inr c, s))"

definition opened_store ::
  "'g platform \<Rightarrow> manifest \<Rightarrow> base_mode \<Rightarrow> bool \<Rightarrow> 'g base_graph \<Rightarrow> nat \<Rightarrow> commit_file \<Rightarrow> u64 \<Rightarrow> u128 \<Rightarrow>
     scan_result \<Rightarrow> replay_state \<Rightarrow> 'g persistent_graph" where
  "opened_store pl m mode prefault base fd commit commit_hw epoch scan r = \<lparr>
     st_state = \<lparr>gs_base = base, gs_delta = rp_delta r, gs_seq = rp_last_applied r, gs_epoch = epoch\<rparr>,
     st_writer = \<lparr>
       wt_wal = wal_new fd OnFlush (of_nat (rp_committed_end r)), wt_commit = commit, wt_seq = rp_last_applied r,
       wt_durable_seq = commit_hw, wt_epoch = epoch, wt_base = base, wt_delta = rp_delta r,
       wt_snapshot_seq = mf_snapshot_seq m, wt_snapshot_file = mf_snapshot_file m,
       wt_snapshot_crc32 = mf_snapshot_crc32 m, wt_format_version = mf_format_version m,
       wt_compaction_id = mf_compaction_id m, wt_delta_ops = 0, wt_auto_compact_override = None,
       wt_mode = mode, wt_prefault = prefault\<rparr>,
     st_recovery = \<lparr>rr_uncommitted_tail_frames = rp_uncommitted r,
       rr_torn_tail_frames = (if sr_tail_truncated scan then sr_dropped scan else 0)\<rparr>\<rparr>"

definition reopened_manifest :: "manifest \<Rightarrow> u128 \<Rightarrow> u64 \<Rightarrow> manifest" where
  "reopened_manifest m epoch commit_hw = m\<lparr>mf_epoch := epoch, mf_high_seq := commit_hw, mf_clean_shutdown := False, mf_checksum := 0\<rparr>"

definition finish_open ::
  "'g platform \<Rightarrow> manifest \<Rightarrow> base_mode \<Rightarrow> bool \<Rightarrow> 'g base_graph \<Rightarrow> nat \<Rightarrow> scan_result \<Rightarrow> commit_file \<Rightarrow> u64 \<Rightarrow>
     replay_state \<Rightarrow> (fs, 'g persistent_graph) eff" where
  "finish_open pl m mode prefault base fd scan commit commit_hw r =
     bindI (truncate_to fd (rp_committed_end r)) (\<lambda>truncated.
     bindI (if truncated \<or> \<not> mf_clean_shutdown m then mint_epoch else returnI (mf_epoch m)) (\<lambda>epoch.
     bindI (advance_marker pl commit epoch commit_hw) (\<lambda>commit.
     bindI (save_manifest pl (reopened_manifest m epoch commit_hw)) (\<lambda>_ s.
       (Inr (opened_store pl m mode prefault base fd commit commit_hw epoch scan r),
        gc_orphan_snapshots (x_order pl) (mf_snapshot_file m) s)))))"

definition open_locked :: "'g platform \<Rightarrow> base_mode \<Rightarrow> validate \<Rightarrow> bool \<Rightarrow> (fs, 'g persistent_graph) eff" where
  "open_locked pl mode validate prefault =
     bindI (read_manifest (x_crc pl) (x_json_of pl) manifest_name) (\<lambda>m.
     if mf_format_version m > format_version then failI (UnsupportedVersion (mf_format_version m) format_version) else
     bindI (load_base pl m mode validate prefault) (\<lambda>base.
     bindI open_wal (\<lambda>fd.
     bindI (read_and_scan (x_crc pl) (x_wal_of pl) fd) (\<lambda>scan.
     bindI (commit_open (x_crc pl)) (\<lambda>(rec, commit).
     let commit_hw = max (cr_committed_seq rec) (mf_snapshot_seq m) in
     if commit_hw < mf_high_seq m then failI (Corrupt ''COMMIT marker is behind MANIFEST high_seq'') else
     bindI (liftE (replay_committed pl (as_accessor (x_graph pl) base) commit_hw (mf_snapshot_seq m) scan)) (\<lambda>r.
       finish_open pl m mode prefault base fd scan commit commit_hw r))))))"

definition open_with_vfs ::
  "'g platform \<Rightarrow> bool \<Rightarrow> base_mode \<Rightarrow> validate \<Rightarrow> bool \<Rightarrow> (fs, 'g persistent_graph) eff" where
  "open_with_vfs pl create mode validate prefault = (\<lambda>s.
     let validate = (case validate of NoValidate \<Rightarrow> Crc | v \<Rightarrow> v) in
     if \<not> path_exists manifest_name s then
       (if create then create_with_vfs pl (empty_inner pl) s else (Inl (NotFound ''''), s))
     else with_lock (open_locked pl mode validate prefault) s)"

end
