(* ===== verification/OG_Store_Ops.thy ===== *)
theory OG_Store_Ops
  imports OG_Store
begin

text \<open>
  The operations of an open store (\<open>src/persist/mod.rs\<close>): compaction, \<open>apply\<close>, \<open>flush\<close>, \<open>close\<close> and
  the accessors. They run under the writer mutex, so each is one step.
\<close>

section \<open>Publication\<close>

definition publish :: "'g persistent_graph \<Rightarrow> 'g persistent_graph" where
  "publish g = g\<lparr>st_state := \<lparr>
     gs_base = wt_base (st_writer g), gs_delta = wt_delta (st_writer g),
     gs_seq = wt_seq (st_writer g), gs_epoch = wt_epoch (st_writer g)\<rparr>\<rparr>"

definition modify :: "('w \<Rightarrow> 'w) \<Rightarrow> ('w \<times> fs, unit) eff" where
  "modify f = (\<lambda>(w, s). (Inr (), (f w, s)))"

definition gets :: "('w \<Rightarrow> 'a) \<Rightarrow> ('w \<times> fs, 'a) eff" where
  "gets f = (\<lambda>(w, s). (Inr (f w), (w, s)))"

section \<open>Compaction\<close>

definition fold_graph :: "'g platform \<Rightarrow> 'g writer \<Rightarrow> 'g orpheus_graph" where
  "fold_graph pl w =
     (let base = as_accessor (x_graph pl) (wt_base w);
          (nodes, edges) = materialize base (base_node_names (x_order pl) (wt_base w)) (wt_delta w)
      in build_graph_prenormalized (x_graph pl) nodes edges)"

definition compacted_manifest :: "'g writer \<Rightarrow> string \<Rightarrow> u32 \<Rightarrow> manifest" where
  "compacted_manifest w new_file new_crc = \<lparr>
     mf_format_version = format_version, mf_snapshot_file = new_file, mf_snapshot_seq = wt_seq w,
     mf_snapshot_crc32 = new_crc, mf_compaction_id = wt_compaction_id w + 1, mf_epoch = wt_epoch w,
     mf_high_seq = wt_seq w, mf_clean_shutdown = False, mf_created_by = created_by_stamp, mf_checksum = 0\<rparr>"

text \<open>Step 5b: the pointers in memory follow the committed MANIFEST before anything else can fail.\<close>

definition adopt_snapshot :: "string \<Rightarrow> u32 \<Rightarrow> 'g writer \<Rightarrow> 'g writer" where
  "adopt_snapshot new_file new_crc w = w\<lparr>
     wt_snapshot_seq := wt_seq w, wt_snapshot_file := new_file, wt_snapshot_crc32 := new_crc,
     wt_format_version := format_version, wt_compaction_id := wt_compaction_id w + 1\<rparr>"

definition reload_base :: "'g platform \<Rightarrow> 'g orpheus_graph \<Rightarrow> string \<Rightarrow> u32 \<Rightarrow> ('g writer \<times> fs, 'g base_graph) eff" where
  "reload_base pl folded new_file new_crc = (\<lambda>(w, s).
     case wt_mode w of
       OwnedMode \<Rightarrow> (Inr (OwnedBase folded), (w, s))
     | MmapMode \<Rightarrow> with_fs (load_snapshot pl new_file MmapMode NoValidate (wt_prefault w) new_crc) (w, s))"

text \<open>Steps 2 to 7, up to the new base.\<close>

definition compact_writer :: "'g platform \<Rightarrow> 'g orpheus_graph \<Rightarrow> string \<Rightarrow> ('g writer \<times> fs, 'g base_graph) eff" where
  "compact_writer pl folded new_file = (\<lambda>(w, s).
     bindI (liftE (snapshot_bytes pl folded)) (\<lambda>bytes.
     let new_crc = x_crc pl bytes in
     bindI (with_fs (write_file_atomic new_file bytes)) (\<lambda>_.
     bindI (with_fs (save_manifest pl (compacted_manifest w new_file new_crc))) (\<lambda>_.
     bindI (modify (adopt_snapshot new_file new_crc)) (\<lambda>_.
     bindI (advance_commit pl (max (wt_durable_seq w) (wt_seq w))) (\<lambda>_.
     bindI (with_wal wal_truncate) (\<lambda>_.
       reload_base pl folded new_file new_crc)))))) (w, s))"

definition compact_locked :: "'g platform \<Rightarrow> ('g persistent_graph \<times> fs, unit) eff" where
  "compact_locked pl = (\<lambda>(g, s).
     let w = st_writer g in
     if delta_is_empty (wt_delta w) then (Inr (), (g\<lparr>st_writer := w\<lparr>wt_delta_ops := 0\<rparr>\<rparr>, s))
     else
       let folded = fold_graph pl w;
           old_file = wt_snapshot_file w;
           new_file = snapshot_v2_name (wt_seq w) (wt_compaction_id w + 1)
       in bindI (with_writer (compact_writer pl folded new_file)) (\<lambda>new_base (g, s).
            let g = publish (g\<lparr>st_writer := (st_writer g)\<lparr>wt_base := new_base, wt_delta := delta_new, wt_delta_ops := 0\<rparr>\<rparr>)
            in (Inr (), (g, if old_file \<noteq> new_file then remove_snapshot_file old_file s else s))) (g, s))"

definition compact :: "'g platform \<Rightarrow> ('g persistent_graph \<times> fs, unit) eff" where
  "compact pl = (\<lambda>(g, s). if poisoned (st_writer g) then (Inl Poisoned, (g, s)) else compact_locked pl (g, s))"

section \<open>Apply\<close>

text \<open>Steps 4 to 6: the frame goes to the log, and the marker advances once it is fsynced.\<close>

definition commit_batch :: "'g platform \<Rightarrow> wal_record \<Rightarrow> ('g writer \<times> fs, unit) eff" where
  "commit_batch pl rec =
     bindI (liftE (encode_frame (x_crc pl) (x_wal_to pl) rec)) (\<lambda>frame.
     bindI (with_wal (wal_append frame)) (\<lambda>fsynced.
       if fsynced then advance_commit pl (wr_seq rec) else returnI ()))"

definition adopt_batch :: "u64 \<Rightarrow> nat \<Rightarrow> graph_delta \<Rightarrow> 'g writer \<Rightarrow> 'g writer" where
  "adopt_batch new_seq op_count d w = w\<lparr>wt_seq := new_seq, wt_delta_ops := wt_delta_ops w + op_count, wt_delta := d\<rparr>"

definition compact_threshold :: "'g platform \<Rightarrow> 'g writer \<Rightarrow> nat" where
  "compact_threshold pl w =
     (case wt_auto_compact_override w of
        Some n \<Rightarrow> n
      | None \<Rightarrow> auto_compact_threshold (acc_node_count (as_accessor (x_graph pl) (wt_base w))))"

text \<open>Step 9: automatic compaction never turns a committed batch into an error.\<close>

definition auto_compact :: "'g platform \<Rightarrow> 'g persistent_graph \<times> fs \<Rightarrow> 'g persistent_graph \<times> fs" where
  "auto_compact pl = (\<lambda>(g, s).
     if wt_delta_ops (st_writer g) > compact_threshold pl (st_writer g) then
       (case compact_locked pl (g, s) of
          (Inr _, gs) \<Rightarrow> gs
        | (Inl e, (g, s)) \<Rightarrow> (g\<lparr>st_writer := (st_writer g)\<lparr>wt_delta_ops := 0\<rparr>\<rparr>, s))
     else (g, s))"

definition apply_batch :: "'g platform \<Rightarrow> op list \<Rightarrow> u64 option \<Rightarrow> ('g persistent_graph \<times> fs, u64) eff" where
  "apply_batch pl ops expected_seq = (\<lambda>(g, s).
     let w = st_writer g in
     if poisoned w then (Inl Poisoned, (g, s))
     else if (case expected_seq of Some e \<Rightarrow> e \<noteq> wt_seq w | None \<Rightarrow> False)
     then (Inl (Conflict (the expected_seq) (wt_seq w)), (g, s))
     else
       (case delta_apply (as_accessor (x_graph pl) (wt_base w)) ops (wt_delta w) of
          (Inl e, _) \<Rightarrow> (Inl (DeltaErr e), (g, s))
        | (Inr _, d) \<Rightarrow>
            let new_seq = wt_seq w + 1 in
            (case with_writer (commit_batch pl \<lparr>wr_seq = new_seq, wr_ops = ops\<rparr>) (g, s) of
               (Inl e, gs) \<Rightarrow> (Inl e, gs)
             | (Inr _, (g, s)) \<Rightarrow>
                 let g = publish (g\<lparr>st_writer := adopt_batch new_seq (length ops) d (st_writer g)\<rparr>)
                 in (Inr new_seq, auto_compact pl (g, s)))))"

section \<open>Flush and close\<close>

definition flush :: "'g platform \<Rightarrow> ('g persistent_graph \<times> fs, unit) eff" where
  "flush pl = (\<lambda>(g, s).
     if poisoned (st_writer g) then (Inl Poisoned, (g, s))
     else with_writer (bindI (with_wal wal_flush) (\<lambda>_.
            bindI (gets wt_seq) (advance_commit pl))) (g, s))"

text \<open>The manifest to write and whether the writer is poisoned. The handle is consumed: the lock is
  released on every path.\<close>

definition close_writer :: "'g platform \<Rightarrow> 'g writer \<times> fs \<Rightarrow> (manifest \<times> bool) \<times> fs" where
  "close_writer pl = (\<lambda>(w, s).
     if poisoned w then ((build_manifest w False, True), s)
     else
       (case bindI (with_wal wal_flush) (\<lambda>_. advance_commit pl (wt_seq w)) (w, s) of
          (Inr _, (w, s)) \<Rightarrow> ((build_manifest w True, False), s)
        | (Inl e, (w, s)) \<Rightarrow> ((build_manifest w False, True), s)))"

definition close :: "'g platform \<Rightarrow> 'g persistent_graph \<Rightarrow> (fs, unit) eff" where
  "close pl g s =
     (case close_writer pl (st_writer g, s) of
        ((m, was_poisoned), s) \<Rightarrow>
          (case save_manifest pl m s of
             (Inl e, s) \<Rightarrow> (Inl e, lock_release s)
           | (Inr _, s) \<Rightarrow> (if was_poisoned then Inl Poisoned else Inr (), lock_release s)))"

section \<open>Accessors and knobs\<close>

definition snapshot_state :: "'g persistent_graph \<Rightarrow> 'g graph_state" where
  "snapshot_state g = st_state g"

definition store_seq :: "'g persistent_graph \<Rightarrow> u64" where "store_seq g = gs_seq (st_state g)"

definition store_epoch :: "'g persistent_graph \<Rightarrow> u128" where "store_epoch g = gs_epoch (st_state g)"

definition committed_seq :: "'g persistent_graph \<Rightarrow> u64" where "committed_seq g = wt_durable_seq (st_writer g)"

definition get_recovery_report :: "'g persistent_graph \<Rightarrow> recovery_report" where "get_recovery_report g = st_recovery g"

definition set_fsync_policy :: "fsync_policy \<Rightarrow> 'g persistent_graph \<Rightarrow> 'g persistent_graph" where
  "set_fsync_policy policy g =
     g\<lparr>st_writer := (st_writer g)\<lparr>wt_wal := wal_set_policy policy (wt_wal (st_writer g))\<rparr>\<rparr>"

definition set_auto_compact_threshold :: "nat option \<Rightarrow> 'g persistent_graph \<Rightarrow> 'g persistent_graph" where
  "set_auto_compact_threshold threshold g =
     g\<lparr>st_writer := (st_writer g)\<lparr>wt_auto_compact_override := threshold\<rparr>\<rparr>"

end
