(* ===== verification/OG_Python_Args.thy ===== *)
theory OG_Python_Args
  imports OG_Store_Ops OG_Scoring
begin

text \<open>
  The arguments of the Python bindings (\<open>src/pybridge.rs\<close>): exceptions, the extraction of Rust values
  from Python dictionaries, the overlay dictionaries of a \<open>DynamicContext\<close>, node and edge inputs, and
  the operations of a batch.

  What PyO3 does to a Python object (downcast to a dictionary, look a key up, extract a value of a type)
  is a parameter. An exception is its class and the data its message is rendered from.
\<close>

section \<open>Exceptions\<close>

datatype py_class =
    PyValueError | PyKeyError | PyRuntimeError | PyFileNotFoundError | PyOSError | ConflictError | CorruptError
  | PyOther string

datatype py_message =
    Text string
  | Rendered persist_error
  | OverlayField string string
  | OverlayNumber string string string
  | EmptyOpField string
  | OutOfUnit string string f32
  | UnknownWord string

datatype py_error = PyErr (py_class_of: py_class) (py_message_of: py_message)

definition map_persist_err :: "persist_error \<Rightarrow> py_error" where
  "map_persist_err e = PyErr
     (case e of
        Conflict _ _ \<Rightarrow> ConflictError
      | NotFound _ \<Rightarrow> PyFileNotFoundError
      | DeltaErr _ \<Rightarrow> PyValueError
      | Poisoned \<Rightarrow> PyRuntimeError
      | LockHeld _ \<Rightarrow> PyRuntimeError
      | Corrupt _ \<Rightarrow> CorruptError
      | UnsupportedVersion _ _ \<Rightarrow> CorruptError
      | Io _ \<Rightarrow> PyOSError) (Rendered e)"

definition map_err :: "persist_error + 'a \<Rightarrow> py_error + 'a" where
  "map_err r = (case r of Inl e \<Rightarrow> Inl (map_persist_err e) | Inr x \<Rightarrow> Inr x)"

section \<open>PyO3\<close>

record 'v py_api =
  py_dict :: "'v \<Rightarrow> py_error + 'v"
  py_get_item :: "'v \<Rightarrow> string \<Rightarrow> py_error + 'v option"
  py_string :: "'v \<Rightarrow> py_error + string"
  py_f32 :: "'v \<Rightarrow> py_error + f32"
  py_u64 :: "'v \<Rightarrow> py_error + u64"
  py_strings :: "'v \<Rightarrow> py_error + string list"
  py_string_map :: "'v \<Rightarrow> py_error + (string, string) fmap"

text \<open>\<open>get_item(key)?.map(extract).transpose()?\<close> and \<open>get_item(key)?.ok_or_else(KeyError)?.extract()?\<close>.\<close>

definition optional_item :: "'v py_api \<Rightarrow> ('v \<Rightarrow> py_error + 'a) \<Rightarrow> 'v \<Rightarrow> string \<Rightarrow> py_error + 'a option" where
  "optional_item api extract d key =
     bindE (py_get_item api d key) (\<lambda>r.
       case r of None \<Rightarrow> Inr None | Some v \<Rightarrow> bindE (extract v) (\<lambda>x. Inr (Some x)))"

definition required_item :: "'v py_api \<Rightarrow> ('v \<Rightarrow> py_error + 'a) \<Rightarrow> 'v \<Rightarrow> string \<Rightarrow> py_error + 'a" where
  "required_item api extract d key =
     bindE (py_get_item api d key) (\<lambda>r.
       case r of None \<Rightarrow> Inl (PyErr PyKeyError (Text key)) | Some v \<Rightarrow> extract v)"

definition unwrap_or :: "'a \<Rightarrow> 'a option \<Rightarrow> 'a" where
  "unwrap_or x r = (case r of None \<Rightarrow> x | Some y \<Rightarrow> y)"

text \<open>The loops that push one parsed value per item and stop at the first error.\<close>

fun parse_all :: "('v \<Rightarrow> 'e + 'a) \<Rightarrow> 'v list \<Rightarrow> 'e + 'a list" where
  "parse_all p [] = Inr []"
| "parse_all p (v # vs) = bindE (p v) (\<lambda>x. bindE (parse_all p vs) (\<lambda>xs. Inr (x # xs)))"

section \<open>Parsing a number\<close>

text \<open>\<open>str::parse::<f32>\<close>: an optional sign, then \<open>inf\<close>, \<open>infinity\<close>, \<open>nan\<close> in any case, or decimal digits with
  an optional point and exponent; the value is rounded once.\<close>

definition is_digit :: "char \<Rightarrow> bool" where
  "is_digit c \<longleftrightarrow> 48 \<le> (of_char c :: nat) \<and> (of_char c :: nat) \<le> 57"

definition digit_val :: "char \<Rightarrow> nat" where "digit_val c = of_char c - 48"

definition digits_val :: "string \<Rightarrow> nat" where "digits_val ds = foldl (\<lambda>n c. 10 * n + digit_val c) 0 ds"

definition lower :: "char \<Rightarrow> char" where
  "lower c = (if 65 \<le> (of_char c :: nat) \<and> (of_char c :: nat) \<le> 90 then char_of ((of_char c :: nat) + 32) else c)"

fun split_sign :: "string \<Rightarrow> bool \<times> string" where
  "split_sign [] = (False, [])"
| "split_sign (c # cs) = (if c = CHR ''-'' then (True, cs) else if c = CHR ''+'' then (False, cs) else (False, c # cs))"

text \<open>The exponent: nothing, or \<open>e\<close> with an optional sign and at least one digit.\<close>

definition parse_exp :: "string \<Rightarrow> int option" where
  "parse_exp cs =
     (case cs of
        [] \<Rightarrow> Some 0
      | c # cs \<Rightarrow>
          (case split_sign cs of
             (neg, ds) \<Rightarrow>
               if lower c = CHR ''e'' \<and> ds \<noteq> [] \<and> list_all is_digit ds
               then Some (if neg then - int (digits_val ds) else int (digits_val ds)) else None))"

definition f32_of_decimal :: "bool \<Rightarrow> nat \<Rightarrow> int \<Rightarrow> f32" where
  "f32_of_decimal neg m e = f32_make neg
     (if e \<ge> 0 then round_mag (int m * 10 ^ nat e * 2 ^ 149) 1 else round_mag (int m * 2 ^ 149) (10 ^ nat (- e)))"

definition parse_f32 :: "string \<Rightarrow> f32 option" where
  "parse_f32 s =
     (case split_sign s of
        (neg, cs) \<Rightarrow>
          let word = map lower cs in
          if word = ''inf'' \<or> word = ''infinity'' then Some (f32_make neg 2139095040)
          else if word = ''nan'' then Some (f32_make neg 2143289344)
          else
            let whole = takeWhile is_digit cs;
                rest = dropWhile is_digit cs;
                (frac, tail) = (case rest of
                    [] \<Rightarrow> ([], [])
                  | c # r \<Rightarrow> if c = CHR ''.'' then (takeWhile is_digit r, dropWhile is_digit r) else ([], rest))
            in if whole = [] \<and> frac = [] then None
               else map_option (\<lambda>e. f32_of_decimal neg (digits_val (whole @ frac)) (e - int (length frac))) (parse_exp tail))"

section \<open>DynamicContext\<close>

record py_dynamic_context =
  pc_semantic_boosts :: "(string, f32) fmap"
  pc_weight_bonuses :: "(string, f32) fmap"
  pc_noise_tags :: "string fset"
  pc_max_fan_out :: "nat option"
  pc_fan_out_pagerank_bypass :: "f32 option"
  pc_w_base :: f32
  pc_w_semantic :: f32
  pc_w_noise :: f32
  pc_w_bonus :: f32
  pc_as_of :: "u64 option"
  pc_principals :: "string list"
  pc_overlay_nodes_raw :: "(string, string) fmap list"
  pc_overlay_edges_raw :: "(string, string) fmap list"

definition py_dynamic_context_new ::
  "(string, f32) fmap option \<Rightarrow> (string, f32) fmap option \<Rightarrow> string fset option \<Rightarrow> nat option \<Rightarrow> f32 option \<Rightarrow> f32 \<Rightarrow> f32 \<Rightarrow>
     f32 \<Rightarrow> f32 \<Rightarrow> (string, string) fmap list option \<Rightarrow> (string, string) fmap list option \<Rightarrow> u64 option \<Rightarrow> string list option \<Rightarrow>
     py_dynamic_context" where
  "py_dynamic_context_new boosts bonuses tags fan_out bypass base_w semantic_w noise_w bonus_w nodes edges instant holders = \<lparr>
     pc_semantic_boosts = unwrap_or fmempty boosts, pc_weight_bonuses = unwrap_or fmempty bonuses,
     pc_noise_tags = unwrap_or {||} tags, pc_max_fan_out = fan_out, pc_fan_out_pagerank_bypass = bypass,
     pc_w_base = base_w, pc_w_semantic = semantic_w, pc_w_noise = noise_w, pc_w_bonus = bonus_w, pc_as_of = instant,
     pc_principals = unwrap_or [] holders, pc_overlay_nodes_raw = unwrap_or [] nodes,
     pc_overlay_edges_raw = unwrap_or [] edges\<rparr>"

text \<open>\<open>DynamicContext()\<close>: the defaults of the signature.\<close>

definition py_dynamic_context_default :: py_dynamic_context where
  "py_dynamic_context_default =
     py_dynamic_context_new None None None None (Some f32_half) f32_one f32_1_5 f32_one f32_one None None None None"

definition add_boost :: "string \<Rightarrow> f32 \<Rightarrow> py_dynamic_context \<Rightarrow> py_dynamic_context" where
  "add_boost name val c = c\<lparr>pc_semantic_boosts := fmupd name val (pc_semantic_boosts c)\<rparr>"

definition add_bonus :: "string \<Rightarrow> f32 \<Rightarrow> py_dynamic_context \<Rightarrow> py_dynamic_context" where
  "add_bonus name val c = c\<lparr>pc_weight_bonuses := fmupd name val (pc_weight_bonuses c)\<rparr>"

definition add_noise_tag :: "string \<Rightarrow> py_dynamic_context \<Rightarrow> py_dynamic_context" where
  "add_noise_tag tag c = c\<lparr>pc_noise_tags := finsert tag (pc_noise_tags c)\<rparr>"

definition require_overlay_field :: "(string, string) fmap \<Rightarrow> string \<Rightarrow> string \<Rightarrow> py_error + string" where
  "require_overlay_field m field what =
     (case fmlookup m field of
        Some v \<Rightarrow> if v \<noteq> [] then Inr v else Inl (PyErr PyValueError (OverlayField what field))
      | None \<Rightarrow> Inl (PyErr PyValueError (OverlayField what field)))"

definition parse_overlay_f32 :: "(string, string) fmap \<Rightarrow> string \<Rightarrow> f32 \<Rightarrow> string \<Rightarrow> py_error + f32" where
  "parse_overlay_f32 m field dflt ctx =
     (case fmlookup m field of
        Some v \<Rightarrow> (case parse_f32 v of None \<Rightarrow> Inl (PyErr PyValueError (OverlayNumber ctx field v)) | Some x \<Rightarrow> Inr x)
      | None \<Rightarrow> Inr dflt)"

definition parse_overlay_node :: "(string, string) fmap \<Rightarrow> py_error + node_data" where
  "parse_overlay_node m =
     (let name = unwrap_or [] (fmlookup m ''name'') in
      if name = [] then Inl (PyErr PyValueError (OverlayField ''node'' ''name''))
      else
        bindE (parse_overlay_f32 m ''base_weight'' f32_half name) (\<lambda>base_weight.
        bindE (parse_overlay_f32 m ''noise_penalty'' f32_zero name) (\<lambda>noise_penalty.
          Inr \<lparr>nd_name = name, nd_kind = unwrap_or [] (fmlookup m ''kind''), nd_metadata = fmempty,
            nd_base_weight = base_weight, nd_noise_penalty = noise_penalty, nd_pagerank_weight = f32_zero\<rparr>)))"

definition parse_overlay_edge :: "(string, string) fmap \<Rightarrow> py_error + string \<times> string \<times> edge_data" where
  "parse_overlay_edge m =
     bindE (require_overlay_field m ''from'' ''edge'') (\<lambda>from.
     bindE (require_overlay_field m ''to'' ''edge'') (\<lambda>to.
     bindE (require_overlay_field m ''kind'' ''edge'') (\<lambda>kind.
     bindE (parse_overlay_f32 m ''base_weight'' f32_one (from @ ''->'' @ to)) (\<lambda>base_weight.
       Inr (from, to, \<lparr>ed_kind = kind, ed_field_name = fmlookup m ''field'', ed_base_weight = base_weight,
         ed_valid_from = None, ed_valid_to = None, ed_acl = []\<rparr>)))))"

definition parse_overlays :: "py_dynamic_context \<Rightarrow> py_error + node_data list \<times> (string \<times> string \<times> edge_data) list" where
  "parse_overlays c =
     bindE (parse_all parse_overlay_node (pc_overlay_nodes_raw c)) (\<lambda>nodes.
     bindE (parse_all parse_overlay_edge (pc_overlay_edges_raw c)) (\<lambda>edges. Inr (nodes, edges)))"

definition resolve_dynamic_context :: "py_dynamic_context \<Rightarrow> py_error + dynamic_context" where
  "resolve_dynamic_context c =
     bindE (parse_overlays c) (\<lambda>(nodes, edges).
       Inr \<lparr>semantic_boosts = pc_semantic_boosts c, overlay_nodes = nodes, overlay_edges = edges,
         weight_bonuses = pc_weight_bonuses c, w_base = pc_w_base c, w_semantic = pc_w_semantic c,
         w_noise = pc_w_noise c, w_bonus = pc_w_bonus c, noise_tags = pc_noise_tags c,
         max_fan_out = pc_max_fan_out c, fan_out_pagerank_bypass = pc_fan_out_pagerank_bypass c, as_of = pc_as_of c,
         principals = remdups_adj (sort (pc_principals c))\<rparr>)"

section \<open>Node and edge inputs\<close>

definition optional_dict_u64 :: "'v py_api \<Rightarrow> 'v \<Rightarrow> string \<Rightarrow> py_error + u64 option" where
  "optional_dict_u64 api d key = optional_item api (py_u64 api) d key"

definition optional_dict_acl :: "'v py_api \<Rightarrow> 'v \<Rightarrow> string \<Rightarrow> py_error + string list" where
  "optional_dict_acl api d key =
     bindE (optional_item api (py_strings api) d key) (\<lambda>acl. Inr (normalize_acl (unwrap_or [] acl)))"

definition parse_node_input :: "'v py_api \<Rightarrow> 'v \<Rightarrow> py_error + node_input" where
  "parse_node_input api item =
     bindE (py_dict api item) (\<lambda>d.
     bindE (required_item api (py_string api) d ''name'') (\<lambda>name.
     bindE (required_item api (py_string api) d ''kind'') (\<lambda>kind.
     bindE (optional_item api (py_string_map api) d ''metadata'') (\<lambda>metadata.
     bindE (required_item api (py_f32 api) d ''base_weight'') (\<lambda>base_weight.
     bindE (optional_item api (py_f32 api) d ''noise_penalty'') (\<lambda>noise_penalty.
       Inr \<lparr>ni_name = name, ni_kind = kind, ni_metadata = unwrap_or fmempty metadata, ni_base_weight = base_weight,
         ni_noise_penalty = unwrap_or f32_zero noise_penalty\<rparr>))))))"

definition parse_node_inputs :: "'v py_api \<Rightarrow> 'v list \<Rightarrow> py_error + node_input list" where
  "parse_node_inputs api nodes = parse_all (parse_node_input api) nodes"

definition parse_edge_input :: "'v py_api \<Rightarrow> 'v \<Rightarrow> py_error + edge_input" where
  "parse_edge_input api item =
     bindE (py_dict api item) (\<lambda>d.
     bindE (required_item api (py_string api) d ''from'') (\<lambda>from.
     bindE (required_item api (py_string api) d ''to'') (\<lambda>to.
     bindE (required_item api (py_string api) d ''kind'') (\<lambda>kind.
     bindE (optional_item api (py_string api) d ''field'') (\<lambda>field_name.
     bindE (optional_item api (py_f32 api) d ''base_weight'') (\<lambda>base_weight.
     bindE (optional_dict_u64 api d ''valid_from'') (\<lambda>valid_from.
     bindE (optional_dict_u64 api d ''valid_to'') (\<lambda>valid_to.
     bindE (optional_dict_acl api d ''acl'') (\<lambda>acl.
       Inr \<lparr>ei_from = from, ei_to = to, ei_kind = kind, ei_field_name = field_name,
         ei_base_weight = unwrap_or f32_one base_weight, ei_valid_from = valid_from, ei_valid_to = valid_to, ei_acl = acl\<rparr>)))))))))"

definition parse_edge_inputs :: "'v py_api \<Rightarrow> 'v list \<Rightarrow> py_error + edge_input list" where
  "parse_edge_inputs api edges = parse_all (parse_edge_input api) edges"

section \<open>The operations of a batch\<close>

definition require_op_str :: "'v py_api \<Rightarrow> 'v \<Rightarrow> string \<Rightarrow> py_error + string" where
  "require_op_str api d key =
     bindE (py_get_item api d key) (\<lambda>r.
       case r of
         Some v \<Rightarrow> bindE (py_string api v) (\<lambda>s. if s = [] then Inl (PyErr PyValueError (EmptyOpField key)) else Inr s)
       | None \<Rightarrow> Inl (PyErr PyKeyError (Text key)))"

definition optional_op_str :: "'v py_api \<Rightarrow> 'v \<Rightarrow> string \<Rightarrow> py_error + string option" where
  "optional_op_str api d key = optional_item api (py_string api) d key"

definition op_f32 :: "'v py_api \<Rightarrow> 'v \<Rightarrow> string \<Rightarrow> f32 \<Rightarrow> py_error + f32" where
  "op_f32 api d key dflt = bindE (optional_item api (py_f32 api) d key) (\<lambda>r. Inr (unwrap_or dflt r))"

definition require_unit :: "f32 \<Rightarrow> string \<Rightarrow> string \<Rightarrow> py_error + unit" where
  "require_unit v field ctx =
     (if f32_le f32_zero v \<and> f32_le v f32_one then Inr () else Inl (PyErr PyValueError (OutOfUnit ctx field v)))"

definition parse_op :: "'v py_api \<Rightarrow> 'v \<Rightarrow> py_error + op" where
  "parse_op api item =
     bindE (py_dict api item) (\<lambda>d.
     bindE (require_op_str api d ''op'') (\<lambda>word.
     if word = ''upsert_node'' then
       bindE (require_op_str api d ''name'') (\<lambda>name.
       bindE (op_f32 api d ''base_weight'' f32_half) (\<lambda>base_weight.
       bindE (op_f32 api d ''noise_penalty'' f32_zero) (\<lambda>noise_penalty.
       bindE (require_unit base_weight ''base_weight'' name) (\<lambda>_.
       bindE (require_unit noise_penalty ''noise_penalty'' name) (\<lambda>_.
       bindE (optional_op_str api d ''kind'') (\<lambda>kind.
       bindE (optional_item api (py_string_map api) d ''metadata'') (\<lambda>metadata.
         Inr (UpsertNode \<lparr>nd_name = name, nd_kind = unwrap_or [] kind, nd_metadata = unwrap_or fmempty metadata,
           nd_base_weight = base_weight, nd_noise_penalty = noise_penalty, nd_pagerank_weight = f32_zero\<rparr>))))))))
     else if word = ''remove_node'' then
       bindE (require_op_str api d ''name'') (\<lambda>name. Inr (RemoveNode name))
     else if word = ''add_edge'' then
       bindE (require_op_str api d ''from'') (\<lambda>from.
       bindE (require_op_str api d ''to'') (\<lambda>to.
       bindE (require_op_str api d ''kind'') (\<lambda>kind.
       bindE (op_f32 api d ''base_weight'' f32_one) (\<lambda>base_weight.
       bindE (require_unit base_weight ''base_weight'' (from @ ''->'' @ to)) (\<lambda>_.
       bindE (optional_op_str api d ''field'') (\<lambda>field_name.
       bindE (optional_dict_u64 api d ''valid_from'') (\<lambda>valid_from.
       bindE (optional_dict_u64 api d ''valid_to'') (\<lambda>valid_to.
       bindE (optional_dict_acl api d ''acl'') (\<lambda>acl.
         Inr (AddEdge from to \<lparr>ed_kind = kind, ed_field_name = field_name, ed_base_weight = base_weight,
           ed_valid_from = valid_from, ed_valid_to = valid_to, ed_acl = acl\<rparr>))))))))))
     else if word = ''remove_edge'' then
       bindE (require_op_str api d ''from'') (\<lambda>from.
       bindE (require_op_str api d ''to'') (\<lambda>to.
       bindE (require_op_str api d ''kind'') (\<lambda>kind. Inr (RemoveEdge from to kind))))
     else Inl (PyErr PyValueError (UnknownWord word))))"

definition parse_ops :: "'v py_api \<Rightarrow> 'v list \<Rightarrow> py_error + op list" where
  "parse_ops api ops = parse_all (parse_op api) ops"

section \<open>What the parsers guarantee\<close>

lemma parse_all_Inr: "parse_all p vs = Inr xs \<longleftrightarrow> list_all2 (\<lambda>v x. p v = Inr x) vs xs"
  by (induction vs arbitrary: xs) (auto simp: bindE_Inr_iff list_all2_Cons1)

lemma parse_all_set: "parse_all p vs = Inr xs \<Longrightarrow> (\<And>v x. p v = Inr x \<Longrightarrow> P x) \<Longrightarrow> \<forall>x \<in> set xs. P x"
  unfolding parse_all_Inr by (induction rule: list_all2_induct) auto

lemma parse_all_length: "parse_all p vs = Inr xs \<Longrightarrow> length xs = length vs"
  unfolding parse_all_Inr by (simp add: list_all2_lengthD)

lemma require_unit_Inr [simp]: "require_unit v field ctx = Inr u \<longleftrightarrow> f32_unit v"
  by (simp add: require_unit_def f32_unit_def)

lemma require_op_str_Inr: "require_op_str api d key = Inr s \<Longrightarrow> s \<noteq> []"
  by (auto simp: require_op_str_def bindE_Inr_iff split: option.splits if_splits)

lemma optional_dict_acl_Inr: "optional_dict_acl api d key = Inr acl \<Longrightarrow> normalize_acl acl = acl"
  by (auto simp: optional_dict_acl_def bindE_Inr_iff)

text \<open>What a parsed operation satisfies: names are there, weights are normalised, the ACL is canonical.\<close>

fun py_op_ok :: "op \<Rightarrow> bool" where
  "py_op_ok (UpsertNode nd) \<longleftrightarrow>
     nd_name nd \<noteq> [] \<and> f32_unit (nd_base_weight nd) \<and> f32_unit (nd_noise_penalty nd) \<and> nd_pagerank_weight nd = f32_zero"
| "py_op_ok (RemoveNode name) \<longleftrightarrow> name \<noteq> []"
| "py_op_ok (AddEdge from to e) \<longleftrightarrow>
     from \<noteq> [] \<and> to \<noteq> [] \<and> ed_kind e \<noteq> [] \<and> f32_unit (ed_base_weight e) \<and> normalize_acl (ed_acl e) = ed_acl e"
| "py_op_ok (RemoveEdge from to kind) \<longleftrightarrow> from \<noteq> [] \<and> to \<noteq> [] \<and> kind \<noteq> []"

lemma parse_op_ok: "parse_op api v = Inr x \<Longrightarrow> py_op_ok x"
  by (auto simp: parse_op_def bindE_Inr_iff optional_dict_acl_Inr dest: require_op_str_Inr split: if_splits)

lemma parse_ops_ok: "parse_ops api vs = Inr ops \<Longrightarrow> length ops = length vs \<and> (\<forall>x \<in> set ops. py_op_ok x)"
  unfolding parse_ops_def using parse_all_set [where P = py_op_ok, OF _ parse_op_ok] by (simp add: parse_all_length)

text \<open>A resolved context: named overlay nodes and edges, canonical principals.\<close>

lemma resolve_dynamic_context_ok:
  assumes "resolve_dynamic_context c = Inr ctx"
  shows "\<forall>n \<in> set (overlay_nodes ctx). nd_name n \<noteq> [] \<and> nd_pagerank_weight n = f32_zero"
    and "\<forall>(f, t, e) \<in> set (overlay_edges ctx). f \<noteq> [] \<and> t \<noteq> [] \<and> ed_kind e \<noteq> [] \<and> ed_acl e = []"
    and "principals ctx = normalize_acl (pc_principals c)"
proof -
  obtain ns es where p: "parse_all parse_overlay_node (pc_overlay_nodes_raw c) = Inr ns" "parse_all parse_overlay_edge (pc_overlay_edges_raw c) = Inr es"
    and ctx: "overlay_nodes ctx = ns" "overlay_edges ctx = es" "principals ctx = normalize_acl (pc_principals c)"
    using assms by (auto simp: resolve_dynamic_context_def parse_overlays_def bindE_Inr_iff normalize_acl_def)
  have field: "require_overlay_field m k w = Inr x \<Longrightarrow> x \<noteq> []" for m k w x
    by (auto simp: require_overlay_field_def split: option.splits if_splits)
  show "\<forall>n \<in> set (overlay_nodes ctx). nd_name n \<noteq> [] \<and> nd_pagerank_weight n = f32_zero"
    unfolding ctx by (rule parse_all_set [OF p(1)]) (auto simp: parse_overlay_node_def Let_def bindE_Inr_iff split: if_splits)
  show "\<forall>(f, t, e) \<in> set (overlay_edges ctx). f \<noteq> [] \<and> t \<noteq> [] \<and> ed_kind e \<noteq> [] \<and> ed_acl e = []"
    unfolding ctx by (rule parse_all_set [OF p(2)]) (auto simp: parse_overlay_edge_def bindE_Inr_iff dest: field)
  show "principals ctx = normalize_acl (pc_principals c)" by (rule ctx(3))
qed

text \<open>The default Python context is the default Rust context.\<close>

lemma default_context_resolves: "resolve_dynamic_context py_dynamic_context_default = Inr default_context"
  by (simp add: resolve_dynamic_context_def parse_overlays_def py_dynamic_context_default_def py_dynamic_context_new_def unwrap_or_def
      default_context_def)

text \<open>Some numbers.\<close>

lemma parse_f32_examples:
  "parse_f32 ''0.5'' = Some f32_half" "parse_f32 ''1'' = Some f32_one" "parse_f32 ''15e-1'' = Some f32_1_5" "parse_f32 ''+.9'' = Some f32_0_9"
  "parse_f32 ''NaN'' = Some f32_nan" "parse_f32 ''1e'' = None" "parse_f32 ''.'' = None" "parse_f32 [] = None" "parse_f32 '' 1'' = None"
  by code_simp+

end
