(* ===== verification/OG_Python.thy ===== *)
theory OG_Python
  imports OG_Python_Args OG_Traversal OG_Serialization
begin

text \<open>
  The classes and functions of the Python bindings (\<open>src/pybridge.rs\<close>): \<open>OrpheusGraph\<close> and
  \<open>PersistentGraph\<close>, handles that can be closed, whose methods convert their arguments, call the crate and
  convert the result. The result classes have the fields of the crate's result structs and are those
  structs here. Releasing the GIL has no effect on a single call.
\<close>

section \<open>The environment\<close>

text \<open>The code outside the repository: the platform of the store, the flat rkyv format, PyO3 and the order
  in which \<open>BinaryHeap\<close> pops equal costs. \<open>find_path\<close> runs on the fuel given.\<close>

record ('g, 'v) py_env =
  env_platform :: "'g platform"
  env_flat_to :: "serializable_graph \<Rightarrow> bytes"
  env_flat_access :: "bytes \<Rightarrow> serializable_graph option"
  env_api :: "'v py_api"
  env_heap_pop :: "dijkstra_entry list \<Rightarrow> (dijkstra_entry \<times> dijkstra_entry list) option"
  env_fuel :: nat

definition env_ops :: "('g, 'v) py_env \<Rightarrow> 'g digraph_ops" where "env_ops env = x_graph (env_platform env)"

definition env_order :: "('g, 'v) py_env \<Rightarrow> string list \<Rightarrow> string list" where "env_order env = x_order (env_platform env)"

section \<open>Results\<close>

definition from_node_result :: "node_result \<Rightarrow> node_result" where
  "from_node_result nr = \<lparr>nr_name = nr_name nr, nr_kind = nr_kind nr, nr_weight = nr_weight nr,
     nr_base_component = nr_base_component nr, nr_semantic_component = nr_semantic_component nr,
     nr_noise_component = nr_noise_component nr, nr_bonus_component = nr_bonus_component nr\<rparr>"

definition from_edge_result :: "edge_result \<Rightarrow> edge_result" where
  "from_edge_result er = \<lparr>er_source = er_source er, er_target = er_target er, er_kind = er_kind er,
     er_field_name = er_field_name er, er_weight = er_weight er, er_valid_from = er_valid_from er,
     er_valid_to = er_valid_to er, er_acl = er_acl er\<rparr>"

definition from_path_step :: "path_step \<Rightarrow> path_step" where
  "from_path_step ps = \<lparr>ps_node = ps_node ps, ps_edge_kind = ps_edge_kind ps, ps_field_name = ps_field_name ps,
     ps_direction = ps_direction ps\<rparr>"

definition py_explain_score :: "node_result \<Rightarrow> (string, f32) fmap" where
  "py_explain_score r =
     fmupd ''total'' (nr_weight r) (fmupd ''bonus'' (nr_bonus_component r) (fmupd ''noise'' (nr_noise_component r)
       (fmupd ''semantic'' (nr_semantic_component r) (fmupd ''base'' (nr_base_component r) fmempty))))"

definition from_sub_graph :: "sub_graph \<Rightarrow> sub_graph" where
  "from_sub_graph sg = \<lparr>sg_nodes = map from_node_result (sg_nodes sg), sg_edges = map from_edge_result (sg_edges sg)\<rparr>"

text \<open>An edge as seen from its source and from its target.\<close>

definition py_out_edge :: "string \<Rightarrow> neighbor_view \<Rightarrow> edge_result" where
  "py_out_edge name n = \<lparr>er_source = name, er_target = nb_target_name n, er_kind = nb_edge_kind n,
     er_field_name = nb_field_name n, er_weight = nb_edge_weight n, er_valid_from = nb_valid_from n,
     er_valid_to = nb_valid_to n, er_acl = nb_acl n\<rparr>"

definition py_in_edge :: "string \<Rightarrow> neighbor_view \<Rightarrow> edge_result" where
  "py_in_edge name n = \<lparr>er_source = nb_target_name n, er_target = name, er_kind = nb_edge_kind n,
     er_field_name = nb_field_name n, er_weight = nb_edge_weight n, er_valid_from = nb_valid_from n,
     er_valid_to = nb_valid_to n, er_acl = nb_acl n\<rparr>"

text \<open>The default of \<open>threshold\<close>: \<open>len.min(len.saturating_sub(1).max(2))\<close>.\<close>

definition default_threshold :: "string list \<Rightarrow> nat option \<Rightarrow> nat" where
  "default_threshold start_nodes threshold =
     (case threshold of Some t \<Rightarrow> t | None \<Rightarrow> min (length start_nodes) (max (length start_nodes - 1) 2))"

section \<open>OrpheusGraph\<close>

datatype 'g graph_inner = OwnedInner "'g orpheus_graph" | ArchivedInner archived_view

fun inner_accessor :: "'g digraph_ops \<Rightarrow> 'g graph_inner \<Rightarrow> accessor" where
  "inner_accessor ops (OwnedInner G) = graph_accessor ops G"
| "inner_accessor ops (ArchivedInner v) = archived_accessor v"

record 'g py_orpheus_graph =
  py_inner :: "'g graph_inner option"

definition require_inner :: "('g, 'v) py_env \<Rightarrow> 'g py_orpheus_graph \<Rightarrow> py_error + accessor" where
  "require_inner env self =
     (case py_inner self of
        None \<Rightarrow> Inl (PyErr PyRuntimeError (Text ''Graph has been closed. Call build_graph() or from_rkyv() to create a new one.''))
      | Some g \<Rightarrow> Inr (inner_accessor (env_ops env) g))"

definition og_py_node_count :: "('g, 'v) py_env \<Rightarrow> 'g py_orpheus_graph \<Rightarrow> py_error + nat" where
  "og_py_node_count env self = bindE (require_inner env self) (\<lambda>graph. Inr (acc_node_count graph))"

definition og_py_edge_count :: "('g, 'v) py_env \<Rightarrow> 'g py_orpheus_graph \<Rightarrow> py_error + nat" where
  "og_py_edge_count env self = bindE (require_inner env self) (\<lambda>graph. Inr (acc_edge_count graph))"

definition og_py_get_node :: "('g, 'v) py_env \<Rightarrow> 'g py_orpheus_graph \<Rightarrow> string \<Rightarrow> py_error + node_result option" where
  "og_py_get_node env self name =
     bindE (require_inner env self) (\<lambda>graph.
       Inr (map_option (\<lambda>nv. from_node_result (compute_score nv default_context)) (acc_get_node graph name)))"

definition og_py_outgoing_edges :: "('g, 'v) py_env \<Rightarrow> 'g py_orpheus_graph \<Rightarrow> string \<Rightarrow> py_error + edge_result list" where
  "og_py_outgoing_edges env self name =
     bindE (require_inner env self) (\<lambda>graph. Inr (map (py_out_edge name) (acc_outgoing graph name)))"

definition og_py_incoming_edges :: "('g, 'v) py_env \<Rightarrow> 'g py_orpheus_graph \<Rightarrow> string \<Rightarrow> py_error + edge_result list" where
  "og_py_incoming_edges env self name =
     bindE (require_inner env self) (\<lambda>graph. Inr (map (py_in_edge name) (acc_incoming graph name)))"

definition og_py_beam_traverse ::
  "('g, 'v) py_env \<Rightarrow> 'g py_orpheus_graph \<Rightarrow> string \<Rightarrow> nat \<Rightarrow> nat \<Rightarrow> py_dynamic_context \<Rightarrow> py_error + node_result list" where
  "og_py_beam_traverse env self start k depth ctx =
     bindE (resolve_dynamic_context ctx) (\<lambda>rust_ctx.
     bindE (require_inner env self) (\<lambda>graph.
       Inr (map from_node_result (beam_traverse (env_order env) graph rust_ctx start k depth))))"

text \<open>The inner option is the fuel of the search.\<close>

definition og_py_find_path ::
  "('g, 'v) py_env \<Rightarrow> 'g py_orpheus_graph \<Rightarrow> string \<Rightarrow> string \<Rightarrow> py_dynamic_context \<Rightarrow> py_error + path_step list option option" where
  "og_py_find_path env self start end ctx =
     bindE (resolve_dynamic_context ctx) (\<lambda>rust_ctx.
     bindE (require_inner env self) (\<lambda>graph.
       Inr (map_option (map_option (map from_path_step)) (find_path (env_fuel env) (env_heap_pop env) graph rust_ctx start end))))"

definition og_py_contextual_subgraph ::
  "('g, 'v) py_env \<Rightarrow> 'g py_orpheus_graph \<Rightarrow> py_dynamic_context \<Rightarrow> nat \<Rightarrow> py_error + sub_graph" where
  "og_py_contextual_subgraph env self ctx k =
     bindE (resolve_dynamic_context ctx) (\<lambda>rust_ctx.
     bindE (require_inner env self) (\<lambda>graph.
       Inr (from_sub_graph (contextual_subgraph (env_order env) graph rust_ctx k))))"

definition og_py_multi_beam_intersection ::
  "('g, 'v) py_env \<Rightarrow> 'g py_orpheus_graph \<Rightarrow> string list \<Rightarrow> nat \<Rightarrow> nat \<Rightarrow> py_dynamic_context \<Rightarrow> nat option \<Rightarrow> py_error + sub_graph" where
  "og_py_multi_beam_intersection env self start_nodes k depth ctx threshold =
     bindE (resolve_dynamic_context ctx) (\<lambda>rust_ctx.
     bindE (require_inner env self) (\<lambda>graph.
       Inr (from_sub_graph (multi_beam_intersection (env_order env) graph rust_ctx start_nodes k depth
         (default_threshold start_nodes threshold)))))"

definition og_py_to_rkyv :: "('g, 'v) py_env \<Rightarrow> 'g py_orpheus_graph \<Rightarrow> py_error + bytes" where
  "og_py_to_rkyv env self =
     (case py_inner self of
        None \<Rightarrow> Inl (PyErr PyRuntimeError (Text ''Graph has been closed''))
      | Some (OwnedInner graph) \<Rightarrow> Inr (to_rkyv (env_flat_to env) (env_ops env) graph)
      | Some (ArchivedInner v) \<Rightarrow> Inl (PyErr PyRuntimeError (Text ''Cannot serialize an archived graph. Use build_graph() first.'')))"

definition og_py_close :: "'g py_orpheus_graph \<Rightarrow> 'g py_orpheus_graph" where
  "og_py_close self = self\<lparr>py_inner := None\<rparr>"

definition og_py_repr :: "('g, 'v) py_env \<Rightarrow> 'g py_orpheus_graph \<Rightarrow> string" where
  "og_py_repr env self =
     (case py_inner self of
        Some g \<Rightarrow> ''OrpheusGraph(nodes='' @ decimal (acc_node_count (inner_accessor (env_ops env) g)) @ '', edges='' @
          decimal (acc_edge_count (inner_accessor (env_ops env) g)) @ '')''
      | None \<Rightarrow> ''OrpheusGraph(closed)'')"

section \<open>Building and loading\<close>

definition py_build_graph :: "('g, 'v) py_env \<Rightarrow> 'v list \<Rightarrow> 'v list \<Rightarrow> py_error + 'g py_orpheus_graph" where
  "py_build_graph env nodes edges =
     bindE (parse_node_inputs (env_api env) nodes) (\<lambda>rust_nodes.
     bindE (parse_edge_inputs (env_api env) edges) (\<lambda>rust_edges.
       Inr \<lparr>py_inner = Some (OwnedInner (build_graph (env_ops env) rust_nodes rust_edges))\<rparr>))"

definition py_from_rkyv :: "('g, 'v) py_env \<Rightarrow> bytes \<Rightarrow> py_error + 'g py_orpheus_graph" where
  "py_from_rkyv env data =
     (case archived_from_bytes (env_flat_access env) data of
        Inl msg \<Rightarrow> Inl (PyErr PyValueError (Text msg))
      | Inr view \<Rightarrow> Inr \<lparr>py_inner = Some (ArchivedInner view)\<rparr>)"

end
