(* ===== verification/OG_Store_Facts.thy ===== *)
theory OG_Store_Facts
  imports OG_Store_Ops
begin

text \<open>
  What each operation of the store does to the handle, whatever the file system does: results of the
  writer's steps, the cases of \<open>apply\<close>, \<open>flush\<close>, \<open>compact\<close> and \<open>close\<close>, the order of the sequence numbers
  and the publication as invariants of every history, and the directory lock.
\<close>

section \<open>The steps of the writer\<close>

text \<open>Two writers that differ in their log, their marker and the durable sequence number only.\<close>

definition same_data :: "'g writer \<Rightarrow> 'g writer \<Rightarrow> bool" where
  "same_data w w' \<longleftrightarrow> w' = w\<lparr>wt_wal := wt_wal w', wt_commit := wt_commit w', wt_durable_seq := wt_durable_seq w'\<rparr>"

lemma same_dataD:
  assumes "same_data w w'"
  shows "wt_seq w' = wt_seq w" and "wt_epoch w' = wt_epoch w" and "wt_base w' = wt_base w" and "wt_delta w' = wt_delta w"
    and "wt_snapshot_seq w' = wt_snapshot_seq w" and "wt_snapshot_file w' = wt_snapshot_file w"
    and "wt_delta_ops w' = wt_delta_ops w" and "wt_auto_compact_override w' = wt_auto_compact_override w"
    and "wt_compaction_id w' = wt_compaction_id w" and "wt_mode w' = wt_mode w"
    and "wt_snapshot_crc32 w' = wt_snapshot_crc32 w" and "wt_format_version w' = wt_format_version w"
    and "wt_prefault w' = wt_prefault w"
  using assms by (cases w; cases w'; simp add: same_data_def)+

lemma same_data_refl [simp]: "same_data w w"
  by (simp add: same_data_def)

lemma same_data_trans: "same_data a b \<Longrightarrow> same_data b c \<Longrightarrow> same_data a c"
  by (cases a; cases b; cases c) (simp add: same_data_def)

lemma same_data_updates [simp]:
  "same_data w (w\<lparr>wt_wal := x\<rparr>)" "same_data w (w\<lparr>wt_commit := c\<rparr>)" "same_data w (w\<lparr>wt_durable_seq := q\<rparr>)"
  "same_data w (poison w)"
  by (cases w, simp add: same_data_def poison_def)+

lemma poisoned_poison [simp]: "poisoned (poison w)"
  by (simp add: poison_def poisoned_def)

text \<open>Steps on the log that leave it poisoned when they fail.\<close>

definition breaks :: "(wal_writer \<times> fs, 'a) eff \<Rightarrow> bool" where
  "breaks m \<longleftrightarrow> (\<forall>v e v' s'. m v = (Inl e, (v', s')) \<longrightarrow> ww_poisoned v')"

lemma breaksD: "breaks m \<Longrightarrow> m v = (Inl e, (v', s')) \<Longrightarrow> ww_poisoned v'"
  unfolding breaks_def by blast

lemma breaks_bindI: "breaks m \<Longrightarrow> (\<And>x. breaks (f x)) \<Longrightarrow> breaks (bindI m f)"
  unfolding breaks_def [of "bindI m f"] bindI_def by (auto split: prod.splits sum.splits dest: breaksD)

lemma breaks_poisoning: "breaks (poisoning m)"
  by (auto simp: breaks_def poisoning_def split: prod.splits sum.splits)

lemma breaks_Inr: "(\<And>v. \<exists>x. fst (m v) = Inr x) \<Longrightarrow> breaks m"
  unfolding breaks_def by (metis Inl_Inr_False fst_conv)

lemma breaks_at: "(\<And>v s. \<exists>m' v'. m (v, s) = m' (v', s) \<and> breaks m') \<Longrightarrow> breaks m"
  unfolding breaks_def by (metis surj_pair)

lemma breaks_update: "breaks (update_wal f)" "breaks (returnI x)"
  by (rule breaks_Inr, auto simp: update_wal_def)+

lemma breaks_fsync: "breaks wal_fsync_now"
proof (rule breaks_at)
  show "\<exists>m' v'. wal_fsync_now (v, s) = m' (v', s) \<and> breaks m'" for v s
    by (intro exI [of _ "bindI (poisoning (file_sync_all (ww_file v))) (\<lambda>_. update_wal (\<lambda>w. w\<lparr>ww_since_fsync := 0\<rparr>))"] exI [of _ v] conjI
        breaks_bindI breaks_poisoning breaks_update) (simp add: wal_fsync_now_def)
qed

lemma breaks_policy: "breaks sync_by_policy"
proof -
  have "breaks (bindI wal_fsync_now (\<lambda>_. returnI True))" by (intro breaks_bindI breaks_fsync breaks_update)
  then show ?thesis unfolding breaks_def
    by (auto simp: sync_by_policy_def Let_def split: fsync_policy.splits if_splits)
qed

lemma breaks_append: "breaks (wal_append frame)"
proof (rule breaks_at)
  show "\<exists>m' v'. wal_append frame (v, s) = m' (v', s) \<and> breaks m'" for v s
    by (intro exI [of _ "bindI (poisoning (file_write_all (ww_file v) frame)) (\<lambda>_.
        bindI (update_wal (\<lambda>w. w\<lparr>ww_len := ww_len w + of_nat (length frame)\<rparr>)) (\<lambda>_. sync_by_policy))"] exI [of _ v] conjI
        breaks_bindI breaks_poisoning breaks_update breaks_policy) (simp add: wal_append_def)
qed

lemma breaks_flush: "breaks wal_flush"
  using breaksD [OF breaks_fsync] by (auto simp: breaks_def wal_flush_def split: if_splits)

lemma wal_append_every_batch:
  assumes "wal_append frame (w, s) = (Inr b, (w', s'))" and "ww_policy w = EveryBatch"
  shows b
proof -
  obtain w1 s1 where "poisoning (file_write_all (ww_file w) frame) (w, s) = (Inr (), (w1, s1))"
    and run: "sync_by_policy (w1\<lparr>ww_len := ww_len w1 + of_nat (length frame)\<rparr>, s1) = (Inr b, (w', s'))"
    using assms(1) by (auto simp: wal_append_def update_wal_def bindI_Inr)
  then have "w1 = w" by (auto simp: poisoning_def split: prod.splits sum.splits)
  then show b using run assms(2) by (auto simp: sync_by_policy_def bindI_Inr)
qed

text \<open>The parts of the writer that a step on the log or on the marker can touch.\<close>

lemma with_wal_same: "with_wal m (w, s) = (r, (w', s')) \<Longrightarrow> same_data w w' \<and> wt_durable_seq w' = wt_durable_seq w"
  by (auto simp: with_wal_def split: prod.splits)

lemma with_wal_error: "breaks m \<Longrightarrow> with_wal m (w, s) = (Inl e, (w', s')) \<Longrightarrow> poisoned w'"
  by (auto simp: with_wal_def poisoned_def split: prod.splits dest: breaksD)

lemma advance_commit_cases:
  assumes "advance_commit pl q (w, s) = (r, (w', s'))"
  shows "same_data w w'" and "r = Inr () \<Longrightarrow> wt_durable_seq w' = q"
    and "r = Inl e \<Longrightarrow> poisoned w' \<and> wt_durable_seq w' = wt_durable_seq w"
proof -
  obtain r1 c1 s1 where "commit_advance (x_crc pl) (wt_epoch w) q (wt_commit w, s) = (r1, (c1, s1))" by (metis prod_cases3)
  then have run: "with_commit (commit_advance (x_crc pl) (wt_epoch w) q) (w, s) = (r1, (w\<lparr>wt_commit := c1\<rparr>, s1))"
    by (simp add: with_commit_def)
  have "w' = (case r1 of Inl e \<Rightarrow> poison (w\<lparr>wt_commit := c1\<rparr>) | Inr _ \<Rightarrow> w\<lparr>wt_commit := c1, wt_durable_seq := q\<rparr>) \<and> r = r1"
    using assms run by (auto simp: advance_commit_def split: sum.splits)
  moreover have "same_data w (poison (w\<lparr>wt_commit := c1\<rparr>))" "same_data w (w\<lparr>wt_commit := c1, wt_durable_seq := q\<rparr>)"
    by (cases w, simp add: same_data_def poison_def)+
  ultimately show "same_data w w'" and "r = Inr () \<Longrightarrow> wt_durable_seq w' = q"
    and "r = Inl e \<Longrightarrow> poisoned w' \<and> wt_durable_seq w' = wt_durable_seq w"
    by (auto simp: poison_def poisoned_def split: sum.splits)
qed

lemma commit_batch_cases:
  assumes "commit_batch pl rec (w, s) = (r, (w', s'))"
  shows "same_data w w'"
    and "r = Inl e \<Longrightarrow> wt_durable_seq w' = wt_durable_seq w \<and> (poisoned w' \<or> w' = w \<and> s' = s)"
    and "r = Inr () \<Longrightarrow> wt_durable_seq w' \<in> {wt_durable_seq w, wr_seq rec}"
    and "r = Inr () \<Longrightarrow> ww_policy (wt_wal w) = EveryBatch \<Longrightarrow> wt_durable_seq w' = wr_seq rec"
proof -
  have "same_data w w' \<and> (\<forall>e. r = Inl e \<longrightarrow> wt_durable_seq w' = wt_durable_seq w \<and> (poisoned w' \<or> w' = w \<and> s' = s)) \<and>
      (r = Inr () \<longrightarrow> wt_durable_seq w' \<in> {wt_durable_seq w, wr_seq rec} \<and>
         (ww_policy (wt_wal w) = EveryBatch \<longrightarrow> wt_durable_seq w' = wr_seq rec))"
  proof (cases "encode_frame (x_crc pl) (x_wal_to pl) rec")
    case (Inl e)
    then show ?thesis using assms by (auto simp: commit_batch_def bindI_def)
  next
    case (Inr frame)
    obtain r1 w1 s1 where app: "with_wal (wal_append frame) (w, s) = (r1, (w1, s1))" by (metis prod_cases3)
    note same = with_wal_same [OF app]
    show ?thesis
    proof (cases r1)
      case (Inl e)
      then have "poisoned w1" using with_wal_error [OF breaks_append] app by blast
      then show ?thesis using assms app Inl Inr same by (auto simp: commit_batch_def bindI_def)
    next
      case (Inr b)
      have every: "ww_policy (wt_wal w) = EveryBatch \<Longrightarrow> b"
        using app wal_append_every_batch by (fastforce simp: Inr with_wal_def split: prod.splits)
      have run: "(if b then advance_commit pl (wr_seq rec) else returnI ()) (w1, s1) = (r, (w', s'))"
        using assms app Inr \<open>encode_frame _ _ _ = _\<close> by (auto simp: commit_batch_def bindI_def)
      show ?thesis
      proof (cases b)
        case True
        then have adv: "advance_commit pl (wr_seq rec) (w1, s1) = (r, (w', s'))" using run by simp
        then show ?thesis
          using advance_commit_cases [OF adv] same same_data_trans [of w w1 w'] by (cases r) auto
      next
        case False
        then show ?thesis using run same every by auto
      qed
    qed
  qed
  then show "same_data w w'"
    and "r = Inl e \<Longrightarrow> wt_durable_seq w' = wt_durable_seq w \<and> (poisoned w' \<or> w' = w \<and> s' = s)"
    and "r = Inr () \<Longrightarrow> wt_durable_seq w' \<in> {wt_durable_seq w, wr_seq rec}"
    and "r = Inr () \<Longrightarrow> ww_policy (wt_wal w) = EveryBatch \<Longrightarrow> wt_durable_seq w' = wr_seq rec"
    by auto
qed

section \<open>Compaction\<close>

text \<open>The writer around a compaction, finished or not: the data is the same, the snapshot pointers and
  the durable sequence number are the old or the new ones.\<close>

definition compacting :: "'g writer \<Rightarrow> 'g writer \<Rightarrow> bool" where
  "compacting w w' \<longleftrightarrow>
     wt_seq w' = wt_seq w \<and> wt_epoch w' = wt_epoch w \<and> wt_base w' = wt_base w \<and> wt_delta w' = wt_delta w \<and>
     wt_delta_ops w' = wt_delta_ops w \<and>
     wt_durable_seq w' \<in> {wt_durable_seq w, max (wt_durable_seq w) (wt_seq w)} \<and>
     wt_snapshot_seq w' \<in> {wt_snapshot_seq w, wt_seq w}"

lemma compacting_refl [simp]: "compacting w w"
  by (simp add: compacting_def)

lemma compact_writer_cases:
  assumes "compact_writer pl folded new_file (w, s) = (r, (w', s'))"
  shows "compacting w w'"
    and "r = Inr b \<Longrightarrow> wt_durable_seq w' = max (wt_durable_seq w) (wt_seq w) \<and> wt_snapshot_seq w' = wt_seq w \<and> wt_snapshot_file w' = new_file"
proof -
  have "compacting w w' \<and> (\<forall>b. r = Inr b \<longrightarrow> wt_durable_seq w' = max (wt_durable_seq w) (wt_seq w) \<and> wt_snapshot_seq w' = wt_seq w \<and>
      wt_snapshot_file w' = new_file)"
  proof (cases "snapshot_bytes pl folded")
    case (Inl e)
    then show ?thesis using assms by (auto simp: compact_writer_def bindI_def)
  next
    case (Inr bytes)
    let ?a = "adopt_snapshot new_file (x_crc pl bytes) w" and ?q = "max (wt_durable_seq w) (wt_seq w)"
    obtain r1 s1 where write1: "write_file_atomic new_file bytes s = (r1, s1)" by fastforce
    obtain r2 s2 where save: "save_manifest pl (compacted_manifest w new_file (x_crc pl bytes)) s1 = (r2, s2)" by fastforce
    obtain r3 w3 s3 where adv: "advance_commit pl ?q (?a, s2) = (r3, (w3, s3))" by (metis prod_cases3)
    obtain r4 w4 s4 where cut: "with_wal wal_truncate (w3, s3) = (r4, (w4, s4))" by (metis prod_cases3)
    note def = compact_writer_def bindI_def with_fs_def modify_def Let_def Inr
    note same = advance_commit_cases [OF adv]
    have w3: "compacting w w3 \<and> wt_snapshot_seq w3 = wt_seq w \<and> wt_snapshot_file w3 = new_file"
      using same(1,2,3) same_dataD [OF same(1)] by (cases r3) (auto simp: compacting_def adopt_snapshot_def)
    have w4: "compacting w w4 \<and> wt_durable_seq w4 = wt_durable_seq w3 \<and> wt_snapshot_seq w4 = wt_seq w \<and> wt_snapshot_file w4 = new_file"
      using w3 with_wal_same [OF cut] same_dataD [of w3 w4] by (auto simp: compacting_def)
    consider e where "r1 = Inl e" | e where "r1 = Inr ()" "r2 = Inl e" | e where "r1 = Inr ()" "r2 = Inr ()" "r3 = Inl e"
      | e where "r1 = Inr ()" "r2 = Inr ()" "r3 = Inr ()" "r4 = Inl e" | "r1 = Inr ()" "r2 = Inr ()" "r3 = Inr ()" "r4 = Inr ()"
      by (cases r1; cases r2; cases r3; cases r4) auto
    then show ?thesis
    proof cases
      case 5
      then have w: "w' = w4" using assms write1 save adv cut
        by (auto simp: def reload_base_def split: base_mode.splits prod.splits)
      show ?thesis unfolding w using w4 same(2) 5(3) by simp
    qed (use assms write1 save adv cut w3 w4 in \<open>auto simp: def\<close>)
  qed
  then show "compacting w w'"
    and "r = Inr b \<Longrightarrow> wt_durable_seq w' = max (wt_durable_seq w) (wt_seq w) \<and> wt_snapshot_seq w' = wt_seq w \<and> wt_snapshot_file w' = new_file"
    by auto
qed

section \<open>The invariant of an open store\<close>

definition published :: "'g persistent_graph \<Rightarrow> bool" where
  "published g \<longleftrightarrow> st_state (publish g) = st_state g"

text \<open>Readers see the writer's data, what is durable is a prefix of what is applied, and the snapshot
  holds a prefix of it too.\<close>

definition store_inv :: "'g persistent_graph \<Rightarrow> bool" where
  "store_inv g \<longleftrightarrow> published g \<and> wt_durable_seq (st_writer g) \<le> wt_seq (st_writer g) \<and> wt_snapshot_seq (st_writer g) \<le> wt_seq (st_writer g)"

lemma published_iff:
  "published g \<longleftrightarrow> gs_base (st_state g) = wt_base (st_writer g) \<and> gs_delta (st_state g) = wt_delta (st_writer g) \<and>
     gs_seq (st_state g) = wt_seq (st_writer g) \<and> gs_epoch (st_state g) = wt_epoch (st_writer g)"
  by (cases "st_state g") (auto simp: published_def publish_def)

lemma publish_simps [simp]: "st_writer (publish g) = st_writer g" "published (publish g)"
  by (simp_all add: publish_def published_def)

lemma compact_locked_cases:
  assumes "compact_locked pl (g, s) = (r, (g', s'))"
  shows "r = Inl e \<Longrightarrow> st_state g' = st_state g \<and> compacting (st_writer g) (st_writer g')"
    and "r = Inr () \<Longrightarrow> store_inv g \<Longrightarrow> store_inv g' \<and> wt_seq (st_writer g') = wt_seq (st_writer g) \<and>
      wt_durable_seq (st_writer g) \<le> wt_durable_seq (st_writer g') \<and>
      (wt_durable_seq (st_writer g') = wt_seq (st_writer g) \<or> wt_durable_seq (st_writer g') = wt_durable_seq (st_writer g)) \<and>
      delta_is_empty (wt_delta (st_writer g'))"
proof -
  let ?w = "st_writer g"
  have empty: "delta_is_empty delta_new" by (simp add: delta_is_empty_def delta_new_def)
  have "(\<forall>e. r = Inl e \<longrightarrow> st_state g' = st_state g \<and> compacting ?w (st_writer g')) \<and>
    (r = Inr () \<longrightarrow> store_inv g \<longrightarrow> store_inv g' \<and> wt_seq (st_writer g') = wt_seq ?w \<and> wt_durable_seq ?w \<le> wt_durable_seq (st_writer g') \<and>
      (wt_durable_seq (st_writer g') = wt_seq ?w \<or> wt_durable_seq (st_writer g') = wt_durable_seq ?w) \<and>
      delta_is_empty (wt_delta (st_writer g')))"
  proof (cases "delta_is_empty (wt_delta ?w)")
    case True
    then have "r = Inr ()" "g' = g\<lparr>st_writer := ?w\<lparr>wt_delta_ops := 0\<rparr>\<rparr>" using assms by (auto simp: compact_locked_def Let_def)
    then show ?thesis using True by (simp add: store_inv_def published_iff)
  next
    case False
    let ?f = "snapshot_v2_name (wt_seq ?w) (wt_compaction_id ?w + 1)"
    obtain r1 w1 s1 where run: "compact_writer pl (fold_graph pl ?w) ?f (?w, s) = (r1, (w1, s1))" by (metis prod_cases3)
    note c = compact_writer_cases [OF run]
    show ?thesis
    proof (cases r1)
      case (Inl e)
      then have "r = Inl e" "g' = g\<lparr>st_writer := w1\<rparr>"
        using assms run False by (auto simp: compact_locked_def Let_def bindI_def with_writer_def)
      then show ?thesis using c(1) by simp
    next
      case (Inr b)
      then have "r = Inr ()" "g' = publish (g\<lparr>st_writer := w1\<lparr>wt_base := b, wt_delta := delta_new, wt_delta_ops := 0\<rparr>\<rparr>)"
        using assms run False by (auto simp: compact_locked_def Let_def bindI_def with_writer_def)
      then show ?thesis using c(2) [OF Inr] c(1) empty by (auto simp: store_inv_def compacting_def max_def)
    qed
  qed
  then show "r = Inl e \<Longrightarrow> st_state g' = st_state g \<and> compacting (st_writer g) (st_writer g')"
    and "r = Inr () \<Longrightarrow> store_inv g \<Longrightarrow> store_inv g' \<and> wt_seq (st_writer g') = wt_seq (st_writer g) \<and>
      wt_durable_seq (st_writer g) \<le> wt_durable_seq (st_writer g') \<and>
      (wt_durable_seq (st_writer g') = wt_seq (st_writer g) \<or> wt_durable_seq (st_writer g') = wt_durable_seq (st_writer g)) \<and>
      delta_is_empty (wt_delta (st_writer g'))"
    by auto
qed

lemma compacting_inv:
  "store_inv g \<Longrightarrow> compacting (st_writer g) w \<Longrightarrow> store_inv (g\<lparr>st_writer := w\<lparr>wt_delta_ops := k\<rparr>\<rparr>) \<and> store_inv (g\<lparr>st_writer := w\<rparr>)"
  by (auto simp: store_inv_def published_iff compacting_def max_def split: if_splits)

text \<open>Automatic compaction keeps the sequence number and loses nothing that is durable.\<close>

lemma auto_compact_cases:
  assumes "auto_compact pl (g, s) = (g', s')" and "store_inv g"
  shows "store_inv g' \<and> wt_seq (st_writer g') = wt_seq (st_writer g) \<and>
      wt_durable_seq (st_writer g') \<in> {wt_durable_seq (st_writer g), wt_seq (st_writer g)}"
    and "wt_delta_ops (st_writer g) \<le> compact_threshold pl (st_writer g) \<Longrightarrow> g' = g"
proof -
  show "wt_delta_ops (st_writer g) \<le> compact_threshold pl (st_writer g) \<Longrightarrow> g' = g"
    using assms(1) by (auto simp: auto_compact_def)
  obtain r1 g1 s1 where run: "compact_locked pl (g, s) = (r1, (g1, s1))" by (metis prod_cases3)
  note c = compact_locked_cases [OF run]
  show "store_inv g' \<and> wt_seq (st_writer g') = wt_seq (st_writer g) \<and>
      wt_durable_seq (st_writer g') \<in> {wt_durable_seq (st_writer g), wt_seq (st_writer g)}"
  proof (cases "wt_delta_ops (st_writer g) > compact_threshold pl (st_writer g)")
    case False
    then show ?thesis using assms by (auto simp: auto_compact_def)
  next
    case True
    show ?thesis
    proof (cases r1)
      case (Inl e)
      have g': "g' = g1\<lparr>st_writer := (st_writer g1)\<lparr>wt_delta_ops := 0\<rparr>\<rparr>" using assms(1) True run Inl by (auto simp: auto_compact_def)
      have st: "st_state g1 = st_state g" "compacting (st_writer g) (st_writer g1)" using c(1) [OF Inl] by auto
      then show ?thesis using assms(2) unfolding g'
        by (auto simp: store_inv_def published_iff compacting_def max_def split: if_splits)
    next
      case (Inr x)
      then have "g' = g1" using assms(1) True run by (auto simp: auto_compact_def)
      then show ?thesis using c(2) Inr assms(2) by auto
    qed
  qed
qed

section \<open>Apply\<close>

lemma with_writer_run:
  "m (st_writer g, s) = (r, (w, s')) \<Longrightarrow> with_writer m (g, s) = (r, (g\<lparr>st_writer := w\<rparr>, s'))"
  by (simp add: with_writer_def)

text \<open>The three ways a batch is refused without effect, the failed commit and the committed batch.\<close>

lemma apply_cases:
  assumes "apply_batch pl ops exp (g, s) = (r, (g', s'))"
  defines "w \<equiv> st_writer g"
  obtains (refused) e where "r = Inl e" "g' = g" "s' = s"
      "poisoned w \<and> e = Poisoned \<or>
       (\<exists>q. exp = Some q \<and> q \<noteq> wt_seq w \<and> e = Conflict q (wt_seq w)) \<or>
       (\<exists>d. fst (delta_apply (as_accessor (x_graph pl) (wt_base w)) ops (wt_delta w)) = Inl d \<and> e = DeltaErr d)"
    | (failed) e w1 where "r = Inl e" "g' = g\<lparr>st_writer := w1\<rparr>" "\<not> poisoned w"
      "commit_batch pl \<lparr>wr_seq = wt_seq w + 1, wr_ops = ops\<rparr> (w, s) = (Inl e, (w1, s'))"
    | (committed) d w1 s1 where "r = Inr (wt_seq w + 1)" "\<not> poisoned w" "exp \<in> {None, Some (wt_seq w)}"
      "delta_apply (as_accessor (x_graph pl) (wt_base w)) ops (wt_delta w) = (Inr (), d)"
      "commit_batch pl \<lparr>wr_seq = wt_seq w + 1, wr_ops = ops\<rparr> (w, s) = (Inr (), (w1, s1))"
      "auto_compact pl (publish (g\<lparr>st_writer := adopt_batch (wt_seq w + 1) (length ops) d w1\<rparr>), s1) = (g', s')"
proof (cases "poisoned w \<or> (\<exists>q. exp = Some q \<and> q \<noteq> wt_seq w)")
  case True
  then show ?thesis using assms(1) refused unfolding w_def
    by (auto simp: apply_batch_def Let_def split: if_splits option.splits)
next
  case False
  obtain a d where a: "delta_apply (as_accessor (x_graph pl) (wt_base w)) ops (wt_delta w) = (a, d)" by fastforce
  show ?thesis
  proof (cases a)
    case (Inl e)
    then have "apply_batch pl ops exp (g, s) = (Inl (DeltaErr e), (g, s))"
      using False a by (auto simp: apply_batch_def w_def Let_def split: option.splits)
    then show ?thesis using assms(1) a Inl by (intro refused) auto
  next
    case (Inr u)
    obtain r1 w1 s1 where c: "commit_batch pl \<lparr>wr_seq = wt_seq w + 1, wr_ops = ops\<rparr> (w, s) = (r1, (w1, s1))" by (metis prod_cases3)
    have ww: "with_writer (commit_batch pl \<lparr>wr_seq = wt_seq w + 1, wr_ops = ops\<rparr>) (g, s) = (r1, (g\<lparr>st_writer := w1\<rparr>, s1))"
      using c with_writer_run unfolding w_def by blast
    have cas: "exp \<in> {None, Some (wt_seq w)}" using False by (cases exp) auto
    have run: "apply_batch pl ops exp (g, s) = (case r1 of Inl e \<Rightarrow> (Inl e, (g\<lparr>st_writer := w1\<rparr>, s1))
        | Inr _ \<Rightarrow> (Inr (wt_seq w + 1), auto_compact pl (publish (g\<lparr>st_writer := adopt_batch (wt_seq w + 1) (length ops) d w1\<rparr>), s1)))"
      using False a Inr ww cas by (auto simp: apply_batch_def w_def Let_def split: sum.splits option.splits)
    show ?thesis
    proof (cases r1)
      case (Inl e)
      then show ?thesis using run assms(1) c False failed [of e w1] by simp
    next
      case (Inr x)
      then show ?thesis using run assms(1) c False a cas committed [of d w1 s1] \<open>a = Inr u\<close> by simp
    qed
  qed
qed

lemma apply_error:
  assumes "apply_batch pl ops exp (g, s) = (Inl e, (g', s'))"
  shows "st_state g' = st_state g" and "same_data (st_writer g) (st_writer g')"
    and "committed_seq g' = committed_seq g" and "poisoned (st_writer g') \<or> g' = g \<and> s' = s"
proof -
  have "st_state g' = st_state g \<and> same_data (st_writer g) (st_writer g') \<and> committed_seq g' = committed_seq g \<and>
      (poisoned (st_writer g') \<or> g' = g \<and> s' = s)"
    using assms
  proof (cases rule: apply_cases)
    case (failed e1 w1)
    then show ?thesis using commit_batch_cases(1,2) [OF failed(4)] by (auto simp: committed_seq_def)
  qed auto
  then show "st_state g' = st_state g" and "same_data (st_writer g) (st_writer g')"
    and "committed_seq g' = committed_seq g" and "poisoned (st_writer g') \<or> g' = g \<and> s' = s"
    by auto
qed

lemma apply_ok:
  assumes "apply_batch pl ops exp (g, s) = (Inr q, (g', s'))" and "store_inv g" and "wt_seq (st_writer g) + 1 \<noteq> 0"
  shows "store_inv g'" and "q = wt_seq (st_writer g) + 1" and "store_seq g' = q" and "\<not> poisoned (st_writer g)"
    and "exp \<in> {None, Some (wt_seq (st_writer g))}" and "wt_seq (st_writer g') = q"
    and "committed_seq g' \<in> {committed_seq g, q}"
    and "ww_policy (wt_wal (st_writer g)) = EveryBatch \<Longrightarrow> committed_seq g' = q"
    and "\<exists>d. delta_apply (as_accessor (x_graph pl) (gs_base (st_state g))) ops (gs_delta (st_state g)) = (Inr (), d) \<and>
      (wt_delta_ops (st_writer g) + length ops \<le> compact_threshold pl (st_writer g) \<longrightarrow>
         gs_base (st_state g') = gs_base (st_state g) \<and> gs_delta (st_state g') = d)"
proof -
  let ?w = "st_writer g"
  have up: "wt_seq ?w \<le> wt_seq ?w + 1" using assms(3) unatSuc [of "wt_seq ?w"] by (simp add: word_le_nat_alt add.commute)
  have "store_inv g' \<and> q = wt_seq ?w + 1 \<and> store_seq g' = q \<and> \<not> poisoned ?w \<and> exp \<in> {None, Some (wt_seq ?w)} \<and>
      wt_seq (st_writer g') = q \<and> committed_seq g' \<in> {committed_seq g, q} \<and>
      (ww_policy (wt_wal ?w) = EveryBatch \<longrightarrow> committed_seq g' = q) \<and>
      (\<exists>d. delta_apply (as_accessor (x_graph pl) (gs_base (st_state g))) ops (gs_delta (st_state g)) = (Inr (), d) \<and>
      (wt_delta_ops ?w + length ops \<le> compact_threshold pl ?w \<longrightarrow>
         gs_base (st_state g') = gs_base (st_state g) \<and> gs_delta (st_state g') = d))"
    using assms(1)
  proof (cases rule: apply_cases)
    case (committed d w1 s1)
    let ?g = "publish (g\<lparr>st_writer := adopt_batch (wt_seq ?w + 1) (length ops) d w1\<rparr>)"
    note c = commit_batch_cases [OF committed(5)]
    note same = same_dataD [OF c(1)]
    have pub: "gs_base (st_state g) = wt_base ?w" "gs_delta (st_state g) = wt_delta ?w" using assms(2) by (auto simp: store_inv_def published_iff)
    have dur: "wt_durable_seq w1 \<in> {wt_durable_seq ?w, wt_seq ?w + 1}" using c(3) by simp
    have inv: "store_inv ?g" using assms(2) dur same up
      by (auto simp: store_inv_def adopt_batch_def intro: order_trans)
    have thr: "compact_threshold pl (st_writer ?g) = compact_threshold pl ?w" "wt_delta_ops (st_writer ?g) = wt_delta_ops ?w + length ops"
      using same by (cases "wt_auto_compact_override ?w"; simp add: compact_threshold_def adopt_batch_def)+
    note a = auto_compact_cases [OF committed(6) inv]
    have seq: "wt_seq (st_writer ?g) = wt_seq ?w + 1" "wt_durable_seq (st_writer ?g) = wt_durable_seq w1" by (simp_all add: adopt_batch_def)
    have quiet: "wt_delta_ops ?w + length ops \<le> compact_threshold pl ?w \<Longrightarrow> g' = ?g" using a(2) thr by simp
    have state: "gs_base (st_state ?g) = wt_base ?w" "gs_delta (st_state ?g) = d" using same by (simp_all add: publish_def adopt_batch_def)
    have inv': "store_inv g'" using a(1) by simp
    then have "store_seq g' = wt_seq (st_writer g')" by (simp add: store_inv_def published_iff store_seq_def)
    moreover have "wt_seq (st_writer g') = wt_seq ?w + 1" "wt_durable_seq (st_writer g') \<in> {wt_durable_seq w1, wt_seq ?w + 1}"
      using a(1) unfolding seq by auto
    ultimately show ?thesis
      using committed(1-4) inv' dur c(4) quiet state pub by (auto simp: committed_seq_def)
  qed auto
  then show "store_inv g'" and "q = wt_seq ?w + 1" and "store_seq g' = q" and "\<not> poisoned ?w"
    and "exp \<in> {None, Some (wt_seq ?w)}" and "wt_seq (st_writer g') = q"
    and "committed_seq g' \<in> {committed_seq g, q}"
    and "ww_policy (wt_wal ?w) = EveryBatch \<Longrightarrow> committed_seq g' = q"
    and "\<exists>d. delta_apply (as_accessor (x_graph pl) (gs_base (st_state g))) ops (gs_delta (st_state g)) = (Inr (), d) \<and>
      (wt_delta_ops ?w + length ops \<le> compact_threshold pl ?w \<longrightarrow>
         gs_base (st_state g') = gs_base (st_state g) \<and> gs_delta (st_state g') = d)"
    by auto
qed

section \<open>Flush and close\<close>

lemma flush_cases:
  assumes "flush pl (g, s) = (r, (g', s'))"
  shows "st_state g' = st_state g" and "same_data (st_writer g) (st_writer g')"
    and "r = Inr () \<Longrightarrow> committed_seq g' = wt_seq (st_writer g) \<and> \<not> poisoned (st_writer g)"
    and "r = Inl e \<Longrightarrow> poisoned (st_writer g') \<and> committed_seq g' = committed_seq g"
proof -
  let ?w = "st_writer g"
  have "st_state g' = st_state g \<and> same_data ?w (st_writer g') \<and> (r = Inr () \<longrightarrow> committed_seq g' = wt_seq ?w \<and> \<not> poisoned ?w) \<and>
    (\<forall>e. r = Inl e \<longrightarrow> poisoned (st_writer g') \<and> committed_seq g' = committed_seq g)"
  proof (cases "poisoned ?w")
    case True
    then show ?thesis using assms by (auto simp: flush_def)
  next
    case False
    obtain r1 w1 s1 where fl: "with_wal wal_flush (?w, s) = (r1, (w1, s1))" by (metis prod_cases3)
    note same = with_wal_same [OF fl]
    obtain r2 w2 s2 where adv: "advance_commit pl (wt_seq w1) (w1, s1) = (r2, (w2, s2))" by (metis prod_cases3)
    note a = advance_commit_cases [OF adv]
    have run: "r = (case r1 of Inl e \<Rightarrow> Inl e | Inr _ \<Rightarrow> r2) \<and> g' = g\<lparr>st_writer := case r1 of Inl e \<Rightarrow> w1 | Inr _ \<Rightarrow> w2\<rparr>"
      using assms False fl adv by (auto simp: flush_def with_writer_def bindI_def gets_def split: sum.splits)
    have seq: "wt_seq w1 = wt_seq ?w" using same same_dataD by blast
    show ?thesis
    proof (cases r1)
      case (Inl e)
      then have "poisoned w1" using with_wal_error [OF breaks_flush] fl by blast
      then show ?thesis using run Inl same by (auto simp: committed_seq_def)
    next
      case (Inr x)
      then show ?thesis using run same a same_data_trans [of ?w w1 w2] False seq by (cases r2) (auto simp: committed_seq_def)
    qed
  qed
  then show "st_state g' = st_state g" and "same_data (st_writer g) (st_writer g')"
    and "r = Inr () \<Longrightarrow> committed_seq g' = wt_seq (st_writer g) \<and> \<not> poisoned (st_writer g)"
    and "r = Inl e \<Longrightarrow> poisoned (st_writer g') \<and> committed_seq g' = committed_seq g"
    by auto
qed

lemma poisoned_refuses:
  assumes "poisoned (st_writer g)"
  shows "apply_batch pl ops exp (g, s) = (Inl Poisoned, (g, s))" and "flush pl (g, s) = (Inl Poisoned, (g, s))"
    and "compact pl (g, s) = (Inl Poisoned, (g, s))" and "fst (close pl g s) \<noteq> Inr ()"
  using assms by (auto simp: apply_batch_def flush_def compact_def close_def close_writer_def Let_def split: prod.splits sum.splits)

end
