(* ===== verification/OG_Store_History.thy ===== *)
theory OG_Store_History
  imports OG_Store_Facts
begin

text \<open>
  Histories of a store: the states reached from \<open>create\<close> and \<open>open\<close> by any sequence of operations, each
  succeeding or failing as the file system decides. The invariant of the handle and the ownership of
  the directory lock hold in all of them.
\<close>

section \<open>The lock\<close>

named_theorems keeps "computations that leave the directory lock alone"

definition keeps :: "('s \<Rightarrow> 'a) \<Rightarrow> ('s \<Rightarrow> 'r \<times> 's) \<Rightarrow> bool" where
  "keeps p m \<longleftrightarrow> (\<forall>s. p (snd (m s)) = p s)"

lemma keepsD: "keeps p m \<Longrightarrow> m s = (r, s') \<Longrightarrow> p s' = p s"
  unfolding keeps_def by (metis snd_conv)

lemma keeps_snd: "keeps p m \<Longrightarrow> p (snd (m s)) = p s"
  by (simp add: keeps_def)

lemma keeps_bindI [keeps]: "keeps p m \<Longrightarrow> (\<And>x. keeps p (f x)) \<Longrightarrow> keeps p (bindI m f)"
  unfolding keeps_def [of p "bindI m f"] bindI_def by (auto simp: keeps_snd split: prod.splits sum.splits dest: keepsD)

lemma keeps_at: "(\<And>v s. \<exists>m'. m (v, s) = m' (v, s) \<and> keeps p m') \<Longrightarrow> keeps p m"
  unfolding keeps_def by (metis surj_pair)

lemma keeps_plain [keeps]:
  "keeps p (returnI x)" "keeps p (failI e)" "keeps p (liftE r)" "keeps p (\<lambda>s. (r, s))"
  by (simp_all add: keeps_def)

lemma keeps_io [keeps]: "keeps p m \<Longrightarrow> keeps p (io m)"
  unfolding keeps_def [of p "io m"] io_def by (auto split: prod.splits dest: keepsD)

lemma keeps_split [keeps]:
  "(b \<Longrightarrow> keeps p m) \<Longrightarrow> (\<not> b \<Longrightarrow> keeps p m') \<Longrightarrow> keeps p (if b then m else m')"
  "keeps p (f (fst q) (snd q)) \<Longrightarrow> keeps p (case q of (a, b) \<Rightarrow> f a b)"
  "keeps p n \<Longrightarrow> (\<And>x. keeps p (g x)) \<Longrightarrow> keeps p (case opt of None \<Rightarrow> n | Some x \<Rightarrow> g x)"
  "keeps p (h y) \<Longrightarrow> keeps p (Let y h)"
  by (auto simp: Let_def split: prod.splits option.splits)

lemma keeps_effect: "(\<And>s. fs_locked (f s) = fs_locked s) \<Longrightarrow> keeps fs_locked (effect f)"
  by (auto simp: keeps_def effect_def tick_def split: fault.splits)

lemma keeps_files [keeps]:
  "keeps fs_locked (file_seek_start fd pos)" "keeps fs_locked (file_sync_all fd)" "keeps fs_locked (file_set_len fd n)"
  "keeps fs_locked vfs_fsync_dir" "keeps fs_locked fs_create_dir_all" "keeps fs_locked open_lock_file"
  unfolding file_seek_start_def file_sync_all_def file_set_len_def vfs_fsync_dir_def fs_create_dir_all_def open_lock_file_def
  by (rule keeps_effect, simp add: set_pos_def set_data_def)+

lemma keeps_reads [keeps]:
  "keeps fs_locked (file_read_to_end fd)" "keeps fs_locked (query q)" "keeps fs_locked (file_len fd)"
  "keeps fs_locked (fs_read p)" "keeps fs_locked draw_entropy" "keeps fs_locked (fs_read_dir ho)"
  "keeps fs_locked (file_write_all fd buf)"
  by (auto simp: keeps_def file_read_to_end_def query_def file_len_def fs_read_def draw_entropy_def fs_read_dir_def file_write_all_def
      put_bytes_def tick_def set_pos_def set_data_def Let_def split: fault.splits option.splits)

lemma keeps_names [keeps]:
  "keeps fs_locked (vfs_create p)" "keeps fs_locked (open_existing app p)"
  "keeps fs_locked (vfs_rename from to)" "keeps fs_locked (vfs_remove_file p)"
  by (auto simp: keeps_def vfs_create_def open_existing_def vfs_rename_def vfs_remove_file_def effect_def
      tick_def new_fd_def set_data_def Let_def split: fault.splits option.splits prod.splits sum.splits)

lemma keeps_opens [keeps]: "keeps fs_locked (vfs_open_append p)" "keeps fs_locked (vfs_open_rw p)"
  by (simp_all add: vfs_open_append_def vfs_open_rw_def keeps)

lemma keeps_map: "keeps p m \<Longrightarrow> (\<And>s. \<exists>r. m' s = (r, snd (m s))) \<Longrightarrow> keeps p m'"
  unfolding keeps_def by (metis snd_conv)

lemma keeps_write [keeps]: "keeps fs_locked (write_file_atomic name bytes)" "keeps fs_locked (save_manifest pl m)"
  unfolding write_file_atomic_def save_manifest_def write_manifest_atomic_def
  by (intro keeps)+

lemma keeps_gc: "fs_locked (gc_orphan_snapshots ho keep s) = fs_locked s"
proof -
  have rm: "fs_locked (remove_snapshot_file p s) = fs_locked s" for p s
    using keeps_names(4) [of p] by (simp add: remove_snapshot_file_def keeps_def)
  have "fs_locked (foldl (\<lambda>s name. if name \<noteq> keep \<and> is_orphan name then remove_snapshot_file name s else s) s names) = fs_locked s" for s names
    by (induction names arbitrary: s) (simp_all add: rm)
  then show ?thesis using keepsD [OF keeps_reads(6)] by (auto simp: gc_orphan_snapshots_def split: prod.splits sum.splits)
qed

lemma keeps_commit_create [keeps]: "keeps fs_locked (commit_create crc32 epoch seq)" "keeps fs_locked mint_epoch"
  unfolding commit_create_def mint_epoch_def by (intro keeps)+

lemma keeps_create_locked: "keeps fs_locked (create_locked pl G)"
proof -
  have "keeps fs_locked (let snapshot_file = snapshot_v2_name 0 0 in
        bindI (liftE (snapshot_bytes pl G)) (\<lambda>bytes.
        let crc = x_crc pl bytes in
        bindI (write_file_atomic snapshot_file bytes) (\<lambda>_.
        bindI (io (vfs_create wal_name)) (\<lambda>fd.
        bindI (io (file_sync_all fd)) (\<lambda>_.
        bindI (io vfs_fsync_dir) (\<lambda>_.
        bindI mint_epoch (\<lambda>epoch.
        bindI (commit_create (x_crc pl) epoch 0) (\<lambda>commit.
        bindI (save_manifest pl (fresh_manifest snapshot_file crc epoch)) (\<lambda>_.
        bindI (io (vfs_open_append wal_name)) (\<lambda>wal_fd.
          returnI (fresh_store G wal_fd commit snapshot_file crc epoch)))))))))))"
    by (intro keeps)
  then show ?thesis by (auto simp: keeps_def create_locked_def Let_def)
qed

text \<open>Properties of the file system that no operation on a descriptor touches.\<close>

definition descriptor_safe :: "(fs \<Rightarrow> 'a) \<Rightarrow> bool" where
  "descriptor_safe p \<longleftrightarrow>
     (\<forall>fd pos. keeps p (file_seek_start fd pos)) \<and> (\<forall>fd buf. keeps p (file_write_all fd buf)) \<and>
     (\<forall>fd. keeps p (file_sync_all fd)) \<and> (\<forall>fd n. keeps p (file_set_len fd n))"

lemma descriptor_safeD [keeps]:
  assumes "descriptor_safe p"
  shows "keeps p (file_seek_start fd pos)" and "keeps p (file_write_all fd buf)" and "keeps p (file_sync_all fd)"
    and "keeps p (file_set_len fd n)"
  using assms by (simp_all add: descriptor_safe_def)

lemma descriptor_safe [keeps]: "descriptor_safe fs_locked" "descriptor_safe fs_dir"
proof -
  show "descriptor_safe fs_locked" by (simp add: descriptor_safe_def keeps_files keeps_reads)
  show "descriptor_safe fs_dir"
    by (auto simp: descriptor_safe_def keeps_def file_seek_start_def file_write_all_def file_sync_all_def file_set_len_def effect_def
        put_bytes_def tick_def set_pos_def set_data_def Let_def split: fault.splits)
qed

lemma keeps_dir [keeps]: "keeps fs_dir (query q)" "keeps fs_dir (file_len fd)" "keeps fs_dir vfs_fsync_dir" "keeps fs_dir (file_read_to_end fd)"
  by (auto simp: keeps_def query_def file_len_def vfs_fsync_dir_def file_read_to_end_def effect_def tick_def set_pos_def split: fault.splits)

lemma keeps_pairD: "keeps (p \<circ> snd) m \<Longrightarrow> m v = (r, (w', s')) \<Longrightarrow> p s' = p (snd v)"
  using keepsD [of "p \<circ> snd" m v r "(w', s')"] by simp

lemma keeps_pairI: "(\<And>w s r w' s'. m (w, s) = (r, (w', s')) \<Longrightarrow> p s' = p s) \<Longrightarrow> keeps (p \<circ> snd) m"
  unfolding keeps_def by (metis comp_apply prod.collapse snd_conv)

lemma keeps_on_fs [keeps]: "keeps p m \<Longrightarrow> keeps (p \<circ> snd) (on_fs m)"
  by (rule keeps_pairI) (auto simp: on_fs_def split: prod.splits dest: keepsD)

lemma keeps_advance [keeps]:
  assumes [keeps]: "descriptor_safe p"
  shows "keeps (p \<circ> snd) (commit_advance crc32 epoch seq)"
proof -
  have "keeps (p \<circ> snd) (bindI (on_fs (file_seek_start (cf_file c) (cf_next_slot c * slot_size))) (\<lambda>_.
     bindI (on_fs (file_write_all (cf_file c) (encode_slot crc32 (next_record epoch seq c)))) (\<lambda>_.
     bindI (on_fs (file_sync_all (cf_file c))) (\<lambda>_ (c, s).
       (Inr (), (c\<lparr>cf_next_slot := 1 - cf_next_slot c, cf_next_gen := cf_next_gen c + 1\<rparr>, s))))))" for c
    by (intro keeps) (auto simp: keeps_def)
  then show ?thesis by (intro keeps_at) (auto simp: commit_advance_def next_record_def)
qed

lemma keeps_open_locked: "keeps fs_locked (open_locked pl mode validate prefault)"
proof -
  have load: "keeps fs_locked (load_snapshot pl p mode validate prefault crc)" for p mode crc
    by (rule keeps_map [OF keeps_reads(4) [of p]]) (auto simp: load_snapshot_def split: prod.splits)
  have wal: "keeps fs_locked open_wal"
    by (rule keeps_map [OF keeps_opens(1) [of wal_name]]) (auto simp: open_wal_def split: prod.splits sum.splits)
  have com: "keeps fs_locked open_commit_file"
    by (rule keeps_map [OF keeps_opens(2) [of commit_name]]) (auto simp: open_commit_file_def split: prod.splits sum.splits)
  have copen: "keeps fs_locked (commit_open crc32)" for crc32
    unfolding commit_open_def by (intro keeps com)
  have adv: "keeps fs_locked (advance_marker pl c epoch seq)" for c epoch seq
    unfolding keeps_def advance_marker_def
    by (auto split: prod.splits sum.splits dest: keeps_pairD [OF keeps_advance [OF descriptor_safe(1)]])
  have fin: "keeps fs_locked (finish_open pl m mode prefault base fd scan c hw r)" for m base fd scan c hw r
    unfolding finish_open_def truncate_to_def by (intro keeps adv) (auto simp: keeps_def keeps_gc)
  show ?thesis
    unfolding open_locked_def read_manifest_def load_base_def read_and_scan_def
    by (intro keeps load wal com copen fin)
qed

text \<open>A successful \<open>create\<close> or \<open>open\<close> owns the lock, a failed one gives it back, and while it is held no
  other \<open>open\<close> or \<open>create\<close> succeeds.\<close>

lemma lock_acquire_cases:
  assumes "lock_acquire s = (r, s')"
  shows "fs_locked s \<Longrightarrow> fs_locked s' \<and> (\<exists>e. r = Inl e)" and "r = Inr () \<Longrightarrow> fs_locked s'" and "r = Inl e \<Longrightarrow> fs_locked s' = fs_locked s"
proof -
  obtain r1 s1 where o: "open_lock_file s = (r1, s1)" by fastforce
  have l: "fs_locked s1 = fs_locked s" using keepsD [OF keeps_files(6) o] .
  show "fs_locked s \<Longrightarrow> fs_locked s' \<and> (\<exists>e. r = Inl e)" and "r = Inr () \<Longrightarrow> fs_locked s'" and "r = Inl e \<Longrightarrow> fs_locked s' = fs_locked s"
    using assms o l by (cases r1; auto simp: lock_acquire_def bindI_def io_def try_lock_exclusive_def tick_def split: sum.splits fault.splits if_splits)+
qed

lemma with_lock_cases:
  assumes "with_lock body s = (r, s')" and "keeps fs_locked body"
  shows "fs_locked s \<Longrightarrow> fs_locked s' \<and> (\<exists>e. r = Inl e)" and "r = Inr x \<Longrightarrow> fs_locked s'"
    and "r = Inl e \<Longrightarrow> \<not> fs_locked s \<Longrightarrow> \<not> fs_locked s'"
proof -
  obtain r1 s1 where l: "lock_acquire s = (r1, s1)" by fastforce
  note c = lock_acquire_cases [OF l]
  obtain r2 s2 where b: "body s1 = (r2, s2)" by fastforce
  have k: "fs_locked s2 = fs_locked s1" using keepsD [OF assms(2) b] .
  show "fs_locked s \<Longrightarrow> fs_locked s' \<and> (\<exists>e. r = Inl e)" and "r = Inr x \<Longrightarrow> fs_locked s'"
    and "r = Inl e \<Longrightarrow> \<not> fs_locked s \<Longrightarrow> \<not> fs_locked s'"
    using assms(1) l b c k by (auto simp: with_lock_def lock_release_def split: sum.splits)
qed

lemma create_lock_cases:
  assumes "create_with_vfs pl G s = (r, s')"
  shows "fs_locked s \<Longrightarrow> fs_locked s' \<and> (\<exists>e. r = Inl e)" and "r = Inr x \<Longrightarrow> fs_locked s'"
    and "r = Inl e \<Longrightarrow> \<not> fs_locked s \<Longrightarrow> \<not> fs_locked s'"
proof -
  obtain r1 s1 where d: "fs_create_dir_all s = (r1, s1)" by fastforce
  have l: "fs_locked s1 = fs_locked s" using keepsD [OF keeps_files(5) d] .
  note c = with_lock_cases [OF _ keeps_create_locked, of pl G s1]
  show "fs_locked s \<Longrightarrow> fs_locked s' \<and> (\<exists>e. r = Inl e)" and "r = Inr x \<Longrightarrow> fs_locked s'"
    and "r = Inl e \<Longrightarrow> \<not> fs_locked s \<Longrightarrow> \<not> fs_locked s'"
    using assms d l c by (cases r1; fastforce simp: create_with_vfs_def bindI_def io_def)+
qed

lemma open_lock_cases:
  assumes "open_with_vfs pl create mode validate prefault s = (r, s')"
  shows "fs_locked s \<Longrightarrow> fs_locked s' \<and> (\<exists>e. r = Inl e)" and "r = Inr x \<Longrightarrow> fs_locked s'"
    and "r = Inl e \<Longrightarrow> \<not> fs_locked s \<Longrightarrow> \<not> fs_locked s'"
proof -
  define v where "v = (case validate of NoValidate \<Rightarrow> Crc | v \<Rightarrow> v)"
  have "with_lock (open_locked pl mode v prefault) s = (r, s') \<or> create_with_vfs pl (empty_inner pl) s = (r, s') \<or> (\<exists>e. r = Inl e \<and> s' = s)"
    using assms by (auto simp: open_with_vfs_def v_def Let_def split: if_splits)
  then consider "with_lock (open_locked pl mode v prefault) s = (r, s')" | "create_with_vfs pl (empty_inner pl) s = (r, s')"
    | e where "r = Inl e" "s' = s" by blast
  then show "fs_locked s \<Longrightarrow> fs_locked s' \<and> (\<exists>e. r = Inl e)" and "r = Inr x \<Longrightarrow> fs_locked s'"
    and "r = Inl e \<Longrightarrow> \<not> fs_locked s \<Longrightarrow> \<not> fs_locked s'"
    using create_lock_cases [of pl "empty_inner pl" s r s'] with_lock_cases [OF _ keeps_open_locked, of pl mode v prefault s r s']
    by (cases; blast)+
qed

text \<open>The operations on an open store.\<close>

lemma keeps_lifts [keeps]:
  "keeps p m \<Longrightarrow> keeps (p \<circ> snd) (poisoning m)" "keeps p n \<Longrightarrow> keeps (p \<circ> snd) (with_fs n)"
  "keeps (p \<circ> snd) k \<Longrightarrow> keeps (p \<circ> snd) (with_wal k)"
  "keeps (p \<circ> snd) c \<Longrightarrow> keeps (p \<circ> snd) (with_commit c)"
  "keeps (p \<circ> snd) w \<Longrightarrow> keeps (p \<circ> snd) (with_writer w)"
  "keeps (p \<circ> snd) (modify f)" "keeps (p \<circ> snd) (gets h)" "keeps (p \<circ> snd) (update_wal u)"
  by (rule keeps_pairI, auto simp: poisoning_def with_fs_def with_wal_def with_commit_def with_writer_def modify_def gets_def update_wal_def
      split: prod.splits sum.splits dest: keepsD keeps_pairD)+

lemma keeps_fsync [keeps]:
  assumes [keeps]: "descriptor_safe p"
  shows "keeps (p \<circ> snd) wal_fsync_now" and "keeps (p \<circ> snd) wal_flush"
proof -
  have "keeps (p \<circ> snd) (bindI (poisoning (file_sync_all (ww_file v))) (\<lambda>_. update_wal (\<lambda>w. w\<lparr>ww_since_fsync := 0\<rparr>)))" for v
    by (intro keeps)
  then show *: "keeps (p \<circ> snd) wal_fsync_now" by (intro keeps_at) (auto simp: wal_fsync_now_def)
  show "keeps (p \<circ> snd) wal_flush"
    by (rule keeps_pairI) (auto simp: wal_flush_def split: if_splits dest: keeps_pairD [OF *])
qed

lemma keeps_policy [keeps]:
  assumes [keeps]: "descriptor_safe p"
  shows "keeps (p \<circ> snd) sync_by_policy"
proof -
  have *: "keeps (p \<circ> snd) (bindI wal_fsync_now (\<lambda>_. returnI True))" by (intro keeps)
  show ?thesis
    by (rule keeps_pairI) (auto simp: sync_by_policy_def Let_def split: fsync_policy.splits if_splits dest: keeps_pairD [OF *])
qed

lemma keeps_append [keeps]:
  assumes [keeps]: "descriptor_safe p"
  shows "keeps (p \<circ> snd) (wal_append frame)" and "keeps (p \<circ> snd) wal_truncate"
proof -
  have "keeps (p \<circ> snd) (bindI (poisoning (file_write_all (ww_file v) frame)) (\<lambda>_.
      bindI (update_wal (\<lambda>w. w\<lparr>ww_len := ww_len w + of_nat (length frame)\<rparr>)) (\<lambda>_. sync_by_policy)))" for v
    by (intro keeps)
  then show "keeps (p \<circ> snd) (wal_append frame)" by (intro keeps_at) (auto simp: wal_append_def)
  have "keeps (p \<circ> snd) (if ww_poisoned v then failI Poisoned else
      bindI (poisoning (file_set_len (ww_file v) 0)) (\<lambda>_. bindI (poisoning (file_seek_start (ww_file v) 0)) (\<lambda>_.
      bindI (update_wal (\<lambda>w. w\<lparr>ww_len := 0, ww_since_fsync := 0\<rparr>)) (\<lambda>_. poisoning (file_sync_all (ww_file v))))))" for v
    by (intro keeps)
  moreover have "wal_truncate (v, s) = (if ww_poisoned v then failI Poisoned else
      bindI (poisoning (file_set_len (ww_file v) 0)) (\<lambda>_. bindI (poisoning (file_seek_start (ww_file v) 0)) (\<lambda>_.
      bindI (update_wal (\<lambda>w. w\<lparr>ww_len := 0, ww_since_fsync := 0\<rparr>)) (\<lambda>_. poisoning (file_sync_all (ww_file v)))))) (v, s)" for v s
    by (simp add: wal_truncate_def)
  ultimately show "keeps (p \<circ> snd) wal_truncate" by (rule keeps_at [OF exI, OF conjI, rotated])
qed

lemma keeps_advance_commit [keeps]:
  assumes [keeps]: "descriptor_safe p"
  shows "keeps (p \<circ> snd) (advance_commit pl q)"
proof -
  have k: "keeps (p \<circ> snd) (with_commit (commit_advance (x_crc pl) e q))" for e by (intro keeps)
  show ?thesis
    by (rule keeps_pairI) (auto simp: advance_commit_def split: prod.splits sum.splits dest: keeps_pairD [OF k])
qed

lemma keeps_compact_writer: "keeps (fs_locked \<circ> snd) (compact_writer pl folded new_file)"
proof -
  have load: "keeps fs_locked (load_snapshot pl p mode validate prefault crc)" for p mode validate prefault crc
    by (rule keeps_map [OF keeps_reads(4) [of p]]) (auto simp: load_snapshot_def split: prod.splits)
  have reload: "keeps (fs_locked \<circ> snd) (reload_base pl folded new_file crc)" for crc
    by (rule keeps_pairI) (auto simp: reload_base_def split: base_mode.splits dest: keeps_pairD [OF keeps_lifts(2) [OF load]])
  have "keeps (fs_locked \<circ> snd) (bindI (liftE (snapshot_bytes pl folded)) (\<lambda>bytes.
     let new_crc = x_crc pl bytes in
     bindI (with_fs (write_file_atomic new_file bytes)) (\<lambda>_.
     bindI (with_fs (save_manifest pl (compacted_manifest w new_file new_crc))) (\<lambda>_.
     bindI (modify (adopt_snapshot new_file new_crc)) (\<lambda>_.
     bindI (advance_commit pl (max (wt_durable_seq w) (wt_seq w))) (\<lambda>_.
     bindI (with_wal wal_truncate) (\<lambda>_.
       reload_base pl folded new_file new_crc)))))))" for w
    by (intro keeps reload)
  then show ?thesis by (intro keeps_at) (auto simp: compact_writer_def)
qed

lemma keeps_compact: "compact_locked pl (g, s) = (r, (g', s')) \<Longrightarrow> fs_locked s' = fs_locked s"
  by (auto simp: compact_locked_def Let_def bindI_def remove_snapshot_file_def keeps_snd [OF keeps_names(4)]
      split: if_splits prod.splits sum.splits dest: keeps_pairD [OF keeps_lifts(5) [OF keeps_compact_writer]])

lemma keeps_commit_batch: "descriptor_safe p \<Longrightarrow> keeps (p \<circ> snd) (commit_batch pl rec)"
  unfolding commit_batch_def by (intro keeps) assumption+

lemma keeps_apply:
  assumes "apply_batch pl ops exp (g, s) = (r, (g', s'))"
  shows "fs_locked s' = fs_locked s"
  using assms
proof (cases rule: apply_cases)
  case (failed e w1)
  then show ?thesis using keeps_pairD [OF keeps_commit_batch [OF descriptor_safe(1)] failed(4)] by simp
next
  case (committed d w1 s1)
  let ?g = "publish (g\<lparr>st_writer := adopt_batch (wt_seq (st_writer g) + 1) (length ops) d w1\<rparr>)"
  obtain r2 g2 s2 where c: "compact_locked pl (?g, s1) = (r2, (g2, s2))" by (metis prod_cases3)
  have "s' = s1 \<or> s' = s2" using committed(6) c by (auto simp: auto_compact_def split: if_splits sum.splits)
  then show ?thesis using keeps_compact [OF c] keeps_pairD [OF keeps_commit_batch [OF descriptor_safe(1)] committed(5)] by auto
qed simp_all

lemma keeps_flush: "flush pl (g, s) = (r, (g', s')) \<Longrightarrow> fs_locked s' = fs_locked s"
proof -
  have "keeps (fs_locked \<circ> snd) (with_writer (bindI (with_wal wal_flush) (\<lambda>_. bindI (gets wt_seq) (advance_commit pl))))"
    by (intro keeps)
  then show "flush pl (g, s) = (r, (g', s')) \<Longrightarrow> fs_locked s' = fs_locked s"
    by (auto simp: flush_def split: if_splits dest: keeps_pairD)
qed

section \<open>Opening establishes the invariant\<close>

lemma replay_records_bounds:
  "replay_records pl A hw snap rs s = Inr s' \<Longrightarrow> snap \<le> rp_last_applied s \<Longrightarrow> snap \<le> rp_last_applied s'"
proof (induction rs arbitrary: s)
  case (Cons r rs)
  then show ?case by (auto simp: bindE_Inr_iff Let_def split: if_splits)
qed simp

lemma replay_committed_bounds:
  "replay_committed pl A hw snap scan = Inr r \<Longrightarrow> hw \<le> rp_last_applied r \<and> snap \<le> rp_last_applied r"
  by (auto simp: replay_committed_def bindE_Inr_iff not_less split: if_splits dest: replay_records_bounds)

lemma with_lock_Inr: "with_lock body s = (Inr x, s') \<Longrightarrow> \<exists>s1. body s1 = (Inr x, s')"
  by (cases "lock_acquire s"; cases "fst (lock_acquire s)"; cases "body (snd (lock_acquire s))"; cases "fst (body (snd (lock_acquire s)))")
    (auto simp: with_lock_def)

lemma create_inv: "create_with_vfs pl G s = (Inr g, s') \<Longrightarrow> store_inv g"
proof -
  assume "create_with_vfs pl G s = (Inr g, s')"
  then obtain s1 s2 where "create_locked pl G s1 = (Inr g, s2)"
    by (auto simp: create_with_vfs_def bindI_Inr dest!: with_lock_Inr)
  then obtain fd commit sf crc epoch where "g = fresh_store G fd commit sf crc epoch"
    by (auto simp: create_locked_def Let_def bindI_Inr split: if_splits)
  then show ?thesis by (simp add: store_inv_def published_iff fresh_store_def)
qed

lemma finish_open_inv:
  assumes "finish_open pl m mode prefault base fd scan commit hw r s = (Inr g, s')"
    and "replay_committed pl A hw (mf_snapshot_seq m) scan = Inr r"
  shows "store_inv g"
proof -
  obtain c epoch where "g = opened_store pl m mode prefault base fd c hw epoch scan r"
    using assms(1) by (auto simp: finish_open_def bindI_Inr)
  then show ?thesis using replay_committed_bounds [OF assms(2)] by (simp add: store_inv_def published_iff opened_store_def)
qed

lemma open_inv: "open_with_vfs pl create mode validate prefault s = (Inr g, s') \<Longrightarrow> store_inv g"
proof -
  assume run: "open_with_vfs pl create mode validate prefault s = (Inr g, s')"
  define v where "v = (case validate of NoValidate \<Rightarrow> Crc | v \<Rightarrow> v)"
  consider "create_with_vfs pl (empty_inner pl) s = (Inr g, s')" | s1 s2 where "open_locked pl mode v prefault s1 = (Inr g, s2)"
    using run by (auto simp: open_with_vfs_def v_def [symmetric] Let_def split: if_splits dest!: with_lock_Inr)
  then show ?thesis
  proof cases
    case 1
    then show ?thesis by (rule create_inv)
  next
    case 2
    then show ?thesis
      by (auto simp: open_locked_def bindI_Inr Let_def simp del: max_less_iff_conj split: if_splits dest: finish_open_inv)
  qed
qed

section \<open>Histories\<close>

inductive history :: "'g platform \<Rightarrow> 'g persistent_graph \<Rightarrow> fs \<Rightarrow> bool" for pl where
  created: "create_with_vfs pl G s = (Inr g, s') \<Longrightarrow> history pl g s'"
| opened: "open_with_vfs pl create mode validate prefault s = (Inr g, s') \<Longrightarrow> history pl g s'"
| applied: "history pl g s \<Longrightarrow> wt_seq (st_writer g) + 1 \<noteq> 0 \<Longrightarrow> apply_batch pl ops exp (g, s) = (r, (g', s')) \<Longrightarrow> history pl g' s'"
| flushed: "history pl g s \<Longrightarrow> flush pl (g, s) = (r, (g', s')) \<Longrightarrow> history pl g' s'"
| compacted: "history pl g s \<Longrightarrow> compact pl (g, s) = (r, (g', s')) \<Longrightarrow> history pl g' s'"
| policy: "history pl g s \<Longrightarrow> history pl (set_fsync_policy p g) s"
| threshold: "history pl g s \<Longrightarrow> history pl (set_auto_compact_threshold n g) s"

lemma same_data_inv:
  "store_inv g \<Longrightarrow> st_state g' = st_state g \<Longrightarrow> same_data (st_writer g) (st_writer g') \<Longrightarrow>
    wt_durable_seq (st_writer g') \<in> {wt_durable_seq (st_writer g), wt_seq (st_writer g)} \<Longrightarrow> store_inv g'"
  using same_dataD [of "st_writer g" "st_writer g'"] by (auto simp: store_inv_def published_iff)

lemma history_inv: "history pl g s \<Longrightarrow> store_inv g \<and> fs_locked s"
proof (induction rule: history.induct)
  case (applied g s ops exp r g' s')
  have "store_inv g'"
  proof (cases r)
    case (Inl e)
    show ?thesis using apply_error(1-3) [OF applied.hyps(3) [unfolded Inl]] applied.IH same_data_inv [of g g']
      by (simp add: committed_seq_def)
  next
    case (Inr q)
    show ?thesis using apply_ok(1) [OF applied.hyps(3) [unfolded Inr] _ applied.hyps(2)] applied.IH by simp
  qed
  then show ?case using keeps_apply [OF applied.hyps(3)] applied.IH by simp
next
  case (flushed g s r g' s')
  have "wt_durable_seq (st_writer g') \<in> {wt_durable_seq (st_writer g), wt_seq (st_writer g)}"
    using flush_cases(3,4) [OF flushed.hyps(2)] by (cases r) (auto simp: committed_seq_def)
  then show ?case using same_data_inv flush_cases(1,2) [OF flushed.hyps(2)] keeps_flush [OF flushed.hyps(2)] flushed.IH by blast
next
  case (compacted g s r g' s')
  show ?case
  proof (cases "poisoned (st_writer g)")
    case True
    then show ?thesis using compacted by (auto simp: compact_def)
  next
    case False
    then have run: "compact_locked pl (g, s) = (r, (g', s'))" using compacted by (simp add: compact_def)
    have "store_inv g'"
    proof (cases r)
      case (Inl e)
      have "store_inv (g\<lparr>st_writer := st_writer g'\<rparr>)" "st_state g' = st_state g"
        using compact_locked_cases(1) [OF run Inl] compacting_inv compacted.IH by blast+
      then show ?thesis by (simp add: store_inv_def published_iff)
    next
      case (Inr x)
      then show ?thesis using compact_locked_cases(2) [OF run] compacted.IH by simp
    qed
    then show ?thesis using keeps_compact [OF run] compacted.IH by simp
  qed
next
  case (policy g s p)
  then show ?case by (simp add: store_inv_def published_iff set_fsync_policy_def)
next
  case (threshold g s n)
  then show ?case by (simp add: store_inv_def published_iff set_auto_compact_threshold_def)
qed (auto simp: create_inv open_inv dest: create_lock_cases(2) open_lock_cases(2))

end
