(* ===== verification/OG_Python_Store.thy ===== *)
theory OG_Python_Store
  imports OG_Python OG_Store_History
begin

text \<open>
  \<open>PersistentGraph\<close> of the Python bindings (\<open>src/pybridge.rs\<close>): the durable store behind a handle that can
  be closed. Reads go to the live view of the published state; every mutation is one call of the crate.
\<close>

section \<open>The handle\<close>

record 'g py_persistent_graph =
  py_pg :: "'g persistent_graph option"

definition pg_closed :: py_error where
  "pg_closed = PyErr PyRuntimeError (Text ''PersistentGraph has been closed'')"

definition require_pg :: "'g py_persistent_graph \<Rightarrow> py_error + 'g persistent_graph" where
  "require_pg self = (case py_pg self of None \<Rightarrow> Inl pg_closed | Some g \<Rightarrow> Inr g)"

text \<open>\<open>DeltaAccessor::new(s.base.as_accessor(), s.delta)\<close> over a snapshot of the published state.\<close>

definition live_view :: "('g, 'v) py_env \<Rightarrow> 'g persistent_graph \<Rightarrow> accessor" where
  "live_view env g =
     (let s = snapshot_state g in delta_accessor (as_accessor (env_ops env) (gs_base s)) (gs_delta s))"

text \<open>Methods that run an operation of the store and convert its error.\<close>

definition on_pg ::
  "('g persistent_graph \<times> fs \<Rightarrow> (persist_error + 'a) \<times> 'g persistent_graph \<times> fs) \<Rightarrow>
   'g py_persistent_graph \<times> fs \<Rightarrow> (py_error + 'a) \<times> 'g py_persistent_graph \<times> fs" where
  "on_pg m = (\<lambda>(self, s).
     case require_pg self of
       Inl e \<Rightarrow> (Inl e, (self, s))
     | Inr g \<Rightarrow> (case m (g, s) of (r, (g, s)) \<Rightarrow> (map_err r, (self\<lparr>py_pg := Some g\<rparr>, s))))"

section \<open>Reads\<close>

definition pg_py_seq :: "'g py_persistent_graph \<Rightarrow> py_error + u64" where
  "pg_py_seq self = bindE (require_pg self) (\<lambda>pg. Inr (store_seq pg))"

definition pg_py_epoch :: "'g py_persistent_graph \<Rightarrow> py_error + u128" where
  "pg_py_epoch self = bindE (require_pg self) (\<lambda>pg. Inr (store_epoch pg))"

definition pg_py_node_count :: "('g, 'v) py_env \<Rightarrow> 'g py_persistent_graph \<Rightarrow> py_error + nat" where
  "pg_py_node_count env self = bindE (require_pg self) (\<lambda>pg. Inr (acc_node_count (live_view env pg)))"

definition pg_py_edge_count :: "('g, 'v) py_env \<Rightarrow> 'g py_persistent_graph \<Rightarrow> py_error + nat" where
  "pg_py_edge_count env self = bindE (require_pg self) (\<lambda>pg. Inr (acc_edge_count (live_view env pg)))"

definition pg_py_get_node :: "('g, 'v) py_env \<Rightarrow> 'g py_persistent_graph \<Rightarrow> string \<Rightarrow> py_error + node_result option" where
  "pg_py_get_node env self name =
     bindE (require_pg self) (\<lambda>pg.
       Inr (map_option (\<lambda>nv. from_node_result (compute_score nv default_context)) (acc_get_node (live_view env pg) name)))"

definition pg_py_outgoing_edges :: "('g, 'v) py_env \<Rightarrow> 'g py_persistent_graph \<Rightarrow> string \<Rightarrow> py_error + edge_result list" where
  "pg_py_outgoing_edges env self name =
     bindE (require_pg self) (\<lambda>pg. Inr (map (py_out_edge name) (acc_outgoing (live_view env pg) name)))"

definition pg_py_incoming_edges :: "('g, 'v) py_env \<Rightarrow> 'g py_persistent_graph \<Rightarrow> string \<Rightarrow> py_error + edge_result list" where
  "pg_py_incoming_edges env self name =
     bindE (require_pg self) (\<lambda>pg. Inr (map (py_in_edge name) (acc_incoming (live_view env pg) name)))"

definition pg_py_beam_traverse ::
  "('g, 'v) py_env \<Rightarrow> 'g py_persistent_graph \<Rightarrow> string \<Rightarrow> nat \<Rightarrow> nat \<Rightarrow> py_dynamic_context \<Rightarrow> py_error + node_result list" where
  "pg_py_beam_traverse env self start k depth ctx =
     bindE (resolve_dynamic_context ctx) (\<lambda>rust_ctx.
     bindE (require_pg self) (\<lambda>pg.
       Inr (map from_node_result (beam_traverse (env_order env) (live_view env pg) rust_ctx start k depth))))"

definition pg_py_find_path ::
  "('g, 'v) py_env \<Rightarrow> 'g py_persistent_graph \<Rightarrow> string \<Rightarrow> string \<Rightarrow> py_dynamic_context \<Rightarrow> py_error + path_step list option option" where
  "pg_py_find_path env self start end ctx =
     bindE (resolve_dynamic_context ctx) (\<lambda>rust_ctx.
     bindE (require_pg self) (\<lambda>pg.
       Inr (map_option (map_option (map from_path_step)) (find_path (env_fuel env) (env_heap_pop env) (live_view env pg) rust_ctx start end))))"

definition pg_py_contextual_subgraph ::
  "('g, 'v) py_env \<Rightarrow> 'g py_persistent_graph \<Rightarrow> py_dynamic_context \<Rightarrow> nat \<Rightarrow> py_error + sub_graph" where
  "pg_py_contextual_subgraph env self ctx k =
     bindE (resolve_dynamic_context ctx) (\<lambda>rust_ctx.
     bindE (require_pg self) (\<lambda>pg.
       Inr (from_sub_graph (contextual_subgraph (env_order env) (live_view env pg) rust_ctx k))))"

definition pg_py_multi_beam_intersection ::
  "('g, 'v) py_env \<Rightarrow> 'g py_persistent_graph \<Rightarrow> string list \<Rightarrow> nat \<Rightarrow> nat \<Rightarrow> py_dynamic_context \<Rightarrow> nat option \<Rightarrow> py_error + sub_graph" where
  "pg_py_multi_beam_intersection env self start_nodes k depth ctx threshold =
     bindE (resolve_dynamic_context ctx) (\<lambda>rust_ctx.
     bindE (require_pg self) (\<lambda>pg.
       Inr (from_sub_graph (multi_beam_intersection (env_order env) (live_view env pg) rust_ctx start_nodes k depth
         (default_threshold start_nodes threshold)))))"

definition pg_py_repr :: "'g py_persistent_graph \<Rightarrow> string" where
  "pg_py_repr self =
     (case py_pg self of
        Some pg \<Rightarrow> ''PersistentGraph(seq='' @ decimal (unat (store_seq pg)) @ '')''
      | None \<Rightarrow> ''PersistentGraph(closed)'')"

section \<open>Mutations\<close>

text \<open>The batch is parsed before anything else happens.\<close>

definition pg_py_apply ::
  "('g, 'v) py_env \<Rightarrow> 'v list \<Rightarrow> u64 option \<Rightarrow> 'g py_persistent_graph \<times> fs \<Rightarrow> (py_error + u64) \<times> 'g py_persistent_graph \<times> fs" where
  "pg_py_apply env ops expected_seq hs =
     (case parse_ops (env_api env) ops of
        Inl e \<Rightarrow> (Inl e, hs)
      | Inr parsed \<Rightarrow> on_pg (apply_batch (env_platform env) parsed expected_seq) hs)"

definition pg_py_flush :: "('g, 'v) py_env \<Rightarrow> 'g py_persistent_graph \<times> fs \<Rightarrow> (py_error + unit) \<times> 'g py_persistent_graph \<times> fs" where
  "pg_py_flush env = on_pg (flush (env_platform env))"

definition pg_py_compact :: "('g, 'v) py_env \<Rightarrow> 'g py_persistent_graph \<times> fs \<Rightarrow> (py_error + unit) \<times> 'g py_persistent_graph \<times> fs" where
  "pg_py_compact env = on_pg (compact (env_platform env))"

definition parse_policy :: "string \<Rightarrow> u32 option \<Rightarrow> py_error + fsync_policy" where
  "parse_policy policy every_n =
     (if policy = ''on_flush'' then Inr OnFlush
      else if policy = ''every_batch'' then Inr EveryBatch
      else if policy = ''every_n'' then
        (case every_n of
           None \<Rightarrow> Inl (PyErr PyValueError (Text ''fsync policy 'every_n' requires every_n=N''))
         | Some n \<Rightarrow> Inr (EveryN n))
      else Inl (PyErr PyValueError (UnknownWord policy)))"

definition pg_py_set_fsync_policy ::
  "string \<Rightarrow> u32 option \<Rightarrow> 'g py_persistent_graph \<times> fs \<Rightarrow> (py_error + unit) \<times> 'g py_persistent_graph \<times> fs" where
  "pg_py_set_fsync_policy policy every_n hs =
     (case parse_policy policy every_n of
        Inl e \<Rightarrow> (Inl e, hs)
      | Inr p \<Rightarrow> on_pg (\<lambda>(g, s). (Inr (), (set_fsync_policy p g, s))) hs)"

definition pg_py_set_auto_compact_threshold ::
  "nat option \<Rightarrow> 'g py_persistent_graph \<times> fs \<Rightarrow> (py_error + unit) \<times> 'g py_persistent_graph \<times> fs" where
  "pg_py_set_auto_compact_threshold threshold = on_pg (\<lambda>(g, s). (Inr (), (set_auto_compact_threshold threshold g, s)))"

text \<open>\<open>self.pg.take()\<close> empties the handle whether or not closing the store succeeds.\<close>

definition pg_py_close ::
  "('g, 'v) py_env \<Rightarrow> 'g py_persistent_graph \<times> fs \<Rightarrow> (py_error + unit) \<times> 'g py_persistent_graph \<times> fs" where
  "pg_py_close env = (\<lambda>(self, s).
     case py_pg self of
       None \<Rightarrow> (Inr (), (self, s))
     | Some g \<Rightarrow> (case close (env_platform env) g s of (r, s) \<Rightarrow> (map_err r, (self\<lparr>py_pg := None\<rparr>, s))))"

definition pg_py_exit ::
  "('g, 'v) py_env \<Rightarrow> 'g py_persistent_graph \<times> fs \<Rightarrow> (py_error + bool) \<times> 'g py_persistent_graph \<times> fs" where
  "pg_py_exit env hs = (case pg_py_close env hs of (Inl e, hs) \<Rightarrow> (Inl e, hs) | (Inr _, hs) \<Rightarrow> (Inr False, hs))"

section \<open>Opening\<close>

definition parse_validate :: "string \<Rightarrow> py_error + validate" where
  "parse_validate word =
     (if word = ''full'' then Inr Full else if word = ''crc'' then Inr Crc else if word = ''none'' then Inr NoValidate
      else Inl (PyErr PyValueError (UnknownWord word)))"

definition py_open ::
  "('g, 'v) py_env \<Rightarrow> bool \<Rightarrow> bool \<Rightarrow> string \<Rightarrow> bool \<Rightarrow> fs \<Rightarrow> (py_error + 'g py_persistent_graph) \<times> fs" where
  "py_open env create mmap word prefault s =
     (let mode = (if mmap then MmapMode else OwnedMode) in
      case parse_validate word of
        Inl e \<Rightarrow> (Inl e, s)
      | Inr v \<Rightarrow>
          (case open_with_vfs (env_platform env) create mode v prefault s of
             (r, s) \<Rightarrow> (bindE (map_err r) (\<lambda>pg. Inr \<lparr>py_pg = Some pg\<rparr>), s)))"

definition py_create_persistent ::
  "('g, 'v) py_env \<Rightarrow> 'v list \<Rightarrow> 'v list \<Rightarrow> fs \<Rightarrow> (py_error + 'g py_persistent_graph) \<times> fs" where
  "py_create_persistent env nodes edges s =
     (case bindE (parse_node_inputs (env_api env) nodes) (\<lambda>ns.
           bindE (parse_edge_inputs (env_api env) edges) (\<lambda>es. Inr (build_graph (env_ops env) ns es))) of
        Inl e \<Rightarrow> (Inl e, s)
      | Inr base \<Rightarrow>
          (case create_with_vfs (env_platform env) base s of
             (r, s) \<Rightarrow> (bindE (map_err r) (\<lambda>pg. Inr \<lparr>py_pg = Some pg\<rparr>), s)))"

section \<open>What the methods do\<close>

lemma map_err_simps [simp]: "map_err (Inl e) = Inl (map_persist_err e)" "map_err (Inr x) = Inr x"
  by (simp_all add: map_err_def)

lemma on_pg_cases:
  assumes "on_pg m (h, s) = (r, (h', s'))"
  obtains (closed) "py_pg h = None" "r = Inl pg_closed" "h' = h" "s' = s"
    | (run) g x g' where "py_pg h = Some g" "m (g, s) = (x, (g', s'))" "r = map_err x" "h' = h\<lparr>py_pg := Some g'\<rparr>"
  using assms by (auto simp: on_pg_def require_pg_def split: option.splits prod.splits)

text \<open>What a successful \<open>apply\<close> from Python did to the store behind the handle.\<close>

lemma pg_py_apply_Inr:
  assumes "pg_py_apply env items exp (h, s) = (Inr q, (h', s'))" and "py_pg h = Some g" and "parse_ops (env_api env) items = Inr ops"
  obtains g' where "apply_batch (env_platform env) ops exp (g, s) = (Inr q, (g', s'))" and "py_pg h' = Some g'"
  using assms by (auto simp: pg_py_apply_def on_pg_def require_pg_def map_err_def split: prod.splits sum.splits)

lemma py_open_Inr:
  assumes "open_with_vfs (env_platform env) create (if mmap then MmapMode else OwnedMode) v prefault s = (Inr k, s')"
    and "parse_validate word = Inr v"
  shows "py_open env create mmap word prefault s = (Inr \<lparr>py_pg = Some k\<rparr>, s')"
  using assms by (simp add: py_open_def Let_def map_err_def bindE_def)

text \<open>The calls of an open handle are histories of the store behind it.\<close>

inductive py_history :: "('g, 'v) py_env \<Rightarrow> 'g py_persistent_graph \<Rightarrow> fs \<Rightarrow> bool" for env where
  py_created: "py_create_persistent env nodes edges s = (Inr h, s') \<Longrightarrow> py_history env h s'"
| py_opened: "py_open env create mmap word prefault s = (Inr h, s') \<Longrightarrow> py_history env h s'"
| py_applied: "py_history env h s \<Longrightarrow> (\<And>g. py_pg h = Some g \<Longrightarrow> wt_seq (st_writer g) + 1 \<noteq> 0) \<Longrightarrow>
    pg_py_apply env ops exp (h, s) = (r, (h', s')) \<Longrightarrow> py_history env h' s'"
| py_flushed: "py_history env h s \<Longrightarrow> pg_py_flush env (h, s) = (r, (h', s')) \<Longrightarrow> py_history env h' s'"
| py_compacted: "py_history env h s \<Longrightarrow> pg_py_compact env (h, s) = (r, (h', s')) \<Longrightarrow> py_history env h' s'"
| py_policy: "py_history env h s \<Longrightarrow> pg_py_set_fsync_policy word n (h, s) = (r, (h', s')) \<Longrightarrow> py_history env h' s'"
| py_threshold: "py_history env h s \<Longrightarrow> pg_py_set_auto_compact_threshold t (h, s) = (r, (h', s')) \<Longrightarrow> py_history env h' s'"
| py_closed: "py_history env h s \<Longrightarrow> pg_py_close env (h, s) = (r, (h', s')) \<Longrightarrow> py_history env h' s'"

lemma py_history_store: "py_history env h s \<Longrightarrow> py_pg h = Some g \<Longrightarrow> history (env_platform env) g s"
proof (induction arbitrary: g rule: py_history.induct)
  case (py_created nodes edges s h s')
  then show ?case
    by (auto simp: py_create_persistent_def bindE_Inr_iff map_err_def intro: history.created split: sum.splits prod.splits)
next
  case (py_opened create mmap word prefault s h s')
  then show ?case
    by (auto simp: py_open_def Let_def bindE_Inr_iff map_err_def intro: history.opened split: sum.splits prod.splits)
next
  case (py_applied h s ops exp r h' s')
  show ?case
  proof (cases "parse_ops (env_api env) ops")
    case (Inl e)
    then show ?thesis using py_applied by (auto simp: pg_py_apply_def)
  next
    case (Inr parsed)
    then have "on_pg (apply_batch (env_platform env) parsed exp) (h, s) = (r, (h', s'))" using py_applied.hyps by (simp add: pg_py_apply_def)
    then show ?thesis
    proof (cases rule: on_pg_cases)
      case closed
      then show ?thesis using py_applied.prems by simp
    next
      case (run g0 x g1)
      then show ?thesis using history.applied [OF py_applied.IH [OF run(1)] py_applied.hyps(2) [OF run(1)] run(2)] py_applied.prems by simp
    qed
  qed
next
  case (py_flushed h s r h' s')
  from py_flushed.hyps(2) [unfolded pg_py_flush_def] show ?case
    by (cases rule: on_pg_cases) (use py_flushed.prems py_flushed.IH history.flushed in auto)
next
  case (py_compacted h s r h' s')
  from py_compacted.hyps(2) [unfolded pg_py_compact_def] show ?case
    by (cases rule: on_pg_cases) (use py_compacted.prems py_compacted.IH history.compacted in auto)
next
  case (py_policy h s word n r h' s')
  show ?case
  proof (cases "parse_policy word n")
    case (Inl e)
    then show ?thesis using py_policy by (auto simp: pg_py_set_fsync_policy_def)
  next
    case (Inr p)
    then have "on_pg (\<lambda>(g, s). (Inr (), (set_fsync_policy p g, s))) (h, s) = (r, (h', s'))"
      using py_policy.hyps by (simp add: pg_py_set_fsync_policy_def)
    then show ?thesis
      by (cases rule: on_pg_cases) (use py_policy.prems py_policy.IH history.policy in auto)
  qed
next
  case (py_threshold h s t r h' s')
  from py_threshold.hyps(2) [unfolded pg_py_set_auto_compact_threshold_def] show ?case
    by (cases rule: on_pg_cases) (use py_threshold.prems py_threshold.IH history.threshold in auto)
next
  case (py_closed h s r h' s')
  then show ?case by (auto simp: pg_py_close_def split: option.splits prod.splits)
qed

section \<open>Closed handles\<close>

lemma closed_reads:
  assumes "py_pg h = None"
  shows "pg_py_seq h = Inl pg_closed" and "pg_py_node_count env h = Inl pg_closed" and "pg_py_get_node env h name = Inl pg_closed"
    and "pg_py_outgoing_edges env h name = Inl pg_closed" and "pg_py_incoming_edges env h name = Inl pg_closed"
    and "isl (pg_py_beam_traverse env h name k depth ctx)" and "isl (pg_py_find_path env h name end ctx)"
    and "isl (pg_py_contextual_subgraph env h ctx k)" and "isl (pg_py_multi_beam_intersection env h names k depth ctx threshold)"
  using assms
  by (cases "resolve_dynamic_context ctx";
      simp add: require_pg_def pg_py_seq_def pg_py_node_count_def pg_py_get_node_def pg_py_outgoing_edges_def pg_py_incoming_edges_def
        pg_py_beam_traverse_def pg_py_find_path_def pg_py_contextual_subgraph_def pg_py_multi_beam_intersection_def)+

lemma closed_calls:
  assumes "py_pg h = None"
  shows "pg_py_close env (h, s) = (Inr (), (h, s))" and "pg_py_flush env (h, s) = (Inl pg_closed, (h, s))"
    and "pg_py_compact env (h, s) = (Inl pg_closed, (h, s))"
    and "isl (fst (pg_py_apply env items exp (h, s)))" and "snd (pg_py_apply env items exp (h, s)) = (h, s)"
  using assms
  by (simp_all add: pg_py_close_def pg_py_flush_def pg_py_compact_def pg_py_apply_def on_pg_def require_pg_def split: sum.splits)

end
