(* ===== verification/OG_Codec.thy ===== *)
theory OG_Codec
  imports OG_Base
begin

text \<open>
  A concrete prefix-free byte encoding of the stored types. The formats of the program are rkyv,
  postcard and JSON, which are parameters of the model; this encoding shows that the laws assumed
  of them hold for an executable encoder, and it instantiates them in the examples.
\<close>

section \<open>Parsers\<close>

type_synonym 'a parser = "bytes \<Rightarrow> ('a \<times> bytes) option"

definition codes :: "('a \<Rightarrow> bytes) \<Rightarrow> 'a parser \<Rightarrow> bool" where
  "codes enc dec \<longleftrightarrow> (\<forall>x r. dec (enc x @ r) = Some (x, r))"

named_theorems codes_intro \<open>encodings that decode\<close>

lemma codesD: "codes enc dec \<Longrightarrow> dec (enc x @ r) = Some (x, r)"
  by (simp add: codes_def)

definition whole :: "'a parser \<Rightarrow> bytes \<Rightarrow> 'a option" where
  "whole dec bs = (case dec bs of Some (x, []) \<Rightarrow> Some x | _ \<Rightarrow> None)"

lemma codes_codec: "codes enc dec \<Longrightarrow> codec_ok enc (whole dec)"
  unfolding codec_ok_def whole_def using codesD [where r = "[]"] by fastforce

fun enc_nat :: "nat \<Rightarrow> bytes" where
  "enc_nat 0 = [0]"
| "enc_nat (Suc n) = 1 # enc_nat n"

fun dec_nat :: "nat parser" where
  "dec_nat [] = None"
| "dec_nat (b # bs) = (if b = 0 then Some (0, bs) else map_option (\<lambda>(n, r). (Suc n, r)) (dec_nat bs))"

lemma codes_nat [codes_intro]: "codes enc_nat dec_nat"
proof -
  have "dec_nat (enc_nat n @ r) = Some (n, r)" for n r by (induction n) auto
  then show ?thesis by (simp add: codes_def)
qed

definition dec_fixed :: "nat \<Rightarrow> (bytes \<Rightarrow> 'a) \<Rightarrow> 'a parser" where
  "dec_fixed n f bs = (if length bs < n then None else Some (f (take n bs), drop n bs))"

lemma codes_fixed: "(\<And>x. length (enc x) = n) \<Longrightarrow> (\<And>x. f (enc x) = x) \<Longrightarrow> codes enc (dec_fixed n f)"
  by (simp add: codes_def dec_fixed_def)

lemma codes_words [codes_intro]:
  "codes u32_le (dec_fixed 4 u32_of_le)" "codes u64_le (dec_fixed 8 u64_of_le)" "codes u128_le (dec_fixed 16 u128_of_le)"
  by (rule codes_fixed; simp)+

definition dec_pair :: "'a parser \<Rightarrow> ('a \<Rightarrow> 'b parser) \<Rightarrow> 'b parser" where
  "dec_pair p q bs = (case p bs of None \<Rightarrow> None | Some (x, r) \<Rightarrow> q x r)"

definition enc_prod :: "('a \<Rightarrow> bytes) \<Rightarrow> ('b \<Rightarrow> bytes) \<Rightarrow> 'a \<times> 'b \<Rightarrow> bytes" where
  "enc_prod f g = (\<lambda>(x, y). f x @ g y)"

definition dec_prod :: "'a parser \<Rightarrow> 'b parser \<Rightarrow> ('a \<times> 'b) parser" where
  "dec_prod p q = dec_pair p (\<lambda>x bs. map_option (\<lambda>(y, r). ((x, y), r)) (q bs))"

lemma codes_prod [codes_intro]: "codes f p \<Longrightarrow> codes g q \<Longrightarrow> codes (enc_prod f g) (dec_prod p q)"
  by (auto simp: codes_def enc_prod_def dec_prod_def dec_pair_def)

definition enc_via :: "('b \<Rightarrow> 'a) \<Rightarrow> ('a \<Rightarrow> bytes) \<Rightarrow> 'b \<Rightarrow> bytes" where
  "enc_via f enc x = enc (f x)"

definition dec_via :: "('a \<Rightarrow> 'b) \<Rightarrow> 'a parser \<Rightarrow> 'b parser" where
  "dec_via g p bs = map_option (\<lambda>(x, r). (g x, r)) (p bs)"

lemma codes_via: "codes enc p \<Longrightarrow> (\<And>x. g (f x) = x) \<Longrightarrow> codes (enc_via f enc) (dec_via g p)"
  by (simp add: codes_def enc_via_def dec_via_def)

fun enc_all :: "('a \<Rightarrow> bytes) \<Rightarrow> 'a list \<Rightarrow> bytes" where
  "enc_all f [] = [0]"
| "enc_all f (x # xs) = 1 # f x @ enc_all f xs"

fun dec_many :: "nat \<Rightarrow> 'a parser \<Rightarrow> 'a list parser" where
  "dec_many 0 p bs = None"
| "dec_many (Suc fuel) p [] = None"
| "dec_many (Suc fuel) p (b # bs) =
     (if b = 0 then Some ([], bs)
      else case p bs of None \<Rightarrow> None | Some (x, r) \<Rightarrow> map_option (\<lambda>(xs, r). (x # xs, r)) (dec_many fuel p r))"

definition dec_all :: "'a parser \<Rightarrow> 'a list parser" where
  "dec_all p bs = dec_many (length bs) p bs"

lemma codes_all [codes_intro]:
  assumes "codes f p"
  shows "codes (enc_all f) (dec_all p)"
proof -
  have "dec_many fuel p (enc_all f xs @ r) = Some (xs, r)" if "length (enc_all f xs) \<le> fuel" for xs r fuel
    using that
  proof (induction xs arbitrary: fuel)
    case Nil
    then show ?case by (cases fuel) auto
  next
    case (Cons x xs)
    then obtain k where k: "fuel = Suc k" "length (enc_all f xs) \<le> k" by (cases fuel) auto
    then show ?case using Cons.IH [OF k(2)] codesD [OF assms, of x "enc_all f xs @ r"] by simp
  qed
  then show ?thesis by (simp add: codes_def dec_all_def)
qed

fun enc_opt :: "('a \<Rightarrow> bytes) \<Rightarrow> 'a option \<Rightarrow> bytes" where
  "enc_opt f None = [0]"
| "enc_opt f (Some x) = 1 # f x"

fun dec_opt :: "'a parser \<Rightarrow> 'a option parser" where
  "dec_opt p [] = None"
| "dec_opt p (b # bs) = (if b = 0 then Some (None, bs) else map_option (\<lambda>(x, r). (Some x, r)) (p bs))"

lemma codes_opt [codes_intro]: "codes f p \<Longrightarrow> codes (enc_opt f) (dec_opt p)"
  unfolding codes_def by (intro allI) (case_tac x; simp)

definition enc_char :: "char \<Rightarrow> bytes" where "enc_char c = [of_char c]"

lemma unat_of_char [simp]: "unat (of_char c :: u8) = of_char c"
proof -
  have "(of_char c :: nat) < 256" by simp
  then have "unat (of_nat (of_char c) :: u8) = of_char c" by (simp add: unat_of_nat)
  then show ?thesis by (simp only: of_nat_of_char)
qed

definition enc_string :: "string \<Rightarrow> bytes" where "enc_string = enc_all enc_char"

definition dec_string :: "string parser" where
  "dec_string = dec_all (dec_fixed 1 (\<lambda>bs. char_of (unat (hd bs))))"

lemma codes_string [codes_intro]: "codes enc_string dec_string"
  unfolding enc_string_def dec_string_def
  by (rule codes_all, rule codes_fixed) (simp_all add: enc_char_def)

definition enc_f32 :: "f32 \<Rightarrow> bytes" where "enc_f32 = enc_via f32_bits u32_le"

definition dec_f32 :: "f32 parser" where "dec_f32 = dec_via F32 (dec_fixed 4 u32_of_le)"

lemma codes_f32 [codes_intro]: "codes enc_f32 dec_f32"
  unfolding enc_f32_def dec_f32_def by (rule codes_via) (simp_all add: codes_intro)

section \<open>Nodes and edges\<close>

type_synonym node_tuple = "string \<times> string \<times> (string \<times> string) list \<times> f32 \<times> f32 \<times> f32"
type_synonym edge_tuple = "string \<times> string option \<times> f32 \<times> u64 option \<times> u64 option \<times> string list"

definition enc_node_tuple :: "node_tuple \<Rightarrow> bytes" where
  "enc_node_tuple = enc_prod enc_string (enc_prod enc_string (enc_prod (enc_all (enc_prod enc_string enc_string))
     (enc_prod enc_f32 (enc_prod enc_f32 enc_f32))))"

definition dec_node_tuple :: "node_tuple parser" where
  "dec_node_tuple = dec_prod dec_string (dec_prod dec_string (dec_prod (dec_all (dec_prod dec_string dec_string))
     (dec_prod dec_f32 (dec_prod dec_f32 dec_f32))))"

lemma codes_node_tuple [codes_intro]: "codes enc_node_tuple dec_node_tuple"
  unfolding enc_node_tuple_def dec_node_tuple_def by (intro codes_intro)

definition enc_edge_tuple :: "edge_tuple \<Rightarrow> bytes" where
  "enc_edge_tuple = enc_prod enc_string (enc_prod (enc_opt enc_string) (enc_prod enc_f32
     (enc_prod (enc_opt u64_le) (enc_prod (enc_opt u64_le) (enc_all enc_string)))))"

definition dec_edge_tuple :: "edge_tuple parser" where
  "dec_edge_tuple = dec_prod dec_string (dec_prod (dec_opt dec_string) (dec_prod dec_f32
     (dec_prod (dec_opt (dec_fixed 8 u64_of_le)) (dec_prod (dec_opt (dec_fixed 8 u64_of_le)) (dec_all dec_string)))))"

lemma codes_edge_tuple [codes_intro]: "codes enc_edge_tuple dec_edge_tuple"
  unfolding enc_edge_tuple_def dec_edge_tuple_def by (intro codes_intro)

definition edge_tuple :: "edge_data \<Rightarrow> edge_tuple" where
  "edge_tuple e = (ed_kind e, ed_field_name e, ed_base_weight e, ed_valid_from e, ed_valid_to e, ed_acl e)"

definition tuple_edge :: "edge_tuple \<Rightarrow> edge_data" where
  "tuple_edge = (\<lambda>(k, f, w, vf, vt, acl). \<lparr>ed_kind = k, ed_field_name = f, ed_base_weight = w,
     ed_valid_from = vf, ed_valid_to = vt, ed_acl = acl\<rparr>)"

lemma tuple_edge [simp]: "tuple_edge (edge_tuple e) = e"
  by (simp add: tuple_edge_def edge_tuple_def)

definition csr_node_tuple :: "csr_node \<Rightarrow> node_tuple" where
  "csr_node_tuple n = (cn_name n, cn_kind n, cn_metadata n, cn_base_weight n, cn_noise_penalty n, cn_pagerank_weight n)"

definition tuple_csr_node :: "node_tuple \<Rightarrow> csr_node" where
  "tuple_csr_node = (\<lambda>(n, k, m, b, p, r). \<lparr>cn_name = n, cn_kind = k, cn_metadata = m, cn_base_weight = b,
     cn_noise_penalty = p, cn_pagerank_weight = r\<rparr>)"

lemma tuple_csr_node [simp]: "tuple_csr_node (csr_node_tuple n) = n"
  by (simp add: tuple_csr_node_def csr_node_tuple_def)

definition enc_csr_node :: "csr_node \<Rightarrow> bytes" where "enc_csr_node = enc_via csr_node_tuple enc_node_tuple"
definition dec_csr_node :: "csr_node parser" where "dec_csr_node = dec_via tuple_csr_node dec_node_tuple"

lemma codes_csr_node [codes_intro]: "codes enc_csr_node dec_csr_node"
  unfolding enc_csr_node_def dec_csr_node_def by (rule codes_via) (simp_all add: codes_intro)

definition enc_csr_edge :: "csr_edge \<Rightarrow> bytes" where
  "enc_csr_edge = enc_via (\<lambda>e. (ce_from_idx e, ce_to_idx e, edge_tuple (ce_edge e)))
     (enc_prod u32_le (enc_prod u32_le enc_edge_tuple))"

definition dec_csr_edge :: "csr_edge parser" where
  "dec_csr_edge = dec_via (\<lambda>(f, t, e). csr_edge_of f t (tuple_edge e))
     (dec_prod (dec_fixed 4 u32_of_le) (dec_prod (dec_fixed 4 u32_of_le) dec_edge_tuple))"

lemma csr_edge_of_ce_edge [simp]: "csr_edge_of (ce_from_idx e) (ce_to_idx e) (ce_edge e) = e"
  by (simp add: csr_edge_of_def ce_edge_def)

lemma codes_csr_edge [codes_intro]: "codes enc_csr_edge dec_csr_edge"
  unfolding enc_csr_edge_def dec_csr_edge_def by (rule codes_via) (auto intro: codes_intro)

definition enc_csr :: "csr_graph \<Rightarrow> bytes" where
  "enc_csr = enc_via (\<lambda>a. (cg_nodes a, cg_edges a, cg_node_offsets a, cg_in_offsets a, cg_in_mirror a, cg_name_buckets a))
     (enc_prod (enc_all enc_csr_node) (enc_prod (enc_all enc_csr_edge) (enc_prod (enc_all u32_le)
       (enc_prod (enc_all u32_le) (enc_prod (enc_all u32_le) (enc_all u32_le))))))"

definition dec_csr :: "csr_graph parser" where
  "dec_csr = dec_via (\<lambda>(n, e, off, ioff, mir, b). \<lparr>cg_nodes = n, cg_edges = e, cg_node_offsets = off,
       cg_in_offsets = ioff, cg_in_mirror = mir, cg_name_buckets = b\<rparr>)
     (let u32s = dec_all (dec_fixed 4 u32_of_le) in
      dec_prod (dec_all dec_csr_node) (dec_prod (dec_all dec_csr_edge) (dec_prod u32s (dec_prod u32s (dec_prod u32s u32s)))))"

lemma codes_csr [codes_intro]: "codes enc_csr dec_csr"
  unfolding enc_csr_def dec_csr_def Let_def by (rule codes_via, intro codes_intro) simp

lemma csr_codec_ok: "codec_ok enc_csr (whole dec_csr)"
  by (rule codes_codec) (rule codes_csr)

definition enc_node_data :: "node_data \<Rightarrow> bytes" where "enc_node_data = enc_via csr_node_of enc_csr_node"
definition dec_node_data :: "node_data parser" where "dec_node_data = dec_via node_data_of dec_csr_node"

lemma codes_node_data [codes_intro]: "codes enc_node_data dec_node_data"
  unfolding enc_node_data_def dec_node_data_def by (rule codes_via) (simp_all add: codes_intro)

definition enc_edge_data :: "edge_data \<Rightarrow> bytes" where "enc_edge_data = enc_via edge_tuple enc_edge_tuple"
definition dec_edge_data :: "edge_data parser" where "dec_edge_data = dec_via tuple_edge dec_edge_tuple"

lemma codes_edge_data [codes_intro]: "codes enc_edge_data dec_edge_data"
  unfolding enc_edge_data_def dec_edge_data_def by (rule codes_via) (simp_all add: codes_intro)

definition enc_flat :: "serializable_graph \<Rightarrow> bytes" where
  "enc_flat = enc_via (\<lambda>g. (sg_node_list g, map (\<lambda>e. (se_from_idx e, se_to_idx e, se_edge e)) (sg_edge_list g)))
     (enc_prod (enc_all enc_node_data) (enc_all (enc_prod u32_le (enc_prod u32_le enc_edge_data))))"

definition dec_flat :: "serializable_graph parser" where
  "dec_flat = dec_via (\<lambda>(n, es). \<lparr>sg_node_list = n, sg_edge_list = map (\<lambda>(f, t, e). serializable_edge_of f t e) es\<rparr>)
     (dec_prod (dec_all dec_node_data)
       (dec_all (dec_prod (dec_fixed 4 u32_of_le) (dec_prod (dec_fixed 4 u32_of_le) dec_edge_data))))"

lemma codes_flat [codes_intro]: "codes enc_flat dec_flat"
proof -
  have "serializable_edge_of (se_from_idx e) (se_to_idx e) (se_edge e) = e" for e
    by (simp add: serializable_edge_of_def se_edge_def)
  then show ?thesis unfolding enc_flat_def dec_flat_def
    by (intro codes_via codes_intro) (simp add: o_def)
qed

lemma flat_codec_ok: "codec_ok enc_flat (whole dec_flat)"
  by (rule codes_codec) (rule codes_flat)

section \<open>Operations\<close>

fun enc_op :: "op \<Rightarrow> bytes" where
  "enc_op (UpsertNode n) = 0 # enc_node_data n"
| "enc_op (RemoveNode n) = 1 # enc_string n"
| "enc_op (AddEdge f t e) = 2 # enc_prod enc_string (enc_prod enc_string enc_edge_data) (f, t, e)"
| "enc_op (RemoveEdge f t k) = 3 # enc_prod enc_string (enc_prod enc_string enc_string) (f, t, k)"

fun dec_op :: "op parser" where
  "dec_op [] = None"
| "dec_op (b # bs) =
     (if b = 0 then dec_via UpsertNode dec_node_data bs
      else if b = 1 then dec_via RemoveNode dec_string bs
      else if b = 2 then dec_via (\<lambda>(f, t, e). AddEdge f t e) (dec_prod dec_string (dec_prod dec_string dec_edge_data)) bs
      else dec_via (\<lambda>(f, t, k). RemoveEdge f t k) (dec_prod dec_string (dec_prod dec_string dec_string)) bs)"

lemma codes_op [codes_intro]: "codes enc_op dec_op"
proof -
  have "dec_op (enc_op x @ r) = Some (x, r)" for x r
  proof (cases x)
    case (AddEdge f t e)
    have "codes (enc_prod enc_string (enc_prod enc_string enc_edge_data)) (dec_prod dec_string (dec_prod dec_string dec_edge_data))"
      by (intro codes_intro)
    from codesD [OF this] show ?thesis by (simp add: AddEdge dec_via_def)
  next
    case (RemoveEdge f t k)
    have "codes (enc_prod enc_string (enc_prod enc_string enc_string)) (dec_prod dec_string (dec_prod dec_string dec_string))"
      by (intro codes_intro)
    from codesD [OF this] show ?thesis by (simp add: RemoveEdge dec_via_def)
  qed (simp_all add: dec_via_def codesD [OF codes_node_data] codesD [OF codes_string])
  then show ?thesis by (simp add: codes_def)
qed

end
