(* ===== verification/OG_Examples.thy ===== *)
theory OG_Examples
  imports OG_Delta_Apply
begin

text \<open>
  Small concrete graphs and contexts at which the hypotheses of the properties hold.
\<close>

definition ex_node :: "string \<Rightarrow> f32 \<Rightarrow> node_data" where
  "ex_node n w = \<lparr>nd_name = n, nd_kind = ''model'', nd_metadata = fmempty, nd_base_weight = w,
     nd_noise_penalty = f32_zero, nd_pagerank_weight = f32_zero\<rparr>"

definition ex_edge :: "string \<Rightarrow> edge_data" where
  "ex_edge k = \<lparr>ed_kind = k, ed_field_name = None, ed_base_weight = f32_one, ed_valid_from = None,
     ed_valid_to = None, ed_acl = []\<rparr>"

definition ex_nodes :: "node_view list" where
  "ex_nodes = map (\<lambda>n. node_view_from (ex_node n f32_one)) [''a'', ''b'', ''c'']"

definition ex_edges :: "graph_edge list" where
  "ex_edges = [(''a'', ''b'', ex_edge ''k''), (''b'', ''c'', ex_edge ''k''), (''b'', ''b'', ex_edge ''l'')]"

definition ex_base :: accessor where
  "ex_base = list_accessor ex_nodes ex_edges"

definition ex_N :: "string \<Rightarrow> node_view option" where
  "ex_N = map_of (map (\<lambda>v. (nv_name v, v)) ex_nodes)"

lemma ex_node_simps [simp]: "nd_name (ex_node n w) = n" "nd_base_weight (ex_node n w) = w"
  by (simp_all add: ex_node_def)

lemma ex_base_ok: "accessor_ok ex_base ex_N (mset ex_edges)"
  unfolding ex_base_def ex_N_def
  by (rule list_accessor_ok) (simp_all add: ex_nodes_def ex_edges_def)

text \<open>A batch that shadows, removes, re-adds and links nodes.\<close>

definition ex_ops :: "op list" where
  "ex_ops = [UpsertNode (ex_node ''d'' f32_half), RemoveNode ''b'', AddEdge ''a'' ''d'' (ex_edge ''m''),
     RemoveEdge ''a'' ''d'' ''n'']"

lemma ex_batch_reachable: "delta_reachable ex_base (snd (delta_apply ex_base ex_ops delta_new))"
proof (rule delta_reachable.batch [OF delta_reachable.empty])
  show "length (added_edges delta_new) + length ex_ops \<le> 2 ^ 32"
    by (simp add: delta_new_def ex_ops_def)
  show "delta_apply ex_base ex_ops delta_new =
      (fst (delta_apply ex_base ex_ops delta_new), snd (delta_apply ex_base ex_ops delta_new))" by simp
qed

end
