(* ===== verification/OG_Platform.thy ===== *)
theory OG_Platform
  imports OG_Codec OG_Store_Ops OG_Examples OG_Beam
begin

text \<open>
  A concrete platform: the encodings of \<open>OG_Codec\<close> for the snapshot, the log and the MANIFEST, a
  checksum, the list digraph, and a fault-free file system. The witnesses run on it.
\<close>

section \<open>Formats\<close>

text \<open>A checksum that is never 0.\<close>

definition ex_crc :: "bytes \<Rightarrow> u32" where
  "ex_crc bs = or (of_nat (sum_list (map unat bs))) 1"

lemma ex_crc_nonzero: "ex_crc bs \<noteq> 0"
  unfolding ex_crc_def by (metis bit_0_eq bit_1_0 bit_or_iff bot_apply bot_bool_def)

definition enc_wal :: "wal_record \<Rightarrow> bytes" where
  "enc_wal = enc_via (\<lambda>r. (wr_seq r, wr_ops r)) (enc_prod u64_le (enc_all enc_op))"

definition dec_wal :: "wal_record parser" where
  "dec_wal = dec_via (\<lambda>(s, os). \<lparr>wr_seq = s, wr_ops = os\<rparr>) (dec_prod (dec_fixed 8 u64_of_le) (dec_all dec_op))"

lemma codes_wal [codes_intro]: "codes enc_wal dec_wal"
  unfolding enc_wal_def dec_wal_def by (intro codes_via codes_intro) simp

definition enc_manifest :: "manifest \<Rightarrow> bytes" where
  "enc_manifest = enc_via
     (\<lambda>m. (mf_format_version m, mf_snapshot_file m, mf_snapshot_seq m, mf_snapshot_crc32 m, mf_compaction_id m,
           mf_epoch m, mf_high_seq m, if mf_clean_shutdown m then 1 else 0, mf_created_by m, mf_checksum m))
     (enc_prod u32_le (enc_prod enc_string (enc_prod u64_le (enc_prod u32_le (enc_prod u64_le (enc_prod u128_le
       (enc_prod u64_le (enc_prod enc_nat (enc_prod enc_string u32_le)))))))))"

definition dec_manifest :: "manifest parser" where
  "dec_manifest = dec_via
     (\<lambda>(fv, sf, ss, sc, ci, ep, hs, cl, cb, ck). \<lparr>mf_format_version = fv, mf_snapshot_file = sf, mf_snapshot_seq = ss,
        mf_snapshot_crc32 = sc, mf_compaction_id = ci, mf_epoch = ep, mf_high_seq = hs, mf_clean_shutdown = (cl = 1),
        mf_created_by = cb, mf_checksum = ck\<rparr>)
     (dec_prod (dec_fixed 4 u32_of_le) (dec_prod dec_string (dec_prod (dec_fixed 8 u64_of_le) (dec_prod (dec_fixed 4 u32_of_le)
       (dec_prod (dec_fixed 8 u64_of_le) (dec_prod (dec_fixed 16 u128_of_le) (dec_prod (dec_fixed 8 u64_of_le)
       (dec_prod dec_nat (dec_prod dec_string (dec_fixed 4 u32_of_le))))))))))"

lemma codes_manifest [codes_intro]: "codes enc_manifest dec_manifest"
  unfolding enc_manifest_def dec_manifest_def by (rule codes_via, intro codes_intro) simp

lemma whole_enc: "codes enc dec \<Longrightarrow> whole dec (enc x) = Some x"
  using codesD [of enc dec x "[]"] by (simp add: whole_def)

section \<open>The platform\<close>

definition ex_unchecked :: "bytes \<Rightarrow> csr_graph" where
  "ex_unchecked bs = (case whole dec_csr bs of Some a \<Rightarrow> a
     | None \<Rightarrow> \<lparr>cg_nodes = [], cg_edges = [], cg_node_offsets = [], cg_in_offsets = [], cg_in_mirror = [], cg_name_buckets = []\<rparr>)"

definition ex_platform :: "(node_data list \<times> indexed_edge list) platform" where
  "ex_platform = \<lparr>x_graph = list_digraph, x_crc = ex_crc, x_csr_to = enc_csr, x_csr_access = whole dec_csr,
     x_csr_unchecked = ex_unchecked, x_wal_to = (\<lambda>r. Some (enc_wal r)), x_wal_of = whole dec_wal,
     x_json_to = (\<lambda>m. Some (enc_manifest m)), x_json_of = whole dec_manifest, x_order = id\<rparr>"

lemma ex_platform_simps [simp]:
  "x_graph ex_platform = list_digraph" "x_crc ex_platform = ex_crc" "x_csr_to ex_platform = enc_csr"
  "x_csr_access ex_platform = whole dec_csr" "x_csr_unchecked ex_platform = ex_unchecked"
  "x_wal_to ex_platform = (\<lambda>r. Some (enc_wal r))" "x_wal_of ex_platform = whole dec_wal"
  "x_json_to ex_platform = (\<lambda>m. Some (enc_manifest m))" "x_json_of ex_platform = whole dec_manifest"
  "x_order ex_platform = id"
  by (simp_all add: ex_platform_def)

lemma ex_unchecked_ok: "unchecked_ok (whole dec_csr) ex_unchecked"
  by (simp add: unchecked_ok_def ex_unchecked_def)

lemma ex_wal_codec_ok: "wal_codec_ok (\<lambda>r. Some (enc_wal r)) (whole dec_wal)"
  by (simp add: wal_codec_ok_def whole_enc [OF codes_wal])

lemma ex_json_ok: "json_ok (\<lambda>m. Some (enc_manifest m)) (whole dec_manifest)"
  by (simp add: json_ok_def whole_enc [OF codes_manifest])

section \<open>A graph\<close>

definition ex_input :: "string \<Rightarrow> f32 \<Rightarrow> node_input" where
  "ex_input n w = \<lparr>ni_name = n, ni_kind = ''model'', ni_metadata = fmempty, ni_base_weight = w, ni_noise_penalty = f32_zero\<rparr>"

definition ex_link :: "string \<Rightarrow> string \<Rightarrow> string \<Rightarrow> edge_input" where
  "ex_link f t k = \<lparr>ei_from = f, ei_to = t, ei_kind = k, ei_field_name = None, ei_base_weight = f32_one,
     ei_valid_from = None, ei_valid_to = None, ei_acl = [''y'', ''x'']\<rparr>"

definition ex_inputs :: "node_input list" where
  "ex_inputs = [ex_input ''b'' f32_one, ex_input ''a'' f32_half]"

definition ex_links :: "edge_input list" where
  "ex_links = [ex_link ''a'' ''b'' ''k'', ex_link ''b'' ''b'' ''l'', ex_link ''a'' ''z'' ''k'']"

definition ex_graph :: "(node_data list \<times> indexed_edge list) orpheus_graph" where
  "ex_graph = build_graph list_digraph ex_inputs ex_links"

lemma ex_room: "length (dedup_nodes ex_inputs) \<le> dg_limit" "length ex_links \<le> dg_limit"
proof -
  have "dedup_nodes ex_inputs = [ex_input ''a'' f32_half, ex_input ''b'' f32_one]" by code_simp
  then show "length (dedup_nodes ex_inputs) \<le> dg_limit" by (simp add: dg_limit_def)
  show "length ex_links \<le> dg_limit" by (simp add: ex_links_def dg_limit_def)
qed

lemma ex_graph_ok: "og_ok list_digraph ex_graph"
  unfolding ex_graph_def build_graph_def by (rule build_ok [OF list_digraph_laws ex_room])

lemma ex_graph_room: "length (dg_nodes list_digraph (og_graph ex_graph)) \<le> dg_limit"
  "length (dg_edges list_digraph (og_graph ex_graph)) \<le> dg_limit"
  using build_sizes [OF list_digraph_laws ex_room, of True] ex_room by (simp_all add: ex_graph_def build_graph_def)

lemma ex_graph_small: "small_graph list_digraph ex_graph"
  using ex_graph_room by (simp add: small_graph_def)

definition ex_csr :: csr_graph where "ex_csr = the (to_csr list_digraph ex_graph)"

lemma ex_csr: "to_csr list_digraph ex_graph = Some ex_csr"
  using to_csr_total [OF ex_graph_small] by (metis ex_csr_def option.sel)

lemma ex_snapshot: "to_rkyv_v2 enc_csr list_digraph ex_graph = Some (enc_csr ex_csr)"
  by (simp add: to_rkyv_v2_def ex_csr)

definition ex_base_graph :: "base_mode \<Rightarrow> (node_data list \<times> indexed_edge list) base_graph" where
  "ex_base_graph mode = (case open_snapshot ex_crc (whole dec_csr) ex_unchecked list_digraph (Inr (enc_csr ex_csr)) mode Full False
     (ex_crc (enc_csr ex_csr)) of Inr b \<Rightarrow> b)"

lemma ex_opened: "open_snapshot ex_crc (whole dec_csr) ex_unchecked list_digraph (Inr (enc_csr ex_csr)) mode Full False
    (ex_crc (enc_csr ex_csr)) = Inr (ex_base_graph mode)"
proof -
  obtain b where "open_snapshot ex_crc (whole dec_csr) ex_unchecked list_digraph (Inr (enc_csr ex_csr)) mode Full False
      (ex_crc (enc_csr ex_csr)) = Inr b"
    using open_written [OF csr_codec_ok ex_unchecked_ok list_digraph_laws ex_graph_ok ex_graph_small ex_snapshot] .
  then show ?thesis by (simp add: ex_base_graph_def)
qed

section \<open>Facts of the examples\<close>

lemma ex_names: "set [''a'', ''b'', ''c''] = dom ex_N"
  by (auto simp: ex_N_def ex_nodes_def split: if_splits)

lemma ex_edges_canon: "edges_canon (mset ex_edges)"
  by (auto simp: edges_canon_def edge_canon_def ex_edges_def ex_edge_def normalize_acl_def empty_window_def)

lemma ex_batch_room:
  "card (dom (delta_nodes ex_base (snd (delta_apply ex_base ex_ops delta_new)))) \<le> dg_limit"
  "size (delta_edges (mset ex_edges) (snd (delta_apply ex_base ex_ops delta_new))) \<le> dg_limit"
proof -
  let ?d = "snd (delta_apply ex_base ex_ops delta_new)"
  note ok = delta_accessor_ok [OF ex_base_ok delta_reachable_inv [OF ex_batch_reachable ex_base_ok]]
  have "acc_node_count (delta_accessor ex_base ?d) = 3" "acc_edge_count (delta_accessor ex_base ?d) = 1"
    by code_simp+
  then show "card (dom (delta_nodes ex_base ?d)) \<le> dg_limit" "size (delta_edges (mset ex_edges) ?d) \<le> dg_limit"
    using accessor_ok_node_count [OF ok] accessor_ok_edge_count [OF ok] by (simp_all add: dg_limit_def)
qed

text \<open>A context with a point in time, principals and a boosted name.\<close>

definition ex_context :: dynamic_context where
  "ex_context = default_context\<lparr>as_of := Some 5, principals := [''x''], semantic_boosts := fmupd ''a'' f32_one fmempty\<rparr>"

definition ex_filtered :: accessor where
  "ex_filtered = list_accessor ex_nodes (map strip_edge (filter (graph_edge_visible ex_context) ex_edges))"

lemma ex_filtered_ok:
  "accessor_ok ex_filtered ex_N (image_mset strip_edge (filter_mset (graph_edge_visible ex_context) (mset ex_edges)))"
proof -
  have "\<forall>(f, t, e) \<in> set (map strip_edge (filter (graph_edge_visible ex_context) ex_edges)).
      f \<in> nv_name ` set ex_nodes \<and> t \<in> nv_name ` set ex_nodes"
    by (auto simp: strip_edge_def ex_edges_def ex_nodes_def)
  from list_accessor_ok [OF _ this] show ?thesis
    by (simp add: ex_filtered_def ex_N_def ex_nodes_def)
qed

lemma ex_csr_valid: "validate_csr ex_csr = Inr ()"
  using to_csr_ok [OF ex_graph_ok ex_graph_small ex_csr] by (simp add: csr_ok_def)

lemma ex_csr_checked: "check_buckets (cg_nodes ex_csr) (cg_name_buckets ex_csr) = Inr ()" "distinct (csr_node_names ex_csr)"
  using ex_csr_valid csr_ok_iff [of ex_csr] by (auto simp: csr_ok_def strict_sorted_iff)

lemma ex_commit_ok:
  "commit_ok ex_crc (encode_slot ex_crc \<lparr>cr_epoch = 7, cr_committed_seq = 0, cr_gen = 0\<rparr>)
     \<lparr>cr_epoch = 7, cr_committed_seq = 0, cr_gen = 0\<rparr> \<lparr>cf_file = 0, cf_next_slot = 1, cf_next_gen = 1\<rparr>"
  by (simp add: commit_ok_def slot_at_def slot_size_def slice_def decode_encode_slot)

end
