(* ===== verification/OG_Disk.thy ===== *)
theory OG_Disk
  imports OG_Store_Ops
begin

text \<open>
  What the file-system operations do to the contents of the named files, whatever the fault oracle
  decides. \<open>evolves D s s'\<close> says that between the two states only names in \<open>D\<close> changed and every open
  descriptor kept its file; each operation of \<open>OG_Vfs\<close>, and each composite write of the store,
  evolves a small \<open>D\<close>, and the contents of its names are what the operation wrote or a torn part.
\<close>

section \<open>Evolution of the directory\<close>

text \<open>A name whose entry is on stable storage; a stable entry of a name that an operation does not write stays,
  and what stable storage has of its file only moves to the current contents.\<close>

definition pinned :: "fs \<Rightarrow> string \<Rightarrow> nat \<Rightarrow> bool" where
  "pinned s p i \<longleftrightarrow> fmlookup (fs_dir s) p = Some i \<and> fmlookup (fs_dir_disk s) p = Some i"

definition absent :: "fs \<Rightarrow> string \<Rightarrow> bool" where
  "absent s p \<longleftrightarrow> fmlookup (fs_dir s) p = None \<and> fmlookup (fs_dir_disk s) p = None"

definition settles :: "string \<Rightarrow> fs \<Rightarrow> fs \<Rightarrow> bool" where
  "settles p s s' \<longleftrightarrow> (absent s p \<longrightarrow> absent s' p) \<and> (\<forall>i. pinned s p i \<longrightarrow> pinned s' p i \<and> fs_disk s' i \<in> {fs_disk s i, fs_data s i})"

definition evolves :: "string set \<Rightarrow> fs \<Rightarrow> fs \<Rightarrow> bool" where
  "evolves D s s' \<longleftrightarrow>
     (fs_ok s \<longrightarrow> fs_ok s') \<and>
     (fs_ok s \<longrightarrow> (\<forall>p. p \<notin> D \<longrightarrow> fmlookup (fs_dir s') p = fmlookup (fs_dir s) p \<and> file_bytes s' p = file_bytes s p \<and> settles p s s')) \<and>
     (\<forall>fd < fs_next_fd s. vf_inode (fs_fds s' fd) = vf_inode (fs_fds s fd) \<and> vf_append (fs_fds s' fd) = vf_append (fs_fds s fd)) \<and>
     fs_next_fd s \<le> fs_next_fd s' \<and> fs_locked s' = fs_locked s \<and>
     fs_faults s' = fs_faults s \<and> fs_entropy s' = fs_entropy s"

text \<open>A failing step, which needs a fault.\<close>

definition fails :: "string set \<Rightarrow> fs \<Rightarrow> fs \<Rightarrow> bool" where
  "fails D s s' \<longleftrightarrow> evolves D s s' \<and> \<not> calm s"

lemma settles_refl: "settles p s s"
  by (simp add: settles_def)

lemma settles_trans:
  assumes "settles p s s'" and "settles p s' s''" and "file_bytes s' p = file_bytes s p"
  shows "settles p s s''"
  using assms unfolding settles_def by (force simp: pinned_def file_bytes_def absent_def)

lemma evolves_refl: "evolves D s s"
  by (simp add: evolves_def settles_refl)

lemma evolves_trans: "evolves D s s' \<Longrightarrow> evolves D' s' s'' \<Longrightarrow> evolves (D \<union> D') s s''"
proof -
  assume a: "evolves D s s'" and b: "evolves D' s' s''"
  have 1: "fs_next_fd s \<le> fs_next_fd s'" "fs_next_fd s' \<le> fs_next_fd s''" using a b by (simp_all add: evolves_def)
  have "vf_inode (fs_fds s'' fd) = vf_inode (fs_fds s fd) \<and> vf_append (fs_fds s'' fd) = vf_append (fs_fds s fd)"
    if "fd < fs_next_fd s" for fd
    using a b that less_le_trans [OF that 1(1)] unfolding evolves_def by simp
  moreover have "settles p s s''" if "p \<notin> D \<union> D'" "fs_ok s" for p
    by (rule settles_trans [of p s s']) (use a b that in \<open>simp_all add: evolves_def\<close>)
  ultimately show ?thesis using a b 1 unfolding evolves_def by simp
qed

lemma evolves_mono: "evolves D s s' \<Longrightarrow> D \<subseteq> D' \<Longrightarrow> evolves D' s s'"
  by (auto simp: evolves_def)

lemma evolves_then: "evolves D s s' \<Longrightarrow> evolves D s' s'' \<Longrightarrow> evolves D s s''"
  using evolves_trans [of D s s' D s''] by simp

lemma evolvesD:
  assumes "evolves D s s'"
  shows "fs_ok s \<Longrightarrow> fs_ok s'" and "fs_ok s \<Longrightarrow> p \<notin> D \<Longrightarrow> file_bytes s' p = file_bytes s p"
    and "fs_ok s \<Longrightarrow> p \<notin> D \<Longrightarrow> fmlookup (fs_dir s') p = fmlookup (fs_dir s) p"
    and "fs_locked s' = fs_locked s" and "calm s' = calm s" and "fs_ok s \<Longrightarrow> p \<notin> D \<Longrightarrow> settles p s s'"
  using assms by (auto simp: evolves_def calm_def)

lemma failsI: "evolves D s s0 \<Longrightarrow> fails D s0 s' \<Longrightarrow> fails D s s'"
  unfolding fails_def using evolves_then evolvesD(5) by blast

lemma fails_mono: "fails D s s' \<Longrightarrow> D \<subseteq> D' \<Longrightarrow> fails D' s s'"
  unfolding fails_def using evolves_mono by blast

text \<open>A descriptor of a named file.\<close>

definition fd_at :: "fs \<Rightarrow> nat \<Rightarrow> string \<Rightarrow> bool" where
  "fd_at s fd p \<longleftrightarrow> fd < fs_next_fd s \<and> fmlookup (fs_dir s) p = Some (vf_inode (fs_fds s fd))"

lemma fd_at_bytes: "fd_at s fd p \<Longrightarrow> file_bytes s p = Some (fd_data s fd)"
  by (simp add: fd_at_def file_bytes_def fd_data_def)

lemma evolves_fd:
  assumes "evolves D s s'" and "fs_ok s" and "fd_at s fd p" and "p \<notin> D"
  shows "fd_at s' fd p" and "vf_append (fs_fds s' fd) = vf_append (fs_fds s fd)"
  using assms by (auto simp: evolves_def fd_at_def)

text \<open>Steps that leave the directory and the data alone.\<close>

lemma evolves_quiet:
  assumes "fs_dir s' = fs_dir s" and "fs_dir_disk s' \<in> {fs_dir_disk s, fs_dir s}" and "fs_data s' = fs_data s"
    and "\<And>i. fs_disk s' i \<in> {fs_disk s i, fs_data s i}" and "fs_next_inode s' = fs_next_inode s"
    and "\<And>fd. fd < fs_next_fd s \<Longrightarrow> vf_inode (fs_fds s' fd) = vf_inode (fs_fds s fd) \<and> vf_append (fs_fds s' fd) = vf_append (fs_fds s fd)"
    and "fs_next_fd s \<le> fs_next_fd s'" and "fs_locked s' = fs_locked s" and "fs_faults s' = fs_faults s"
    and "fs_entropy s' = fs_entropy s"
  shows "evolves D s s'"
proof -
  have "fs_ok s \<Longrightarrow> fs_ok s'" using assms(2)
    by (elim insertE emptyE) (simp_all only: fs_ok_def assms(1,5), blast)
  moreover have "file_bytes s' = file_bytes s" by (simp add: file_bytes_def fun_eq_iff assms(1,3))
  moreover have "settles p s s'" for p
    unfolding settles_def pinned_def absent_def using assms(1,2,4) by (metis insertE singletonD)
  ultimately show ?thesis using assms(1,6,7,8,9,10) by (simp add: evolves_def)
qed

lemma tick_fields: "tick s = (f, s') \<Longrightarrow> s' = s\<lparr>fs_clock := Suc (fs_clock s)\<rparr>"
  by (simp add: tick_def)

lemma tick_evolves: "tick s = (f, s') \<Longrightarrow> evolves D s s'"
  by (auto dest!: tick_fields intro!: evolves_quiet)

lemma effect_cases:
  "effect f s = (r, s') \<Longrightarrow>
    (s' = s\<lparr>fs_clock := Suc (fs_clock s)\<rparr> \<or> s' = f (s\<lparr>fs_clock := Suc (fs_clock s)\<rparr>)) \<and>
    (r = Inr () \<longrightarrow> s' = f (s\<lparr>fs_clock := Suc (fs_clock s)\<rparr>)) \<and> (calm s \<longrightarrow> r = Inr ())"
  by (auto simp: effect_def tick_def calm_def split: fault.splits)

lemma effect_evolves:
  assumes "effect f s = (r, s')" and "\<And>x. evolves D x (f x)"
  shows "evolves D s s'"
proof -
  have "evolves D s (s\<lparr>fs_clock := Suc (fs_clock s)\<rparr>)" by (rule evolves_quiet) simp_all
  then show ?thesis using effect_cases [OF assms(1)] assms(2) evolves_then by blast
qed

text \<open>Steps that never touch a file's contents and fail on a fault only.\<close>

definition steady :: "(fs \<Rightarrow> (io_error + 'a) \<times> fs) \<Rightarrow> bool" where
  "steady m \<longleftrightarrow> (\<forall>s r s'. m s = (r, s') \<longrightarrow> evolves {} s s' \<and> (calm s \<longrightarrow> (\<exists>x. r = Inr x)))"

lemma steady_effect:
  assumes "\<And>x. evolves {} x (f x)"
  shows "steady (effect f)"
  unfolding steady_def
proof (intro allI impI conjI)
  fix s r s' assume "effect f s = (r, s')"
  then show "evolves {} s s'" and "calm s \<Longrightarrow> \<exists>x. r = Inr x" using effect_evolves [OF _ assms] effect_cases by blast+
qed

lemma set_pos_evolves: "evolves D s (set_pos fd p s)"
  by (rule evolves_quiet) (auto simp: set_pos_def)

lemma steady_seek: "steady (file_seek_start fd p)"
  unfolding file_seek_start_def by (rule steady_effect) (rule set_pos_evolves)

lemma steady_sync: "steady (file_sync_all fd)"
  unfolding file_sync_all_def by (rule steady_effect, rule evolves_quiet) (simp_all add: fd_data_def)

lemma steady_fsync_dir: "steady vfs_fsync_dir"
  unfolding vfs_fsync_dir_def by (rule steady_effect, rule evolves_quiet) simp_all

lemma steady_query: "steady (query f)"
  unfolding steady_def
proof (intro allI impI conjI)
  fix s r s' assume r: "query f s = (r, s')"
  then have "s' = s\<lparr>fs_clock := Suc (fs_clock s)\<rparr>" by (auto simp: query_def tick_def split: fault.splits)
  then show "evolves {} s s'" by (auto intro!: evolves_quiet)
  show "calm s \<Longrightarrow> \<exists>x. r = Inr x" using r by (auto simp: query_def tick_def calm_def)
qed

lemma steady_len: "steady (file_len fd)"
  unfolding file_len_def by (rule steady_query)

lemma steady_read: "steady (file_read_to_end fd)"
  unfolding steady_def
proof (intro allI impI conjI)
  fix s r s' assume r: "file_read_to_end fd s = (r, s')"
  let ?s = "s\<lparr>fs_clock := Suc (fs_clock s)\<rparr>"
  have "evolves {} s ?s" by (rule evolves_quiet) simp_all
  moreover have "s' = ?s \<or> (\<exists>p. s' = set_pos fd p ?s)"
    using r by (auto simp: file_read_to_end_def tick_def split: fault.splits)
  ultimately show "evolves {} s s'" using set_pos_evolves evolves_then by blast
  show "calm s \<Longrightarrow> \<exists>x. r = Inr x" using r by (auto simp: file_read_to_end_def tick_def calm_def)
qed

lemma steady_entropy: "steady draw_entropy"
  unfolding steady_def
proof (intro allI impI conjI)
  fix s r s' assume r: "draw_entropy s = (r, s')"
  then have "s' = s\<lparr>fs_clock := Suc (fs_clock s)\<rparr>" by (auto simp: draw_entropy_def)
  then show "evolves {} s s'" by (auto intro!: evolves_quiet)
  show "calm s \<Longrightarrow> \<exists>x. r = Inr x" using r by (auto simp: draw_entropy_def calm_def)
qed

lemmas steady = steady_seek steady_sync steady_fsync_dir steady_len steady_read steady_entropy

text \<open>Data of one file.\<close>

lemma set_data_evolves:
  assumes "fd_at s fd p" and "i = vf_inode (fs_fds s fd)"
  shows "evolves {p} s (set_data i bs s)" and "fs_ok s \<Longrightarrow> file_bytes (set_data i bs s) p = Some bs"
proof -
  have "q = p" if "fs_ok s" "fmlookup (fs_dir s) q = Some i" for q
    using that assms unfolding fs_ok_def fd_at_def by blast
  then show "evolves {p} s (set_data i bs s)"
    using assms
    by (auto simp: evolves_def fs_ok_def file_bytes_def set_data_def option.map_comp settles_def absent_def pinned_def intro!: map_option_cong)
  show "fs_ok s \<Longrightarrow> file_bytes (set_data i bs s) p = Some bs"
    using assms by (simp add: file_bytes_def set_data_def fd_at_def)
qed

definition write_pos :: "fs \<Rightarrow> nat \<Rightarrow> nat" where
  "write_pos s fd = (if vf_append (fs_fds s fd) then length (fd_data s fd) else vf_pos (fs_fds s fd))"

lemma put_bytes_evolves:
  assumes "fd_at s fd p"
  shows "evolves {p} s (put_bytes fd buf s)"
    and "fs_ok s \<Longrightarrow> file_bytes (put_bytes fd buf s) p = Some (write_at (fd_data s fd) (write_pos s fd) buf)"
proof -
  let ?s = "set_data (vf_inode (fs_fds s fd)) (write_at (fd_data s fd) (write_pos s fd) buf) s"
  have eq: "put_bytes fd buf s = set_pos fd (write_pos s fd + length buf) ?s"
    by (simp add: put_bytes_def write_pos_def Let_def)
  have "evolves {p} s ?s" by (rule set_data_evolves(1) [OF assms refl])
  then show "evolves {p} s (put_bytes fd buf s)" unfolding eq by (rule evolves_then) (rule set_pos_evolves)
  have "file_bytes (set_pos fd k ?s) p = file_bytes ?s p" for k by (simp add: file_bytes_def set_pos_def)
  then show "fs_ok s \<Longrightarrow> file_bytes (put_bytes fd buf s) p = Some (write_at (fd_data s fd) (write_pos s fd) buf)"
    unfolding eq using set_data_evolves(2) [OF assms refl] by simp
qed

lemma file_write_all_cases:
  "file_write_all fd buf s = (r, s') \<Longrightarrow>
    \<exists>k. s' = put_bytes fd (take k buf) (s\<lparr>fs_clock := Suc (fs_clock s)\<rparr>) \<and>
      (r = Inr () \<longrightarrow> k = length buf) \<and> (calm s \<longrightarrow> r = Inr ())"
  by (auto simp: file_write_all_def tick_def calm_def split: fault.splits)

lemma clock_simps [simp]:
  "fd_at (s\<lparr>fs_clock := t\<rparr>) fd p = fd_at s fd p" "fs_ok (s\<lparr>fs_clock := t\<rparr>) = fs_ok s"
  "file_bytes (s\<lparr>fs_clock := t\<rparr>) = file_bytes s" "fd_data (s\<lparr>fs_clock := t\<rparr>) = fd_data s"
  "write_pos (s\<lparr>fs_clock := t\<rparr>) fd = write_pos s fd"
  by (simp_all add: fd_at_def fs_ok_def file_bytes_def fd_data_def fun_eq_iff write_pos_def)

lemma file_write_all_evolves:
  assumes "file_write_all fd buf s = (r, s')" and "fd_at s fd p"
  shows "evolves {p} s s'"
    and "fs_ok s \<Longrightarrow> \<exists>k. file_bytes s' p = Some (write_at (fd_data s fd) (write_pos s fd) (take k buf))"
    and "fs_ok s \<Longrightarrow> r = Inr () \<Longrightarrow> file_bytes s' p = Some (write_at (fd_data s fd) (write_pos s fd) buf)"
    and "calm s \<Longrightarrow> r = Inr ()"
proof -
  obtain k where k: "s' = put_bytes fd (take k buf) (s\<lparr>fs_clock := Suc (fs_clock s)\<rparr>)" "r = Inr () \<longrightarrow> k = length buf"
    "calm s \<longrightarrow> r = Inr ()"
    using file_write_all_cases [OF assms(1)] by blast
  have at: "fd_at (s\<lparr>fs_clock := Suc (fs_clock s)\<rparr>) fd p" using assms(2) by simp
  have "evolves {p} s (s\<lparr>fs_clock := Suc (fs_clock s)\<rparr>)" by (rule evolves_quiet) simp_all
  then show "evolves {p} s s'" unfolding k(1) by (rule evolves_then) (rule put_bytes_evolves(1) [OF at])
  show "fs_ok s \<Longrightarrow> \<exists>k. file_bytes s' p = Some (write_at (fd_data s fd) (write_pos s fd) (take k buf))"
    and "fs_ok s \<Longrightarrow> r = Inr () \<Longrightarrow> file_bytes s' p = Some (write_at (fd_data s fd) (write_pos s fd) buf)"
    using put_bytes_evolves(2) [OF at] k by auto
  show "calm s \<Longrightarrow> r = Inr ()" using k(3) by blast
qed

lemma file_set_len_evolves:
  assumes "file_set_len fd n s = (r, s')" and "fd_at s fd p"
  shows "evolves {p} s s'" and "fs_ok s \<Longrightarrow> file_bytes s' p \<in> {file_bytes s p, Some (resize n (fd_data s fd))}"
    and "fs_ok s \<Longrightarrow> r = Inr () \<Longrightarrow> file_bytes s' p = Some (resize n (fd_data s fd))" and "calm s \<Longrightarrow> r = Inr ()"
proof -
  let ?f = "\<lambda>s. set_data (vf_inode (fs_fds s fd)) (resize n (fd_data s fd)) s"
  let ?s = "s\<lparr>fs_clock := Suc (fs_clock s)\<rparr>"
  have at: "fd_at ?s fd p" using assms(2) by simp
  have cases: "s' = ?s \<or> s' = ?f ?s" "r = Inr () \<Longrightarrow> s' = ?f ?s" "calm s \<Longrightarrow> r = Inr ()"
    using assms(1) unfolding file_set_len_def using effect_cases by blast+
  have e: "evolves {p} s ?s" by (rule evolves_quiet) simp_all
  show "evolves {p} s s'" using cases(1) e evolves_then [OF e set_data_evolves(1) [OF at refl]] by blast
  show "fs_ok s \<Longrightarrow> file_bytes s' p \<in> {file_bytes s p, Some (resize n (fd_data s fd))}"
    and "fs_ok s \<Longrightarrow> r = Inr () \<Longrightarrow> file_bytes s' p = Some (resize n (fd_data s fd))"
    using cases set_data_evolves(2) [OF at refl] by auto
  show "calm s \<Longrightarrow> r = Inr ()" by (rule cases(3))
qed

section \<open>Runs of effectful computations\<close>

text \<open>\<open>runs m s Q X\<close>: from \<open>s\<close> the computation ends with a result and a state that satisfy \<open>Q\<close>, or
  with an error and a state that satisfies \<open>X\<close>.\<close>

definition runs :: "('s, 'a) eff \<Rightarrow> 's \<Rightarrow> ('a \<Rightarrow> 's \<Rightarrow> bool) \<Rightarrow> ('s \<Rightarrow> bool) \<Rightarrow> bool" where
  "runs m s Q X \<longleftrightarrow> (case m s of (Inr x, s') \<Rightarrow> Q x s' | (Inl e, s') \<Rightarrow> X s')"

lemma runsI:
  "(\<And>x s'. m s = (Inr x, s') \<Longrightarrow> Q x s') \<Longrightarrow> (\<And>e s'. m s = (Inl e, s') \<Longrightarrow> X s') \<Longrightarrow> runs m s Q X"
  by (auto simp: runs_def split: prod.splits sum.splits)

lemma runsD:
  "runs m s Q X \<Longrightarrow> m s = (Inr x, s') \<Longrightarrow> Q x s'"
  "runs m s Q X \<Longrightarrow> m s = (Inl e, s') \<Longrightarrow> X s'"
  by (simp_all add: runs_def)

lemma runs_mono:
  "runs m s Q X \<Longrightarrow> (\<And>x s'. Q x s' \<Longrightarrow> Q' x s') \<Longrightarrow> (\<And>s'. X s' \<Longrightarrow> X' s') \<Longrightarrow> runs m s Q' X'"
  by (auto simp: runs_def split: prod.splits sum.splits)

lemma runs_bindI:
  "runs m s Q1 X1 \<Longrightarrow> (\<And>x s1. Q1 x s1 \<Longrightarrow> runs (f x) s1 Q X) \<Longrightarrow> (\<And>s1. X1 s1 \<Longrightarrow> X s1) \<Longrightarrow> runs (bindI m f) s Q X"
proof -
  assume m: "runs m s Q1 X1" and f: "\<And>x s1. Q1 x s1 \<Longrightarrow> runs (f x) s1 Q X" and x: "\<And>s1. X1 s1 \<Longrightarrow> X s1"
  obtain r s1 where r: "m s = (r, s1)" by fastforce
  show ?thesis using m f x by (cases r) (simp_all add: runs_def bindI_def r)
qed

lemma runs_return: "Q x s \<Longrightarrow> runs (returnI x) s Q X"
  by (simp add: runs_def)

lemma runs_fail: "X s \<Longrightarrow> runs (failI e) s Q X"
  by (simp add: runs_def)

lemma runs_lift: "(\<And>x. r = Inr x \<Longrightarrow> Q x s) \<Longrightarrow> (\<And>e. r = Inl e \<Longrightarrow> X s) \<Longrightarrow> runs (liftE r) s Q X"
  by (auto simp: runs_def split: sum.splits)

lemma runs_io:
  "(\<And>x s'. m s = (Inr x, s') \<Longrightarrow> Q x s') \<Longrightarrow> (\<And>e s'. m s = (Inl e, s') \<Longrightarrow> X s') \<Longrightarrow> runs (io m) s Q X"
proof -
  assume q: "\<And>x s'. m s = (Inr x, s') \<Longrightarrow> Q x s'" "\<And>e s'. m s = (Inl e, s') \<Longrightarrow> X s'"
  obtain r s1 where r: "m s = (r, s1)" by fastforce
  show ?thesis using q by (cases r) (simp_all add: runs_def io_def r)
qed

lemma runs_steady: "steady m \<Longrightarrow> runs (io m) s (\<lambda>_. evolves {} s) (fails {} s)"
  unfolding steady_def fails_def by (rule runs_io) fastforce+

section \<open>Names\<close>

lemma vfs_create_runs:
  "runs (io (vfs_create p)) s
     (\<lambda>fd s'. evolves {p} s s' \<and> (fs_ok s \<longrightarrow> fd_at s' fd p \<and> file_bytes s' p = Some [] \<and> write_pos s' fd = 0 \<and> \<not> vf_append (fs_fds s' fd)))
     (fails {p} s)"
proof (rule runs_io)
  fix fd s' assume run: "vfs_create p s = (Inr fd, s')"
  show "evolves {p} s s' \<and> (fs_ok s \<longrightarrow> fd_at s' fd p \<and> file_bytes s' p = Some [] \<and> write_pos s' fd = 0 \<and> \<not> vf_append (fs_fds s' fd))"
  proof (cases "fmlookup (fs_dir s) p")
    case None
    then have s': "s' = s\<lparr>fs_clock := Suc (fs_clock s), fs_next_inode := Suc (fs_next_inode s), fs_dir := fmupd p (fs_next_inode s) (fs_dir s),
        fs_data := (fs_data s)(fs_next_inode s := []),
        fs_fds := (fs_fds s)(fs_next_fd s := \<lparr>vf_inode = fs_next_inode s, vf_pos = 0, vf_append = False\<rparr>), fs_next_fd := Suc (fs_next_fd s)\<rparr>"
      and fd: "fd = fs_next_fd s"
      using run by (auto simp: vfs_create_def tick_def new_fd_def set_data_def Let_def split: fault.splits)
    have old: "q \<noteq> p \<Longrightarrow> fmlookup (fs_dir s) q \<noteq> Some (fs_next_inode s)" if "fs_ok s" for q
      using that by (auto simp: fs_ok_def)
    have "fs_ok s \<Longrightarrow> fs_ok s'" using None by (auto simp: s' fs_ok_def less_Suc_eq)
    moreover have "file_bytes s' q = file_bytes s q" if "fs_ok s" "q \<noteq> p" for q
      using old [OF that] that(2) by (cases "fmlookup (fs_dir s) q") (auto simp: s' file_bytes_def)
    ultimately show ?thesis
      by (simp add: evolves_def s' fd fd_at_def file_bytes_def write_pos_def settles_def absent_def pinned_def)
  next
    case (Some i)
    then have s': "s' = s\<lparr>fs_clock := Suc (fs_clock s), fs_data := (fs_data s)(i := []),
        fs_fds := (fs_fds s)(fs_next_fd s := \<lparr>vf_inode = i, vf_pos = 0, vf_append = False\<rparr>), fs_next_fd := Suc (fs_next_fd s)\<rparr>"
      and fd: "fd = fs_next_fd s"
      using run by (auto simp: vfs_create_def tick_def new_fd_def set_data_def Let_def split: fault.splits)
    have "file_bytes s' q = file_bytes s q" if "fs_ok s" "q \<noteq> p" for q
      using that Some unfolding fs_ok_def by (cases "fmlookup (fs_dir s) q") (auto simp: s' file_bytes_def)
    then show ?thesis using Some
      by (simp add: evolves_def s' fd fd_at_def file_bytes_def write_pos_def settles_def absent_def pinned_def) (simp add: fs_ok_def)
  qed
next
  fix e s' assume "vfs_create p s = (Inl e, s')"
  then have "s' = s\<lparr>fs_clock := Suc (fs_clock s)\<rparr> \<and> \<not> calm s"
    by (auto simp: vfs_create_def tick_def new_fd_def Let_def calm_def split: fault.splits option.splits)
  then show "fails {p} s s'" by (auto simp: fails_def intro!: evolves_quiet)
qed

lemma open_existing_runs:
  "runs (io (open_existing app p)) s
     (\<lambda>fd s'. evolves {} s s' \<and> fd_at s' fd p \<and> vf_append (fs_fds s' fd) = app)
     (\<lambda>s'. evolves {} s s' \<and> (calm s \<longrightarrow> fmlookup (fs_dir s) p = None))"
proof (rule runs_io)
  fix fd s' assume run: "open_existing app p s = (Inr fd, s')"
  obtain i where i: "fmlookup (fs_dir s) p = Some i"
    using run by (cases "fmlookup (fs_dir s) p") (auto simp: open_existing_def tick_def split: fault.splits)
  have s': "s' = s\<lparr>fs_clock := Suc (fs_clock s), fs_fds := (fs_fds s)(fs_next_fd s := \<lparr>vf_inode = i, vf_pos = 0, vf_append = app\<rparr>),
      fs_next_fd := Suc (fs_next_fd s)\<rparr>" and fd: "fd = fs_next_fd s"
    using run i by (auto simp: open_existing_def tick_def new_fd_def split: fault.splits)
  have "evolves {} s s'" unfolding s' by (rule evolves_quiet) simp_all
  moreover have "fd_at s' fd p" "vf_append (fs_fds s' fd) = app" by (simp_all add: s' fd fd_at_def i)
  ultimately show "evolves {} s s' \<and> fd_at s' fd p \<and> vf_append (fs_fds s' fd) = app" by blast
next
  fix e s' assume "open_existing app p s = (Inl e, s')"
  then have "s' = s\<lparr>fs_clock := Suc (fs_clock s)\<rparr> \<and> (calm s \<longrightarrow> fmlookup (fs_dir s) p = None)"
    by (auto simp: open_existing_def tick_def new_fd_def calm_def split: fault.splits option.splits)
  then show "evolves {} s s' \<and> (calm s \<longrightarrow> fmlookup (fs_dir s) p = None)" by (auto intro!: evolves_quiet)
qed

lemma rename_evolves:
  assumes "from \<noteq> to" and "fmlookup (fs_dir s) from = Some i"
  defines "s' \<equiv> s\<lparr>fs_dir := fmupd to i (fmdrop from (fs_dir s))\<rparr>"
  shows "evolves {from, to} s s'" and "file_bytes s' to = file_bytes s from" and "file_bytes s' from = None"
  using assms(1,2) by (auto simp: evolves_def fs_ok_def file_bytes_def s'_def settles_def absent_def pinned_def)

lemma vfs_rename_runs:
  assumes "from \<noteq> to"
  shows "runs (io (vfs_rename from to)) s
    (\<lambda>_ s'. evolves {from, to} s s' \<and> file_bytes s' to = file_bytes s from)
    (\<lambda>s'. evolves {from, to} s s' \<and> (file_bytes s' to = file_bytes s to \<or> file_bytes s' to = file_bytes s from) \<and>
       (calm s \<longrightarrow> file_bytes s from = None))"
proof -
  let ?s = "s\<lparr>fs_clock := Suc (fs_clock s)\<rparr>"
  have q: "evolves {from, to} s ?s" by (rule evolves_quiet) simp_all
  show ?thesis
  proof (cases "fmlookup (fs_dir s) from")
    case None
    have q': "effect id s = (r, s') \<Longrightarrow> s' = ?s" for r s' using effect_cases [of id s r s'] by auto
    show ?thesis
      by (rule runs_io; use q q' None in \<open>auto simp: vfs_rename_def file_bytes_def split: prod.splits sum.splits\<close>)
  next
    case (Some i)
    let ?f = "\<lambda>s. s\<lparr>fs_dir := fmupd to i (fmdrop from (fs_dir s))\<rparr>"
    have run: "vfs_rename from to s = effect ?f s" by (simp add: vfs_rename_def Some)
    have i: "fmlookup (fs_dir ?s) from = Some i" using Some by simp
    note r = rename_evolves [OF assms i]
    have e: "evolves {from, to} s (?f ?s)" by (rule evolves_then [OF q r(1)])
    show ?thesis
    proof (rule runs_io)
      fix x s' assume "vfs_rename from to s = (Inr x, s')"
      then have "s' = ?f ?s" using effect_cases [of ?f s "Inr x" s'] run by simp
      then show "evolves {from, to} s s' \<and> file_bytes s' to = file_bytes s from" using e r(2) by simp
    next
      fix x s' assume "vfs_rename from to s = (Inl x, s')"
      then have "s' = ?s \<or> s' = ?f ?s" "\<not> calm s" using effect_cases [of ?f s "Inl x" s'] run by auto
      then show "evolves {from, to} s s' \<and> (file_bytes s' to = file_bytes s to \<or> file_bytes s' to = file_bytes s from) \<and>
          (calm s \<longrightarrow> file_bytes s from = None)"
        using e r(2) q by auto
    qed
  qed
qed

lemma vfs_remove_evolves:
  assumes "vfs_remove_file p s = (r, s')"
  shows "evolves {p} s s'"
proof -
  have e: "evolves {p} x (case fmlookup (fs_dir s) p of None \<Rightarrow> x | Some i \<Rightarrow> x\<lparr>fs_dir := fmdrop p (fs_dir x)\<rparr>)" for x
    by (auto simp: evolves_def fs_ok_def file_bytes_def settles_def absent_def pinned_def split: option.splits)
  show ?thesis
  proof (cases "fmlookup (fs_dir s) p")
    case None
    then obtain r0 where "effect id s = (r0, s')" using assms by (auto simp: vfs_remove_file_def split: prod.splits sum.splits)
    then show ?thesis by (rule effect_evolves) (simp add: evolves_refl)
  next
    case (Some i)
    then have "effect (\<lambda>s. s\<lparr>fs_dir := fmdrop p (fs_dir s)\<rparr>) s = (r, s')" using assms by (simp add: vfs_remove_file_def)
    then show ?thesis by (rule effect_evolves) (use e Some in simp)
  qed
qed

section \<open>The atomic file write\<close>

lemma tmp_name_neq [simp]: "tmp_name n \<noteq> n" "n \<noteq> tmp_name n"
  by (simp_all add: tmp_name_def)

definition staged :: "fs \<Rightarrow> string \<Rightarrow> bytes \<Rightarrow> fs \<Rightarrow> bool" where
  "staged s name bytes s' \<longleftrightarrow>
     evolves {name, tmp_name name} s s' \<and> fs_ok s' \<and> file_bytes s' name = file_bytes s name \<and>
     file_bytes s' (tmp_name name) = Some bytes"

lemma write_all_fresh:
  assumes "fs_ok s" and "fd_at s fd p" and "file_bytes s p = Some []" and "write_pos s fd = 0"
  shows "runs (io (file_write_all fd buf)) s
    (\<lambda>_ s'. evolves {p} s s' \<and> file_bytes s' p = Some buf) (fails {p} s)"
proof (rule runs_io)
  have d: "fd_data s fd = []" using fd_at_bytes [OF assms(2)] assms(3) by simp
  fix x s' assume run: "file_write_all fd buf s = (Inr x, s')"
  show "evolves {p} s s' \<and> file_bytes s' p = Some buf"
    using file_write_all_evolves(1,3) [OF run assms(2)] assms(1,4) by (simp add: d write_at_def)
next
  fix e s' assume run: "file_write_all fd buf s = (Inl e, s')"
  show "fails {p} s s'" using file_write_all_evolves(1,4) [OF run assms(2)] by (auto simp: fails_def)
qed

lemma write_file_atomic_runs:
  assumes "fs_ok s"
  shows "runs (write_file_atomic name bytes) s
    (\<lambda>_ s'. evolves {name, tmp_name name} s s' \<and> file_bytes s' name = Some bytes)
    (\<lambda>s'. fails {name, tmp_name name} s s' \<and> file_bytes s' name \<in> {file_bytes s name, Some bytes})"
    (is "runs _ _ ?Q ?X")
proof -
  let ?D = "{name, tmp_name name}"
  have tmp: "evolves ?D s s' \<and> fs_ok s' \<and> file_bytes s' name = file_bytes s name"
    if "evolves {tmp_name name} s0 s'" "evolves ?D s s0" "fs_ok s0" "file_bytes s0 name = file_bytes s name" for s0 s'
    using evolves_then [OF that(2) evolves_mono [OF that(1)]] evolvesD(1,2) [OF that(1,3)] that(4) by auto
  have quiet: "staged s name bytes s'" if "evolves {} s0 s'" "staged s name bytes s0" for s0 s'
    using that evolves_then [of ?D s s0 s'] evolves_mono [of "{}" s0 s' ?D] evolvesD(1,2) [OF that(1)]
    by (auto simp: staged_def)
  have X: "?X s'" if "fails D s0 s'" "evolves ?D s s0" "evolves ?D s s'" "file_bytes s' name \<in> {file_bytes s name, Some bytes}"
    for D s0 s' using that evolvesD(5) [OF that(2)] by (auto simp: fails_def)
  note start = evolves_refl [of ?D s]
  show ?thesis
    unfolding write_file_atomic_def
  proof (rule runs_bindI [OF vfs_create_runs], goal_cases)
    case (1 fd s1)
    then have s1: "evolves ?D s s1 \<and> fs_ok s1 \<and> file_bytes s1 name = file_bytes s name" "fs_ok s1"
      using tmp [OF _ start assms] by auto
    show ?case
    proof (rule runs_bindI [OF write_all_fresh [of s1 fd "tmp_name name"]], goal_cases)
      case (5 x s2)
      then have s2: "staged s name bytes s2" using tmp [of s1 s2] s1 by (auto simp: staged_def)
      show ?case
      proof (rule runs_bindI [OF runs_steady [OF steady_sync]], goal_cases)
        case (1 x s3)
        then have s3: "staged s name bytes s3" using quiet s2 by blast
        show ?case
        proof (rule runs_bindI [OF vfs_rename_runs], goal_cases)
          case (2 x s4)
          then have s4: "evolves ?D s s4 \<and> file_bytes s4 name = Some bytes" "fs_ok s4"
            using s3 evolves_then [of ?D s s3 s4] evolvesD(1) [of ?D s3 s4] by (auto simp: staged_def insert_commute)
          have last: "evolves ?D s s5 \<and> file_bytes s5 name = Some bytes" if "evolves {} s4 s5" for s5
            using s4 evolves_then [of ?D s s4 s5] evolves_mono [OF that, of ?D] evolvesD(2) [OF that s4(2), of name] by auto
          show ?case
            by (rule runs_mono [OF runs_steady [OF steady_fsync_dir]]) (use last s4 X in \<open>auto simp: fails_def\<close>)
        next
          case (3 s4)
          then have "evolves ?D s s4" using s3 evolves_then [of ?D s s3 s4] by (auto simp: staged_def insert_commute)
          moreover have "\<not> calm s" using 3 s3 evolvesD(5) [of ?D s s3] by (auto simp: staged_def)
          ultimately show ?case using 3 s3 by (auto simp: staged_def fails_def)
        qed simp
      next
        case (2 s3)
        then show ?case using quiet [of s2 s3] s2 X [of "{}" s2 s3] by (auto simp: fails_def staged_def)
      qed
    next
      case (6 s2)
      then show ?case using tmp [of s1 s2] s1 X [of "{tmp_name name}" s1 s2] by (auto simp: fails_def)
    qed (use 1 s1 assms in auto)
  next
    case (2 s1)
    then show ?case using tmp [OF _ start assms, of s1] X [of "{tmp_name name}" s s1] start by (auto simp: fails_def)
  qed
qed

end
