(* ===== verification/OG_Disk_Log.thy ===== *)
theory OG_Disk_Log
  imports OG_Disk
begin

text \<open>
  What the log writer, the COMMIT sidecar and the MANIFEST writer leave in their files, on success and
  on every failure: an append leaves a prefix of the frame behind the old contents, an advance a
  prefix of the new slot over the old one, a MANIFEST write the old or the new document.
\<close>

section \<open>The log\<close>

definition wal_at :: "wal_writer \<Rightarrow> fs \<Rightarrow> bool" where
  "wal_at w s \<longleftrightarrow> fs_ok s \<and> fd_at s (ww_file w) wal_name \<and> vf_append (fs_fds s (ww_file w))"

lemma wal_at_evolves: "evolves D s s' \<Longrightarrow> wal_name \<notin> D \<Longrightarrow> ww_file w' = ww_file w \<Longrightarrow> wal_at w s \<Longrightarrow> wal_at w' s'"
  unfolding wal_at_def by (metis evolvesD(1) evolves_fd)

lemma poisoning_runs:
  assumes "\<And>x s'. m s = (Inr x, s') \<Longrightarrow> Q x (w, s')" and "\<And>e s'. m s = (Inl e, s') \<Longrightarrow> X (w\<lparr>ww_poisoned := True\<rparr>, s')"
  shows "runs (poisoning m) (w, s) Q X"
  using assms by (auto simp: runs_def poisoning_def split: prod.splits sum.splits)

lemma update_wal_runs: "Q () (f w, s) \<Longrightarrow> runs (update_wal f) (w, s) Q X"
  by (simp add: runs_def update_wal_def)

lemma fd_append_pos: "wal_at w s \<Longrightarrow> write_pos s (ww_file w) = length (fd_data s (ww_file w))"
  by (simp add: wal_at_def write_pos_def)

text \<open>A writer that differs in its counters only.\<close>

definition wal_like :: "wal_writer \<Rightarrow> wal_writer \<Rightarrow> bool" where
  "wal_like w w' \<longleftrightarrow> ww_file w' = ww_file w \<and> ww_policy w' = ww_policy w \<and> ww_poisoned w' = ww_poisoned w"

definition wal_broken :: "wal_writer \<Rightarrow> wal_writer \<Rightarrow> bool" where
  "wal_broken w w' \<longleftrightarrow> ww_file w' = ww_file w \<and> ww_policy w' = ww_policy w \<and> ww_poisoned w'"

lemma wal_like_refl [simp]: "wal_like w w"
  by (simp add: wal_like_def)

lemma wal_like_trans: "wal_like w w' \<Longrightarrow> wal_like w' w'' \<Longrightarrow> wal_like w w''"
  "wal_like w w' \<Longrightarrow> wal_broken w' w'' \<Longrightarrow> wal_broken w w''"
  by (auto simp: wal_like_def wal_broken_def)

lemma poisoning_steady:
  assumes "steady m"
  shows "runs (poisoning m) (w, s) (\<lambda>_ (w', s'). evolves {} s s' \<and> w' = w) (\<lambda>(w', s'). fails {} s s' \<and> wal_broken w w')"
proof (rule poisoning_runs, goal_cases)
  case (1 x s')
  then show ?case using assms by (auto simp: steady_def)
next
  case (2 e s')
  then show ?case using assms by (fastforce simp: steady_def fails_def wal_broken_def)
qed

lemma wal_fsync_now_runs:
  "runs wal_fsync_now (w, s) (\<lambda>_ (w', s'). evolves {} s s' \<and> wal_like w w' \<and> ww_since_fsync w' = 0)
     (\<lambda>(w', s'). fails {} s s' \<and> wal_broken w w')"
  using poisoning_steady [OF steady_sync, of "ww_file w" w s]
  by (auto simp: wal_fsync_now_def runs_def bindI_def update_wal_def wal_like_def split: prod.splits sum.splits)

lemma sync_by_policy_runs:
  "runs sync_by_policy (w, s) (\<lambda>b (w', s'). evolves {} s s' \<and> wal_like w w' \<and> (ww_policy w = EveryBatch \<longrightarrow> b))
     (\<lambda>(w', s'). fails {} s s' \<and> wal_broken w w')"
proof -
  have sync: "runs (bindI wal_fsync_now (\<lambda>_. returnI True)) (v, s) (\<lambda>b (w', s'). evolves {} s s' \<and> wal_like w w' \<and> (ww_policy w = EveryBatch \<longrightarrow> b))
     (\<lambda>(w', s'). fails {} s s' \<and> wal_broken w w')" if "wal_like w v" for v
  proof (rule runs_bindI [OF wal_fsync_now_runs])
    fix x :: unit and ws assume "case ws of (w', s') \<Rightarrow> evolves {} s s' \<and> wal_like v w' \<and> ww_since_fsync w' = 0"
    then show "runs (returnI True) ws (\<lambda>b (w', s'). evolves {} s s' \<and> wal_like w w' \<and> (ww_policy w = EveryBatch \<longrightarrow> b))
        (\<lambda>(w', s'). fails {} s s' \<and> wal_broken w w')"
      using wal_like_trans(1) [OF that] by (auto intro: runs_return)
  qed (use wal_like_trans(2) [OF that] in auto)
  have like: "wal_like w (w\<lparr>ww_since_fsync := k\<rparr>)" for k by (simp add: wal_like_def)
  show ?thesis
    using sync [of w] sync [OF like]
    by (cases "ww_policy w") (auto simp: sync_by_policy_def Let_def runs_def like evolves_refl split: fsync_policy.splits)
qed

definition appended :: "fs \<Rightarrow> bytes \<Rightarrow> fs \<Rightarrow> bool" where
  "appended s tail s' \<longleftrightarrow>
     evolves {wal_name} s s' \<and> file_bytes s' wal_name = map_option (\<lambda>old. old @ tail) (file_bytes s wal_name)"

lemma appended_quiet: "appended s tail s0 \<Longrightarrow> fs_ok s \<Longrightarrow> evolves {} s0 s' \<Longrightarrow> appended s tail s'"
  unfolding appended_def by (metis empty_iff empty_subsetI evolvesD(1,2) evolves_mono evolves_then)

lemma wal_append_runs:
  assumes "wal_at w s"
  shows "runs (wal_append frame) (w, s)
    (\<lambda>b (w', s'). appended s frame s' \<and> wal_like w w' \<and> (ww_policy w = EveryBatch \<longrightarrow> b))
    (\<lambda>(w', s'). (\<exists>k. appended s (take k frame) s') \<and> wal_broken w w' \<and> \<not> calm s)"
proof -
  have at: "fs_ok s" "fd_at s (ww_file w) wal_name" using assms by (simp_all add: wal_at_def)
  note pos = fd_append_pos [OF assms] and bytes = fd_at_bytes [OF at(2)]
  have put: "runs (poisoning (file_write_all (ww_file w) frame)) (w, s)
      (\<lambda>_ (w', s'). appended s frame s' \<and> w' = w) (\<lambda>(w', s'). (\<exists>k. appended s (take k frame) s') \<and> wal_broken w w' \<and> \<not> calm s)"
  proof (rule poisoning_runs, goal_cases)
    case (1 x s')
    then show ?case using file_write_all_evolves(1,3) [OF 1 at(2)] at(1) by (simp add: appended_def pos bytes)
  next
    case (2 e s')
    then show ?case using file_write_all_evolves(1,2,4) [OF 2 at(2)] at(1) by (auto simp: appended_def pos bytes wal_broken_def)
  qed
  let ?len = "\<lambda>w. w\<lparr>ww_len := ww_len w + of_nat (length frame)\<rparr>"
  have like: "wal_like w (?len w)" by (simp add: wal_like_def)
  have "runs (bindI (update_wal ?len) (\<lambda>_. sync_by_policy)) (w, s1)
      (\<lambda>b (w', s'). appended s frame s' \<and> wal_like w w' \<and> (ww_policy w = EveryBatch \<longrightarrow> b))
      (\<lambda>(w', s'). (\<exists>k. appended s (take k frame) s') \<and> wal_broken w w' \<and> \<not> calm s)" if s1: "appended s frame s1" for s1
  proof (rule runs_bindI [where ?Q1.0 = "\<lambda>_ ws. ws = (?len w, s1)" and ?X1.0 = "\<lambda>_. False"])
    show "runs (update_wal ?len) (w, s1) (\<lambda>_ ws. ws = (?len w, s1)) (\<lambda>_. False)" by (rule update_wal_runs) simp
    have whole: "\<exists>k. appended s (take k frame) s'" if "appended s frame s'" for s'
      by (rule exI [of _ "length frame"]) (use that in simp)
    have c: "calm s1 = calm s" using s1 evolvesD(5) unfolding appended_def by blast
    fix x :: unit and ws assume ws: "ws = (?len w, s1)"
    show "runs sync_by_policy ws (\<lambda>b (w', s'). appended s frame s' \<and> wal_like w w' \<and> (ww_policy w = EveryBatch \<longrightarrow> b))
      (\<lambda>(w', s'). (\<exists>k. appended s (take k frame) s') \<and> wal_broken w w' \<and> \<not> calm s)"
      unfolding ws
      by (rule runs_mono [OF sync_by_policy_runs])
        (use appended_quiet [OF s1 at(1)] wal_like_trans [OF like] whole in \<open>auto simp: fails_def c\<close>)
  qed auto
  then have "runs (bindI (poisoning (file_write_all (ww_file w) frame)) (\<lambda>_. bindI (update_wal ?len) (\<lambda>_. sync_by_policy))) (w, s)
      (\<lambda>b (w', s'). appended s frame s' \<and> wal_like w w' \<and> (ww_policy w = EveryBatch \<longrightarrow> b))
      (\<lambda>(w', s'). (\<exists>k. appended s (take k frame) s') \<and> wal_broken w w' \<and> \<not> calm s)"
    by (intro runs_bindI [OF put]) auto
  then show ?thesis by (simp add: wal_append_def runs_def)
qed

lemma wal_flush_runs:
  "runs wal_flush (w, s) (\<lambda>_ (w', s'). evolves {} s s' \<and> wal_like w w' \<and> \<not> ww_poisoned w)
     (\<lambda>(w', s'). evolves {} s s' \<and> wal_broken w w' \<and> (calm s \<longrightarrow> ww_poisoned w))"
proof (cases "ww_poisoned w")
  case True
  then show ?thesis by (simp add: runs_def wal_flush_def evolves_refl wal_broken_def)
next
  case False
  then have "wal_flush (w, s) = wal_fsync_now (w, s)" by (simp add: wal_flush_def)
  then show ?thesis using wal_fsync_now_runs [of w s] False by (auto simp: runs_def fails_def split: prod.splits sum.splits)
qed

definition emptied :: "fs \<Rightarrow> fs \<Rightarrow> bool" where
  "emptied s s' \<longleftrightarrow> evolves {wal_name} s s' \<and> file_bytes s' wal_name = Some []"

lemma emptied_quiet: "emptied s s0 \<Longrightarrow> fs_ok s \<Longrightarrow> evolves {} s0 s' \<Longrightarrow> emptied s s'"
  unfolding emptied_def by (metis empty_iff empty_subsetI evolvesD(1,2) evolves_mono evolves_then)

lemma wal_truncate_runs:
  assumes "wal_at w s"
  shows "runs wal_truncate (w, s)
    (\<lambda>_ (w', s'). emptied s s' \<and> wal_like w w')
    (\<lambda>(w', s'). wal_broken w w' \<and> (emptied s s' \<or> evolves {wal_name} s s' \<and> file_bytes s' wal_name = file_bytes s wal_name))"
    (is "runs _ _ ?Q ?X")
proof (cases "ww_poisoned w")
  case True
  then show ?thesis by (simp add: runs_def wal_truncate_def evolves_refl wal_broken_def)
next
  case False
  have at: "fs_ok s" "fd_at s (ww_file w) wal_name" using assms by (simp_all add: wal_at_def)
  have cut: "runs (poisoning (file_set_len (ww_file w) 0)) (w, s) (\<lambda>_ (w', s'). emptied s s' \<and> w' = w) ?X"
    by (rule poisoning_runs)
      (use file_set_len_evolves [where n = 0, OF _ at(2)] at(1) in \<open>auto simp: emptied_def wal_broken_def resize_def\<close>)
  let ?u = "\<lambda>w. w\<lparr>ww_len := 0, ww_since_fsync := 0\<rparr>"
  have seek: "runs (poisoning (file_seek_start (ww_file w) 0)) (w, s1) (\<lambda>_ (w', s'). emptied s s' \<and> w' = w) ?X"
    if "emptied s s1" for s1
    by (rule runs_mono [OF poisoning_steady [OF steady_seek]])
      (use emptied_quiet [OF that at(1)] that evolvesD(5) [of "{wal_name}" s s1] in \<open>auto simp: fails_def emptied_def\<close>)
  have sync: "runs (poisoning (file_sync_all (ww_file w))) (?u w, s1) ?Q ?X" if "emptied s s1" for s1
    by (rule runs_mono [OF poisoning_steady [OF steady_sync]])
      (use emptied_quiet [OF that at(1)] that evolvesD(5) [of "{wal_name}" s s1]
        in \<open>auto simp: fails_def emptied_def wal_broken_def wal_like_def\<close>)
  have rest: "runs (bindI (update_wal ?u) (\<lambda>_. poisoning (file_sync_all (ww_file w)))) (w, s1) ?Q ?X"
    if "emptied s s1" for s1
    by (rule runs_bindI [where ?Q1.0 = "\<lambda>_ ws. ws = (?u w, s1)" and ?X1.0 = "\<lambda>_. False"])
      (use sync [OF that] in \<open>auto intro: update_wal_runs\<close>)
  have "runs (bindI (poisoning (file_set_len (ww_file w) 0)) (\<lambda>_. bindI (poisoning (file_seek_start (ww_file w) 0)) (\<lambda>_.
      bindI (update_wal ?u) (\<lambda>_. poisoning (file_sync_all (ww_file w)))))) (w, s) ?Q ?X"
    by (rule runs_bindI [OF cut]) (use rest in \<open>auto intro!: runs_bindI [OF seek]\<close>)
  then show ?thesis using False by (simp add: runs_def wal_truncate_def)
qed

text \<open>Without faults the truncation of a healthy log succeeds.\<close>

lemma calm_updates [simp]:
  "calm (set_data i bs s) = calm s" "calm (set_pos fd p s) = calm s" "calm (s\<lparr>fs_disk := d\<rparr>) = calm s"
  by (simp_all add: calm_def set_data_def set_pos_def)

lemma wal_truncate_calm:
  assumes "\<not> ww_poisoned w" and "wal_truncate (w, s) = (Inl e, ws)"
  shows "\<not> calm s"
proof
  assume calm: "calm s"
  let ?fd = "ww_file w"
  have step: "\<exists>s'. poisoning (effect f) (v, s1) = (Inr (), (v, s')) \<and> calm s'" if "calm s1" "\<And>x. calm (f x) = calm x" for f v s1
    using that by (auto simp: poisoning_def effect_def tick_def calm_def)
  obtain s1 where s1: "poisoning (file_set_len ?fd 0) (w, s) = (Inr (), (w, s1))" "calm s1"
    using step [OF calm, of "\<lambda>s. set_data (vf_inode (fs_fds s ?fd)) (resize 0 (fd_data s ?fd)) s" w] by (auto simp: file_set_len_def)
  obtain s2 where s2: "poisoning (file_seek_start ?fd 0) (w, s1) = (Inr (), (w, s2))" "calm s2"
    using step [OF s1(2), of "set_pos ?fd 0" w] by (auto simp: file_seek_start_def)
  obtain s3 where s3: "poisoning (file_sync_all ?fd) (w\<lparr>ww_len := 0, ww_since_fsync := 0\<rparr>, s2) =
      (Inr (), (w\<lparr>ww_len := 0, ww_since_fsync := 0\<rparr>, s3))" "calm s3"
    using step [OF s2(2), of "\<lambda>s. s\<lparr>fs_disk := (fs_disk s)(vf_inode (fs_fds s ?fd) := fd_data s ?fd)\<rparr>" "w\<lparr>ww_len := 0, ww_since_fsync := 0\<rparr>"]
    by (auto simp: file_sync_all_def)
  show False using assms s1 s2 s3 by (simp add: wal_truncate_def bindI_def update_wal_def)
qed

section \<open>The marker\<close>

definition commit_at :: "commit_file \<Rightarrow> fs \<Rightarrow> bool" where
  "commit_at c s \<longleftrightarrow> fs_ok s \<and> fd_at s (cf_file c) commit_name \<and> \<not> vf_append (fs_fds s (cf_file c))"

lemma commit_at_evolves: "evolves D s s' \<Longrightarrow> commit_name \<notin> D \<Longrightarrow> cf_file c' = cf_file c \<Longrightarrow> commit_at c s \<Longrightarrow> commit_at c' s'"
  unfolding commit_at_def by (metis evolvesD(1) evolves_fd)

definition slot_written :: "fs \<Rightarrow> commit_file \<Rightarrow> bytes \<Rightarrow> fs \<Rightarrow> bool" where
  "slot_written s c bytes s' \<longleftrightarrow>
     evolves {commit_name} s s' \<and>
     file_bytes s' commit_name = map_option (\<lambda>old. write_at old (cf_next_slot c * slot_size) bytes) (file_bytes s commit_name)"

lemma slot_written_quiet: "slot_written s c bytes s0 \<Longrightarrow> fs_ok s \<Longrightarrow> evolves {} s0 s' \<Longrightarrow> slot_written s c bytes s'"
  unfolding slot_written_def by (metis empty_iff empty_subsetI evolvesD(1,2) evolves_mono evolves_then)

lemma on_fs_runs:
  assumes "\<And>x s'. m s = (Inr x, s') \<Longrightarrow> Q x (w, s')" and "\<And>e s'. m s = (Inl e, s') \<Longrightarrow> X (w, s')"
  shows "runs (on_fs m) (w, s) Q X"
  using assms by (auto simp: runs_def on_fs_def from_io_def split: prod.splits sum.splits)

lemma on_fs_steady:
  assumes "steady m"
  shows "runs (on_fs m) (w, s) (\<lambda>_ (w', s'). evolves {} s s' \<and> w' = w) (\<lambda>(w', s'). fails {} s s' \<and> w' = w)"
proof (rule on_fs_runs, goal_cases)
  case (1 x s')
  then show ?case using assms by (auto simp: steady_def)
next
  case (2 e s')
  then show ?case using assms by (fastforce simp: steady_def fails_def)
qed

lemma seek_pos: "file_seek_start fd p s = (Inr x, s') \<Longrightarrow> \<not> vf_append (fs_fds s fd) \<Longrightarrow> write_pos s' fd = p \<and> fd_data s' fd = fd_data s fd"
  unfolding file_seek_start_def using effect_cases [of "set_pos fd p" s "Inr x" s']
  by (auto simp: write_pos_def set_pos_def fd_data_def)

definition advanced :: "commit_file \<Rightarrow> commit_file" where
  "advanced c = c\<lparr>cf_next_slot := 1 - cf_next_slot c, cf_next_gen := cf_next_gen c + 1\<rparr>"

lemma commit_advance_runs:
  assumes "commit_at c s"
  shows "runs (commit_advance crc32 epoch seq) (c, s)
    (\<lambda>_ (c', s'). slot_written s c (encode_slot crc32 (next_record epoch seq c)) s' \<and> c' = advanced c)
    (\<lambda>(c', s'). \<not> calm s \<and> c' = c \<and>
       (\<exists>k. slot_written s c (take k (encode_slot crc32 (next_record epoch seq c))) s'))"
    (is "runs _ _ ?Q ?X")
proof -
  let ?slot = "encode_slot crc32 (next_record epoch seq c)"
  have at: "fs_ok s" "fd_at s (cf_file c) commit_name" "\<not> vf_append (fs_fds s (cf_file c))"
    using assms by (simp_all add: commit_at_def)
  have none: "slot_written s c (take 0 ?slot) s'" if "evolves {} s s'" for s'
    using that evolves_mono [OF that, of "{commit_name}"] evolvesD(2) [OF that at(1), of commit_name]
    by (cases "file_bytes s commit_name") (auto simp: slot_written_def write_at_def)
  have whole: "\<exists>k. slot_written s c (take k ?slot) s'" if "slot_written s c ?slot s'" for s'
    by (rule exI [of _ "length ?slot"]) (use that in simp)
  have calm: "calm s' = calm s" if "slot_written s c bs s'" for bs s' using that evolvesD(5) unfolding slot_written_def by blast
  define I where "I = (\<lambda>s1. evolves {} s s1 \<and> write_pos s1 (cf_file c) = cf_next_slot c * slot_size \<and>
      fd_data s1 (cf_file c) = fd_data s (cf_file c))"
  have seek: "runs (on_fs (file_seek_start (cf_file c) (cf_next_slot c * slot_size))) (c, s)
      (\<lambda>_ (c', s1). I s1 \<and> c' = c) ?X"
  proof (rule on_fs_runs, goal_cases)
    case (1 x s1)
    then show ?case using steady_seek [of "cf_file c" "cf_next_slot c * slot_size"] seek_pos [OF 1 at(3)]
      by (auto simp: steady_def I_def)
  next
    case (2 e s1)
    have "evolves {} s s1" "\<not> calm s" using steady_seek [unfolded steady_def, rule_format, OF 2] by auto
    then show ?case using none by blast
  qed
  have put: "runs (on_fs (file_write_all (cf_file c) ?slot)) (c, s1) (\<lambda>_ (c', s2). slot_written s c ?slot s2 \<and> c' = c) ?X"
    if "I s1" for s1
  proof -
    have i: "evolves {} s s1" "write_pos s1 (cf_file c) = cf_next_slot c * slot_size" "fd_data s1 (cf_file c) = fd_data s (cf_file c)"
      using that by (auto simp: I_def)
    have at1: "fs_ok s1" "fd_at s1 (cf_file c) commit_name"
      using evolvesD(1) [OF i(1) at(1)] evolves_fd(1) [OF i(1) at(1,2)] by simp_all
    have ev: "evolves {commit_name} s s2" if "evolves {commit_name} s1 s2" for s2
      using evolves_then [OF evolves_mono [OF i(1)] that] by simp
    note b = fd_at_bytes [OF at(2)]
    show ?thesis
    proof (rule on_fs_runs, goal_cases)
      case (1 x s2)
      then show ?case using file_write_all_evolves(1,3) [OF 1 at1(2)] at1(1) ev by (simp add: slot_written_def b i)
    next
      case (2 e s2)
      then show ?case using file_write_all_evolves(1,2,4) [OF 2 at1(2)] at1(1) ev evolvesD(5) [OF i(1)]
        by (auto simp: slot_written_def b i)
    qed
  qed
  have sync: "runs (on_fs (file_sync_all (cf_file c))) (c, s2) (\<lambda>_ (c', s3). slot_written s c ?slot s3 \<and> c' = c) ?X"
    if "slot_written s c ?slot s2" for s2
    by (rule runs_mono [OF on_fs_steady [OF steady_sync]])
      (use slot_written_quiet [OF that at(1)] whole calm [OF that] in \<open>auto simp: fails_def\<close>)
  have step: "runs (\<lambda>(c, s). (Inr (), (c\<lparr>cf_next_slot := 1 - cf_next_slot c, cf_next_gen := cf_next_gen c + 1\<rparr>, s))) (c, s3) ?Q ?X"
    if "slot_written s c ?slot s3" for s3 using that by (simp add: runs_def advanced_def)
  have "runs (bindI (on_fs (file_seek_start (cf_file c) (cf_next_slot c * slot_size))) (\<lambda>_.
      bindI (on_fs (file_write_all (cf_file c) ?slot)) (\<lambda>_.
      bindI (on_fs (file_sync_all (cf_file c))) (\<lambda>_ (c, s).
        (Inr (), (c\<lparr>cf_next_slot := 1 - cf_next_slot c, cf_next_gen := cf_next_gen c + 1\<rparr>, s)))))) (c, s) ?Q ?X"
  proof (rule runs_bindI [OF seek], goal_cases)
    case (1 x cs)
    obtain s1 where cs: "cs = (c, s1)" "I s1" using 1 by (cases cs) auto
    show ?case unfolding cs(1)
    proof (rule runs_bindI [OF put [OF cs(2)]], goal_cases)
      case (1 x cs)
      obtain s2 where cs: "cs = (c, s2)" "slot_written s c ?slot s2" using 1 by (cases cs) auto
      show ?case unfolding cs(1)
      proof (rule runs_bindI [OF sync [OF cs(2)]], goal_cases)
        case (1 x cs)
        then show ?case using step by (cases cs) auto
      qed
    qed
  qed
  then show ?thesis by (simp add: commit_advance_def runs_def next_record_def)
qed

section \<open>The MANIFEST\<close>

lemma save_manifest_runs:
  assumes "fs_ok s"
  shows "runs (save_manifest pl m) s
    (\<lambda>_ s'. evolves {manifest_name, tmp_name manifest_name} s s' \<and>
       (\<exists>b. x_json_to pl (stamp_manifest (x_crc pl) m) = Some b \<and> file_bytes s' manifest_name = Some b))
    (\<lambda>s'. evolves {manifest_name, tmp_name manifest_name} s s' \<and>
       (calm s \<longrightarrow> x_json_to pl (stamp_manifest (x_crc pl) m) = None) \<and>
       (file_bytes s' manifest_name = file_bytes s manifest_name \<or>
        (\<exists>b. x_json_to pl (stamp_manifest (x_crc pl) m) = Some b \<and> file_bytes s' manifest_name = Some b)))"
proof (cases "x_json_to pl (stamp_manifest (x_crc pl) m)")
  case None
  then show ?thesis by (simp add: runs_def save_manifest_def write_manifest_atomic_def evolves_refl)
next
  case (Some b)
  then have "save_manifest pl m = write_file_atomic manifest_name b"
    by (simp add: save_manifest_def write_manifest_atomic_def fun_eq_iff)
  then show ?thesis using runs_mono [OF write_file_atomic_runs [OF assms, of manifest_name b]] Some by (auto simp: fails_def)
qed

end
