(* ===== verification/OG_Snapshot_Files.thy ===== *)
theory OG_Snapshot_Files
  imports OG_Disk
begin

text \<open>
  The snapshot file names and the sweep of the directory: names determine the sequence number and the
  compaction id, so a compaction never overwrites the live snapshot, and the sweep removes stale
  snapshots and temporary files only.
\<close>

section \<open>Names\<close>

definition digits_value :: "string \<Rightarrow> nat" where
  "digits_value ds = foldl (\<lambda>v c. 10 * v + (of_char c - 48)) 0 ds"

lemma digits_value_snoc [simp]: "digits_value (ds @ [c]) = 10 * digits_value ds + (of_char c - 48)"
  by (simp add: digits_value_def)

lemma digit_char: "d < 10 \<Longrightarrow> of_char (char_of (48 + d) :: char) = 48 + (d :: nat)"
  by (simp only: of_char_of) simp

lemma digits_value_decimal: "digits_value (decimal n) = n"
proof (induction n rule: decimal.induct)
  case (1 n)
  show ?case
  proof (cases "n < 10")
    case True
    then show ?thesis using digits_value_snoc [of "[]"] digit_char [of n] by (simp add: decimal.simps digits_value_def)
  next
    case False
    then have "decimal n = decimal (n div 10) @ [char_of (48 + n mod 10)]" by (subst decimal.simps) simp
    then show ?thesis using 1 False digit_char [of "n mod 10"] by simp
  qed
qed

lemma digits_value_zeros: "digits_value (replicate k (CHR ''0'') @ ds) = digits_value ds"
proof -
  have "foldl (\<lambda>v c. 10 * v + (of_char c - 48)) (0::nat) (replicate k (CHR ''0'')) = 0" by (induction k) simp_all
  then show ?thesis by (simp add: digits_value_def)
qed

lemma digits_value_padded [simp]: "digits_value (padded width n) = n"
  by (simp add: padded_def digits_value_zeros digits_value_decimal)

lemma decimal_length: "n < 10 ^ k \<Longrightarrow> 0 < k \<Longrightarrow> length (decimal n) \<le> k"
proof (induction k arbitrary: n)
  case (Suc k)
  show ?case
  proof (cases "n < 10")
    case True
    then show ?thesis by (simp add: decimal.simps)
  next
    case False
    then have d: "decimal n = decimal (n div 10) @ [char_of (48 + n mod 10)]" by (subst decimal.simps) simp
    have "n div 10 < 10 ^ k" using Suc.prems(1) by (simp add: div_less_iff_less_mult mult.commute)
    moreover have "0 < k" using False Suc.prems(1) by (cases k) auto
    ultimately show ?thesis using Suc.IH unfolding d by fastforce
  qed
qed simp

lemma padded_length: "n < 10 ^ k \<Longrightarrow> 0 < k \<Longrightarrow> length (padded k n) = k"
  using decimal_length [of n k] by (simp add: padded_def)

lemma snapshot_name_iff: "snapshot_v2_name seq cid = snapshot_v2_name seq' cid' \<longleftrightarrow> seq = seq' \<and> cid = cid'"
proof
  have len: "length (padded 20 (unat q)) = 20" for q :: u64
  proof (rule padded_length)
    have "unat q < 2 ^ LENGTH(64)" by (rule unsigned_less)
    then show "unat q < 10 ^ 20" by simp
  qed simp
  assume "snapshot_v2_name seq cid = snapshot_v2_name seq' cid'"
  then have eq: "padded 20 (unat seq) @ ''-'' @ padded 10 (unat cid) @ ''.og'' = padded 20 (unat seq') @ ''-'' @ padded 10 (unat cid') @ ''.og''"
    by (simp add: snapshot_v2_name_def)
  then have "padded 20 (unat seq) = padded 20 (unat seq')" "padded 10 (unat cid) = padded 10 (unat cid')"
    using len by (simp_all add: append_eq_append_conv)
  then have "unat seq = unat seq'" "unat cid = unat cid'" using digits_value_padded by metis+
  then show "seq = seq' \<and> cid = cid'" by (simp add: word_unat_eq_iff)
qed simp

lemma snapshot_name_orphan: "is_orphan (snapshot_v2_name seq cid)"
  by (auto simp: is_orphan_def snapshot_v2_name_def suffix_def)

lemma snapshot_name_fixed:
  "snapshot_v2_name seq cid \<noteq> wal_name" "snapshot_v2_name seq cid \<noteq> commit_name" "snapshot_v2_name seq cid \<noteq> manifest_name"
  "snapshot_v2_name seq cid \<noteq> tmp_name manifest_name" "snapshot_v2_name seq cid \<noteq> ''LOCK''"
  by (simp_all add: snapshot_v2_name_def wal_name_def commit_name_def manifest_name_def tmp_name_def)

lemma snapshot_tmp_fixed:
  "tmp_name (snapshot_v2_name seq cid) \<noteq> wal_name" "tmp_name (snapshot_v2_name seq cid) \<noteq> commit_name"
  "tmp_name (snapshot_v2_name seq cid) \<noteq> manifest_name" "tmp_name (snapshot_v2_name seq cid) \<noteq> ''LOCK''"
  by (simp_all add: snapshot_v2_name_def wal_name_def commit_name_def manifest_name_def tmp_name_def)

lemma snapshot_tmp_other: "tmp_name (snapshot_v2_name seq cid) \<noteq> snapshot_v2_name seq' cid'"
proof
  assume "tmp_name (snapshot_v2_name seq cid) = snapshot_v2_name seq' cid'"
  then have "last (tmp_name (snapshot_v2_name seq cid)) = last (snapshot_v2_name seq' cid')" by simp
  then show False by (simp add: tmp_name_def snapshot_v2_name_def)
qed

section \<open>The sweep\<close>

lemma orphan_reserved [simp]:
  "\<not> is_orphan wal_name" "\<not> is_orphan commit_name" "\<not> is_orphan manifest_name" "\<not> is_orphan ''LOCK''"
  by (simp_all add: is_orphan_def wal_name_def commit_name_def manifest_name_def)

lemma remove_snapshot_evolves: "evolves {p} s (remove_snapshot_file p s)"
  unfolding remove_snapshot_file_def by (rule vfs_remove_evolves) (rule prod.collapse [symmetric])

lemma gc_evolves: "evolves {p. is_orphan p \<and> p \<noteq> keep} s (gc_orphan_snapshots ho keep s)"
proof -
  let ?D = "{p. is_orphan p \<and> p \<noteq> keep}"
  have sweep: "evolves ?D s (foldl (\<lambda>s name. if name \<noteq> keep \<and> is_orphan name then remove_snapshot_file name s else s) s names)" for s names
  proof (induction names arbitrary: s)
    case (Cons n names)
    have step: "evolves ?D s (if n \<noteq> keep \<and> is_orphan n then remove_snapshot_file n s else s)"
      using evolves_mono [OF remove_snapshot_evolves [of n s], of ?D] by (simp add: evolves_refl)
    show ?case unfolding foldl_Cons by (rule evolves_then [OF step Cons.IH])
  qed (simp add: evolves_refl)
  obtain r s1 where rd: "fs_read_dir ho s = (r, s1)" by fastforce
  have "evolves {} s s1" using steady_query rd unfolding fs_read_dir_def steady_def by blast
  then have e: "evolves ?D s s1" by (rule evolves_mono) simp
  then have "evolves ?D s (case r of Inl e \<Rightarrow> s1
      | Inr names \<Rightarrow> foldl (\<lambda>s name. if name \<noteq> keep \<and> is_orphan name then remove_snapshot_file name s else s) s1 names)"
    using evolves_then [OF e sweep] by (simp split: sum.split)
  moreover have "gc_orphan_snapshots ho keep s = (case r of Inl e \<Rightarrow> s1
      | Inr names \<Rightarrow> foldl (\<lambda>s name. if name \<noteq> keep \<and> is_orphan name then remove_snapshot_file name s else s) s1 names)"
    by (simp add: gc_orphan_snapshots_def rd split: sum.splits)
  ultimately show ?thesis by simp
qed

text \<open>A directory without leftovers: no snapshot other than \<open>keep\<close> and no temporary file. Without faults the sweep
  leaves such a directory.\<close>

definition tidy :: "string \<Rightarrow> fs \<Rightarrow> bool" where
  "tidy keep s \<longleftrightarrow> (\<forall>p. is_orphan p \<and> file_bytes s p \<noteq> None \<longrightarrow> p = keep)"

lemma remove_snapshot_calm:
  assumes "calm s"
  shows "fmlookup (fs_dir (remove_snapshot_file p s)) q = (if q = p then None else fmlookup (fs_dir s) q)"
  using assms by (auto simp: remove_snapshot_file_def vfs_remove_file_def effect_def tick_calm split: option.splits)

lemma gc_tidy:
  assumes "calm s" and "hash_order ho"
  shows "tidy keep (gc_orphan_snapshots ho keep s)"
proof -
  let ?f = "\<lambda>s name. if name \<noteq> keep \<and> is_orphan name then remove_snapshot_file name s else s"
  have sweep: "fmlookup (fs_dir (foldl ?f s names)) q =
      (if q \<in> set names \<and> is_orphan q \<and> q \<noteq> keep then None else fmlookup (fs_dir s) q)" if "calm s" for s names q
    using that
  proof (induction names arbitrary: s)
    case (Cons n names)
    have "calm (?f s n)" using Cons.prems evolvesD(5) [OF remove_snapshot_evolves] by simp
    from Cons.IH [OF this] show ?case using remove_snapshot_calm [OF Cons.prems, of n q] by auto
  qed simp
  let ?s = "s\<lparr>fs_clock := Suc (fs_clock s)\<rparr>"
  have gc: "gc_orphan_snapshots ho keep s = foldl ?f ?s (fm_keys ho (fs_dir ?s))"
    using assms(1) by (simp add: gc_orphan_snapshots_def fs_read_dir_def query_def tick_calm)
  have "calm ?s" using assms(1) by (simp add: calm_def)
  from sweep [OF this, of "fm_keys ho (fs_dir ?s)"] show ?thesis
    using set_fm_keys [OF assms(2), of "fs_dir s"] unfolding gc tidy_def file_bytes_def by (auto simp: fmdom_notI split: if_splits)
qed

end
