(* ===== verification/OG_Recovery.thy ===== *)
theory OG_Recovery
  imports OG_Disk_Log OG_Snapshot_Files
begin

text \<open>
  Recovery as a function of what the directory holds. An \<open>image\<close> names the meaning of the four files:
  the manifest, the graph of the snapshot it points to, the records of the log and the live COMMIT
  record. \<open>on_disk\<close> relates it to the file contents, torn log tail included, and \<open>open_calm\<close> says
  what \<open>open\<close> returns for it when no fault occurs, in every mode and under every validation.
\<close>

section \<open>Replaying consecutive records\<close>

definition consecutive :: "nat \<Rightarrow> wal_record list \<Rightarrow> bool" where
  "consecutive q rs \<longleftrightarrow> map (\<lambda>r. unat (wr_seq r)) rs = [Suc q..<Suc (q + length rs)]"

lemma consecutive_Nil [simp]: "consecutive q []"
  by (simp add: consecutive_def)

lemma consecutive_Cons [simp]: "consecutive q (r # rs) \<longleftrightarrow> unat (wr_seq r) = Suc q \<and> consecutive (Suc q) rs"
proof -
  have "[Suc q..<Suc (q + length (r # rs))] = Suc q # [Suc (Suc q)..<Suc (Suc q + length rs)]"
    by (subst upt_rec) simp
  then show ?thesis unfolding consecutive_def by simp
qed

lemma consecutive_snoc: "consecutive q (rs @ [r]) \<longleftrightarrow> consecutive q rs \<and> unat (wr_seq r) = Suc (q + length rs)"
  by (induction rs arbitrary: q) auto

lemma consecutive_mem: "consecutive q rs \<Longrightarrow> r \<in> set rs \<Longrightarrow> q < unat (wr_seq r)"
proof (induction rs arbitrary: q)
  case (Cons a rs)
  then have "r = a \<or> Suc q < unat (wr_seq r)" using Cons.IH [of "Suc q"] by simp blast
  then show ?case using Cons.prems(1) by auto
qed simp

definition replay_all :: "accessor \<Rightarrow> op list list \<Rightarrow> graph_delta \<Rightarrow> graph_delta" where
  "replay_all A batches d = fold (delta_replay A) batches d"

lemma replay_all_simps [simp]:
  "replay_all A [] d = d" "replay_all A (b # bs) d = replay_all A bs (delta_replay A b d)"
  "replay_all A (bs @ [b]) d = delta_replay A b (replay_all A bs d)"
  by (simp_all add: replay_all_def)

lemma replay_all_same:
  "accessor_ok A N E \<Longrightarrow> accessor_ok A' N E \<Longrightarrow> replay_all A bs d = replay_all A' bs d"
proof -
  assume "accessor_ok A N E" and "accessor_ok A' N E"
  then have "delta_replay A = delta_replay A'" by (intro ext) (rule delta_replay_same)
  then show ?thesis by (simp add: replay_all_def)
qed

definition frames_length :: "'g platform \<Rightarrow> wal_record list \<Rightarrow> nat" where
  "frames_length pl rs = (case frames (x_crc pl) (x_wal_to pl) rs of Inr bs \<Rightarrow> length bs | Inl _ \<Rightarrow> 0)"

lemma replay_uncommitted:
  "(\<And>r. r \<in> set rs \<Longrightarrow> commit_hw < wr_seq r) \<Longrightarrow>
   replay_records pl A commit_hw snap rs s = Inr (s\<lparr>rp_uncommitted := rp_uncommitted s + length rs\<rparr>)"
  by (induction rs arbitrary: s) auto

text \<open>The state of the loop when the records up to \<open>q\<close> are behind it.\<close>

definition replay_at :: "nat \<Rightarrow> nat \<Rightarrow> replay_state \<Rightarrow> bool" where
  "replay_at snap q s \<longleftrightarrow>
     unat (rp_last_applied s) = max snap q \<and> rp_expected_next s = rp_last_applied s + 1"

lemma replay_records_consecutive:
  fixes commit_hw snap :: u64
  assumes "consecutive q rs" and "frames (x_crc pl) (x_wal_to pl) rs = Inr bs"
    and "q \<le> unat commit_hw" and "unat commit_hw \<le> q + length rs" and "unat snap \<le> unat commit_hw" and "replay_at (unat snap) q s"
  shows "\<exists>s'. replay_records pl A commit_hw snap rs s = Inr s' \<and>
    rp_delta s' = replay_all A (map wr_ops (drop (unat snap - q) (take (unat commit_hw - q) rs))) (rp_delta s) \<and>
    rp_last_applied s' = commit_hw \<and>
    rp_committed_end s' = rp_committed_end s + frames_length pl (take (unat commit_hw - q) rs) \<and>
    rp_uncommitted s' = rp_uncommitted s + (length rs - (unat commit_hw - q))"
  using assms
proof (induction rs arbitrary: q s bs)
  case Nil
  then have "unat (rp_last_applied s) = unat commit_hw" by (simp add: replay_at_def)
  then show ?case by (simp add: frames_length_def word_unat_eq_iff)
next
  case (Cons r rs)
  let ?H = "unat commit_hw" and ?S = "unat snap"
  have seq: "unat (wr_seq r) = Suc q" and cons: "consecutive (Suc q) rs" using Cons.prems(1) by simp_all
  obtain f bs' where f: "encode_frame (x_crc pl) (x_wal_to pl) r = Inr f" and fs: "frames (x_crc pl) (x_wal_to pl) rs = Inr bs'"
    using Cons.prems(2) by (auto simp: bindE_Inr_iff)
  have fl: "frames_length pl (r # ts) = length f + frames_length pl ts"
    if "frames (x_crc pl) (x_wal_to pl) ts = Inr cs" for ts cs using f that by (simp add: frames_length_def bindE_def)
  show ?case
  proof (cases "q = ?H")
    case True
    have over: "commit_hw < wr_seq x" if "x \<in> set (r # rs)" for x
      using consecutive_mem [OF Cons.prems(1) that] True by (simp add: word_less_nat_alt)
    have last: "rp_last_applied s = commit_hw" using Cons.prems(5,6) True by (simp add: replay_at_def word_unat_eq_iff)
    have run: "replay_records pl A commit_hw snap (r # rs) s = Inr (s\<lparr>rp_uncommitted := rp_uncommitted s + length (r # rs)\<rparr>)"
      by (rule replay_uncommitted) (rule over)
    show ?thesis unfolding run using True last by (simp add: frames_length_def)
  next
    case False
    then have q: "Suc q \<le> ?H" using Cons.prems(3) by simp
    then have le: "\<not> commit_hw < wr_seq r" using seq by (simp add: word_less_nat_alt)
    have take: "take (?H - q) (r # rs) = r # take (?H - Suc q) rs" using q by (simp add: take_Cons' Suc_diff_le)
    obtain cs where cs: "frames (x_crc pl) (x_wal_to pl) (take (?H - Suc q) rs) = Inr cs"
      using frames_take [OF fs] by blast
    show ?thesis
    proof (cases "Suc q \<le> ?S")
      case True
      let ?s = "s\<lparr>rp_committed_end := rp_committed_end s + length f\<rparr>"
      have "wr_seq r \<le> snap" using True seq by (simp add: word_le_nat_alt)
      then have run: "replay_records pl A commit_hw snap (r # rs) s = replay_records pl A commit_hw snap rs ?s"
        using le f by (simp add: bindE_def Let_def)
      have at: "replay_at ?S (Suc q) ?s" using Cons.prems(6) True by (simp add: replay_at_def)
      have drop: "drop (?S - q) (take (?H - q) (r # rs)) = drop (?S - Suc q) (take (?H - Suc q) rs)"
        unfolding take using True by (simp add: drop_Cons' Suc_diff_le)
      show ?thesis
        using Cons.IH [OF cons fs q _ Cons.prems(5) at] Cons.prems(4) q unfolding run drop unfolding take fl [OF cs] by (simp add: add.assoc)
    next
      case False
      let ?s = "s\<lparr>rp_committed_end := rp_committed_end s + length f, rp_delta := delta_replay A (wr_ops r) (rp_delta s),
        rp_last_applied := wr_seq r, rp_expected_next := rp_expected_next s + 1\<rparr>"
      have last: "unat (rp_last_applied s) = q" using Cons.prems(6) False by (simp add: replay_at_def)
      have "of_nat (unat (wr_seq r)) = wr_seq r" "of_nat (unat (rp_last_applied s)) = rp_last_applied s" by simp_all
      then have "wr_seq r = of_nat (Suc q)" "rp_last_applied s = of_nat q" unfolding seq last by simp_all
      then have expd: "rp_expected_next s = wr_seq r" using Cons.prems(6) by (simp add: replay_at_def)
      have "\<not> wr_seq r \<le> snap" using False seq by (simp add: word_le_nat_alt)
      then have run: "replay_records pl A commit_hw snap (r # rs) s = replay_records pl A commit_hw snap rs ?s"
        using le f expd by (simp add: bindE_def Let_def)
      have at: "replay_at ?S (Suc q) ?s" using False seq expd by (simp add: replay_at_def)
      have drop: "drop (?S - q) (take (?H - q) (r # rs)) = r # drop (?S - Suc q) (take (?H - Suc q) rs)"
        unfolding take using False by simp
      show ?thesis
        using Cons.IH [OF cons fs q _ Cons.prems(5) at] Cons.prems(4) q unfolding run drop unfolding take fl [OF cs] by (simp add: add.assoc)
    qed
  qed
qed

section \<open>Images\<close>

record image =
  im_manifest :: manifest
  im_nodes :: "string \<Rightarrow> node_view option"
  im_edges :: "graph_edge multiset"
  im_base :: nat
  im_records :: "wal_record list"
  im_commit :: commit_record

definition im_snap :: "image \<Rightarrow> nat" where "im_snap im = unat (mf_snapshot_seq (im_manifest im))"

definition im_hw :: "image \<Rightarrow> nat" where
  "im_hw im = max (unat (cr_committed_seq (im_commit im))) (im_snap im)"

text \<open>The batches between the snapshot and the durable high-water mark.\<close>

definition im_batches :: "image \<Rightarrow> op list list" where
  "im_batches im = map wr_ops (drop (im_snap im - im_base im) (take (im_hw im - im_base im) (im_records im)))"

definition reserved :: "string set" where
  "reserved = {wal_name, commit_name, manifest_name, tmp_name manifest_name, ''LOCK''}"

definition image_ok :: "image \<Rightarrow> bool" where
  "image_ok im \<longleftrightarrow>
     mf_format_version (im_manifest im) = 3 \<and> mf_snapshot_file (im_manifest im) = snapshot_v2_name (mf_snapshot_seq (im_manifest im)) (mf_compaction_id (im_manifest im)) \<and>
     consecutive (im_base im) (im_records im) \<and> im_base im \<le> im_snap im \<and>
     im_hw im \<le> im_base im + length (im_records im) \<and> unat (mf_high_seq (im_manifest im)) \<le> im_hw im"

lemma snapshot_name_free [simp]: "snapshot_v2_name seq cid \<notin> reserved" "tmp_name (snapshot_v2_name seq cid) \<notin> reserved"
  using snapshot_name_fixed [of seq cid] snapshot_tmp_fixed [of seq cid] by (auto simp: reserved_def tmp_name_def)

lemma image_ok_file: "image_ok im \<Longrightarrow> mf_snapshot_file (im_manifest im) \<notin> reserved"
  by (simp add: image_ok_def)

text \<open>Two images from which recovery rebuilds the same store.\<close>

definition same_store :: "image \<Rightarrow> image \<Rightarrow> bool" where
  "same_store im im' \<longleftrightarrow>
     im_nodes im' = im_nodes im \<and> im_edges im' = im_edges im \<and> im_snap im' = im_snap im \<and>
     im_hw im' = im_hw im \<and> im_batches im' = im_batches im"

lemma same_store_refl [simp]: "same_store im im"
  by (simp add: same_store_def)

lemma same_store_trans: "same_store a b \<Longrightarrow> same_store b c \<Longrightarrow> same_store a c"
  by (simp add: same_store_def)

text \<open>Snapshot bytes that open to a given graph in every mode and under every validation.\<close>

definition base_bytes :: "'g platform \<Rightarrow> bytes \<Rightarrow> u32 \<Rightarrow> (string \<Rightarrow> node_view option) \<Rightarrow> graph_edge multiset \<Rightarrow> bool" where
  "base_bytes pl sb crc N E \<longleftrightarrow>
     (\<forall>mode validate prefault. \<exists>b.
        open_snapshot (x_crc pl) (x_csr_access pl) (x_csr_unchecked pl) (x_graph pl) (Inr sb) mode validate prefault crc = Inr b \<and>
        base_ok (x_graph pl) b \<and> base_nodes (x_graph pl) b = N \<and> base_edges (x_graph pl) b = E)"

definition log_bytes :: "'g platform \<Rightarrow> wal_record list \<Rightarrow> bytes \<Rightarrow> bool" where
  "log_bytes pl rs bs \<longleftrightarrow>
     (\<exists>wb tail. bs = wb @ tail \<and> frames (x_crc pl) (x_wal_to pl) rs = Inr wb \<and> (tail = [] \<or> not_a_frame (x_crc pl) tail))"

definition commit_live :: "(bytes \<Rightarrow> u32) \<Rightarrow> bytes \<Rightarrow> commit_record \<Rightarrow> nat \<Rightarrow> bool" where
  "commit_live crc32 cb r i \<longleftrightarrow> pick_slot crc32 cb = Some (r, i) \<and> length cb \<le> 2 * slot_size"

definition on_disk :: "'g platform \<Rightarrow> image \<Rightarrow> fs \<Rightarrow> bool" where
  "on_disk pl im s \<longleftrightarrow>
     fs_ok s \<and>
     (\<exists>b. file_bytes s manifest_name = Some b \<and> check_manifest (x_crc pl) (x_json_of pl) b = Inr (im_manifest im)) \<and>
     (\<exists>sb. file_bytes s (mf_snapshot_file (im_manifest im)) = Some sb \<and>
        base_bytes pl sb (mf_snapshot_crc32 (im_manifest im)) (im_nodes im) (im_edges im)) \<and>
     (\<exists>lb. file_bytes s wal_name = Some lb \<and> log_bytes pl (im_records im) lb) \<and>
     (\<exists>cb i. file_bytes s commit_name = Some cb \<and> commit_live (x_crc pl) cb (im_commit im) i)"

text \<open>The names an image reads.\<close>

definition im_files :: "image \<Rightarrow> string set" where
  "im_files im = {manifest_name, mf_snapshot_file (im_manifest im), wal_name, commit_name}"

lemma on_disk_evolves:
  assumes "on_disk pl im s" and "evolves D s s'" and "D \<inter> im_files im = {}"
  shows "on_disk pl im s'"
proof -
  have ok: "fs_ok s" using assms(1) by (simp add: on_disk_def)
  have "file_bytes s' p = file_bytes s p" if "p \<in> im_files im" for p
    using evolvesD(2) [OF assms(2) ok] assms(3) that by blast
  then show ?thesis using assms(1) evolvesD(1) [OF assms(2) ok] by (simp add: on_disk_def im_files_def)
qed

lemma reserved_distinct [simp]:
  "manifest_name \<noteq> wal_name" "wal_name \<noteq> manifest_name" "manifest_name \<noteq> commit_name" "commit_name \<noteq> manifest_name"
  "wal_name \<noteq> commit_name" "commit_name \<noteq> wal_name" "tmp_name manifest_name \<noteq> wal_name" "tmp_name manifest_name \<noteq> commit_name"
  "wal_name \<noteq> tmp_name manifest_name" "commit_name \<noteq> tmp_name manifest_name"
  "wal_name \<noteq> ''LOCK''" "commit_name \<noteq> ''LOCK''" "manifest_name \<noteq> ''LOCK''" "tmp_name manifest_name \<noteq> ''LOCK''"
  by (simp_all add: manifest_name_def wal_name_def commit_name_def tmp_name_def)

text \<open>Replacing one file.\<close>

lemma on_disk_log:
  assumes "on_disk pl im s" and "image_ok im" and "evolves {wal_name} s s'"
    and "file_bytes s' wal_name = Some lb" and "log_bytes pl rs lb"
  shows "on_disk pl (im\<lparr>im_records := rs\<rparr>) s'"
proof -
  have ok: "fs_ok s" using assms(1) by (simp add: on_disk_def)
  have "file_bytes s' p = file_bytes s p" if "p \<noteq> wal_name" for p
    using evolvesD(2) [OF assms(3) ok] that by blast
  then show ?thesis using assms(1,2,4,5) evolvesD(1) [OF assms(3) ok] image_ok_file [OF assms(2)] by (auto simp: on_disk_def reserved_def)
qed

lemma on_disk_commit:
  assumes "on_disk pl im s" and "image_ok im" and "evolves {commit_name} s s'"
    and "file_bytes s' commit_name = Some cb" and "commit_live (x_crc pl) cb r i"
  shows "on_disk pl (im\<lparr>im_commit := r\<rparr>) s'"
proof -
  have ok: "fs_ok s" using assms(1) by (simp add: on_disk_def)
  have "file_bytes s' p = file_bytes s p" if "p \<noteq> commit_name" for p
    using evolvesD(2) [OF assms(3) ok] that by blast
  then show ?thesis using assms(1,2,4,5) evolvesD(1) [OF assms(3) ok] image_ok_file [OF assms(2)] by (auto simp: on_disk_def reserved_def)
qed

lemma on_disk_manifest:
  assumes "on_disk pl im s" and "image_ok im" and "evolves {manifest_name, tmp_name manifest_name} s s'"
    and "file_bytes s' manifest_name = Some b" and "check_manifest (x_crc pl) (x_json_of pl) b = Inr m"
    and "mf_snapshot_file m \<notin> reserved" and "file_bytes s (mf_snapshot_file m) = Some sb"
    and "base_bytes pl sb (mf_snapshot_crc32 m) N E"
  shows "on_disk pl (im\<lparr>im_manifest := m, im_nodes := N, im_edges := E\<rparr>) s'"
proof -
  have ok: "fs_ok s" using assms(1) by (simp add: on_disk_def)
  have "file_bytes s' p = file_bytes s p" if "p \<notin> {manifest_name, tmp_name manifest_name}" for p
    using evolvesD(2) [OF assms(3) ok] that by blast
  then show ?thesis using assms evolvesD(1) [OF assms(3) ok] by (auto simp: on_disk_def reserved_def)
qed

section \<open>The marker under a torn write\<close>

lemma pick_slot_index: "pick_slot crc32 cb = Some (r, i) \<Longrightarrow> i \<le> 1 \<and> slot_at crc32 cb i = Some r"
  by (auto simp: pick_slot_def split: option.splits if_splits)

lemma slot_offset: "slot_at crc32 cb i = Some r \<Longrightarrow> i \<le> 1 \<Longrightarrow> (1 - i) * slot_size \<le> length cb"
  by (cases i) (auto simp: slot_at_def split: if_splits)

lemma write_at_overwritten:
  assumes "i * slot_size \<le> length cb" and "length cb \<le> 2 * slot_size" and "length bs \<le> slot_size" and "i \<le> 1"
  shows "overwritten cb i (write_at cb (i * slot_size) bs) \<and> length (write_at cb (i * slot_size) bs) \<le> 2 * slot_size"
proof -
  have "i = 0 \<or> i = 1" using assms(4) by auto
  then show ?thesis using assms(1-3)
    by (auto simp: overwritten_def write_at_def nth_append min_def)
qed

lemma slot_at_written:
  assumes "i * slot_size \<le> length cb" and "length bs = slot_size"
  shows "slot_at crc32 (write_at cb (i * slot_size) bs) i = decode_slot crc32 bs"
proof -
  have ne: "bs \<noteq> []" using assms(2) by (auto simp: slot_size_def)
  have "slice (i * slot_size) ((i + 1) * slot_size) (write_at cb (i * slot_size) bs) = bs"
    using assms ne by (simp add: write_at_def slice_def min_def)
  moreover have "(i + 1) * slot_size \<le> length (write_at cb (i * slot_size) bs)"
    using assms ne by (simp add: write_at_def min_def)
  ultimately show ?thesis by (simp add: slot_at_def)
qed

text \<open>What a torn slot may decode to: nothing, its old contents or the new record.\<close>

definition tear_detected :: "(bytes \<Rightarrow> u32) \<Rightarrow> bytes \<Rightarrow> nat \<Rightarrow> commit_record \<Rightarrow> bool" where
  "tear_detected crc32 cb i r \<longleftrightarrow>
     (\<forall>k. slot_at crc32 (write_at cb (i * slot_size) (take k (encode_slot crc32 r))) i \<in> {None, slot_at crc32 cb i, Some r})"

lemma pick_overwritten:
  assumes "pick_slot crc32 cb = Some (r, i)" and "overwritten cb (1 - i) cb'" and "cr_gen n = cr_gen r + 1" and "cr_gen r + 1 \<noteq> 0"
  shows "slot_at crc32 cb' (1 - i) \<in> {None, slot_at crc32 cb (1 - i)} \<Longrightarrow> pick_slot crc32 cb' = Some (r, i)"
    and "slot_at crc32 cb' (1 - i) = Some n \<Longrightarrow> pick_slot crc32 cb' = Some (n, 1 - i)"
proof -
  have i: "i \<le> 1" "slot_at crc32 cb i = Some r" using pick_slot_index [OF assms(1)] by simp_all
  have keep: "slot_at crc32 cb' i = Some r" using slot_at_other [OF assms(2)] i by (cases i) auto
  have newer: "cr_gen r < cr_gen n" using unatSuc [of "cr_gen r"] assms(3,4) by (simp add: word_less_nat_alt add.commute)
  have "i = 0 \<or> i = 1" using i(1) by auto
  then show "slot_at crc32 cb' (1 - i) \<in> {None, slot_at crc32 cb (1 - i)} \<Longrightarrow> pick_slot crc32 cb' = Some (r, i)"
    and "slot_at crc32 cb' (1 - i) = Some n \<Longrightarrow> pick_slot crc32 cb' = Some (n, 1 - i)"
    using keep assms(1) newer by (auto simp: pick_slot_def not_le split: option.splits if_splits)
qed

lemma commit_write_live:
  assumes live: "commit_live crc32 cb r i" and n: "cr_gen n = cr_gen r + 1" "cr_gen r + 1 \<noteq> 0"
  shows "commit_live crc32 (write_at cb ((1 - i) * slot_size) (encode_slot crc32 n)) n (1 - i)"
    and "tear_detected crc32 cb (1 - i) n \<Longrightarrow>
      commit_live crc32 (write_at cb ((1 - i) * slot_size) (take k (encode_slot crc32 n))) r i \<or>
      commit_live crc32 (write_at cb ((1 - i) * slot_size) (take k (encode_slot crc32 n))) n (1 - i)"
proof -
  have p: "pick_slot crc32 cb = Some (r, i)" "length cb \<le> 2 * slot_size" using live by (simp_all add: commit_live_def)
  have i: "i \<le> 1" "(1 - i) * slot_size \<le> length cb" using pick_slot_index [OF p(1)] slot_offset by blast+
  have le: "length (take k (encode_slot crc32 n)) \<le> slot_size" "length (encode_slot crc32 n) = slot_size" for k
    by (simp_all add: slot_size_def)
  have w: "overwritten cb (1 - i) (write_at cb ((1 - i) * slot_size) bs) \<and> length (write_at cb ((1 - i) * slot_size) bs) \<le> 2 * slot_size"
    if "length bs \<le> slot_size" for bs using write_at_overwritten [OF i(2) p(2) that] by simp
  show "commit_live crc32 (write_at cb ((1 - i) * slot_size) (encode_slot crc32 n)) n (1 - i)"
    using pick_overwritten(2) [OF p(1) _ n] w [of "encode_slot crc32 n"] slot_at_written [OF i(2) le(2)] le(2)
    by (simp add: commit_live_def decode_encode_slot)
  assume t: "tear_detected crc32 cb (1 - i) n"
  show "commit_live crc32 (write_at cb ((1 - i) * slot_size) (take k (encode_slot crc32 n))) r i \<or>
      commit_live crc32 (write_at cb ((1 - i) * slot_size) (take k (encode_slot crc32 n))) n (1 - i)"
    using pick_overwritten [OF p(1) conjunct1 [OF w [OF le(1)]] n, of k] conjunct2 [OF w [OF le(1)], of k]
      t [unfolded tear_detected_def, rule_format, of k] unfolding commit_live_def by blast
qed

end
