(* ===== verification/OG_Reopen.thy ===== *)
theory OG_Reopen
  imports OG_Recovery OG_Store_History
begin

text \<open>
  \<open>open\<close> on a directory that holds an image: without faults it returns a handle attached to the image,
  with the snapshot's graph, the delta of the committed batches and the durable sequence number; with
  faults, at whatever step it stops, the directory still holds an image of the same store.
\<close>

section \<open>What is assumed of the platform\<close>

definition platform_ok :: "'g platform \<Rightarrow> bool" where
  "platform_ok pl \<longleftrightarrow>
     digraph_laws (x_graph pl) \<and> codec_ok (x_csr_to pl) (x_csr_access pl) \<and>
     unchecked_ok (x_csr_access pl) (x_csr_unchecked pl) \<and> wal_codec_ok (x_wal_to pl) (x_wal_of pl) \<and>
     json_ok (x_json_to pl) (x_json_of pl) \<and> (\<forall>m. x_json_to pl m \<noteq> None) \<and> hash_order (x_order pl)"

text \<open>No manifest has checksum 0, so that the reader accepts what the writer stamps.\<close>

definition no_zero_checksum :: "'g platform \<Rightarrow> bool" where
  "no_zero_checksum pl \<longleftrightarrow> (\<forall>m. manifest_checksum (x_crc pl) m \<noteq> 0)"

lemma stamped_reads:
  assumes "platform_ok pl" and "no_zero_checksum pl" and "x_json_to pl (stamp_manifest (x_crc pl) m) = Some b"
  shows "check_manifest (x_crc pl) (x_json_of pl) b = Inr (stamp_manifest (x_crc pl) m)"
  using assms read_stamped unfolding platform_ok_def no_zero_checksum_def by blast

section \<open>Reading the files\<close>

lemma fs_read_runs:
  "runs (io (fs_read p)) s (\<lambda>b s'. evolves {} s s' \<and> file_bytes s p = Some b)
     (\<lambda>s'. evolves {} s s' \<and> (calm s \<longrightarrow> file_bytes s p = None))"
proof (rule runs_io, goal_cases)
  case (1 b s')
  then have "s' = s\<lparr>fs_clock := Suc (fs_clock s)\<rparr> \<and> file_bytes s p = Some b"
    by (auto simp: fs_read_def tick_def split: fault.splits option.splits)
  then show ?case by (auto intro!: evolves_quiet)
next
  case (2 e s')
  then have "s' = s\<lparr>fs_clock := Suc (fs_clock s)\<rparr> \<and> (calm s \<longrightarrow> file_bytes s p = None)"
    by (auto simp: fs_read_def tick_def calm_def split: fault.splits option.splits)
  then show ?case by (auto intro!: evolves_quiet)
qed

lemma read_manifest_runs:
  assumes "file_bytes s p = Some b" and "check_manifest crc32 of_json b = Inr m"
  shows "runs (read_manifest crc32 of_json p) s (\<lambda>m' s'. evolves {} s s' \<and> m' = m) (fails {} s)"
  unfolding read_manifest_def
  by (rule runs_bindI [OF fs_read_runs]) (use assms in \<open>auto simp: fails_def runs_def\<close>)

lemma load_base_runs:
  assumes "file_bytes s (mf_snapshot_file m) = Some sb" and "base_bytes pl sb (mf_snapshot_crc32 m) N E"
    and "mf_format_version m = 3"
  shows "runs (load_base pl m mode validate prefault) s
    (\<lambda>b s'. evolves {} s s' \<and> base_ok (x_graph pl) b \<and> base_nodes (x_graph pl) b = N \<and> base_edges (x_graph pl) b = E) (fails {} s)"
proof -
  obtain b where b: "open_snapshot (x_crc pl) (x_csr_access pl) (x_csr_unchecked pl) (x_graph pl) (Inr sb) mode validate prefault
      (mf_snapshot_crc32 m) = Inr b" "base_ok (x_graph pl) b" "base_nodes (x_graph pl) b = N" "base_edges (x_graph pl) b = E"
    using assms(2) unfolding base_bytes_def by blast
  have load: "load_base pl m mode validate prefault = load_snapshot pl (mf_snapshot_file m) mode validate prefault (mf_snapshot_crc32 m)"
    by (simp add: load_base_def assms(3))
  obtain r s1 where r: "fs_read (mf_snapshot_file m) s = (r, s1)" by fastforce
  show ?thesis
  proof (cases r)
    case (Inl e)
    then have "fails {} s s1" using fs_read_runs [of "mf_snapshot_file m" s] r assms(1) by (auto simp: runs_def io_def fails_def)
    then show ?thesis unfolding load by (simp add: runs_def load_snapshot_def r Inl open_snapshot_def)
  next
    case (Inr x)
    then have "evolves {} s s1" "x = sb" using fs_read_runs [of "mf_snapshot_file m" s] r assms(1) by (auto simp: runs_def io_def)
    then show ?thesis unfolding load using b by (simp add: runs_def load_snapshot_def r Inr)
  qed
qed

lemma open_named_runs:
  assumes "file_bytes s p = Some b"
  shows "runs (io (open_existing app p)) s
    (\<lambda>fd s'. evolves {} s s' \<and> fd_at s' fd p \<and> vf_append (fs_fds s' fd) = app) (fails {} s)"
  by (rule runs_mono [OF open_existing_runs]) (use assms in \<open>auto simp: fails_def file_bytes_def\<close>)

lemma open_wal_runs:
  assumes "file_bytes s wal_name = Some b"
  shows "runs open_wal s (\<lambda>fd s'. evolves {} s s' \<and> fd_at s' fd wal_name \<and> vf_append (fs_fds s' fd)) (fails {} s)"
  using open_named_runs [OF assms, of True]
  by (auto simp: open_wal_def vfs_open_append_def runs_def io_def split: prod.splits sum.splits)

lemma read_whole_runs:
  assumes "fs_ok s" and "fd_at s fd p" and "file_bytes s p = Some bs"
    and k: "\<And>s'. evolves {} s s' \<Longrightarrow> runs (k bs) s' Q X" and X: "\<And>s'. fails {} s s' \<Longrightarrow> X s'"
  shows "runs (bindI (io (file_seek_start fd 0)) (\<lambda>_. bindI (io (file_read_to_end fd)) k)) s Q X"
proof (rule runs_bindI [where ?Q1.0 = "\<lambda>_ s1. evolves {} s s1 \<and> vf_pos (fs_fds s1 fd) = 0" and ?X1.0 = "fails {} s"])
  show "runs (io (file_seek_start fd 0)) s (\<lambda>_ s1. evolves {} s s1 \<and> vf_pos (fs_fds s1 fd) = 0) (fails {} s)"
  proof (rule runs_io, goal_cases)
    case (1 x s1)
    then have "s1 = set_pos fd 0 (s\<lparr>fs_clock := Suc (fs_clock s)\<rparr>)"
      using effect_cases unfolding file_seek_start_def by fastforce
    then show ?case using 1 steady_seek [of fd 0] by (auto simp: steady_def set_pos_def)
  next
    case (2 e s1)
    then show ?case using steady_seek [of fd 0] by (fastforce simp: steady_def fails_def)
  qed
next
  fix x :: unit and s1 assume s1: "evolves {} s s1 \<and> vf_pos (fs_fds s1 fd) = 0"
  have d: "fd_data s1 fd = bs"
    using fd_at_bytes [OF evolves_fd(1) [of "{}" s s1 fd p]] evolvesD(2) [of "{}" s s1 p] s1 assms(1-3) by auto
  have e: "evolves {} s s2" if "evolves {} s1 s2" for s2 using evolves_then s1 that by blast
  show "runs (bindI (io (file_read_to_end fd)) k) s1 Q X"
  proof (rule runs_bindI [where ?Q1.0 = "\<lambda>buf s2. evolves {} s s2 \<and> buf = bs" and ?X1.0 = "fails {} s"])
    show "runs (io (file_read_to_end fd)) s1 (\<lambda>buf s2. evolves {} s s2 \<and> buf = bs) (fails {} s)"
    proof (rule runs_io, goal_cases)
      case (1 buf s2)
      then have "buf = bs" using s1 d by (auto simp: file_read_to_end_def tick_def fd_data_def split: fault.splits)
      then show ?case using 1 steady_read [of fd] e by (auto simp: steady_def)
    next
      case (2 err s2)
      then have "fails {} s1 s2" using steady_read [of fd] by (fastforce simp: steady_def fails_def)
      then show ?case using failsI s1 by blast
    qed
  qed (use k X in auto)
qed (use X in auto)

lemma scan_log:
  assumes "platform_ok pl" and "log_bytes pl rs lb"
  shows "\<exists>scan. scan_wal_bytes (x_crc pl) (x_wal_of pl) lb = Inr scan \<and> sr_records scan = rs \<and> sr_valid_end scan = frames_length pl rs"
proof -
  obtain wb tail where wb: "lb = wb @ tail" "frames (x_crc pl) (x_wal_to pl) rs = Inr wb" "tail = [] \<or> not_a_frame (x_crc pl) tail"
    using assms(2) by (auto simp: log_bytes_def)
  have "wal_codec_ok (x_wal_to pl) (x_wal_of pl)" using assms(1) by (simp add: platform_ok_def)
  then show ?thesis
    using scan_frames [OF _ wb(2)] scan_torn [OF _ wb(2)] wb by (auto simp: frames_length_def torn_tail_def)
qed

lemma read_and_scan_runs:
  assumes "platform_ok pl" and "fs_ok s" and "fd_at s fd wal_name" and "file_bytes s wal_name = Some lb" and "log_bytes pl rs lb"
  shows "runs (read_and_scan (x_crc pl) (x_wal_of pl) fd) s
    (\<lambda>scan s'. evolves {} s s' \<and> sr_records scan = rs \<and> sr_valid_end scan = frames_length pl rs) (fails {} s)"
  unfolding read_and_scan_def
  by (rule read_whole_runs [OF assms(2-4)]) (use scan_log [OF assms(1,5)] in \<open>auto simp: runs_def\<close>)

lemma commit_open_runs:
  assumes "fs_ok s" and "file_bytes s commit_name = Some cb" and "commit_live crc32 cb r i"
  shows "runs (commit_open crc32) s
    (\<lambda>(rec, c) s'. evolves {} s s' \<and> rec = r \<and> commit_at c s' \<and> cf_next_slot c = 1 - i \<and> cf_next_gen c = cr_gen r + 1) (fails {} s)"
  unfolding commit_open_def
proof (rule runs_bindI [where ?Q1.0 = "\<lambda>fd s1. evolves {} s s1 \<and> fd_at s1 fd commit_name \<and> \<not> vf_append (fs_fds s1 fd)"
      and ?X1.0 = "fails {} s"])
  show "runs open_commit_file s (\<lambda>fd s1. evolves {} s s1 \<and> fd_at s1 fd commit_name \<and> \<not> vf_append (fs_fds s1 fd)) (fails {} s)"
    using open_named_runs [OF assms(2), of False]
    by (auto simp: open_commit_file_def vfs_open_rw_def runs_def io_def split: prod.splits sum.splits)
next
  fix fd s1 assume s1: "evolves {} s s1 \<and> fd_at s1 fd commit_name \<and> \<not> vf_append (fs_fds s1 fd)"
  have ok: "fs_ok s1" using evolvesD(1) s1 assms(1) by blast
  have b: "file_bytes s1 commit_name = Some cb" using evolvesD(2) [of "{}" s s1] s1 assms(1,2) by simp
  have p: "pick_slot crc32 cb = Some (r, i)" using assms(3) by (simp add: commit_live_def)
  show "runs (bindI (io (file_seek_start fd 0)) (\<lambda>_. bindI (io (file_read_to_end fd)) (\<lambda>buf.
       case pick_slot crc32 buf of None \<Rightarrow> failI (Corrupt ''COMMIT sidecar has no crc-valid slot'')
       | Some (r, chosen) \<Rightarrow> returnI (r, \<lparr>cf_file = fd, cf_next_slot = 1 - chosen, cf_next_gen = cr_gen r + 1\<rparr>)))) s1
    (\<lambda>(rec, c) s'. evolves {} s s' \<and> rec = r \<and> commit_at c s' \<and> cf_next_slot c = 1 - i \<and> cf_next_gen c = cr_gen r + 1) (fails {} s)"
  proof (rule read_whole_runs [OF ok _ b])
    show "fd_at s1 fd commit_name" using s1 by simp
    show "fails {} s s2" if "fails {} s1 s2" for s2 using failsI s1 that by blast
    fix s2 assume s2: "evolves {} s1 s2"
    have "evolves {} s s2" using evolves_then s1 s2 by blast
    moreover have "commit_at \<lparr>cf_file = fd, cf_next_slot = 1 - i, cf_next_gen = cr_gen r + 1\<rparr> s2"
      using evolves_fd(1,2) [OF s2 ok, of fd commit_name] s1 evolvesD(1) [OF s2 ok] by (simp add: commit_at_def)
    ultimately show "runs (case pick_slot crc32 cb of None \<Rightarrow> failI (Corrupt ''COMMIT sidecar has no crc-valid slot'')
       | Some (r, chosen) \<Rightarrow> returnI (r, \<lparr>cf_file = fd, cf_next_slot = 1 - chosen, cf_next_gen = cr_gen r + 1\<rparr>)) s2
      (\<lambda>(rec, c) s'. evolves {} s s' \<and> rec = r \<and> commit_at c s' \<and> cf_next_slot c = 1 - i \<and> cf_next_gen c = cr_gen r + 1) (fails {} s)"
      by (simp add: p runs_def)
  qed
qed auto

lemma truncate_to_runs:
  assumes "fs_ok s" and "fd_at s fd p" and "file_bytes s p = Some lb" and "n \<le> length lb"
  shows "runs (truncate_to fd n) s
    (\<lambda>_ s'. evolves {p} s s' \<and> file_bytes s' p = Some (take n lb))
    (\<lambda>s'. fails {p} s s' \<and> file_bytes s' p \<in> {Some lb, Some (take n lb)})"
    (is "runs _ _ ?Q ?X")
  unfolding truncate_to_def
proof (rule runs_bindI [where ?Q1.0 = "\<lambda>len s1. evolves {} s s1 \<and> len = length lb" and ?X1.0 = "fails {} s"])
  have d: "fd_data s fd = lb" using fd_at_bytes [OF assms(2)] assms(3) by simp
  show "runs (io (file_len fd)) s (\<lambda>len s1. evolves {} s s1 \<and> len = length lb) (fails {} s)"
  proof (rule runs_io, goal_cases)
    case (1 len s1)
    then have "len = length lb" by (auto simp: file_len_def query_def tick_def d split: fault.splits)
    then show ?case using 1 steady_len [of fd] by (auto simp: steady_def)
  next
    case (2 e s1)
    then show ?case using steady_len [of fd] by (fastforce simp: steady_def fails_def)
  qed
next
  fix s1 assume "fails {} s s1"
  then show "?X s1" using fails_mono [of "{}" s s1 "{p}"] evolvesD(2) [of "{}" s s1 p] assms(1,3) by (auto simp: fails_def)
next
  fix len s1 assume len: "evolves {} s s1 \<and> len = length lb"
  have e1: "evolves {} s s1" using len by simp
  have at: "fs_ok s1" "fd_at s1 fd p" "file_bytes s1 p = Some lb"
    using evolvesD(1) [OF e1 assms(1)] evolves_fd(1) [OF e1 assms(1,2)] evolvesD(2) [OF e1 assms(1), of p] assms(3) by auto
  have d: "fd_data s1 fd = lb" using fd_at_bytes [OF at(2)] at(3) by simp
  have ev: "evolves {p} s s2" if "evolves {p} s1 s2" for s2 using evolves_then [OF evolves_mono [OF e1] that] by simp
  have fl: "fails {p} s s2" if "evolves {p} s1 s2" "\<not> calm s1" for s2
    using ev [OF that(1)] that(2) evolvesD(5) [OF e1] by (simp add: fails_def)
  show "runs (if n < len then bindI (io (file_set_len fd n)) (\<lambda>_. bindI (io (file_sync_all fd)) (\<lambda>_.
      bindI (io vfs_fsync_dir) (\<lambda>_. returnI True))) else returnI False) s1 ?Q ?X"
  proof (cases "n < length lb")
    case False
    then show ?thesis using ev [OF evolves_refl] at(3) assms(4) len by (simp add: runs_def)
  next
    case True
    have cut: "resize n lb = take n lb" using True by (simp add: resize_def)
    define G where "G s' \<longleftrightarrow> evolves {p} s s' \<and> file_bytes s' p = Some (take n lb)" for s'
    have q: "G s3" if "evolves {} s2 s3" "G s2" for s2 s3
      using that evolves_then [of "{p}" s s2 s3] evolves_mono [OF that(1), of "{p}"] evolvesD(1) [of "{p}" s s2] assms(1)
        evolvesD(2) [OF that(1), of p] by (auto simp: G_def)
    have x: "?X s3" if "fails {} s2 s3" "G s2" for s2 s3
      using q [OF _ that(2), of s3] that evolvesD(5) [of "{p}" s s2] by (auto simp: fails_def G_def)
    have "runs (bindI (io (file_set_len fd n)) (\<lambda>_. bindI (io (file_sync_all fd)) (\<lambda>_.
      bindI (io vfs_fsync_dir) (\<lambda>_. returnI True)))) s1 (\<lambda>_. G) ?X"
    proof (rule runs_bindI [where ?Q1.0 = "\<lambda>_. G" and ?X1.0 = ?X])
      show "runs (io (file_set_len fd n)) s1 (\<lambda>_. G) ?X"
      proof (rule runs_io, goal_cases)
        case (1 y s2)
        then show ?case using file_set_len_evolves(1,3) [OF 1 at(2)] at(1) ev by (simp add: d cut G_def)
      next
        case (2 e s2)
        then show ?case using file_set_len_evolves(1,2,4) [OF 2 at(2)] at(1,3) fl by (auto simp: d cut)
      qed
    next
      fix y s2 assume s2: "G s2"
      show "runs (bindI (io (file_sync_all fd)) (\<lambda>_. bindI (io vfs_fsync_dir) (\<lambda>_. returnI True))) s2 (\<lambda>_. G) ?X"
      proof (rule runs_bindI [OF runs_steady [OF steady_sync]])
        fix z s3 assume "evolves {} s2 s3"
        then have s3: "G s3" using q s2 by blast
        show "runs (bindI (io vfs_fsync_dir) (\<lambda>_. returnI True)) s3 (\<lambda>_. G) ?X"
          by (rule runs_bindI [OF runs_steady [OF steady_fsync_dir]]) (use q [OF _ s3] x [OF _ s3] in \<open>auto simp: runs_def\<close>)
      qed (use x s2 in auto)
    qed auto
    then show ?thesis using True len by (simp add: G_def [abs_def])
  qed
qed

end
