(* ===== verification/OG_Stable.thy ===== *)
theory OG_Stable
  imports OG_Reopen
begin

text \<open>
  Stable storage and power loss. What was not fsynced may be gone: a name may have its old or its new
  entry, and a file any prefix of its new contents over the old ones. A store is power safe when its
  MANIFEST, snapshot and marker are on stable storage and so is the committed part of its log. Here is what
  the file-system operations and the composite writes do to stable storage, and what a cut leaves of a
  power-safe store.
\<close>

lemma runs_conj: "runs m s Q X \<Longrightarrow> runs m s Q' X' \<Longrightarrow> runs m s (\<lambda>x s'. Q x s' \<and> Q' x s') (\<lambda>s'. X s' \<and> X' s')"
  by (auto simp: runs_def split: prod.splits sum.splits)

lemma runs_imp: "(A \<Longrightarrow> runs m s Q X) \<Longrightarrow> runs m s (\<lambda>x s'. A \<longrightarrow> Q x s') (\<lambda>s'. A \<longrightarrow> X s')"
  by (auto simp: runs_def split: prod.splits sum.splits)

section \<open>Cutting the power\<close>

text \<open>The contents a file may have after a cut: old, new, or a torn write.\<close>

definition torn :: "bytes \<Rightarrow> bytes \<Rightarrow> bytes \<Rightarrow> bool" where
  "torn old new x \<longleftrightarrow> x = old \<or> x = new \<or> (\<exists>n \<le> length new. x = take n new @ drop n old)"

text \<open>The state after a restart: a directory in which no file has two names, the lock free, everything that is there
  on stable storage.\<close>

definition power_cut :: "(nat \<Rightarrow> fault) \<Rightarrow> (nat \<Rightarrow> io_error + bytes) \<Rightarrow> fs \<Rightarrow> fs \<Rightarrow> bool" where
  "power_cut F E s s' \<longleftrightarrow>
     fs_ok s' \<and> (\<forall>p. fmlookup (fs_dir s') p \<in> {fmlookup (fs_dir_disk s) p, fmlookup (fs_dir s) p}) \<and>
     (\<forall>i. torn (fs_disk s i) (fs_data s i) (fs_data s' i)) \<and>
     fs_dir_disk s' = fs_dir s' \<and> fs_disk s' = fs_data s' \<and>
     \<not> fs_locked s' \<and> fs_faults s' = F \<and> fs_entropy s' = E"

text \<open>The cut that loses everything that was not synced.\<close>

definition lose_unsynced :: "(nat \<Rightarrow> fault) \<Rightarrow> (nat \<Rightarrow> io_error + bytes) \<Rightarrow> fs \<Rightarrow> fs" where
  "lose_unsynced F E s = s\<lparr>fs_dir := fs_dir_disk s, fs_data := fs_disk s, fs_locked := False, fs_faults := F, fs_entropy := E\<rparr>"

lemma torn_same [simp]: "torn x x y \<longleftrightarrow> y = x"
  by (auto simp: torn_def)

lemma torn_prefix:
  assumes "torn old new x" and "prefix old new"
  shows "prefix old x \<and> prefix x new"
proof -
  obtain t where t: "new = old @ t" using assms(2) by (auto simp: prefix_def)
  have "take n new @ drop n old = old @ take (n - length old) t" for n by (cases "n \<le> length old") (simp_all add: t)
  then show ?thesis using assms(1) take_is_prefix [of _ t] by (auto simp: torn_def t)
qed

lemma torn_write:
  assumes "torn cb (write_at cb pos bs) x" and "pos \<le> length cb"
  shows "\<exists>j. x = write_at cb pos (take j bs)"
proof -
  have old: "cb = write_at cb pos (take 0 bs)" by (simp add: write_at_def)
  have new: "write_at cb pos bs = write_at cb pos (take (length bs) bs)" by simp
  have "\<exists>j. take n (write_at cb pos bs) @ drop n cb = write_at cb pos (take j bs)" for n
  proof (cases "bs = [] \<or> n \<le> pos")
    case True
    then have "take n (write_at cb pos bs) @ drop n cb = cb" using assms(2) by (auto simp: write_at_def)
    then show ?thesis using old by metis
  next
    case False
    let ?j = "min (n - pos) (length bs)"
    have "take (n - a) (drop a cb) @ drop n cb = drop a cb" if "a \<le> n" for a
      using append_take_drop_id [of "n - a" "drop a cb"] that by simp
    from this [of "pos + length bs"] have "take n (write_at cb pos bs) @ drop n cb = write_at cb pos (take ?j bs)"
      using False assms(2) by (auto simp: write_at_def min_def not_le)
    then show ?thesis by blast
  qed
  then show ?thesis using assms(1) old new unfolding torn_def by metis
qed

section \<open>What is on stable storage\<close>

definition durable :: "fs \<Rightarrow> string \<Rightarrow> bool" where
  "durable s p \<longleftrightarrow> (\<exists>i. pinned s p i \<and> fs_disk s i = fs_data s i)"

text \<open>The log: the stable part is a prefix of the current contents with at least \<open>n\<close> bytes.\<close>

definition log_safe :: "nat \<Rightarrow> fs \<Rightarrow> bool" where
  "log_safe n s \<longleftrightarrow> (\<exists>i. pinned s wal_name i \<and> prefix (fs_disk s i) (fs_data s i) \<and> n \<le> length (fs_disk s i))"

lemma durable_evolves:
  assumes "durable s p" and "evolves D s s'" and "fs_ok s" and "p \<notin> D"
  shows "durable s' p"
proof -
  obtain i where i: "pinned s p i" "fs_disk s i = fs_data s i" using assms(1) by (auto simp: durable_def)
  then have "pinned s' p i" "fs_disk s' i = fs_data s i"
    using evolvesD(6) [OF assms(2-4)] by (auto simp: settles_def)
  moreover have "fs_data s' i = fs_data s i"
    using evolvesD(2) [OF assms(2-4)] i(1) calculation(1) by (simp add: pinned_def file_bytes_def)
  ultimately show ?thesis by (auto simp: durable_def)
qed

lemma log_safe_evolves:
  assumes "log_safe n s" and "evolves D s s'" and "fs_ok s" and "wal_name \<notin> D"
  shows "log_safe n s'"
proof -
  obtain i where i: "pinned s wal_name i" "prefix (fs_disk s i) (fs_data s i)" "n \<le> length (fs_disk s i)"
    using assms(1) by (auto simp: log_safe_def)
  then have p: "pinned s' wal_name i" and d: "fs_disk s' i \<in> {fs_disk s i, fs_data s i}"
    using evolvesD(6) [OF assms(2-4)] by (auto simp: settles_def)
  have "fs_data s' i = fs_data s i"
    using evolvesD(2) [OF assms(2-4)] i(1) p by (simp add: pinned_def file_bytes_def)
  then show ?thesis using i(2,3) p d prefix_length_le [OF i(2)] by (auto simp: log_safe_def)
qed

lemma durable_log: "durable s wal_name \<Longrightarrow> file_bytes s wal_name = Some lb \<Longrightarrow> n \<le> length lb \<Longrightarrow> log_safe n s"
  by (auto simp: durable_def log_safe_def file_bytes_def pinned_def)

lemma durable_cut:
  assumes "power_cut F E s s'" and "durable s p"
  shows "file_bytes s' p = file_bytes s p"
proof -
  obtain i where i: "pinned s p i" "fs_disk s i = fs_data s i" using assms(2) by (auto simp: durable_def)
  have "torn (fs_disk s i) (fs_data s i) (fs_data s' i)" "fmlookup (fs_dir s') p = Some i"
    using assms(1) i(1) unfolding power_cut_def pinned_def by (metis insertE singletonD)+
  then show ?thesis using i by (simp add: file_bytes_def pinned_def)
qed

lemma log_safe_cut:
  assumes "power_cut F E s s'" and "log_safe n s" and "file_bytes s wal_name = Some lb"
  shows "\<exists>x. file_bytes s' wal_name = Some x \<and> prefix x lb \<and> n \<le> length x"
proof -
  obtain i where i: "pinned s wal_name i" "prefix (fs_disk s i) (fs_data s i)" "n \<le> length (fs_disk s i)"
    using assms(2) by (auto simp: log_safe_def)
  have t: "torn (fs_disk s i) (fs_data s i) (fs_data s' i)" "fmlookup (fs_dir s') wal_name = Some i"
    using assms(1) i(1) unfolding power_cut_def pinned_def by (metis insertE singletonD)+
  have p: "prefix (fs_disk s i) (fs_data s' i)" "prefix (fs_data s' i) (fs_data s i)" using torn_prefix [OF t(1) i(2)] by simp_all
  have "n \<le> length (fs_data s' i)" using prefix_length_le [OF p(1)] i(3) by simp
  then show ?thesis using p(2) t(2) i(1) assms(3) by (auto simp: file_bytes_def pinned_def)
qed

text \<open>Writes to the log and their fsync.\<close>

definition log_fd :: "nat \<Rightarrow> fs \<Rightarrow> bool" where
  "log_fd fd s \<longleftrightarrow> fmlookup (fs_dir s) wal_name = Some (vf_inode (fs_fds s fd)) \<and> vf_append (fs_fds s fd)"

lemma wal_at_log_fd: "wal_at w s \<Longrightarrow> log_fd (ww_file w) s"
  by (simp add: wal_at_def log_fd_def fd_at_def)

lemma write_log:
  assumes "file_write_all fd buf s = (r, s')" and "log_fd fd s" and "log_safe n s"
  shows "log_safe n s'" and "log_fd fd s'"
proof -
  obtain k where s': "s' = put_bytes fd (take k buf) (s\<lparr>fs_clock := Suc (fs_clock s)\<rparr>)" using file_write_all_cases [OF assms(1)] by blast
  have d: "fs_dir s' = fs_dir s" "fs_dir_disk s' = fs_dir_disk s" "fs_disk s' = fs_disk s" "vf_inode (fs_fds s' fd) = vf_inode (fs_fds s fd)"
    "vf_append (fs_fds s' fd) = vf_append (fs_fds s fd)" "fs_data s' (vf_inode (fs_fds s fd)) = fs_data s (vf_inode (fs_fds s fd)) @ take k buf"
    using assms(2) by (auto simp: s' put_bytes_def Let_def set_pos_def set_data_def fd_data_def log_fd_def)
  show "log_fd fd s'" using assms(2) d by (simp add: log_fd_def)
  show "log_safe n s'" using assms(2,3) d unfolding log_safe_def log_fd_def pinned_def by (metis option.inject prefix_prefix)
qed

lemma sync_log:
  assumes "file_sync_all fd s = (r, s')" and "log_fd fd s" and "log_safe n s"
  shows "log_safe n s'" and "log_fd fd s'" and "r = Inr x \<Longrightarrow> durable s' wal_name"
proof -
  let ?f = "\<lambda>s. s\<lparr>fs_disk := (fs_disk s)(vf_inode (fs_fds s fd) := fd_data s fd)\<rparr>"
  let ?s = "s\<lparr>fs_clock := Suc (fs_clock s)\<rparr>"
  have cases: "s' = ?s \<or> s' = ?f ?s" "r = Inr () \<longrightarrow> s' = ?f ?s"
    using effect_cases [of ?f s r s'] assms(1) by (simp_all add: file_sync_all_def)
  obtain i where i: "pinned s wal_name i" "prefix (fs_disk s i) (fs_data s i)" "n \<le> length (fs_disk s i)" "i = vf_inode (fs_fds s fd)"
    using assms(2,3) by (auto simp: log_safe_def pinned_def log_fd_def)
  have le: "n \<le> length (fs_data s i)" using prefix_length_le [OF i(2)] i(3) by simp
  show "log_fd fd s'" using cases(1) assms(2) by (auto simp: log_fd_def)
  show "log_safe n s'" using cases(1) i le by (auto simp: log_safe_def pinned_def fd_data_def)
  show "r = Inr x \<Longrightarrow> durable s' wal_name" using cases(2) i by (auto simp: durable_def pinned_def fd_data_def)
qed

lemma wal_append_power:
  assumes "wal_at w s" and "log_safe n s"
  shows "runs (wal_append frame) (w, s) (\<lambda>b (w', s'). log_safe n s' \<and> (b \<longrightarrow> durable s' wal_name)) (\<lambda>(w', s'). log_safe n s')"
    (is "runs _ _ ?Q ?X")
proof -
  have sync: "runs (bindI wal_fsync_now (\<lambda>_. returnI True)) (v, s1) ?Q ?X" if "log_fd (ww_file v) s1" "log_safe n s1" for v s1
  proof -
    obtain r s2 where r: "file_sync_all (ww_file v) s1 = (r, s2)" by fastforce
    show ?thesis using sync_log [OF r that] r
      by (cases r) (simp_all add: runs_def wal_fsync_now_def bindI_def poisoning_def update_wal_def)
  qed
  obtain r s1 where r: "file_write_all (ww_file w) frame s = (r, s1)" by fastforce
  note s1 = write_log [OF r wal_at_log_fd [OF assms(1)] assms(2)]
  let ?w = "w\<lparr>ww_len := ww_len w + of_nat (length frame)\<rparr>"
  have "wal_append frame (w, s) = (case r of Inl e \<Rightarrow> (Inl (Io e), (w\<lparr>ww_poisoned := True\<rparr>, s1)) | Inr _ \<Rightarrow> sync_by_policy (?w, s1))"
    by (simp add: wal_append_def bindI_def poisoning_def update_wal_def r split: sum.split)
  moreover have "runs sync_by_policy (?w, s1) ?Q ?X"
    using sync [of ?w s1] sync [of "?w\<lparr>ww_since_fsync := ww_since_fsync w + 1\<rparr>" s1] s1
    by (cases "ww_policy w") (auto simp: sync_by_policy_def Let_def runs_def)
  ultimately show ?thesis using s1 by (cases r) (simp_all add: runs_def)
qed

lemma wal_flush_power:
  assumes "wal_at w s" and "log_safe n s"
  shows "runs wal_flush (w, s) (\<lambda>_ (w', s'). log_safe n s' \<and> durable s' wal_name) (\<lambda>(w', s'). log_safe n s')"
proof -
  obtain r s1 where r: "file_sync_all (ww_file w) s = (r, s1)" by fastforce
  show ?thesis using sync_log [OF r wal_at_log_fd [OF assms(1)] assms(2)] r assms(2)
    by (cases r) (simp_all add: runs_def wal_flush_def wal_fsync_now_def bindI_def poisoning_def update_wal_def)
qed

text \<open>An advance of the marker: on success it is stable, on failure the cut may tear the slot.\<close>

definition slot_torn :: "commit_file \<Rightarrow> bytes \<Rightarrow> fs \<Rightarrow> fs \<Rightarrow> bool" where
  "slot_torn c slot s s' \<longleftrightarrow>
     (\<forall>F E t. power_cut F E s' t \<longrightarrow> (\<exists>j. file_bytes t commit_name = map_option (\<lambda>old. write_at old (cf_next_slot c * slot_size) (take j slot)) (file_bytes s commit_name)))"

lemma slot_tornI:
  assumes "file_bytes s commit_name = Some cb" and "cf_next_slot c * slot_size \<le> length cb" and "pinned s' commit_name i"
    and "fs_data s' i = write_at cb (cf_next_slot c * slot_size) (take k slot)" and "fs_disk s' i \<in> {cb, fs_data s' i}"
  shows "slot_torn c slot s s'"
  unfolding slot_torn_def
proof (intro allI impI)
  fix F E t assume cut: "power_cut F E s' t"
  let ?pos = "cf_next_slot c * slot_size"
  have i: "fmlookup (fs_dir t) commit_name = Some i" "torn (fs_disk s' i) (fs_data s' i) (fs_data t i)"
    using cut assms(3) unfolding power_cut_def pinned_def by (metis insertE singletonD)+
  have "\<exists>j. fs_data t i = write_at cb ?pos (take j slot)"
  proof (cases "fs_disk s' i = cb")
    case True
    then obtain j where "fs_data t i = write_at cb ?pos (take j (take k slot))"
      using torn_write [OF i(2) [unfolded True assms(4)] assms(2)] by blast
    then show ?thesis by (metis take_take)
  next
    case False
    then show ?thesis using i(2) assms(4,5) by auto
  qed
  then show "\<exists>j. file_bytes t commit_name = map_option (\<lambda>old. write_at old ?pos (take j slot)) (file_bytes s commit_name)"
    using i(1) unfolding assms(1) by (simp add: file_bytes_def)
qed

lemma commit_advance_power:
  assumes at: "commit_at c s" and dur: "durable s commit_name" and cb: "file_bytes s commit_name = Some cb"
    and pos: "cf_next_slot c * slot_size \<le> length cb"
  shows "runs (commit_advance crc32 epoch seq) (c, s) (\<lambda>_ (c', s'). durable s' commit_name)
    (\<lambda>(c', s'). slot_torn c (encode_slot crc32 (next_record epoch seq c)) s s')"
proof -
  let ?fd = "cf_file c" and ?pos = "cf_next_slot c * slot_size" and ?slot = "encode_slot crc32 (next_record epoch seq c)"
  let ?i = "vf_inode (fs_fds s ?fd)"
  have i: "pinned s commit_name ?i" "fs_disk s ?i = cb" "fs_data s ?i = cb" "\<not> vf_append (fs_fds s ?fd)"
    using dur at cb by (auto simp: durable_def pinned_def commit_at_def fd_at_def file_bytes_def)
  define J where "J s1 = (pinned s1 commit_name ?i \<and> fs_disk s1 ?i = cb \<and> vf_inode (fs_fds s1 ?fd) = ?i)" for s1
  have tornI: "slot_torn c ?slot s s'" if "pinned s' commit_name ?i" "fs_data s' ?i = write_at cb ?pos (take k ?slot)"
      "fs_disk s' ?i \<in> {cb, fs_data s' ?i}" for s' k
    by (rule slot_tornI [OF cb pos that])
  have none: "cb = write_at cb ?pos (take 0 ?slot)" by (simp add: write_at_def)
  obtain r1 s1 where r1: "file_seek_start ?fd ?pos s = (r1, s1)" by fastforce
  obtain r2 s2 where r2: "file_write_all ?fd ?slot s1 = (r2, s2)" by fastforce
  obtain r3 s3 where r3: "file_sync_all ?fd s2 = (r3, s3)" by fastforce
  have run: "commit_advance crc32 epoch seq (c, s) =
      (case r1 of Inl e \<Rightarrow> (Inl (Io e), (c, s1)) | Inr _ \<Rightarrow>
       case r2 of Inl e \<Rightarrow> (Inl (Io e), (c, s2)) | Inr _ \<Rightarrow>
       case r3 of Inl e \<Rightarrow> (Inl (Io e), (c, s3)) | Inr _ \<Rightarrow> (Inr (), (advanced c, s3)))"
    by (simp add: commit_advance_def bindI_def on_fs_def from_io_def r1 r2 r3 next_record_def [symmetric] advanced_def split: sum.split)
  have s1: "J s1" "fs_data s1 ?i = cb" "\<not> vf_append (fs_fds s1 ?fd)" "r1 = Inr u \<Longrightarrow> write_pos s1 ?fd = ?pos" for u
    using effect_cases [of "set_pos ?fd ?pos" s r1 s1] r1 i
    by (auto simp: file_seek_start_def J_def set_pos_def pinned_def write_pos_def)
  obtain l where l: "s2 = put_bytes ?fd (take l ?slot) (s1\<lparr>fs_clock := Suc (fs_clock s1)\<rparr>)" using file_write_all_cases [OF r2] by blast
  have s2: "J s2" "fs_data s2 ?i = write_at cb (write_pos s1 ?fd) (take l ?slot)"
    using s1(1-3) by (auto simp: l J_def put_bytes_def Let_def set_pos_def set_data_def pinned_def fd_data_def write_pos_def)
  have s3: "pinned s3 commit_name ?i" "fs_data s3 = fs_data s2" "fs_disk s3 ?i \<in> {cb, fs_data s2 ?i}"
    "r3 = Inr v \<Longrightarrow> fs_disk s3 ?i = fs_data s2 ?i" for v
    using effect_cases [of "\<lambda>s. s\<lparr>fs_disk := (fs_disk s)(vf_inode (fs_fds s ?fd) := fd_data s ?fd)\<rparr>" s2 r3 s3] r3 s2(1)
    by (auto simp: file_sync_all_def J_def pinned_def fd_data_def)
  show ?thesis
  proof (cases r1)
    case (Inl e)
    then show ?thesis using run tornI [of s1 0] s1(1,2) none by (simp add: runs_def J_def)
  next
    case (Inr u)
    have k: "fs_data s2 ?i = write_at cb ?pos (take l ?slot)" using s2(2) s1(4) [OF Inr] by simp
    have "slot_torn c ?slot s s2" using tornI [OF _ k] s2(1) by (simp add: J_def)
    moreover have "slot_torn c ?slot s s3" using tornI [of s3 l] s3(1-3) k by simp
    moreover have "durable s3 commit_name" if "r3 = Inr v" for v using s3(1,2) s3(4) [OF that] by (auto simp: durable_def)
    ultimately show ?thesis using run Inr by (cases r2; cases r3) (auto simp: runs_def)
  qed
qed

text \<open>Shortening the log to \<open>n\<close> bytes: whatever happens, a cut leaves a prefix of it that has them.\<close>

definition log_kept :: "nat \<Rightarrow> bytes \<Rightarrow> fs \<Rightarrow> bool" where
  "log_kept n lb s \<longleftrightarrow>
     (\<forall>F E t. power_cut F E s t \<longrightarrow> (\<exists>x. file_bytes t wal_name = Some x \<and> prefix x lb \<and> n \<le> length x))"

lemma log_safe_kept: "log_safe n s \<Longrightarrow> file_bytes s wal_name = Some lb \<Longrightarrow> log_kept n lb s"
  unfolding log_kept_def using log_safe_cut by blast

text \<open>The log between an old stable prefix and its first \<open>n\<close> bytes.\<close>

definition log_shrinking :: "nat \<Rightarrow> bytes \<Rightarrow> bytes \<Rightarrow> nat \<Rightarrow> fs \<Rightarrow> bool" where
  "log_shrinking n lb d i s \<longleftrightarrow> pinned s wal_name i \<and> fs_data s i = take n lb \<and> fs_disk s i \<in> {d, take n lb}"

lemma log_shrinking_cut:
  assumes "log_shrinking n lb d i s" and "prefix d lb" and "n \<le> length d" and "power_cut F E s t"
  shows "file_bytes t wal_name \<in> {Some d, Some (take n lb)}"
proof -
  have t: "fmlookup (fs_dir t) wal_name = Some i" "torn (fs_disk s i) (fs_data s i) (fs_data t i)"
    using assms(1,4) unfolding power_cut_def pinned_def log_shrinking_def by (metis insertE singletonD)+
  have "take k (take n lb) @ drop k d = d" if "k \<le> n" for k
  proof -
    have "take k (take n lb) = take k d" using assms(2,3) that by (auto simp: prefix_def min_def)
    then show ?thesis by simp
  qed
  then have "fs_data t i \<in> {d, take n lb}" if "torn d (take n lb) (fs_data t i)" using that by (auto simp: torn_def)
  then have "fs_data t i \<in> {d, take n lb}" using t(2) assms(1) by (auto simp: log_shrinking_def)
  then show ?thesis using t(1) by (auto simp: file_bytes_def)
qed

lemma log_shrinking_kept:
  assumes "log_shrinking n lb d i s" and "prefix d lb" and "n \<le> length d"
  shows "log_kept n lb s"
proof -
  have "prefix d lb \<and> n \<le> length d" "prefix (take n lb) lb \<and> n \<le> length (take n lb)"
    using assms(2,3) prefix_length_le [OF assms(2)] by (simp_all add: take_is_prefix)
  then show ?thesis unfolding log_kept_def using log_shrinking_cut [OF assms] by blast
qed

lemma shrink_log:
  assumes "file_set_len fd n s = (r, s')" and "fmlookup (fs_dir s) wal_name = Some (vf_inode (fs_fds s fd))" and "pinned s wal_name i"
    and "fs_data s i = lb" and "n \<le> length lb"
  shows "s' = s\<lparr>fs_clock := Suc (fs_clock s)\<rparr> \<and> (\<exists>e. r = Inl e) \<or>
    log_shrinking n lb (fs_disk s i) i s' \<and> fs_dir s' = fs_dir s \<and> vf_inode (fs_fds s' fd) = i"
proof -
  let ?f = "\<lambda>s. set_data (vf_inode (fs_fds s fd)) (resize n (fd_data s fd)) s"
  let ?s = "s\<lparr>fs_clock := Suc (fs_clock s)\<rparr>"
  have "s' = ?s \<and> (\<exists>e. r = Inl e) \<or> s' = ?f ?s"
    using effect_cases [of ?f s r s'] assms(1) by (cases r) (auto simp: file_set_len_def)
  then show ?thesis using assms(2-5)
    by (auto simp: log_shrinking_def pinned_def set_data_def fd_data_def resize_def)
qed

lemma sync_shrinking:
  assumes "file_sync_all fd s = (r, s')" and "log_shrinking n lb d i s" and "vf_inode (fs_fds s fd) = i"
  shows "log_shrinking n lb d i s'" and "r = Inr x \<Longrightarrow> durable s' wal_name \<and> file_bytes s' wal_name = Some (take n lb)"
proof -
  let ?f = "\<lambda>s. s\<lparr>fs_disk := (fs_disk s)(vf_inode (fs_fds s fd) := fd_data s fd)\<rparr>"
  let ?s = "s\<lparr>fs_clock := Suc (fs_clock s)\<rparr>"
  have c: "s' = ?s \<or> s' = ?f ?s" "r = Inr () \<longrightarrow> s' = ?f ?s"
    using effect_cases [of ?f s r s'] assms(1) by (simp_all add: file_sync_all_def)
  show "log_shrinking n lb d i s'" using c(1) assms(2,3) by (auto simp: log_shrinking_def pinned_def fd_data_def)
  show "r = Inr x \<Longrightarrow> durable s' wal_name \<and> file_bytes s' wal_name = Some (take n lb)"
    using c(2) assms(2,3) by (auto simp: log_shrinking_def durable_def pinned_def fd_data_def file_bytes_def)
qed

lemma log_shrinking_evolves:
  assumes "log_shrinking n lb d i s" and "evolves D s s'" and "fs_ok s" and "wal_name \<notin> D"
  shows "log_shrinking n lb d i s'"
proof -
  have p: "pinned s' wal_name i" "fs_disk s' i \<in> {fs_disk s i, fs_data s i}"
    using evolvesD(6) [OF assms(2-4)] assms(1) by (auto simp: settles_def log_shrinking_def)
  have "fs_data s' i = fs_data s i"
    using evolvesD(2) [OF assms(2-4)] p(1) assms(1) by (simp add: pinned_def file_bytes_def log_shrinking_def)
  then show ?thesis using assms(1) p by (auto simp: log_shrinking_def)
qed

lemma truncate_to_power:
  assumes fs: "fs_ok s" and at: "fd_at s fd wal_name" and lb: "file_bytes s wal_name = Some lb" and n: "n \<le> length lb" and safe: "log_safe n s"
  shows "runs (truncate_to fd n) s (\<lambda>_ s'. durable s' wal_name) (log_kept n lb)"
proof -
  obtain i where i: "pinned s wal_name i" "prefix (fs_disk s i) lb" "n \<le> length (fs_disk s i)" "fs_data s i = lb" "vf_inode (fs_fds s fd) = i"
    using safe lb at by (auto simp: log_safe_def pinned_def file_bytes_def fd_at_def)
  let ?S = "log_shrinking n lb (fs_disk s i) i"
  obtain r0 s0 where r0: "file_len fd s = (r0, s0)" by fastforce
  have s0: "s0 = s\<lparr>fs_clock := Suc (fs_clock s)\<rparr>" "r0 = Inr k \<Longrightarrow> k = length lb" for k
    using r0 i(4,5) by (auto simp: file_len_def query_def tick_def fd_data_def split: fault.splits)
  have kept: "log_kept n lb (s\<lparr>fs_clock := c\<rparr>)" for c
    by (rule log_safe_kept) (use safe lb in \<open>simp_all add: log_safe_def pinned_def\<close>)
  obtain r1 s1 where r1: "file_set_len fd n s0 = (r1, s1)" by fastforce
  obtain r2 s2 where r2: "file_sync_all fd s1 = (r2, s2)" by fastforce
  obtain r3 s3 where r3: "vfs_fsync_dir s2 = (r3, s3)" by fastforce
  have run: "truncate_to fd n s = (case r0 of Inl e \<Rightarrow> (Inl (Io e), s0) | Inr k \<Rightarrow> if k > n then
      (case r1 of Inl e \<Rightarrow> (Inl (Io e), s1) | Inr _ \<Rightarrow>
       case r2 of Inl e \<Rightarrow> (Inl (Io e), s2) | Inr _ \<Rightarrow>
       case r3 of Inl e \<Rightarrow> (Inl (Io e), s3) | Inr _ \<Rightarrow> (Inr True, s3)) else (Inr False, s0))"
    by (simp add: truncate_to_def bindI_def io_def from_io_def r0 r1 r2 r3 split: sum.split)
  have s1: "log_kept n lb s1 \<and> (\<exists>e. r1 = Inl e) \<or> ?S s1 \<and> vf_inode (fs_fds s1 fd) = i"
    using shrink_log [OF r1, of i lb] i n kept s0(1) by (auto simp: pinned_def)
  show ?thesis
  proof (cases r0)
    case (Inl e)
    then show ?thesis using run kept s0(1) by (simp add: runs_def)
  next
    case (Inr k)
    show ?thesis
    proof (cases "k > n")
      case False
      then have "length lb = n" using s0(2) [OF Inr] n by simp
      then have "fs_disk s i = lb" using i(2,3) prefix_length_le [OF i(2)] by (auto simp: prefix_def)
      then have "durable s0 wal_name" using i(1,4) s0(1) by (auto simp: durable_def pinned_def)
      then show ?thesis using run Inr False by (simp add: runs_def)
    next
      case True
      show ?thesis
      proof (cases r1)
        case (Inl e)
        have "log_kept n lb s1" using s1 log_shrinking_kept i(2,3) by blast
        then show ?thesis using run \<open>r0 = _\<close> True Inl by (simp add: runs_def)
      next
        case (Inr u)
        then have sh: "?S s1" "vf_inode (fs_fds s1 fd) = i" using s1 by auto
        note s2 = sync_shrinking [OF r2 sh]
        have e1: "fs_ok s1"
          using evolvesD(1) [OF file_set_len_evolves(1) [OF r1, of wal_name]] fs at s0(1) by (simp add: fd_at_def)
        have e2: "fs_ok s2" using steady_sync [unfolded steady_def, rule_format, OF r2] evolvesD(1) e1 by blast
        have e3: "evolves {} s2 s3" using steady_fsync_dir [unfolded steady_def, rule_format, OF r3] by blast
        have k: "log_kept n lb s2" "log_kept n lb s3"
          using log_shrinking_kept [OF _ i(2,3)] s2(1) log_shrinking_evolves [OF s2(1) e3 e2] by auto
        have d: "durable s3 wal_name" if "r2 = Inr v" for v using durable_evolves [OF _ e3 e2] s2(2) [OF that] by blast
        show ?thesis using run \<open>r0 = _\<close> True Inr k d by (cases r2; cases r3) (auto simp: runs_def)
      qed
    qed
  qed
qed

lemma wal_truncate_power:
  assumes at: "wal_at w s" and dur: "durable s wal_name" and lb: "file_bytes s wal_name = Some lb"
  shows "runs wal_truncate (w, s) (\<lambda>_ (w', s'). durable s' wal_name)
    (\<lambda>(w', s'). \<forall>F E t. power_cut F E s' t \<longrightarrow> file_bytes t wal_name \<in> {Some lb, Some []})"
proof -
  let ?fd = "ww_file w" and ?X = "\<lambda>s'. \<forall>F E t. power_cut F E s' t \<longrightarrow> file_bytes t wal_name \<in> {Some lb, Some []}"
  obtain i where i: "pinned s wal_name i" "fs_disk s i = lb" "fs_data s i = lb" "vf_inode (fs_fds s ?fd) = i"
    using dur lb at by (auto simp: durable_def pinned_def file_bytes_def wal_at_def fd_at_def)
  let ?S = "log_shrinking 0 lb lb i"
  have shrunk: "?X s'" if "?S s'" for s' using log_shrinking_cut [OF that] by simp
  have quiet: "?X (s\<lparr>fs_clock := c\<rparr>)" for c
  proof -
    have "durable (s\<lparr>fs_clock := c\<rparr>) wal_name" using dur by (simp add: durable_def pinned_def)
    then show ?thesis using durable_cut lb by fastforce
  qed
  obtain r1 s1 where r1: "file_set_len ?fd 0 s = (r1, s1)" by fastforce
  obtain r2 s2 where r2: "file_seek_start ?fd 0 s1 = (r2, s2)" by fastforce
  obtain r3 s3 where r3: "file_sync_all ?fd s2 = (r3, s3)" by fastforce
  have s1: "?X s1 \<and> (\<exists>e. r1 = Inl e) \<or> ?S s1 \<and> vf_inode (fs_fds s1 ?fd) = i"
    using shrink_log [OF r1 _ i(1,3)] i quiet by (auto simp: pinned_def)
  have s2: "?S s2 \<and> vf_inode (fs_fds s2 ?fd) = i" if "?S s1" "vf_inode (fs_fds s1 ?fd) = i"
    using effect_cases [of "set_pos ?fd 0" s1 r2 s2] r2 that
    by (auto simp: file_seek_start_def log_shrinking_def pinned_def set_pos_def)
  have s3: "?S s3" "r3 = Inr u \<Longrightarrow> durable s3 wal_name" if "?S s1" "vf_inode (fs_fds s1 ?fd) = i" for u
    using sync_shrinking [OF r3] s2 [OF that] by blast+
  have run: "\<not> ww_poisoned w \<Longrightarrow> wal_truncate (w, s) = (case r1 of Inl e \<Rightarrow> (Inl (Io e), (w\<lparr>ww_poisoned := True\<rparr>, s1)) | Inr _ \<Rightarrow>
      case r2 of Inl e \<Rightarrow> (Inl (Io e), (w\<lparr>ww_poisoned := True\<rparr>, s2)) | Inr _ \<Rightarrow>
      case r3 of Inl e \<Rightarrow> (Inl (Io e), (w\<lparr>ww_len := 0, ww_since_fsync := 0, ww_poisoned := True\<rparr>, s3))
      | Inr u \<Rightarrow> (Inr u, (w\<lparr>ww_len := 0, ww_since_fsync := 0\<rparr>, s3)))"
    by (simp add: wal_truncate_def bindI_def poisoning_def update_wal_def r1 r2 r3 split: sum.split)
  show ?thesis
  proof (cases "ww_poisoned w")
    case True
    then show ?thesis using quiet [of "fs_clock s"] by (simp add: runs_def wal_truncate_def)
  next
    case False
    show ?thesis
    proof (cases r1)
      case (Inl e)
      then show ?thesis using run [OF False] s1 shrunk by (auto simp: runs_def)
    next
      case (Inr u)
      then have sh: "?S s1" "vf_inode (fs_fds s1 ?fd) = i" using s1 by auto
      show ?thesis using run [OF False] Inr shrunk s2 [OF sh] s3 [OF sh] by (cases r2; cases r3) (auto simp: runs_def)
    qed
  qed
qed

section \<open>The atomic write\<close>

text \<open>A name that is stable, or absent from the directory in memory and on disk.\<close>

definition settled :: "fs \<Rightarrow> string \<Rightarrow> bool" where
  "settled s p \<longleftrightarrow> durable s p \<or> absent s p"

lemma absent_evolves: "absent s p \<Longrightarrow> evolves D s s' \<Longrightarrow> fs_ok s \<Longrightarrow> p \<notin> D \<Longrightarrow> absent s' p"
  using evolvesD(6) [of D s s' p] by (simp add: settles_def)

lemma settled_evolves: "settled s p \<Longrightarrow> evolves D s s' \<Longrightarrow> fs_ok s \<Longrightarrow> p \<notin> D \<Longrightarrow> settled s' p"
  using durable_evolves absent_evolves by (auto simp: settled_def)

lemma absent_cut:
  assumes "absent s p" and "power_cut F E s t"
  shows "fmlookup (fs_dir t) p = None" and "file_bytes t p = None" and "file_bytes s p = None"
proof -
  show "fmlookup (fs_dir t) p = None" using assms unfolding power_cut_def absent_def by (metis insertE singletonD)
  then show "file_bytes t p = None" and "file_bytes s p = None" using assms(1) by (simp_all add: file_bytes_def absent_def)
qed

lemma settled_cut: "settled s p \<Longrightarrow> power_cut F E s t \<Longrightarrow> file_bytes t p = file_bytes s p"
  using absent_cut durable_cut by (auto simp: settled_def)

lemma create_stable: "vfs_create p s = (r, s') \<Longrightarrow> fs_dir_disk s' = fs_dir_disk s \<and> fs_disk s' = fs_disk s"
  by (auto simp: vfs_create_def tick_def new_fd_def set_data_def Let_def split: fault.splits option.splits)

lemma write_stable: "file_write_all fd buf s = (r, s') \<Longrightarrow> fs_dir s' = fs_dir s \<and> fs_dir_disk s' = fs_dir_disk s \<and> fs_disk s' = fs_disk s"
  by (auto simp: file_write_all_def tick_def put_bytes_def set_pos_def set_data_def Let_def split: fault.splits)

lemma sync_stable:
  assumes "file_sync_all fd s = (r, s')"
  shows "fs_dir s' = fs_dir s" and "fs_dir_disk s' = fs_dir_disk s" and "fs_data s' = fs_data s"
    and "r = Inr x \<Longrightarrow> fs_disk s' (vf_inode (fs_fds s fd)) = fs_data s (vf_inode (fs_fds s fd))"
  using assms by (auto simp: file_sync_all_def effect_def tick_def fd_data_def split: fault.splits if_splits)

lemma fsync_dir_stable:
  assumes "vfs_fsync_dir s = (r, s')"
  shows "fs_dir s' = fs_dir s" and "fs_data s' = fs_data s" and "fs_disk s' = fs_disk s" and "fs_dir_disk s' \<in> {fs_dir_disk s, fs_dir s}"
    and "r = Inr x \<Longrightarrow> fs_dir_disk s' = fs_dir s"
  using assms by (auto simp: vfs_fsync_dir_def effect_def tick_def split: fault.splits if_splits)

text \<open>A new file with its entry on stable storage.\<close>

lemma sync_named_runs:
  assumes fs: "fs_ok s" and at: "fd_at s fd p"
    and k: "\<And>s'. evolves {} s s' \<Longrightarrow> durable s' p \<Longrightarrow> runs (k ()) s' Q X" and X: "\<And>s'. fails {} s s' \<Longrightarrow> X s'"
  shows "runs (bindI (io (file_sync_all fd)) (\<lambda>_. bindI (io vfs_fsync_dir) k)) s Q X"
proof -
  obtain r1 s1 where r1: "file_sync_all fd s = (r1, s1)" by fastforce
  obtain r2 s2 where r2: "vfs_fsync_dir s1 = (r2, s2)" by fastforce
  have e1: "evolves {} s s1" and c1: "calm s \<Longrightarrow> \<exists>x. r1 = Inr x" using steady_sync [unfolded steady_def, rule_format, OF r1] by blast+
  have e12: "evolves {} s1 s2" and c2: "calm s1 \<Longrightarrow> \<exists>x. r2 = Inr x" using steady_fsync_dir [unfolded steady_def, rule_format, OF r2] by blast+
  have e2: "evolves {} s s2" by (rule evolves_then [OF e1 e12])
  show ?thesis
  proof (cases "\<exists>x y. r1 = Inr x \<and> r2 = Inr y")
    case True
    then obtain x y where ok: "r1 = Inr x" "r2 = Inr y" by blast
    let ?i = "vf_inode (fs_fds s fd)"
    have "fmlookup (fs_dir s) p = Some ?i" using at by (simp add: fd_at_def)
    then have "pinned s2 p ?i" "fs_disk s2 ?i = fs_data s2 ?i"
      using sync_stable(1,3) [OF r1] sync_stable(4) [OF r1 ok(1)] fsync_dir_stable(1-3) [OF r2] fsync_dir_stable(5) [OF r2 ok(2)]
      by (simp_all add: pinned_def)
    then have "durable s2 p" by (auto simp: durable_def)
    then show ?thesis using k [OF e2] r1 r2 ok by (simp add: runs_def bindI_def io_def from_io_def)
  next
    case False
    have "X s1" if "r1 = Inl e" for e using X e1 c1 that by (auto simp: fails_def)
    moreover have "X s2" if "r2 = Inl e" for e using X e2 c2 that evolvesD(5) [OF e1] by (auto simp: fails_def)
    ultimately show ?thesis using False r1 r2
      by (cases r1; cases r2) (simp_all add: runs_def bindI_def io_def from_io_def)
  qed
qed

text \<open>The file being renamed is stable; the entry in the directory is the old or the new one.\<close>

lemma renamed_cut:
  assumes name: "settled s name" and i: "fs_data s i = bytes" "fs_disk s i = bytes"
    and x: "fmlookup (fs_dir x) name \<in> {fmlookup (fs_dir s) name, Some i}" "fmlookup (fs_dir_disk x) name \<in> {fmlookup (fs_dir_disk s) name, Some i}"
      "fs_data x = fs_data s" "fs_disk x = fs_disk s"
    and cut: "power_cut F E x t"
  shows "file_bytes t name \<in> {file_bytes s name, Some bytes}"
proof -
  have t: "fmlookup (fs_dir t) name \<in> {fmlookup (fs_dir_disk x) name, fmlookup (fs_dir x) name}" "torn (fs_disk s k) (fs_data s k) (fs_data t k)" for k
    using cut x(3,4) by (simp_all add: power_cut_def)
  have old: "fmlookup (fs_dir s) name = fmlookup (fs_dir_disk s) name" "fmlookup (fs_dir s) name = Some k \<Longrightarrow> fs_disk s k = fs_data s k" for k
    using name by (auto simp: settled_def durable_def pinned_def absent_def)
  have "fmlookup (fs_dir t) name \<in> {fmlookup (fs_dir s) name, Some i}" using t(1) x(1,2) old(1) by auto
  then show ?thesis
  proof (elim insertE emptyE)
    assume e: "fmlookup (fs_dir t) name = fmlookup (fs_dir s) name"
    show ?thesis
    proof (cases "fmlookup (fs_dir s) name")
      case (Some a)
      then show ?thesis using e t(2) [of a] old(2) [OF Some] by (simp add: file_bytes_def)
    qed (use e in \<open>simp add: file_bytes_def\<close>)
  next
    assume "fmlookup (fs_dir t) name = Some i"
    then show ?thesis using t(2) [of i] i by (simp add: file_bytes_def)
  qed
qed

lemma write_file_atomic_power:
  assumes fs: "fs_ok s"
  shows "runs (write_file_atomic name bytes) s (\<lambda>_ s'. durable s' name)
    (\<lambda>s'. settled s name \<longrightarrow> (\<forall>F E t. power_cut F E s' t \<longrightarrow> file_bytes t name \<in> {file_bytes s name, Some bytes}))"
    (is "runs _ _ _ (\<lambda>s'. ?S \<longrightarrow> ?X s')")
proof -
  let ?tmp = "tmp_name name"
  have early: "?S \<longrightarrow> ?X s'" if "evolves {?tmp} s s'" for s'
    using settled_cut settled_evolves [OF _ that fs, of name] evolvesD(2) [OF that fs, of name] by auto
  have quiet: "evolves {?tmp} s s2" if "evolves {} s1 s2" "evolves {?tmp} s s1" for s1 s2
    using evolves_then [OF that(2) evolves_mono [OF that(1)]] by simp
  obtain r1 s1 where r1: "vfs_create ?tmp s = (r1, s1)" by fastforce
  have c1: "evolves {?tmp} s s1" "r1 = Inr fd \<Longrightarrow> fd_at s1 fd ?tmp \<and> file_bytes s1 ?tmp = Some [] \<and> write_pos s1 fd = 0" for fd
    using vfs_create_runs [of ?tmp s] r1 fs by (cases r1; auto simp: runs_def io_def fails_def from_io_def)+
  note d1 = create_stable [OF r1]
  show ?thesis
  proof (cases r1)
    case (Inl e)
    then show ?thesis using early [OF c1(1)] r1 by (auto simp: runs_def write_file_atomic_def bindI_def io_def from_io_def)
  next
    case (Inr fd)
    note at = c1(2) [OF Inr]
    have fs1: "fs_ok s1" using evolvesD(1) [OF c1(1) fs] .
    obtain r2 s2 where r2: "file_write_all fd bytes s1 = (r2, s2)" by fastforce
    obtain r3 s3 where r3: "file_sync_all fd s2 = (r3, s3)" by fastforce
    obtain r4 s4 where r4: "vfs_rename ?tmp name s3 = (r4, s4)" by fastforce
    obtain r5 s5 where r5: "vfs_fsync_dir s4 = (r5, s5)" by fastforce
    have run: "write_file_atomic name bytes s =
        (case r2 of Inl e \<Rightarrow> (Inl (Io e), s2) | Inr _ \<Rightarrow> case r3 of Inl e \<Rightarrow> (Inl (Io e), s3) | Inr _ \<Rightarrow>
         case r4 of Inl e \<Rightarrow> (Inl (Io e), s4) | Inr _ \<Rightarrow> case r5 of Inl e \<Rightarrow> (Inl (Io e), s5) | Inr x \<Rightarrow> (Inr x, s5))"
      by (simp add: write_file_atomic_def bindI_def io_def from_io_def r1 r2 r3 r4 r5 Inr split: sum.split)
    have e2: "evolves {?tmp} s s2" using evolves_then [OF c1(1) file_write_all_evolves(1) [OF r2]] at by blast
    have d2: "fs_dir_disk s2 = fs_dir_disk s" "fs_dir s2 = fs_dir s1" using write_stable [OF r2] d1 by simp_all
    have e23: "evolves {} s2 s3" using steady_sync [unfolded steady_def, rule_format, OF r3] by blast
    have e3: "evolves {?tmp} s s3" by (rule quiet [OF e23 e2])
    have d3: "fs_dir_disk s3 = fs_dir_disk s" "fs_dir s3 = fs_dir s1" using sync_stable(1,2) [OF r3] d2 by simp_all
    have set3: "?S \<Longrightarrow> settled s3 name" and old: "file_bytes s3 name = file_bytes s name"
      using settled_evolves [OF _ e3 fs] evolvesD(2) [OF e3 fs, of name] by simp_all
    show ?thesis
    proof (cases "\<exists>x y. r2 = Inr x \<and> r3 = Inr y")
      case False
      then show ?thesis using run early [OF e2] early [OF e3] by (cases r2; cases r3) (auto simp: runs_def)
    next
      case True
      then obtain x y where ok: "r2 = Inr x" "r3 = Inr y" by blast
      obtain i where i: "fmlookup (fs_dir s3) ?tmp = Some i" "i = vf_inode (fs_fds s1 fd)" using at d3(2) by (simp add: fd_at_def)
      have nx: "fd < fs_next_fd s1" using at by (simp add: fd_at_def)
      have ino: "vf_inode (fs_fds s2 fd) = i"
        using file_write_all_evolves(1) [OF r2, of ?tmp] at nx i(2) by (simp add: evolves_def)
      have bytes: "file_bytes s2 ?tmp = Some bytes"
        using file_write_all_evolves(3) [OF r2, of ?tmp] at fs1 fd_at_bytes [of s1 fd ?tmp] ok(1) by (auto simp: write_at_def)
      have data: "fs_data s3 i = bytes" "fs_disk s3 i = bytes"
        using bytes i(1) d3(2) d2(2) sync_stable(3) [OF r3] sync_stable(4) [OF r3 ok(2)] ino by (auto simp: file_bytes_def)
      let ?f = "\<lambda>s. s\<lparr>fs_dir := fmupd name i (fmdrop ?tmp (fs_dir s))\<rparr>"
      have "vfs_rename ?tmp name s3 = effect ?f s3" by (simp add: vfs_rename_def i(1))
      then have s4: "s4 = s3\<lparr>fs_clock := Suc (fs_clock s3)\<rparr> \<or> s4 = ?f (s3\<lparr>fs_clock := Suc (fs_clock s3)\<rparr>)"
          "r4 = Inr () \<longrightarrow> s4 = ?f (s3\<lparr>fs_clock := Suc (fs_clock s3)\<rparr>)"
        using effect_cases [of ?f s3 r4 s4] r4 by simp_all
      have x4: "fmlookup (fs_dir s4) name \<in> {fmlookup (fs_dir s3) name, Some i}" "fs_dir_disk s4 = fs_dir_disk s3"
        "fs_data s4 = fs_data s3" "fs_disk s4 = fs_disk s3" using s4(1) by auto
      note x5 = fsync_dir_stable(1-4) [OF r5]
      have X: "?S \<longrightarrow> ?X z" if "z = s4 \<or> z = s5" for z
      proof (intro allI impI)
        fix F E t assume S: ?S and cut: "power_cut F E z t"
        have "file_bytes t name \<in> {file_bytes s3 name, Some bytes}"
          by (rule renamed_cut [OF set3 [OF S] data _ _ _ _ cut]) (use that x4 x5 set3 [OF S] in \<open>auto simp: settled_def durable_def pinned_def absent_def\<close>)
        then show "file_bytes t name \<in> {file_bytes s name, Some bytes}" using old by simp
      qed
      have "durable s5 name" if "r4 = Inr u" "r5 = Inr v" for u v
        using s4(2) that(1) x5(1-3) fsync_dir_stable(5) [OF r5 that(2)] data x4(3,4) by (auto simp: durable_def pinned_def)
      then show ?thesis using run ok X by (cases r4; cases r5) (auto simp: runs_def)
    qed
  qed
qed

lemma power_cut_fs: "power_cut F E s s' \<Longrightarrow> fs_ok s'" "power_cut F E s s' \<Longrightarrow> \<not> fs_locked s'"
  by (simp_all add: power_cut_def)

section \<open>The log and the marker of an image\<close>

definition log_exact :: "'g platform \<Rightarrow> wal_record list \<Rightarrow> fs \<Rightarrow> bool" where
  "log_exact pl rs s \<longleftrightarrow> (\<exists>wb. file_bytes s wal_name = Some wb \<and> frames (x_crc pl) (x_wal_to pl) rs = Inr wb)"

definition marker_at :: "'g platform \<Rightarrow> commit_record \<Rightarrow> commit_file \<Rightarrow> fs \<Rightarrow> bool" where
  "marker_at pl r c s \<longleftrightarrow>
     commit_at c s \<and> cf_next_gen c = cr_gen r + 1 \<and>
     (\<exists>cb i. file_bytes s commit_name = Some cb \<and> commit_live (x_crc pl) cb r i \<and> cf_next_slot c = 1 - i)"

lemma consecutive_take: "consecutive q rs \<Longrightarrow> consecutive q (take k rs)"
  by (induction rs arbitrary: q k) (auto simp: take_Cons')

lemma frames_length_take:
  assumes "log_bytes pl rs lb"
  shows "frames_length pl (take k rs) \<le> length lb"
    and "frames (x_crc pl) (x_wal_to pl) (take k rs) = Inr (take (frames_length pl (take k rs)) lb)"
proof -
  obtain wb tail where wb: "lb = wb @ tail" "frames (x_crc pl) (x_wal_to pl) rs = Inr wb"
    using assms by (auto simp: log_bytes_def)
  obtain a b where a: "frames (x_crc pl) (x_wal_to pl) (take k rs) = Inr a" "wb = a @ b"
    using frames_split [OF wb(2), of k] by blast
  then show "frames_length pl (take k rs) \<le> length lb"
    and "frames (x_crc pl) (x_wal_to pl) (take k rs) = Inr (take (frames_length pl (take k rs)) lb)"
    by (simp_all add: frames_length_def wb(1))
qed

lemma log_exact_bytes: "frames (x_crc pl) (x_wal_to pl) rs = Inr bs \<Longrightarrow> log_bytes pl rs bs"
  by (auto simp: log_bytes_def)

section \<open>Power-safe stores\<close>

definition power_safe :: "'g platform \<Rightarrow> image \<Rightarrow> fs \<Rightarrow> bool" where
  "power_safe pl im s \<longleftrightarrow>
     durable s manifest_name \<and> durable s (mf_snapshot_file (im_manifest im)) \<and> durable s commit_name \<and>
     log_safe (frames_length pl (take (im_hw im - im_base im) (im_records im))) s"

text \<open>A prefix of the log that has the committed frames is a shorter log, possibly with a torn tail.\<close>

lemma cut_log_bytes:
  assumes "frames (x_crc pl) (x_wal_to pl) rs = Inr wb" and "prefix x wb" and "frames_length pl (take n rs) \<le> length x" and "n \<le> length rs"
  shows "\<exists>m. n \<le> m \<and> m \<le> length rs \<and> log_bytes pl (take m rs) x"
  using assms
proof (induction rs arbitrary: n x wb)
  case Nil
  then show ?case by (simp add: log_bytes_def)
next
  case (Cons r rs)
  obtain f wb' where f: "encode_frame (x_crc pl) (x_wal_to pl) r = Inr f" "frames (x_crc pl) (x_wal_to pl) rs = Inr wb'" "wb = f @ wb'"
    using Cons.prems(1) by (auto simp: bindE_Inr_iff)
  obtain p where p: "length p < 2 ^ 32" "f = frame_of (x_crc pl) p" using encode_frame_Inr [OF f(1)] by blast
  have len: "frames_length pl (take (Suc k) (r # rs)) = length f + frames_length pl (take k rs)" for k
  proof -
    obtain a where "frames (x_crc pl) (x_wal_to pl) (take k rs) = Inr a" using frames_split [OF f(2), of k] by blast
    then show ?thesis by (simp add: frames_length_def f(1) bindE_def)
  qed
  show ?case
  proof (cases "length x < length f")
    case True
    then have n: "n = 0" using Cons.prems(3) len by (cases n) auto
    have x: "x = take (length x) f" using Cons.prems(2) True unfolding f(3) by (auto simp: prefix_def append_eq_append_conv2)
    have "x = [] \<or> not_a_frame (x_crc pl) x"
      using prefix_not_a_frame [OF p(1), of "length x" "x_crc pl"] True x by (cases "x = []") (simp_all add: p(2) [symmetric])
    then have "log_bytes pl (take 0 (r # rs)) x" by (simp add: log_bytes_def)
    then show ?thesis using n by blast
  next
    case False
    obtain z where z: "f @ wb' = x @ z" using Cons.prems(2) f(3) by (auto simp: prefix_def)
    then obtain x' where x: "x = f @ x'" using False by (auto simp: append_eq_append_conv2)
    have pre: "prefix x' wb'" using Cons.prems(2) by (simp add: f(3) x)
    have "frames_length pl (take (n - 1) rs) \<le> length x'" using Cons.prems(3) len x by (cases n) (auto simp: frames_length_def)
    moreover have "n - 1 \<le> length rs" using Cons.prems(4) by simp
    ultimately obtain m where m: "n - 1 \<le> m" "m \<le> length rs" "log_bytes pl (take m rs) x'"
      using Cons.IH [OF f(2) pre] by blast
    then have "log_bytes pl (take (Suc m) (r # rs)) x"
      using f(1) by (auto simp: log_bytes_def bindE_def x)
    then show ?thesis using m by (intro exI [of _ "Suc m"]) auto
  qed
qed

lemma torn_tail_prefix:
  assumes "not_a_frame crc32 tail" and "prefix x tail"
  shows "x = [] \<or> not_a_frame crc32 x"
proof (cases "x = [] \<or> length x < 8")
  case False
  obtain z where z: "tail = x @ z" using assms(2) by (auto simp: prefix_def)
  let ?len = "u32_of_le (take 4 x)"
  have h: "take 4 tail = take 4 x" "take 4 (drop 4 tail) = take 4 (drop 4 x)" using False by (simp_all add: z)
  have p: "take (unat ?len) (drop 8 tail) = take (unat ?len) (drop 8 x)" if "unat ?len \<le> length x - 8"
    using that False by (simp add: z)
  show ?thesis
  proof (cases "unat ?len > length x - 8")
    case True
    then show ?thesis using False by (simp add: not_a_frame_def Let_def)
  next
    case le: False
    moreover have "\<not> unat ?len > length tail - 8" "\<not> length tail < 8" using le False by (simp_all add: z)
    ultimately show ?thesis using assms(1) False h p by (simp add: not_a_frame_def Let_def)
  qed
qed (auto simp: not_a_frame_def)

lemma cut_torn_bytes:
  assumes "log_bytes pl rs lb" and "prefix x lb" and "frames_length pl (take n rs) \<le> length x" and "n \<le> length rs"
  shows "\<exists>m. n \<le> m \<and> m \<le> length rs \<and> log_bytes pl (take m rs) x"
proof -
  obtain wb tail where wb: "lb = wb @ tail" "frames (x_crc pl) (x_wal_to pl) rs = Inr wb" "tail = [] \<or> not_a_frame (x_crc pl) tail"
    using assms(1) by (auto simp: log_bytes_def)
  have "prefix x wb \<or> (\<exists>y. x = wb @ y \<and> prefix y tail)" using assms(2) by (simp add: wb(1) prefix_append)
  then show ?thesis
  proof (elim disjE exE conjE)
    assume "prefix x wb"
    then show ?thesis using cut_log_bytes [OF wb(2) _ assms(3,4)] by blast
  next
    fix y assume y: "x = wb @ y" "prefix y tail"
    then have "log_bytes pl rs x" using wb(2,3) torn_tail_prefix [OF _ y(2)] by (auto simp: log_bytes_def)
    then show ?thesis using assms(4) by (intro exI [of _ "length rs"]) simp
  qed
qed

lemma cut_image_at:
  assumes "image_ok im" and "im_hw im - im_base im \<le> m"
  shows "image_ok (im\<lparr>im_records := take m (im_records im)\<rparr>)" and "same_store im (im\<lparr>im_records := take m (im_records im)\<rparr>)"
  using assms consecutive_take by (auto simp: image_ok_def same_store_def im_hw_def im_snap_def im_batches_def min_absorb1)

lemma on_disk_after:
  assumes "on_disk pl im s" and "fs_ok s'" and "file_bytes s' manifest_name = file_bytes s manifest_name"
    and "file_bytes s' (mf_snapshot_file (im_manifest im)) = file_bytes s (mf_snapshot_file (im_manifest im))"
    and "file_bytes s' wal_name = Some x" and "log_bytes pl rs x"
    and "file_bytes s' commit_name = Some cb" and "commit_live (x_crc pl) cb r i"
  shows "on_disk pl (im\<lparr>im_records := rs, im_commit := r\<rparr>) s'"
  using assms by (auto simp: on_disk_def)

text \<open>The images a cut may leave: the log is shorter, but it has everything committed.\<close>

definition shortened :: "image \<Rightarrow> image \<Rightarrow> bool" where
  "shortened im im' \<longleftrightarrow> (\<exists>m \<ge> im_hw im - im_base im. im' = im\<lparr>im_records := take m (im_records im)\<rparr>)"

lemma shortened_refl: "image_ok im \<Longrightarrow> shortened im im"
  unfolding shortened_def by (rule exI [of _ "length (im_records im)"]) (auto simp: image_ok_def)

lemma shortened_image:
  assumes "shortened im im'" and "image_ok im"
  shows "image_ok im'" and "same_store im im'" and "im_commit im' = im_commit im"
  using assms cut_image_at [OF assms(2)] by (auto simp: shortened_def)

text \<open>Whatever a power cut leaves of a state, it holds an image with a given property.\<close>

definition survives :: "'g platform \<Rightarrow> (image \<Rightarrow> bool) \<Rightarrow> fs \<Rightarrow> bool" where
  "survives pl P s \<longleftrightarrow> (\<forall>F E t. power_cut F E s t \<longrightarrow> (\<exists>im. on_disk pl im t \<and> P im))"

lemma survives_mono: "survives pl P s \<Longrightarrow> (\<And>im. P im \<Longrightarrow> Q im) \<Longrightarrow> survives pl Q s"
  unfolding survives_def by blast

text \<open>Everything an image names is on stable storage.\<close>

definition synced :: "image \<Rightarrow> fs \<Rightarrow> bool" where
  "synced im s \<longleftrightarrow> (\<forall>p \<in> im_files im. durable s p)"

lemma synced_iff: "synced im s \<longleftrightarrow> durable s manifest_name \<and> durable s (mf_snapshot_file (im_manifest im)) \<and> durable s wal_name \<and> durable s commit_name"
  by (auto simp: synced_def im_files_def)

lemma synced_evolves: "synced im s \<Longrightarrow> evolves D s s' \<Longrightarrow> fs_ok s \<Longrightarrow> D \<inter> im_files im = {} \<Longrightarrow> synced im s'"
  unfolding synced_def using durable_evolves by blast

lemma synced_log:
  assumes "power_safe pl im s" and "evolves {wal_name} s s'" and "fs_ok s" and "image_ok im" and "durable s' wal_name"
    and "im_manifest im' = im_manifest im"
  shows "synced im' s'"
proof -
  have "mf_snapshot_file (im_manifest im) \<noteq> wal_name" using image_ok_file [OF assms(4)] by (auto simp: reserved_def)
  then show ?thesis using assms(1,5,6) durable_evolves [OF _ assms(2,3)] by (simp add: synced_iff power_safe_def)
qed

lemma synced_marker:
  assumes "synced im s" and "evolves {commit_name} s s'" and "fs_ok s" and "image_ok im" and "durable s' commit_name"
    and "im_manifest im' = im_manifest im"
  shows "synced im' s'"
proof -
  have "mf_snapshot_file (im_manifest im) \<noteq> commit_name" using image_ok_file [OF assms(4)] by (auto simp: reserved_def)
  then show ?thesis using assms(1,5,6) durable_evolves [OF _ assms(2,3)] by (simp add: synced_iff)
qed

lemma power_safe_evolves:
  assumes "power_safe pl im s" and "evolves D s s'" and "fs_ok s" and "D \<inter> im_files im = {}"
  shows "power_safe pl im s'"
proof -
  have n: "manifest_name \<notin> D" "mf_snapshot_file (im_manifest im) \<notin> D" "wal_name \<notin> D" "commit_name \<notin> D"
    using assms(4) by (auto simp: im_files_def)
  show ?thesis using assms(1) durable_evolves [OF _ assms(2,3)] log_safe_evolves [OF _ assms(2,3) n(3)] n by (auto simp: power_safe_def)
qed

lemma synced_power_safe:
  assumes "synced im s" and "on_disk pl im s"
  shows "power_safe pl im s"
proof -
  obtain lb where lb: "file_bytes s wal_name = Some lb" "log_bytes pl (im_records im) lb" using assms(2) by (auto simp: on_disk_def)
  then show ?thesis using assms(1) durable_log [OF _ lb(1) frames_length_take(1) [OF lb(2)]] by (simp add: synced_iff power_safe_def)
qed

lemma power_safe_synced:
  assumes "power_safe pl im s" and "log_exact pl (im_records im) s" and "length (im_records im) \<le> im_hw im - im_base im"
  shows "synced im s"
proof -
  obtain i where i: "pinned s wal_name i" "prefix (fs_disk s i) (fs_data s i)" "frames_length pl (im_records im) \<le> length (fs_disk s i)"
    using assms(1,3) by (auto simp: power_safe_def log_safe_def)
  obtain wb where wb: "file_bytes s wal_name = Some wb" "frames (x_crc pl) (x_wal_to pl) (im_records im) = Inr wb"
    using assms(2) by (auto simp: log_exact_def)
  have d: "fs_data s i = wb" using wb(1) i(1) by (simp add: file_bytes_def pinned_def)
  have "fs_disk s i = wb" using i(2,3) wb(2) unfolding d frames_length_def by (auto simp: prefix_def)
  then have "durable s wal_name" using i(1) d by (auto simp: durable_def)
  then show ?thesis using assms(1) by (simp add: synced_iff power_safe_def)
qed

text \<open>A power-safe store whose log grows, with the stable part of it kept.\<close>

lemma power_safe_log:
  assumes safe: "power_safe pl im s" and e: "evolves {wal_name} s s'" and fs: "fs_ok s" and ok: "image_ok im"
    and log: "log_safe (frames_length pl (take (im_hw im - im_base im) (im_records im))) s'"
  shows "power_safe pl im s'"
proof -
  have "mf_snapshot_file (im_manifest im) \<noteq> wal_name" using image_ok_file [OF ok] by (auto simp: reserved_def)
  then show ?thesis using safe log durable_evolves [OF _ e fs] by (simp add: power_safe_def)
qed

lemma log_kept_survives:
  assumes disk: "on_disk pl im s" and ok: "image_ok im" and e: "evolves {wal_name} s s'" and safe: "power_safe pl im s"
    and lb: "file_bytes s wal_name = Some lb" and kept: "log_kept (frames_length pl (take (im_hw im - im_base im) (im_records im))) lb s'"
  shows "survives pl (shortened im) s'"
  unfolding survives_def
proof (intro allI impI)
  fix F E t assume cut: "power_cut F E s' t"
  have fs: "fs_ok s" using disk by (simp add: on_disk_def)
  have free: "mf_snapshot_file (im_manifest im) \<noteq> wal_name" using image_ok_file [OF ok] by (auto simp: reserved_def)
  have same: "file_bytes t p = file_bytes s p" if "durable s p" "p \<noteq> wal_name" for p
    using durable_cut [OF cut durable_evolves [OF that(1) e fs]] evolvesD(2) [OF e fs, of p] that(2) by simp
  have bytes: "log_bytes pl (im_records im) lb" using disk lb by (auto simp: on_disk_def)
  obtain cb i where cb: "file_bytes s commit_name = Some cb" "commit_live (x_crc pl) cb (im_commit im) i"
    using disk by (auto simp: on_disk_def)
  have le: "im_hw im - im_base im \<le> length (im_records im)" using ok by (auto simp: image_ok_def)
  obtain x where x: "file_bytes t wal_name = Some x" "prefix x lb" "frames_length pl (take (im_hw im - im_base im) (im_records im)) \<le> length x"
    using kept cut unfolding log_kept_def by blast
  obtain m where m: "im_hw im - im_base im \<le> m" "log_bytes pl (take m (im_records im)) x" using cut_torn_bytes [OF bytes x(2,3) le] by blast
  have "on_disk pl (im\<lparr>im_records := take m (im_records im), im_commit := im_commit im\<rparr>) t"
    by (rule on_disk_after [OF disk power_cut_fs(1) [OF cut] _ _ x(1) m(2) _ cb(2)])
      (use same safe cb free in \<open>auto simp: power_safe_def\<close>)
  then have "on_disk pl (im\<lparr>im_records := take m (im_records im)\<rparr>) t" by simp
  moreover have "shortened im (im\<lparr>im_records := take m (im_records im)\<rparr>)" using m(1) by (auto simp: shortened_def)
  ultimately show "\<exists>im'. on_disk pl im' t \<and> shortened im im'" by blast
qed

text \<open>What a cut leaves of an idle store.\<close>

lemma power_safe_survives:
  assumes disk: "on_disk pl im s" and ok: "image_ok im" and safe: "power_safe pl im s"
  shows "survives pl (shortened im) s"
proof -
  obtain lb where lb: "file_bytes s wal_name = Some lb" using disk by (auto simp: on_disk_def)
  show ?thesis
    by (rule log_kept_survives [OF disk ok evolves_refl safe lb]) (use log_safe_kept lb safe in \<open>auto simp: power_safe_def\<close>)
qed

text \<open>A cut of a state whose files are all stable keeps them.\<close>

lemma on_disk_cut_same:
  assumes "on_disk pl im s" and "fs_ok t" and "\<And>p. p \<in> im_files im \<Longrightarrow> file_bytes t p = file_bytes s p"
  shows "on_disk pl im t"
  using assms by (simp add: on_disk_def im_files_def)

lemma synced_survives:
  assumes "on_disk pl im s" and "synced im s"
  shows "survives pl (\<lambda>im'. im' = im) s"
  unfolding survives_def using assms(2) on_disk_cut_same [OF assms(1) power_cut_fs(1)] durable_cut by (auto simp: synced_def)

text \<open>A cut that changes the marker only.\<close>

lemma marker_cut_survives:
  assumes disk: "on_disk pl im s" and sync: "synced im s" and ok: "image_ok im" and e: "evolves {commit_name} s s'"
    and live: "\<And>F E t. power_cut F E s' t \<Longrightarrow> \<exists>cb r i. file_bytes t commit_name = Some cb \<and> commit_live (x_crc pl) cb r i \<and> R r"
  shows "survives pl (\<lambda>im'. \<exists>r. R r \<and> im' = im\<lparr>im_commit := r\<rparr>) s'"
  unfolding survives_def
proof (intro allI impI)
  fix F E t assume cut: "power_cut F E s' t"
  have fs: "fs_ok s" using disk by (simp add: on_disk_def)
  have free: "mf_snapshot_file (im_manifest im) \<noteq> commit_name" using image_ok_file [OF ok] by (auto simp: reserved_def)
  have same: "file_bytes t p = file_bytes s p" if "p \<in> im_files im" "p \<noteq> commit_name" for p
    using durable_cut [OF cut durable_evolves [OF _ e fs]] evolvesD(2) [OF e fs, of p] that sync by (simp add: synced_def)
  obtain cb r i where cb: "file_bytes t commit_name = Some cb" "commit_live (x_crc pl) cb r i" "R r" using live [OF cut] by blast
  obtain lb where lb: "file_bytes s wal_name = Some lb" "log_bytes pl (im_records im) lb" using disk by (auto simp: on_disk_def)
  have "on_disk pl (im\<lparr>im_records := im_records im, im_commit := r\<rparr>) t"
    by (rule on_disk_after [OF disk power_cut_fs(1) [OF cut] _ _ _ lb(2) cb(1,2)]) (use same free lb in \<open>auto simp: im_files_def\<close>)
  then have "on_disk pl (im\<lparr>im_commit := r\<rparr>) t" by simp
  then show "\<exists>im'. on_disk pl im' t \<and> (\<exists>r. R r \<and> im' = im\<lparr>im_commit := r\<rparr>)" using cb(3) by blast
qed

text \<open>After a cut everything is stable; and there is always a cut, the one that loses all that is not synced.\<close>

lemma cut_synced:
  assumes "power_cut F E s t" and "on_disk pl im t"
  shows "synced im t"
proof -
  have t: "fs_dir_disk t = fs_dir t" "fs_disk t = fs_data t" using assms(1) by (simp_all add: power_cut_def)
  have "durable t p" if "p \<in> im_files im" for p
    using assms(2) that t by (auto simp: on_disk_def im_files_def durable_def pinned_def file_bytes_def)
  then show ?thesis by (simp add: synced_def)
qed

lemma lose_unsynced_cut: "fs_ok s \<Longrightarrow> power_cut F E s (lose_unsynced F E s)"
  by (auto simp: power_cut_def lose_unsynced_def torn_def fs_ok_def)

lemma lose_unsynced_calm [simp]: "calm (lose_unsynced F E s) \<longleftrightarrow> F = (\<lambda>_. Pass) \<and> (\<forall>t. \<exists>bs. E t = Inr bs)"
  by (simp add: lose_unsynced_def calm_def)

end
