(* ===== verification/OG_Open.thy ===== *)
theory OG_Open
  imports OG_Stable
begin

text \<open>
  What a handle and its directory mean together, and \<open>open\<close>. \<open>attached\<close> says that a handle follows an
  image: its base, delta, sequence numbers and pointers are those recovery would compute from the
  files. \<open>open\<close> turns a directory that holds an image into an attached handle; when it fails, a fault
  occurred and the directory still holds an image of the same store, also after a power cut at that
  point when the store was power safe.
\<close>

section \<open>Attached handles\<close>

definition pointers_ok :: "'g writer \<Rightarrow> manifest \<Rightarrow> bool" where
  "pointers_ok w m \<longleftrightarrow>
     wt_snapshot_seq w = mf_snapshot_seq m \<and> wt_snapshot_file w = mf_snapshot_file m \<and> wt_snapshot_crc32 w = mf_snapshot_crc32 m \<and>
     wt_format_version w = mf_format_version m \<and> wt_compaction_id w = mf_compaction_id m"

text \<open>The data of the writer: the snapshot's graph, and the delta of the records after it.\<close>

definition data_ok :: "'g platform \<Rightarrow> image \<Rightarrow> 'g writer \<Rightarrow> bool" where
  "data_ok pl im w \<longleftrightarrow>
     base_ok (x_graph pl) (wt_base w) \<and> base_nodes (x_graph pl) (wt_base w) = im_nodes im \<and>
     base_edges (x_graph pl) (wt_base w) = im_edges im \<and>
     wt_delta w = replay_all (as_accessor (x_graph pl) (wt_base w)) (map wr_ops (drop (im_snap im - im_base im) (im_records im))) delta_new \<and>
     unat (wt_seq w) = im_base im + length (im_records im)"

definition attached :: "'g platform \<Rightarrow> image \<Rightarrow> 'g persistent_graph \<Rightarrow> fs \<Rightarrow> bool" where
  "attached pl im g s \<longleftrightarrow>
     on_disk pl im s \<and> image_ok im \<and> store_inv g \<and> fs_locked s \<and>
     \<not> poisoned (st_writer g) \<and> wal_at (wt_wal (st_writer g)) s \<and> log_exact pl (im_records im) s \<and>
     marker_at pl (im_commit im) (wt_commit (st_writer g)) s \<and> data_ok pl im (st_writer g) \<and>
     unat (wt_durable_seq (st_writer g)) = im_hw im \<and> pointers_ok (st_writer g) (im_manifest im)"

text \<open>The same store, at most one generation of the marker later.\<close>

definition im_gen :: "image \<Rightarrow> nat" where "im_gen im = unat (cr_gen (im_commit im))"

definition recovers :: "image \<Rightarrow> image \<Rightarrow> bool" where
  "recovers im im' \<longleftrightarrow> same_store im im' \<and> im_gen im' \<le> im_gen im + 1"

lemma recovers_refl [simp]: "recovers im im"
  by (simp add: recovers_def)

lemma next_gen_le: "cr_gen n = cr_gen r + 1 \<Longrightarrow> unat (cr_gen n) \<le> unat (cr_gen r) + 1"
  by (simp add: unat_word_ariths)

text \<open>A directory from which recovery rebuilds the store of an image.\<close>

definition holds :: "'g platform \<Rightarrow> image \<Rightarrow> fs \<Rightarrow> bool" where
  "holds pl im s \<longleftrightarrow> (\<exists>im'. on_disk pl im' s \<and> image_ok im' \<and> recovers im im')"

text \<open>The same after a power cut, at whatever moment.\<close>

definition outlasts :: "'g platform \<Rightarrow> image \<Rightarrow> fs \<Rightarrow> bool" where
  "outlasts pl im s \<longleftrightarrow> survives pl (\<lambda>x. image_ok x \<and> recovers im x) s"

lemma outlastsI: "survives pl P s \<Longrightarrow> (\<And>x. P x \<Longrightarrow> image_ok x \<and> recovers im x) \<Longrightarrow> outlasts pl im s"
  unfolding outlasts_def by (rule survives_mono)

lemma holdsI: "on_disk pl im' s \<Longrightarrow> image_ok im' \<Longrightarrow> recovers im im' \<Longrightarrow> holds pl im s"
  by (auto simp: holds_def)

text \<open>A handle fresh from recovery: nothing in its log is uncommitted.\<close>

definition caught_up :: "'g persistent_graph \<Rightarrow> bool" where
  "caught_up g \<longleftrightarrow> wt_durable_seq (st_writer g) = wt_seq (st_writer g)"

definition reattached :: "'g platform \<Rightarrow> image \<Rightarrow> image \<Rightarrow> 'g persistent_graph \<Rightarrow> fs \<Rightarrow> bool" where
  "reattached pl im im' g s \<longleftrightarrow> attached pl im' g s \<and> recovers im im' \<and> caught_up g \<and>
     (calm s \<longrightarrow> tidy (wt_snapshot_file (st_writer g)) s)"

text \<open>Torn writes of the next slot are detected: by the checksum, or because there are none.\<close>

definition tears_detected :: "'g platform \<Rightarrow> image \<Rightarrow> fs \<Rightarrow> bool" where
  "tears_detected pl im s \<longleftrightarrow> calm s \<or>
     (\<forall>cb i r. file_bytes s commit_name = Some cb \<longrightarrow> pick_slot (x_crc pl) cb = Some (im_commit im, i) \<longrightarrow>
        cr_gen r = cr_gen (im_commit im) + 1 \<longrightarrow> tear_detected (x_crc pl) cb (1 - i) r)"

definition gen_room :: "image \<Rightarrow> bool" where
  "gen_room im \<longleftrightarrow> cr_gen (im_commit im) + 1 \<noteq> 0"

lemma runs_keeps: "runs m s Q X \<Longrightarrow> keeps p m \<Longrightarrow> runs m s (\<lambda>x s'. p s' = p s \<and> Q x s') (\<lambda>s'. p s' = p s \<and> X s')"
  using keeps_snd [of p m s] by (auto simp: runs_def split: prod.splits sum.splits)

section \<open>Cutting the log at the committed boundary\<close>

lemma shortened_recovers: "shortened im im' \<Longrightarrow> image_ok im \<Longrightarrow> image_ok im' \<and> recovers im im'"
  using shortened_image [of im im'] by (simp add: recovers_def im_gen_def)

lemma cut_image:
  assumes "image_ok im"
  shows "image_ok (im\<lparr>im_records := take (im_hw im - im_base im) (im_records im)\<rparr>)"
    and "recovers im (im\<lparr>im_records := take (im_hw im - im_base im) (im_records im)\<rparr>)"
  using assms consecutive_take by (auto simp: image_ok_def recovers_def im_gen_def same_store_def im_hw_def im_snap_def im_batches_def)

lemma truncate_image:
  assumes disk: "on_disk pl im s" and ok: "image_ok im" and at: "fd_at s fd wal_name"
    and n: "n = frames_length pl (take (im_hw im - im_base im) (im_records im))"
  defines "im' \<equiv> im\<lparr>im_records := take (im_hw im - im_base im) (im_records im)\<rparr>"
  shows "runs (truncate_to fd n) s
    (\<lambda>_ s'. evolves {wal_name} s s' \<and> fs_dir s' = fs_dir s \<and> on_disk pl im' s' \<and> log_exact pl (im_records im') s' \<and>
       (power_safe pl im s \<longrightarrow> synced im' s'))
    (\<lambda>s'. fails {wal_name} s s' \<and> holds pl im s' \<and> (power_safe pl im s \<longrightarrow> outlasts pl im s'))"
proof -
  have dir: "keeps fs_dir (truncate_to fd n)" unfolding truncate_to_def by (intro keeps)
  obtain lb where lb: "file_bytes s wal_name = Some lb" "log_bytes pl (im_records im) lb" and fs: "fs_ok s"
    using disk by (auto simp: on_disk_def)
  note len = frames_length_take [OF lb(2), of "im_hw im - im_base im", folded n]
  have cut: "frames (x_crc pl) (x_wal_to pl) (im_records im') = Inr (take n lb)" using len(2) by (simp add: im'_def)
  have new: "on_disk pl im' s'" if "evolves {wal_name} s s'" "file_bytes s' wal_name = Some (take n lb)" for s'
    using on_disk_log [OF disk ok that log_exact_bytes [OF cut]] by (simp add: im'_def)
  have old: "on_disk pl im s'" if "evolves {wal_name} s s'" "file_bytes s' wal_name = Some lb" for s'
    using on_disk_log [OF disk ok that lb(2)] by simp
  have h: "holds pl im s'" if "evolves {wal_name} s s'" "file_bytes s' wal_name \<in> {Some lb, Some (take n lb)}" for s'
    using that new [OF that(1)] old [OF that(1)] holdsI [OF _ ok recovers_refl] holdsI [OF _ cut_image [OF ok]]
    by (auto simp: im'_def)
  have power: "runs (truncate_to fd n) s (\<lambda>_ s'. power_safe pl im s \<longrightarrow> durable s' wal_name)
      (\<lambda>s'. power_safe pl im s \<longrightarrow> log_kept n lb s')"
    by (rule runs_imp [OF truncate_to_power [OF fs at lb(1) len(1)]]) (simp add: power_safe_def n)
  have sync: "synced im' s'" if "evolves {wal_name} s s'" "power_safe pl im s" "durable s' wal_name" for s'
    by (rule synced_log [OF that(2,1) fs ok that(3)]) (simp add: im'_def)
  have kept: "outlasts pl im s'" if "evolves {wal_name} s s'" "power_safe pl im s" "log_kept n lb s'" for s'
    using outlastsI [OF log_kept_survives [OF disk ok that(1,2) lb(1)]] that(3) shortened_recovers [OF _ ok] by (simp add: n)
  show ?thesis
    by (rule runs_mono [OF runs_conj [OF runs_keeps [OF truncate_to_runs [OF fs at lb(1) len(1)] dir] power]])
      (use new h cut sync kept in \<open>auto simp: log_exact_def fails_def\<close>)
qed

section \<open>Advancing the marker\<close>

lemma commit_at_same_dir:
  "evolves D s s' \<Longrightarrow> fs_dir s' = fs_dir s \<Longrightarrow> cf_file c' = cf_file c \<Longrightarrow> commit_at c s \<Longrightarrow> commit_at c' s'"
  by (auto simp: commit_at_def evolves_def fd_at_def)

lemma advance_image:
  fixes epoch :: u128 and seq :: u64
  assumes disk: "on_disk pl im s" and ok: "image_ok im" and mk: "marker_at pl (im_commit im) c s"
    and room: "gen_room im" and tears: "tears_detected pl im s"
  defines "n \<equiv> next_record epoch seq c"
  shows "runs (commit_advance (x_crc pl) epoch seq) (c, s)
    (\<lambda>_ (c', s'). evolves {commit_name} s s' \<and> on_disk pl (im\<lparr>im_commit := n\<rparr>) s' \<and> marker_at pl n c' s' \<and>
       (synced im s \<longrightarrow> synced (im\<lparr>im_commit := n\<rparr>) s'))
    (\<lambda>(c', s'). fails {commit_name} s s' \<and> c' = c \<and> (on_disk pl im s' \<or> on_disk pl (im\<lparr>im_commit := n\<rparr>) s') \<and>
       (synced im s \<longrightarrow> survives pl (\<lambda>x. x = im \<or> x = im\<lparr>im_commit := n\<rparr>) s'))"
proof -
  obtain cb i where cb: "file_bytes s commit_name = Some cb" "commit_live (x_crc pl) cb (im_commit im) i" "cf_next_slot c = 1 - i"
    and c: "commit_at c s" "cf_next_gen c = cr_gen (im_commit im) + 1"
    using mk by (auto simp: marker_at_def)
  have gen: "cr_gen n = cr_gen (im_commit im) + 1" "cr_gen (im_commit im) + 1 \<noteq> 0"
    using c(2) room by (simp_all add: n_def next_record_def gen_room_def)
  note live = commit_write_live [OF cb(2) gen]
  have written: "on_disk pl (im\<lparr>im_commit := n\<rparr>) s' \<and> marker_at pl n c' s'"
    if "slot_written s c (encode_slot (x_crc pl) n) s'" "c' = advanced c" "fs_dir s' = fs_dir s" for c' s'
  proof
    have w: "evolves {commit_name} s s'" "file_bytes s' commit_name = Some (write_at cb ((1 - i) * slot_size) (encode_slot (x_crc pl) n))"
      using that(1) by (simp_all add: slot_written_def cb)
    show "on_disk pl (im\<lparr>im_commit := n\<rparr>) s'" by (rule on_disk_commit [OF disk ok w live(1)])
    have "i \<le> 1" using cb(2) pick_slot_index by (auto simp: commit_live_def)
    then show "marker_at pl n c' s'"
      using w live(1) commit_at_same_dir [OF w(1) that(3) _ c(1), of c'] that(2) gen(1) c(2) cb(3)
      by (auto simp: marker_at_def advanced_def)
  qed
  have tear: "tear_detected (x_crc pl) cb (1 - i) n" if "\<not> calm s"
    using tears that cb gen(1) by (auto simp: tears_detected_def commit_live_def)
  have torn: "on_disk pl im s' \<or> on_disk pl (im\<lparr>im_commit := n\<rparr>) s'"
    if "slot_written s c (take k (encode_slot (x_crc pl) n)) s'" "\<not> calm s" for k s'
  proof -
    have w: "evolves {commit_name} s s'" "file_bytes s' commit_name = Some (write_at cb ((1 - i) * slot_size) (take k (encode_slot (x_crc pl) n)))"
      using that(1) by (simp_all add: slot_written_def cb)
    show ?thesis
      using live(2) [OF tear [OF that(2)], of k] on_disk_commit [OF disk ok w, of "im_commit im" i] on_disk_commit [OF disk ok w, of n "1 - i"] by auto
  qed
  have dir: "fs_dir s' = fs_dir s" if "commit_advance (x_crc pl) epoch seq (c, s) = (r, (c', s'))" for r c' s'
    using keeps_pairD [OF keeps_advance [OF descriptor_safe(2)] that] by simp
  have runs: "runs (commit_advance (x_crc pl) epoch seq) (c, s)
    (\<lambda>_ (c', s'). slot_written s c (encode_slot (x_crc pl) n) s' \<and> c' = advanced c)
    (\<lambda>(c', s'). \<not> calm s \<and> c' = c \<and> (\<exists>k. slot_written s c (take k (encode_slot (x_crc pl) n)) s'))"
    using commit_advance_runs [OF c(1)] by (simp add: n_def)
  obtain r c' s' where r: "commit_advance (x_crc pl) epoch seq (c, s) = (r, (c', s'))" by (metis prod_cases3)
  have fs: "fs_ok s" using disk by (simp add: on_disk_def)
  have pos: "cf_next_slot c * slot_size \<le> length cb"
    using cb(2) slot_offset pick_slot_index [of "x_crc pl" cb "im_commit im" i] by (auto simp: commit_live_def cb(3))
  have power: "runs (commit_advance (x_crc pl) epoch seq) (c, s) (\<lambda>_ (c', s'). durable s' commit_name)
      (\<lambda>(c', s'). slot_torn c (encode_slot (x_crc pl) n) s s')" if "synced im s"
    unfolding n_def by (rule commit_advance_power [OF c(1) _ cb(1) pos]) (use that in \<open>simp add: synced_iff\<close>)
  have sync: "synced (im\<lparr>im_commit := n\<rparr>) s'" if "synced im s" "evolves {commit_name} s s'" "r = Inr ()"
    using power [OF that(1)] that(3) synced_marker [OF that(1,2) fs ok] by (simp add: runs_def r)
  have cut: "survives pl (\<lambda>x. x = im \<or> x = im\<lparr>im_commit := n\<rparr>) s'"
    if s: "synced im s" and e: "evolves {commit_name} s s'" and f: "r = Inl e" "\<not> calm s" for e
  proof -
    have t: "slot_torn c (encode_slot (x_crc pl) n) s s'" using power [OF s] f(1) by (simp add: runs_def r)
    have "survives pl (\<lambda>im'. \<exists>r. (r = im_commit im \<or> r = n) \<and> im' = im\<lparr>im_commit := r\<rparr>) s'"
    proof (rule marker_cut_survives [OF disk s ok e])
      fix F E t assume cut: "power_cut F E s' t"
      obtain j where "file_bytes t commit_name = Some (write_at cb ((1 - i) * slot_size) (take j (encode_slot (x_crc pl) n)))"
        using t [unfolded slot_torn_def, rule_format, OF cut] by (auto simp: cb)
      then show "\<exists>cb r i. file_bytes t commit_name = Some cb \<and> commit_live (x_crc pl) cb r i \<and> (r = im_commit im \<or> r = n)"
        using live(2) [OF tear [OF f(2)], of j] by blast
    qed
    then show ?thesis by (rule survives_mono) auto
  qed
  show ?thesis
    using runs dir [OF r] written torn sync cut by (cases r) (auto simp: runs_def r fails_def slot_written_def)
qed

section \<open>Replacing the manifest\<close>

lemma stamp_simps [simp]:
  "mf_snapshot_file (stamp_manifest crc32 m) = mf_snapshot_file m" "mf_snapshot_seq (stamp_manifest crc32 m) = mf_snapshot_seq m"
  "mf_snapshot_crc32 (stamp_manifest crc32 m) = mf_snapshot_crc32 m" "mf_format_version (stamp_manifest crc32 m) = mf_format_version m"
  "mf_high_seq (stamp_manifest crc32 m) = mf_high_seq m" "mf_compaction_id (stamp_manifest crc32 m) = mf_compaction_id m"
  by (simp_all add: stamp_manifest_def)

lemma manifest_cut:
  assumes disk: "on_disk pl im s" and ok: "image_ok im" and fs: "fs_ok t"
    and same: "\<And>p. durable s p \<Longrightarrow> p \<notin> {manifest_name, tmp_name manifest_name} \<Longrightarrow> file_bytes t p = file_bytes s p"
    and d: "synced im s" "durable s (mf_snapshot_file m)"
    and man: "file_bytes t manifest_name \<in> {file_bytes s manifest_name, Some b}" and b: "check_manifest (x_crc pl) (x_json_of pl) b = Inr m'"
    and m: "mf_snapshot_file m \<notin> reserved" "file_bytes s (mf_snapshot_file m) = Some sb" "base_bytes pl sb (mf_snapshot_crc32 m) N E"
    and m': "mf_snapshot_file m' = mf_snapshot_file m" "mf_snapshot_crc32 m' = mf_snapshot_crc32 m"
  shows "on_disk pl im t \<or> on_disk pl (im\<lparr>im_manifest := m', im_nodes := N, im_edges := E\<rparr>) t"
proof -
  have t: "file_bytes t wal_name = file_bytes s wal_name" "file_bytes t commit_name = file_bytes s commit_name"
    "file_bytes t (mf_snapshot_file m) = file_bytes s (mf_snapshot_file m)"
    "file_bytes t (mf_snapshot_file (im_manifest im)) = file_bytes s (mf_snapshot_file (im_manifest im))"
    using same d m(1) image_ok_file [OF ok] by (auto simp: synced_iff reserved_def)
  show ?thesis using man disk fs t b m m' by (auto simp: on_disk_def)
qed

lemma manifest_image:
  assumes pl: "platform_ok pl" "no_zero_checksum pl" and disk: "on_disk pl im s" and ok: "image_ok im"
    and m: "mf_snapshot_file m \<notin> reserved" "file_bytes s (mf_snapshot_file m) = Some sb" "base_bytes pl sb (mf_snapshot_crc32 m) N E"
  defines "im' \<equiv> im\<lparr>im_manifest := stamp_manifest (x_crc pl) m, im_nodes := N, im_edges := E\<rparr>"
  shows "runs (save_manifest pl m) s
    (\<lambda>_ s'. evolves {manifest_name, tmp_name manifest_name} s s' \<and> on_disk pl im' s' \<and>
       (synced im s \<and> durable s (mf_snapshot_file m) \<longrightarrow> synced im' s'))
    (\<lambda>s'. fails {manifest_name, tmp_name manifest_name} s s' \<and> (on_disk pl im s' \<or> on_disk pl im' s') \<and>
       (synced im s \<and> durable s (mf_snapshot_file m) \<longrightarrow> survives pl (\<lambda>x. x = im \<or> x = im') s'))"
proof -
  let ?D = "{manifest_name, tmp_name manifest_name}" and ?m = "stamp_manifest (x_crc pl) m"
  obtain b where b: "x_json_to pl ?m = Some b" using pl(1) unfolding platform_ok_def by auto
  have fs: "fs_ok s" using disk by (simp add: on_disk_def)
  have new: "on_disk pl im' s'" if "evolves ?D s s'" "file_bytes s' manifest_name = Some b" for s'
    using on_disk_manifest [OF disk ok that stamped_reads [OF pl b], of sb N E] m by (simp add: im'_def)
  have old: "on_disk pl im s'" if e: "evolves ?D s s'" and f: "file_bytes s' manifest_name = file_bytes s manifest_name" for s'
  proof -
    obtain b0 sb0 where o: "file_bytes s manifest_name = Some b0" "check_manifest (x_crc pl) (x_json_of pl) b0 = Inr (im_manifest im)"
      "file_bytes s (mf_snapshot_file (im_manifest im)) = Some sb0"
      "base_bytes pl sb0 (mf_snapshot_crc32 (im_manifest im)) (im_nodes im) (im_edges im)"
      using disk by (auto simp: on_disk_def)
    show ?thesis using on_disk_manifest [OF disk ok e f [unfolded o(1)] o(2) image_ok_file [OF ok] o(3,4)] by simp
  qed
  have save: "save_manifest pl m = write_file_atomic manifest_name b"
    by (simp add: save_manifest_def write_manifest_atomic_def fun_eq_iff b)
  have power: "runs (save_manifest pl m) s (\<lambda>_ s'. durable s' manifest_name)
      (\<lambda>s'. settled s manifest_name \<longrightarrow> (\<forall>F E t. power_cut F E s' t \<longrightarrow> file_bytes t manifest_name \<in> {file_bytes s manifest_name, Some b}))"
    unfolding save by (rule write_file_atomic_power [OF fs])
  have keep: "durable s' p" if "evolves ?D s s'" "durable s p" "p \<notin> ?D" for s' p
    using durable_evolves [OF that(2,1) fs that(3)] .
  have sync: "synced im' s'" if "evolves ?D s s'" "synced im s" "durable s (mf_snapshot_file m)" "durable s' manifest_name" for s'
    using that(2-4) keep [OF that(1)] m(1) by (simp add: synced_iff im'_def reserved_def)
  have cut: "survives pl (\<lambda>x. x = im \<or> x = im') s'"
    if e: "evolves ?D s s'" and d: "synced im s" "durable s (mf_snapshot_file m)"
      and f: "settled s manifest_name \<longrightarrow> (\<forall>F E t. power_cut F E s' t \<longrightarrow> file_bytes t manifest_name \<in> {file_bytes s manifest_name, Some b})" for s'
    unfolding survives_def
  proof (intro allI impI)
    fix F E t assume c: "power_cut F E s' t"
    have "settled s manifest_name" using d(1) by (simp add: settled_def synced_iff)
    then have man: "file_bytes t manifest_name \<in> {file_bytes s manifest_name, Some b}" using f c by blast
    have same: "file_bytes t p = file_bytes s p" if "durable s p" "p \<notin> ?D" for p
      using durable_cut [OF c keep [OF e that]] evolvesD(2) [OF e fs that(2)] by simp
    have "on_disk pl im t \<or> on_disk pl im' t"
      using manifest_cut [OF disk ok power_cut_fs(1) [OF c] same d man stamped_reads [OF pl b] m] by (simp add: im'_def)
    then show "\<exists>x. on_disk pl x t \<and> (x = im \<or> x = im')" by blast
  qed
  show ?thesis
    by (rule runs_mono [OF runs_conj [OF save_manifest_runs [OF fs] power]]) (use new old b sync cut in \<open>auto simp: fails_def\<close>)
qed

section \<open>Moving facts along\<close>

lemma log_exact_evolves: "log_exact pl rs s \<Longrightarrow> evolves D s s' \<Longrightarrow> fs_ok s \<Longrightarrow> wal_name \<notin> D \<Longrightarrow> log_exact pl rs s'"
  by (auto simp: log_exact_def evolvesD(2))

lemma marker_at_evolves: "marker_at pl r c s \<Longrightarrow> evolves D s s' \<Longrightarrow> commit_name \<notin> D \<Longrightarrow> marker_at pl r c s'"
  using commit_at_evolves [of D s s' c c] evolvesD(2) [of D s s' commit_name] by (auto simp: marker_at_def commit_at_def)

lemma tears_evolves:
  "tears_detected pl im s \<Longrightarrow> evolves D s s' \<Longrightarrow> fs_ok s \<Longrightarrow> commit_name \<notin> D \<Longrightarrow> im_commit im' = im_commit im \<Longrightarrow> tears_detected pl im' s'"
  using evolvesD(2,5) [of D s s'] by (auto simp: tears_detected_def)

lemma wal_at_same_dir: "evolves D s s' \<Longrightarrow> fs_dir s' = fs_dir s \<Longrightarrow> ww_file w' = ww_file w \<Longrightarrow> wal_at w s \<Longrightarrow> wal_at w' s'"
  by (auto simp: wal_at_def evolves_def fd_at_def)

lemma on_disk_fs: "on_disk pl im s \<Longrightarrow> fs_ok s"
  by (simp add: on_disk_def)

section \<open>The last steps of open\<close>

lemma advance_marker_image:
  fixes epoch :: u128 and seq :: u64
  assumes "on_disk pl im s" and "image_ok im" and "marker_at pl (im_commit im) c s" and "gen_room im" and "tears_detected pl im s"
  shows "runs (advance_marker pl c epoch seq) s
    (\<lambda>c' s'. evolves {commit_name} s s' \<and> on_disk pl (im\<lparr>im_commit := next_record epoch seq c\<rparr>) s' \<and> marker_at pl (next_record epoch seq c) c' s' \<and>
       (synced im s \<longrightarrow> synced (im\<lparr>im_commit := next_record epoch seq c\<rparr>) s'))
    (\<lambda>s'. fails {commit_name} s s' \<and> (on_disk pl im s' \<or> on_disk pl (im\<lparr>im_commit := next_record epoch seq c\<rparr>) s') \<and>
       (synced im s \<longrightarrow> survives pl (\<lambda>x. x = im \<or> x = im\<lparr>im_commit := next_record epoch seq c\<rparr>) s'))"
  using advance_image [OF assms, of epoch seq] by (auto simp: runs_def advance_marker_def split: prod.splits sum.splits)

lemma unat_max: "unat (max a b) = max (unat a) (unat (b :: 'a::len word))"
  by (simp add: max_def word_le_nat_alt)

text \<open>The image that \<open>open\<close> leaves: the log cut, the marker rewritten, the manifest restamped.\<close>

definition reopened :: "'g platform \<Rightarrow> image \<Rightarrow> commit_file \<Rightarrow> u128 \<Rightarrow> u64 \<Rightarrow> image" where
  "reopened pl im c epoch hw = im\<lparr>im_records := take (im_hw im - im_base im) (im_records im),
     im_commit := next_record epoch hw c,
     im_manifest := stamp_manifest (x_crc pl) (reopened_manifest (im_manifest im) epoch hw)\<rparr>"

lemma marked_image:
  assumes "image_ok im" and "unat (cr_committed_seq n) = im_hw im" and "cr_gen n = cr_gen (im_commit im) + 1"
  shows "image_ok (im\<lparr>im_commit := n\<rparr>)" and "recovers im (im\<lparr>im_commit := n\<rparr>)"
  using assms next_gen_le [OF assms(3)]
  by (auto simp: image_ok_def recovers_def im_gen_def same_store_def im_hw_def im_snap_def im_batches_def)

lemma reopened_image:
  assumes ok: "image_ok im" and hw: "unat hw = im_hw im" and gen: "cf_next_gen c = cr_gen (im_commit im) + 1"
  shows "image_ok (reopened pl im c epoch hw)" and "recovers im (reopened pl im c epoch hw)"
    and "im_hw (reopened pl im c epoch hw) = im_hw im"
proof -
  have snap: "im_snap im \<le> im_hw im" by (simp add: im_hw_def)
  have h: "im_hw (reopened pl im c epoch hw) = im_hw im" and s: "im_snap (reopened pl im c epoch hw) = im_snap im"
    using hw snap by (simp_all add: reopened_def next_record_def reopened_manifest_def im_hw_def im_snap_def)
  show "im_hw (reopened pl im c epoch hw) = im_hw im" by (rule h)
  show "image_ok (reopened pl im c epoch hw)"
    unfolding image_ok_def h s
    using ok hw consecutive_take by (auto simp: image_ok_def reopened_def reopened_manifest_def)
  have "same_store im (reopened pl im c epoch hw)"
    unfolding same_store_def h s im_batches_def by (simp add: reopened_def)
  moreover have "im_gen (reopened pl im c epoch hw) \<le> im_gen im + 1"
    using next_gen_le [of "next_record epoch hw c" "im_commit im"] gen by (simp add: im_gen_def reopened_def next_record_def)
  ultimately show "recovers im (reopened pl im c epoch hw)" by (simp add: recovers_def)
qed

lemma finish_open_runs:
  assumes pl: "platform_ok pl" "no_zero_checksum pl" and disk: "on_disk pl im s" and ok: "image_ok im"
    and at: "fd_at s fd wal_name" "vf_append (fs_fds s fd)" and mk: "marker_at pl (im_commit im) c s"
    and room: "gen_room im" and tears: "tears_detected pl im s" and locked: "fs_locked s" and hw: "unat hw = im_hw im"
    and base: "base_ok (x_graph pl) base" "base_nodes (x_graph pl) base = im_nodes im" "base_edges (x_graph pl) base = im_edges im"
    and r: "rp_delta r = replay_all (as_accessor (x_graph pl) base) (im_batches im) delta_new" "rp_last_applied r = hw"
      "rp_committed_end r = frames_length pl (take (im_hw im - im_base im) (im_records im))"
  shows "runs (finish_open pl (im_manifest im) mode prefault base fd scan c hw r) s
    (\<lambda>g s'. \<exists>im'. reattached pl im im' g s' \<and> calm s' = calm s \<and> (power_safe pl im s \<longrightarrow> synced im' s'))
    (\<lambda>s'. \<not> calm s \<and> holds pl im s' \<and> (power_safe pl im s \<longrightarrow> outlasts pl im s'))"
    (is "runs _ _ ?Q ?X")
proof -
  let ?im1 = "im\<lparr>im_records := take (im_hw im - im_base im) (im_records im)\<rparr>"
  let ?im2 = "\<lambda>epoch. ?im1\<lparr>im_commit := next_record epoch hw c\<rparr>"
  have fs: "fs_ok s" using disk by (simp add: on_disk_def)
  have gen: "cf_next_gen c = cr_gen (im_commit im) + 1" using mk by (simp add: marker_at_def)
  have one: "image_ok ?im1" "recovers im ?im1" using cut_image [OF ok] .
  have hw1: "im_hw ?im1 = im_hw im" by (simp add: im_hw_def im_snap_def)
  have two: "image_ok (?im2 e)" "recovers im (?im2 e)" for e
    using marked_image [OF one(1), of "next_record e hw c"] same_store_trans [of im ?im1] one(2) hw hw1 gen
    by (simp_all add: next_record_def recovers_def im_gen_def)
  have "im_base im \<le> im_hw im" using ok by (auto simp: image_ok_def im_hw_def)
  then have len: "im_hw im = im_base im + min (length (im_records im)) (im_hw im - im_base im)"
    using ok by (auto simp: image_ok_def)
  define I where "I s1 \<longleftrightarrow> evolves {wal_name} s s1 \<and> on_disk pl ?im1 s1 \<and> log_exact pl (im_records ?im1) s1 \<and>
      fd_at s1 fd wal_name \<and> vf_append (fs_fds s1 fd) \<and> marker_at pl (im_commit im) c s1 \<and> (power_safe pl im s \<longrightarrow> synced ?im1 s1)" for s1
  have I_next: "I s2" if "I s1" "evolves {} s1 s2" for s1 s2
  proof -
    have i: "evolves {wal_name} s s1" "on_disk pl ?im1 s1" "log_exact pl (im_records ?im1) s1" "fd_at s1 fd wal_name"
      "vf_append (fs_fds s1 fd)" "marker_at pl (im_commit im) c s1" "power_safe pl im s \<Longrightarrow> synced ?im1 s1" using that(1) by (auto simp: I_def)
    note f1 = on_disk_fs [OF i(2)]
    show ?thesis unfolding I_def
      using evolves_then [OF i(1) evolves_mono [OF that(2)]] on_disk_evolves [OF i(2) that(2)] log_exact_evolves [OF i(3) that(2) f1]
        evolves_fd [OF that(2) f1 i(4)] marker_at_evolves [OF i(6) that(2)] i(5) synced_evolves [OF i(7) that(2) f1] by simp
  qed
  have I_holds: "?X s1" if "I s1" "\<not> calm s1" for s1
    using that holdsI [OF _ one, of pl s1] evolvesD(5) [of "{wal_name}" s s1] outlastsI [OF synced_survives, of pl ?im1 s1 im] one
    by (auto simp: I_def)
  have I_image: "I s1 \<Longrightarrow> on_disk pl ?im1 s1" for s1 by (simp add: I_def)
  have first: "runs (truncate_to fd (rp_committed_end r)) s (\<lambda>_. I) ?X"
  proof (rule runs_mono [OF truncate_image [OF disk ok at(1) r(3)]], goal_cases)
    case (1 x s1)
    then have e: "evolves {wal_name} s s1" "fs_dir s1 = fs_dir s" by simp_all
    have "wal_at (wal_new fd OnFlush 0) s1"
      by (rule wal_at_same_dir [OF e, where w = "wal_new fd OnFlush 0"]) (use at fs in \<open>simp_all add: wal_at_def wal_new_def\<close>)
    then show ?case using 1 marker_at_evolves [OF mk e(1)] by (simp add: I_def wal_at_def wal_new_def)
  next
    case (2 s1)
    then show ?case by (simp add: fails_def)
  qed
  have mint: "runs (if b then mint_epoch else returnI (mf_epoch (im_manifest im))) s1 (\<lambda>_. I) ?X" if "I s1" for b s1
  proof -
    have x: "?X s2" if "fails {} s1 s2" for s2
      using that I_next [OF \<open>I s1\<close>, of s2] I_holds [of s2] evolvesD(5) [of "{}" s1 s2] by (auto simp: fails_def)
    have "runs mint_epoch s1 (\<lambda>_. I) ?X"
      unfolding mint_epoch_def
      by (rule runs_bindI [OF runs_steady [OF steady_entropy]]) (use I_next [OF that] x in \<open>auto simp: runs_def\<close>)
    then show ?thesis using that by (simp add: runs_def)
  qed
  have last: "runs (bindI (advance_marker pl c epoch hw) (\<lambda>commit.
      bindI (save_manifest pl (reopened_manifest (im_manifest im) epoch hw)) (\<lambda>_ s.
       (Inr (opened_store pl (im_manifest im) mode prefault base fd commit hw epoch scan r),
        gc_orphan_snapshots (x_order pl) (mf_snapshot_file (im_manifest im)) s)))) s1 ?Q ?X" if i: "I s1" for epoch s1
  proof (rule runs_bindI [where ?Q1.0 = "\<lambda>c' s2. evolves {commit_name} s1 s2 \<and> on_disk pl (?im2 epoch) s2 \<and> marker_at pl (next_record epoch hw c) c' s2 \<and>
          (power_safe pl im s \<longrightarrow> synced (?im2 epoch) s2)"
        and ?X1.0 = ?X])
    have i': "evolves {wal_name} s s1" "on_disk pl ?im1 s1" "log_exact pl (im_records ?im1) s1" "wal_at (wal_new fd OnFlush 0) s1"
      "marker_at pl (im_commit ?im1) c s1" "power_safe pl im s \<Longrightarrow> synced ?im1 s1" using i by (auto simp: I_def wal_at_def wal_new_def on_disk_def)
    have calm: "calm s1 = calm s" by (rule evolvesD(5) [OF i'(1)])
    have t1: "tears_detected pl ?im1 s1" using tears_evolves [OF tears i'(1) fs] by simp
    have room1: "gen_room ?im1" using room by (simp add: gen_room_def)
    show "runs (advance_marker pl c epoch hw) s1
        (\<lambda>c' s2. evolves {commit_name} s1 s2 \<and> on_disk pl (?im2 epoch) s2 \<and> marker_at pl (next_record epoch hw c) c' s2 \<and>
          (power_safe pl im s \<longrightarrow> synced (?im2 epoch) s2)) ?X"
    proof (rule runs_mono [OF advance_marker_image [OF i'(2) one(1) i'(5) room1 t1]], goal_cases)
      case (1 c' s2)
      then show ?case using i'(6) by simp
    next
      case (2 s2)
      have "outlasts pl im s2" if "power_safe pl im s"
        by (rule outlastsI [where P = "\<lambda>x. x = ?im1 \<or> x = ?im2 epoch"]) (use 2 i'(6) [OF that] one two in auto)
      then show ?case using 2 calm holdsI [OF _ one] holdsI [OF _ two] by (auto simp: fails_def)
    qed
    fix c' s2 assume s2: "evolves {commit_name} s1 s2 \<and> on_disk pl (?im2 epoch) s2 \<and> marker_at pl (next_record epoch hw c) c' s2 \<and>
        (power_safe pl im s \<longrightarrow> synced (?im2 epoch) s2)"
    let ?m = "reopened_manifest (im_manifest im) epoch hw" and ?im3 = "reopened pl im c epoch hw"
    obtain sb where sb: "file_bytes s2 (mf_snapshot_file (im_manifest im)) = Some sb"
      "base_bytes pl sb (mf_snapshot_crc32 (im_manifest im)) (im_nodes im) (im_edges im)" using s2 by (auto simp: on_disk_def)
    have im3: "(?im2 epoch)\<lparr>im_manifest := stamp_manifest (x_crc pl) ?m, im_nodes := im_nodes im, im_edges := im_edges im\<rparr> = ?im3"
      by (cases im) (simp add: reopened_def)
    have fs2: "fs_ok s2" using s2 by (simp add: on_disk_def)
    have c2: "calm s2 = calm s" using calm s2 evolvesD(5) by blast
    note three = reopened_image [OF ok hw gen, of pl epoch]
    have log2: "log_exact pl (im_records ?im1) s2" "wal_at (wal_new fd OnFlush 0) s2"
      using s2 log_exact_evolves [OF i'(3), of "{commit_name}" s2] on_disk_fs [OF i'(2)]
        wal_at_evolves [of "{commit_name}" s1 s2 "wal_new fd OnFlush 0" "wal_new fd OnFlush 0"] i'(4) by simp_all
    show "runs (bindI (save_manifest pl ?m) (\<lambda>_ s. (Inr (opened_store pl (im_manifest im) mode prefault base fd c' hw epoch scan r),
        gc_orphan_snapshots (x_order pl) (mf_snapshot_file (im_manifest im)) s))) s2 ?Q ?X"
    proof (rule runs_bindI [OF manifest_image [OF pl conjunct1 [OF conjunct2 [OF s2]] two(1), of ?m sb "im_nodes im" "im_edges im", unfolded im3]])
      show "mf_snapshot_file ?m \<notin> reserved" using image_ok_file [OF ok] by (simp add: reopened_manifest_def)
      show "file_bytes s2 (mf_snapshot_file ?m) = Some sb" "base_bytes pl sb (mf_snapshot_crc32 ?m) (im_nodes im) (im_edges im)"
        using sb by (simp_all add: reopened_manifest_def)
      have stable: "synced (?im2 epoch) s2 \<and> durable s2 (mf_snapshot_file ?m)" if "power_safe pl im s"
        using s2 that by (simp add: synced_iff reopened_manifest_def)
      show "?X s3" if f: "fails {manifest_name, tmp_name manifest_name} s2 s3 \<and> (on_disk pl (?im2 epoch) s3 \<or> on_disk pl ?im3 s3) \<and>
          (synced (?im2 epoch) s2 \<and> durable s2 (mf_snapshot_file ?m) \<longrightarrow> survives pl (\<lambda>x. x = ?im2 epoch \<or> x = ?im3) s3)" for s3
      proof -
        have "outlasts pl im s3" if "power_safe pl im s"
          by (rule outlastsI [where P = "\<lambda>x. x = ?im2 epoch \<or> x = ?im3"]) (use f stable [OF that] two three(1,2) in auto)
        moreover have "fails {manifest_name, tmp_name manifest_name} s2 s3" "on_disk pl (?im2 epoch) s3 \<or> on_disk pl ?im3 s3" using f by blast+
        ultimately show ?thesis using c2 holdsI [OF _ two] holdsI [OF _ three(1,2)] by (auto simp: fails_def)
      qed
      fix x :: unit and s3 assume s3: "evolves {manifest_name, tmp_name manifest_name} s2 s3 \<and> on_disk pl ?im3 s3 \<and>
          (synced (?im2 epoch) s2 \<and> durable s2 (mf_snapshot_file ?m) \<longrightarrow> synced ?im3 s3)"
      let ?g = "opened_store pl (im_manifest im) mode prefault base fd c' hw epoch scan r"
      let ?s = "gc_orphan_snapshots (x_order pl) (mf_snapshot_file (im_manifest im)) s3"
      let ?O = "{p. is_orphan p \<and> p \<noteq> mf_snapshot_file (im_manifest im)}"
      have gc: "evolves ?O s3 ?s" by (rule gc_evolves)
      have fs3: "fs_ok s3" using s3 by (simp add: on_disk_def)
      have e3: "evolves {manifest_name, tmp_name manifest_name} s2 s3" using s3 by simp
      have "on_disk pl ?im3 ?s" using on_disk_evolves [OF conjunct1 [OF conjunct2 [OF s3]] gc] by (auto simp: im_files_def reopened_def reopened_manifest_def)
      moreover have "log_exact pl (im_records ?im3) ?s"
        using log_exact_evolves [OF log_exact_evolves [OF log2(1) e3 fs2] gc fs3] by (simp add: reopened_def)
      moreover have "wal_at (wt_wal (st_writer ?g)) ?s"
        by (rule wal_at_evolves [OF gc _ _ wal_at_evolves [OF e3 _ refl log2(2)]]) (simp_all add: opened_store_def wal_new_def)
      moreover have "marker_at pl (im_commit ?im3) (wt_commit (st_writer ?g)) ?s"
        using marker_at_evolves [OF marker_at_evolves [OF _ e3] gc, of pl "next_record epoch hw c" c'] s2
        by (simp add: reopened_def opened_store_def)
      moreover have "fs_locked ?s"
        using evolvesD(4) [OF gc] evolvesD(4) [OF e3] evolvesD(4) [of "{commit_name}" s1 s2] s2 evolvesD(4) [OF i'(1)] locked by simp
      moreover have "data_ok pl ?im3 (st_writer ?g)"
        using base r hw len
        by (simp add: data_ok_def opened_store_def reopened_def im_batches_def im_snap_def reopened_manifest_def)
      moreover have "store_inv ?g" using r(2) hw by (simp add: store_inv_def published_iff opened_store_def word_le_nat_alt im_hw_def im_snap_def)
      moreover have "\<not> poisoned (st_writer ?g)" by (simp add: poisoned_def opened_store_def wal_new_def)
      moreover have "unat (wt_durable_seq (st_writer ?g)) = im_hw ?im3" using hw three(3) by (simp add: opened_store_def)
      moreover have "pointers_ok (st_writer ?g) (im_manifest ?im3)"
        by (simp add: pointers_ok_def opened_store_def reopened_def reopened_manifest_def)
      ultimately have "attached pl ?im3 ?g ?s" using three(1) by (simp add: attached_def)
      moreover have "calm ?s \<Longrightarrow> tidy (wt_snapshot_file (st_writer ?g)) ?s"
        using gc_tidy [of s3 "x_order pl"] evolvesD(5) [OF gc] pl(1) by (simp add: platform_ok_def opened_store_def)
      ultimately have "reattached pl im ?im3 ?g ?s"
        using three(2) r(2) by (simp add: reattached_def caught_up_def opened_store_def)
      moreover have "calm ?s = calm s" using evolvesD(5) [OF gc] evolvesD(5) [OF e3] c2 by simp
      moreover have "synced ?im3 ?s" if "power_safe pl im s"
        using synced_evolves [OF _ gc fs3, of ?im3] s3 stable [OF that] by (auto simp: im_files_def reopened_def reopened_manifest_def)
      ultimately have "reattached pl im ?im3 ?g ?s \<and> calm ?s = calm s \<and> (power_safe pl im s \<longrightarrow> synced ?im3 ?s)" by blast
      then show "runs (\<lambda>s. (Inr ?g, gc_orphan_snapshots (x_order pl) (mf_snapshot_file (im_manifest im)) s)) s3 ?Q ?X"
        by (auto simp: runs_def)
    qed
  qed simp
  show ?thesis unfolding finish_open_def
    by (rule runs_bindI [OF first]) (use runs_bindI [OF mint last] in auto)
qed

section \<open>Open\<close>

text \<open>What replaying the committed records of an image gives.\<close>

lemma replay_image:
  assumes pl: "platform_ok pl" and ok: "image_ok im" and log: "log_bytes pl (im_records im) lb" and hw: "unat hw = im_hw im"
    and scan: "sr_records scan = im_records im" "sr_valid_end scan = frames_length pl (im_records im)"
  shows "\<exists>r. replay_committed pl A hw (mf_snapshot_seq (im_manifest im)) scan = Inr r \<and>
    rp_delta r = replay_all A (im_batches im) delta_new \<and> rp_last_applied r = hw \<and>
    rp_committed_end r = frames_length pl (take (im_hw im - im_base im) (im_records im))"
proof -
  let ?snap = "mf_snapshot_seq (im_manifest im)"
  let ?s = "\<lparr>rp_delta = delta_new, rp_expected_next = ?snap + 1, rp_last_applied = ?snap, rp_committed_end = 0, rp_uncommitted = 0\<rparr>"
  obtain bs where bs: "frames (x_crc pl) (x_wal_to pl) (im_records im) = Inr bs" using log by (auto simp: log_bytes_def)
  have cons: "consecutive (im_base im) (im_records im)" "im_base im \<le> im_snap im" "im_hw im \<le> im_base im + length (im_records im)"
    using ok by (simp_all add: image_ok_def)
  have at: "replay_at (unat ?snap) (im_base im) ?s" using cons(2) by (simp add: replay_at_def im_snap_def)
  have le: "im_base im \<le> unat hw" "unat hw \<le> im_base im + length (im_records im)" "unat ?snap \<le> unat hw"
    using cons hw by (simp_all add: im_hw_def im_snap_def)
  obtain r where r: "replay_records pl A hw ?snap (im_records im) ?s = Inr r"
    "rp_delta r = replay_all A (map wr_ops (drop (unat ?snap - im_base im) (take (unat hw - im_base im) (im_records im)))) delta_new"
    "rp_last_applied r = hw" "rp_committed_end r = frames_length pl (take (unat hw - im_base im) (im_records im))"
    using replay_records_consecutive [OF cons(1) bs le at, of A] by auto
  have "rp_committed_end r \<le> sr_valid_end scan"
    using frames_length_take(1) [OF log_exact_bytes [OF bs], of "im_hw im - im_base im"] bs by (simp add: r(4) scan(2) hw frames_length_def)
  then have "replay_committed pl A hw ?snap scan = Inr r" using r by (simp add: replay_committed_def scan(1) bindE_def)
  then show ?thesis using r(2-4) by (auto simp: im_batches_def hw im_snap_def)
qed

lemma holds_evolves: "on_disk pl im s \<Longrightarrow> image_ok im \<Longrightarrow> evolves {} s s' \<Longrightarrow> holds pl im s'"
  by (rule holdsI [OF on_disk_evolves]) auto

lemma outlasts_evolves:
  assumes disk: "on_disk pl im s" and ok: "image_ok im" and e: "evolves D s s'" "D \<inter> im_files im = {}" and safe: "power_safe pl im s"
  shows "outlasts pl im s'"
proof -
  have "power_safe pl im s'" by (rule power_safe_evolves [OF safe e(1) on_disk_fs [OF disk] e(2)])
  then show ?thesis
    using outlastsI [OF power_safe_survives [OF on_disk_evolves [OF disk e] ok]] shortened_recovers [OF _ ok] by blast
qed

lemma open_locked_runs:
  assumes pl: "platform_ok pl" "no_zero_checksum pl" and disk: "on_disk pl im s" and ok: "image_ok im"
    and room: "gen_room im" and tears: "tears_detected pl im s" and locked: "fs_locked s"
  shows "runs (open_locked pl mode validate prefault) s
    (\<lambda>g s'. \<exists>im'. reattached pl im im' g s' \<and> calm s' = calm s \<and> (power_safe pl im s \<longrightarrow> synced im' s'))
    (\<lambda>s'. \<not> calm s \<and> holds pl im s' \<and> (power_safe pl im s \<longrightarrow> outlasts pl im s'))"
    (is "runs _ _ ?Q ?X")
proof -
  let ?m = "im_manifest im" and ?hw = "max (cr_committed_seq (im_commit im)) (mf_snapshot_seq (im_manifest im))"
  obtain b sb lb cb i where b: "file_bytes s manifest_name = Some b" "check_manifest (x_crc pl) (x_json_of pl) b = Inr ?m"
    and sb: "file_bytes s (mf_snapshot_file ?m) = Some sb" "base_bytes pl sb (mf_snapshot_crc32 ?m) (im_nodes im) (im_edges im)"
    and lb: "file_bytes s wal_name = Some lb" "log_bytes pl (im_records im) lb"
    and cb: "file_bytes s commit_name = Some cb" "commit_live (x_crc pl) cb (im_commit im) i" and fs: "fs_ok s"
    using disk by (auto simp: on_disk_def)
  have version: "mf_format_version ?m = 3" using ok by (simp add: image_ok_def)
  have hw: "unat ?hw = im_hw im" by (simp add: unat_max im_hw_def im_snap_def)
  have high: "\<not> ?hw < mf_high_seq ?m" using ok hw by (simp add: image_ok_def word_less_nat_alt)
  have X: "?X s'" if "fails {} s0 s'" "evolves {} s s0" for s0 s'
    using that holds_evolves [OF disk ok] outlasts_evolves [OF disk ok] evolves_then [of "{}" s s0 s'] evolvesD(5) [OF that(2)] by (auto simp: fails_def)
  have X0: "?X s'" if "fails {} s s'" for s' using X [OF that evolves_refl] .
  have same: "file_bytes s0 p = file_bytes s p" if "evolves {} s s0" for s0 p using evolvesD(2) [OF that fs] by simp
  have finish: "runs (bindI (liftE (replay_committed pl (as_accessor (x_graph pl) base) ?hw (mf_snapshot_seq ?m) scan)) (\<lambda>r.
      finish_open pl ?m mode prefault base fd scan c ?hw r)) s0 ?Q ?X"
    if e: "evolves {} s s0" and base: "base_ok (x_graph pl) base" "base_nodes (x_graph pl) base = im_nodes im" "base_edges (x_graph pl) base = im_edges im"
      and at: "fd_at s0 fd wal_name" "vf_append (fs_fds s0 fd)"
      and scan: "sr_records scan = im_records im" "sr_valid_end scan = frames_length pl (im_records im)"
      and mk: "commit_at c s0" "cf_next_slot c = 1 - i" "cf_next_gen c = cr_gen (im_commit im) + 1"
    for s0 base fd scan c
  proof -
    obtain r where r: "replay_committed pl (as_accessor (x_graph pl) base) ?hw (mf_snapshot_seq ?m) scan = Inr r"
      "rp_delta r = replay_all (as_accessor (x_graph pl) base) (im_batches im) delta_new" "rp_last_applied r = ?hw"
      "rp_committed_end r = frames_length pl (take (im_hw im - im_base im) (im_records im))"
      using replay_image [OF pl(1) ok lb(2) hw scan] by blast
    have disk0: "on_disk pl im s0" using on_disk_evolves [OF disk e] by simp
    have mk0: "marker_at pl (im_commit im) c s0" using mk cb same [OF e] by (auto simp: marker_at_def)
    have l0: "fs_locked s0" using locked evolvesD(4) [OF e] by simp
    have t0: "tears_detected pl im s0" by (rule tears_evolves [OF tears e fs]) simp_all
    have "runs (finish_open pl ?m mode prefault base fd scan c ?hw r) s0
        (\<lambda>g s'. \<exists>im'. reattached pl im im' g s' \<and> calm s' = calm s0 \<and> (power_safe pl im s0 \<longrightarrow> synced im' s'))
        (\<lambda>s'. \<not> calm s0 \<and> holds pl im s' \<and> (power_safe pl im s0 \<longrightarrow> outlasts pl im s'))"
      by (rule finish_open_runs [OF pl disk0 ok at mk0 room t0 l0 hw base r(2-4)])
    then have "runs (finish_open pl ?m mode prefault base fd scan c ?hw r) s0 ?Q ?X"
      by (rule runs_mono) (use evolvesD(5) [OF e] power_safe_evolves [OF _ e fs, of pl im] in auto)
    then show ?thesis by (simp add: runs_def bindI_def r(1))
  qed
  show ?thesis
    unfolding open_locked_def
  proof (rule runs_bindI [OF read_manifest_runs [OF b]], goal_cases)
    case (1 m s1)
    then have e1: "evolves {} s s1" and m: "m = ?m" by simp_all
    have nv: "\<not> mf_format_version m > format_version" by (simp add: m version format_version_def)
    show ?case unfolding if_not_P [OF nv]
    proof (rule runs_bindI [OF load_base_runs [of s1 m sb pl "im_nodes im" "im_edges im"]], goal_cases)
      case (4 base s2)
      then have e2: "evolves {} s s2" using evolves_then [OF e1] by blast
      show ?case
      proof (rule runs_bindI [OF open_wal_runs [of s2 lb]], goal_cases)
        case (2 fd s3)
        then have e3: "evolves {} s s3" using evolves_then [OF e2] by blast
        have fs3: "fs_ok s3" using evolvesD(1) [OF e3 fs] .
        show ?case
        proof (rule runs_bindI [OF read_and_scan_runs [OF pl(1) fs3, of fd lb "im_records im"]], goal_cases)
          case (4 scan s4)
          then have e4: "evolves {} s s4" and e34: "evolves {} s3 s4" using evolves_then [OF e3] by blast+
          have fs4: "fs_ok s4" using evolvesD(1) [OF e4 fs] .
          show ?case
          proof (rule runs_bindI [OF commit_open_runs [OF fs4, of cb _ "im_commit im" i]], goal_cases)
            case (3 rc s5)
            obtain rec c where rc: "rc = (rec, c)" by fastforce
            have e5: "evolves {} s s5" and e45: "evolves {} s4 s5" and rec: "rec = im_commit im"
              using 3 evolves_then [OF e4] by (auto simp: rc)
            have at5: "fd_at s5 fd wal_name" "vf_append (fs_fds s5 fd)"
              using evolves_fd [OF evolves_then [OF e34 e45] fs3, of fd wal_name] \<open>evolves {} s2 s3 \<and> _\<close> by auto
            show ?case
              using finish [OF e5 _ _ _ at5, of base scan c] 3 4 \<open>evolves {} s1 s2 \<and> _\<close> high
              by (simp add: rc rec m Let_def del: max_less_iff_conj)
          qed (use cb same [OF e4] X [OF _ e4] in auto)
        qed (use 2 lb same [OF e3] X [OF _ e3] in auto)
      qed (use lb same [OF e2] X [OF _ e2] in auto)
    qed (use sb same [OF e1] X [OF _ e1] version m in auto)
  qed (use X0 in auto)
qed

section \<open>Under the lock\<close>

lemma lock_simps [simp]:
  "fs_ok (s\<lparr>fs_locked := b\<rparr>) = fs_ok s" "file_bytes (s\<lparr>fs_locked := b\<rparr>) = file_bytes s" "calm (s\<lparr>fs_locked := b\<rparr>) = calm s"
  "path_exists p (s\<lparr>fs_locked := b\<rparr>) = path_exists p s"
  by (simp_all add: fs_ok_def file_bytes_def calm_def path_exists_def fun_eq_iff)

lemma on_disk_lock [simp]: "on_disk pl im (s\<lparr>fs_locked := b\<rparr>) = on_disk pl im s"
  by (simp add: on_disk_def)

lemma holds_lock [simp]: "holds pl im (lock_release s) = holds pl im s"
  by (simp add: holds_def lock_release_def)

lemma power_cut_lock [simp]: "power_cut F E (s\<lparr>fs_locked := b\<rparr>) = power_cut F E s"
  by (simp add: power_cut_def fun_eq_iff)

lemma survives_lock [simp]: "survives pl P (s\<lparr>fs_locked := b\<rparr>) = survives pl P s"
  by (simp add: survives_def)

lemma outlasts_lock [simp]: "outlasts pl im (lock_release s) = outlasts pl im s"
  by (simp add: outlasts_def lock_release_def)

lemma power_safe_lock [simp]: "power_safe pl im (s\<lparr>fs_locked := b\<rparr>) = power_safe pl im s"
  by (simp add: power_safe_def durable_def log_safe_def pinned_def)

lemma tears_lock [simp]: "tears_detected pl im (s\<lparr>fs_locked := b\<rparr>) = tears_detected pl im s"
  by (simp add: tears_detected_def)

lemma new_file_evolves:
  assumes "fmlookup (fs_dir s) p = None"
  shows "evolves {p} s (s\<lparr>fs_next_inode := Suc (fs_next_inode s), fs_dir := fmupd p (fs_next_inode s) (fs_dir s),
       fs_data := (fs_data s)(fs_next_inode s := [])\<rparr>)" (is "evolves _ _ ?s")
proof -
  have old: "q \<noteq> p \<Longrightarrow> fmlookup (fs_dir s) q \<noteq> Some (fs_next_inode s)" if "fs_ok s" for q
    using that by (auto simp: fs_ok_def)
  have "fs_ok s \<Longrightarrow> fs_ok ?s" using assms by (auto simp: fs_ok_def less_Suc_eq)
  moreover have "file_bytes ?s q = file_bytes s q" if "fs_ok s" "q \<noteq> p" for q
    using old [OF that] that(2) by (cases "fmlookup (fs_dir s) q") (auto simp: file_bytes_def)
  ultimately show ?thesis by (simp add: evolves_def settles_def absent_def pinned_def)
qed

lemma lock_acquire_runs:
  assumes "\<not> fs_locked s"
  shows "runs lock_acquire s (\<lambda>_ s'. fs_locked s' \<and> (\<exists>s0. evolves {''LOCK''} s s0 \<and> s' = s0\<lparr>fs_locked := True\<rparr>)) (fails {''LOCK''} s)"
  unfolding lock_acquire_def
proof (rule runs_bindI [where ?Q1.0 = "\<lambda>_. evolves {''LOCK''} s" and ?X1.0 = "fails {''LOCK''} s"])
  show "runs (io open_lock_file) s (\<lambda>_. evolves {''LOCK''} s) (fails {''LOCK''} s)"
  proof -
    have "evolves {''LOCK''} x (if path_exists ''LOCK'' x then x
       else x\<lparr>fs_next_inode := Suc (fs_next_inode x), fs_dir := fmupd ''LOCK'' (fs_next_inode x) (fs_dir x), fs_data := (fs_data x)(fs_next_inode x := [])\<rparr>)" for x
      by (simp add: evolves_refl path_exists_def new_file_evolves)
    then have "evolves {''LOCK''} s s' \<and> (calm s \<longrightarrow> r = Inr ())" if "open_lock_file s = (r, s')" for r s'
      using that effect_cases [of _ s r s'] effect_evolves [of _ s r s' "{''LOCK''}"] unfolding open_lock_file_def by blast
    then show ?thesis by (intro runs_io) (fastforce simp: fails_def)+
  qed
next
  fix x :: unit and s1 assume e: "evolves {''LOCK''} s s1"
  let ?s = "s1\<lparr>fs_clock := Suc (fs_clock s1)\<rparr>"
  have e': "evolves {''LOCK''} s ?s" by (rule evolves_then [OF e evolves_quiet]) simp_all
  show "runs (\<lambda>s. case try_lock_exclusive s of (Inr _, s) \<Rightarrow> (Inr (), s)
      | (Inl e, s) \<Rightarrow> (Inl (if e = WouldBlockIo then LockHeld [] else Io e), s)) s1
    (\<lambda>_ s'. fs_locked s' \<and> (\<exists>s0. evolves {''LOCK''} s s0 \<and> s' = s0\<lparr>fs_locked := True\<rparr>)) (fails {''LOCK''} s)"
    using e' evolvesD(4,5) [OF e] assms
    by (auto simp: runs_def try_lock_exclusive_def tick_def fails_def calm_def split: fault.splits)
qed auto

lemma with_lock_runs:
  assumes "\<not> fs_locked s"
    and body: "\<And>s0. evolves {''LOCK''} s s0 \<Longrightarrow> runs body (s0\<lparr>fs_locked := True\<rparr>) Q (\<lambda>s'. X (lock_release s'))"
    and X: "\<And>s'. fails {''LOCK''} s s' \<Longrightarrow> X s'"
  shows "runs (with_lock body) s Q X"
proof -
  obtain r s1 where r: "lock_acquire s = (r, s1)" by fastforce
  show ?thesis
  proof (cases r)
    case (Inl e)
    then show ?thesis using lock_acquire_runs [OF assms(1)] X by (simp add: runs_def with_lock_def r)
  next
    case (Inr x)
    then obtain s0 where s0: "evolves {''LOCK''} s s0" "s1 = s0\<lparr>fs_locked := True\<rparr>"
      using lock_acquire_runs [OF assms(1)] by (auto simp: runs_def r)
    show ?thesis using body [OF s0(1)] by (auto simp: runs_def with_lock_def r Inr s0(2) split: prod.splits sum.splits)
  qed
qed

text \<open>The theorem of recovery.\<close>

theorem open_runs:
  assumes pl: "platform_ok pl" "no_zero_checksum pl" and disk: "on_disk pl im s" and ok: "image_ok im"
    and room: "gen_room im" and tears: "tears_detected pl im s" and free: "\<not> fs_locked s"
  shows "runs (open_with_vfs pl create mode validate prefault) s
    (\<lambda>g s'. \<exists>im'. reattached pl im im' g s' \<and> calm s' = calm s \<and> (power_safe pl im s \<longrightarrow> synced im' s'))
    (\<lambda>s'. \<not> calm s \<and> holds pl im s' \<and> (power_safe pl im s \<longrightarrow> outlasts pl im s'))"
    (is "runs _ _ ?Q ?X")
proof -
  let ?v = "case validate of NoValidate \<Rightarrow> Crc | v \<Rightarrow> v"
  have fs: "fs_ok s" using disk by (rule on_disk_fs)
  have LOCK: "{''LOCK''} \<inter> im_files im = {}" using image_ok_file [OF ok] by (auto simp: im_files_def reserved_def)
  have "runs (with_lock (open_locked pl mode ?v prefault)) s ?Q ?X"
  proof (rule with_lock_runs [OF free])
    fix s0 assume e: "evolves {''LOCK''} s s0"
    have disk0: "on_disk pl im (s0\<lparr>fs_locked := True\<rparr>)" using on_disk_evolves [OF disk e LOCK] by simp
    have tears0: "tears_detected pl im (s0\<lparr>fs_locked := True\<rparr>)" using tears_evolves [OF tears e fs] by simp
    show "runs (open_locked pl mode ?v prefault) (s0\<lparr>fs_locked := True\<rparr>) ?Q (\<lambda>s'. ?X (lock_release s'))"
      by (rule runs_mono [OF open_locked_runs [OF pl disk0 ok room tears0]]) (use evolvesD(5) [OF e] power_safe_evolves [OF _ e fs LOCK, of pl] in auto)
  next
    fix s' assume "fails {''LOCK''} s s'"
    then show "?X s'" using on_disk_evolves [OF disk _ LOCK] holdsI [OF _ ok recovers_refl] outlasts_evolves [OF disk ok _ LOCK] by (auto simp: fails_def)
  qed
  moreover have "path_exists manifest_name s" using disk by (auto simp: on_disk_def path_exists_def file_bytes_def)
  ultimately show ?thesis by (simp add: runs_def open_with_vfs_def Let_def)
qed

end
