(* ===== verification/OG_Create.thy ===== *)
theory OG_Create
  imports OG_Open
begin

text \<open>
  \<open>create\<close>: on success the handle is attached to an image of the given graph with an empty log; on
  failure, a fault occurred and the directory either has no MANIFEST or holds that image, also
  after a power cut.
\<close>

section \<open>Filling a new file\<close>

lemma fd_same_dir: "evolves D s s' \<Longrightarrow> fs_dir s' = fs_dir s \<Longrightarrow> fd_at s fd p \<Longrightarrow>
    fd_at s' fd p \<and> vf_append (fs_fds s' fd) = vf_append (fs_fds s fd)"
  by (auto simp: evolves_def fd_at_def)

lemma quiet_step:
  assumes "evolves D s s1" and "fs_ok s" and "evolves {} s1 s2"
  shows "evolves D s s2" and "fs_ok s2" and "file_bytes s2 p = file_bytes s1 p" and "calm s2 = calm s"
  using evolves_then [OF assms(1) evolves_mono [OF assms(3)]] evolvesD(1,5) [OF assms(1)] evolvesD(1,2,5) [OF assms(3)] assms(2) by auto

lemma failing_step: "evolves D s s1 \<Longrightarrow> fails D' s1 s2 \<Longrightarrow> D' \<subseteq> D \<Longrightarrow> fails D s s2"
  unfolding fails_def using evolves_then [OF _ evolves_mono] evolvesD(5) by blast

lemma commit_create_runs:
  fixes epoch :: u128 and seq :: u64
  assumes fs: "fs_ok s"
  defines "r \<equiv> \<lparr>cr_epoch = epoch, cr_committed_seq = seq, cr_gen = 0\<rparr>"
  shows "runs (commit_create (x_crc pl) epoch seq) s
    (\<lambda>c s'. evolves {commit_name} s s' \<and> marker_at pl r c s' \<and> durable s' commit_name) (fails {commit_name} s)"
  unfolding commit_create_def r_def [symmetric]
proof (rule runs_bindI [OF vfs_create_runs], goal_cases)
  case (1 fd s1)
  then have e1: "evolves {commit_name} s s1" and new: "fd_at s1 fd commit_name" "file_bytes s1 commit_name = Some []"
    "write_pos s1 fd = 0" "\<not> vf_append (fs_fds s1 fd)" using fs by auto
  have f1: "fs_ok s1" using evolvesD(1) [OF e1 fs] .
  let ?slot = "encode_slot (x_crc pl) r"
  have at: "fd_at s2 fd commit_name \<and> \<not> vf_append (fs_fds s2 fd)" if "evolves {commit_name} s s2" "evolves D s1 s2" "fs_dir s2 = fs_dir s1" for s2 D
    using fd_same_dir [OF that(2,3) new(1)] new(4) by simp
  have fail: "fails {commit_name} s s3" if "fails D s2 s3" "evolves {commit_name} s s2" "D \<subseteq> {commit_name}" for D s2 s3
    using failing_step [OF that(2,1,3)] .
  show ?case
  proof (rule runs_bindI [where ?Q1.0 = "\<lambda>_ s2. evolves {} s1 s2 \<and> fs_dir s2 = fs_dir s1 \<and> write_pos s2 fd = 0" and ?X1.0 = "fails {} s1"])
    have seek: "runs (io (file_seek_start fd 0)) s1 (\<lambda>_ s2. evolves {} s1 s2 \<and> write_pos s2 fd = 0) (fails {} s1)"
    proof (rule runs_io, goal_cases)
      case (1 x s2)
      then show ?case using steady_seek [of fd 0] seek_pos [OF 1 new(4)] by (auto simp: steady_def)
    next
      case (2 e s2)
      then show ?case using steady_seek [of fd 0] by (fastforce simp: steady_def fails_def)
    qed
    have "keeps fs_dir (io (file_seek_start fd 0))" by (intro keeps)
    from runs_keeps [OF seek this]
    show "runs (io (file_seek_start fd 0)) s1 (\<lambda>_ s2. evolves {} s1 s2 \<and> fs_dir s2 = fs_dir s1 \<and> write_pos s2 fd = 0) (fails {} s1)"
      by (rule runs_mono) auto
  next
    fix s2 assume "fails {} s1 s2"
    then show "fails {commit_name} s s2" using fail e1 by blast
  next
    fix x :: unit and s2 assume s2: "evolves {} s1 s2 \<and> fs_dir s2 = fs_dir s1 \<and> write_pos s2 fd = 0"
    have e2: "evolves {commit_name} s s2" "fs_ok s2" "file_bytes s2 commit_name = Some []"
      using quiet_step [OF e1 fs, of s2] s2 new(2) by auto
    have at2: "fd_at s2 fd commit_name" using at [OF e2(1), of "{}"] s2 by blast
    show "runs (bindI (io (file_write_all fd ?slot)) (\<lambda>_. bindI (io (file_sync_all fd)) (\<lambda>_. bindI (io vfs_fsync_dir) (\<lambda>_.
        returnI \<lparr>cf_file = fd, cf_next_slot = 1, cf_next_gen = 1\<rparr>)))) s2
      (\<lambda>c s'. evolves {commit_name} s s' \<and> marker_at pl r c s' \<and> durable s' commit_name) (fails {commit_name} s)"
    proof (rule runs_bindI [OF runs_keeps [OF write_all_fresh [OF e2(2) at2 e2(3)], where p = fs_dir]], goal_cases)
      case (3 x s3)
      then have s3: "evolves {commit_name} s2 s3" "fs_dir s3 = fs_dir s1" "file_bytes s3 commit_name = Some ?slot" using s2 by auto
      have e3: "evolves {commit_name} s s3" using evolves_then [OF e2(1) s3(1)] .
      have f3: "fs_ok s3" using evolvesD(1) [OF e3 fs] .
      have at3: "fd_at s3 fd commit_name" "\<not> vf_append (fs_fds s3 fd)"
        using at [OF e3 evolves_then [OF evolves_mono [of "{}" s1 s2 "{commit_name}"] s3(1)] s3(2)] s2 by auto
      have live: "commit_live (x_crc pl) ?slot r 0"
        by (simp add: commit_live_def pick_slot_def slot_at_def slot_size_def slice_def decode_encode_slot)
      have "marker_at pl r \<lparr>cf_file = fd, cf_next_slot = 1, cf_next_gen = 1\<rparr> s3"
        using at3 f3 s3(3) live by (auto simp: marker_at_def commit_at_def r_def)
      then have m: "marker_at pl r \<lparr>cf_file = fd, cf_next_slot = 1, cf_next_gen = 1\<rparr> s4" if "evolves {} s3 s4" for s4
        using marker_at_evolves that by blast
      show ?case
        by (rule sync_named_runs [OF f3 at3(1)]) (use quiet_step(1) [OF e3 fs] m fail [OF _ e3] in \<open>auto simp: runs_def\<close>)
    qed (use s2 fail [OF _ e2(1)] in \<open>auto intro: keeps\<close>)
  qed
next
  case (2 s1)
  then show ?case .
qed

section \<open>Create\<close>

lemma written_base_bytes:
  assumes "platform_ok pl" and "og_ok (x_graph pl) G" and "small_graph (x_graph pl) G" and "snapshot_bytes pl G = Inr bytes"
  shows "base_bytes pl bytes (x_crc pl bytes) (og_nodes (x_graph pl) G) (og_edges (x_graph pl) G)"
  unfolding base_bytes_def
proof (intro allI)
  fix mode validate prefault
  have w: "to_rkyv_v2 (x_csr_to pl) (x_graph pl) G = Some bytes" using assms(4) by (simp add: snapshot_bytes_def split: option.splits)
  have p: "codec_ok (x_csr_to pl) (x_csr_access pl)" "unchecked_ok (x_csr_access pl) (x_csr_unchecked pl)" "digraph_laws (x_graph pl)"
    using assms(1) by (simp_all add: platform_ok_def)
  show "\<exists>b. open_snapshot (x_crc pl) (x_csr_access pl) (x_csr_unchecked pl) (x_graph pl) (Inr bytes) mode validate prefault (x_crc pl bytes) = Inr b \<and>
      base_ok (x_graph pl) b \<and> base_nodes (x_graph pl) b = og_nodes (x_graph pl) G \<and> base_edges (x_graph pl) b = og_edges (x_graph pl) G"
    by (rule open_written [OF p assms(2,3) w, where ?crc32.0 = "x_crc pl" and mode = mode and validate = validate and prefault = prefault]) blast
qed

lemma snapshot_bytes_total:
  assumes "small_graph (x_graph pl) G"
  shows "\<exists>bytes. snapshot_bytes pl G = Inr bytes"
proof -
  obtain a where "to_csr (x_graph pl) G = Some a" using to_csr_total [OF assms] by blast
  then show ?thesis by (simp add: snapshot_bytes_def to_rkyv_v2_def)
qed

text \<open>An image of a graph with nothing applied to it.\<close>

definition fresh_image :: "'g platform \<Rightarrow> 'g orpheus_graph \<Rightarrow> image \<Rightarrow> bool" where
  "fresh_image pl G im \<longleftrightarrow>
     im_nodes im = og_nodes (x_graph pl) G \<and> im_edges im = og_edges (x_graph pl) G \<and> im_snap im = 0 \<and> im_hw im = 0 \<and>
     im_base im = 0 \<and> im_records im = [] \<and> cr_gen (im_commit im) = 0 \<and> image_ok im"

definition created :: "'g platform \<Rightarrow> 'g orpheus_graph \<Rightarrow> bytes \<Rightarrow> u128 \<Rightarrow> image" where
  "created pl G bytes epoch = \<lparr>
     im_manifest = stamp_manifest (x_crc pl) (fresh_manifest (snapshot_v2_name 0 0) (x_crc pl bytes) epoch),
     im_nodes = og_nodes (x_graph pl) G, im_edges = og_edges (x_graph pl) G, im_base = 0, im_records = [],
     im_commit = \<lparr>cr_epoch = epoch, cr_committed_seq = 0, cr_gen = 0\<rparr>\<rparr>"

lemma created_fresh: "fresh_image pl G (created pl G bytes epoch)"
  by (simp add: fresh_image_def created_def image_ok_def im_snap_def im_hw_def fresh_manifest_def format_version_def)

definition no_store :: "fs \<Rightarrow> bool" where
  "no_store s \<longleftrightarrow> \<not> path_exists manifest_name s"

lemma no_store_iff: "no_store s \<longleftrightarrow> file_bytes s manifest_name = None"
  by (simp add: no_store_def path_exists_def file_bytes_def)

lemma no_store_evolves: "no_store s \<Longrightarrow> evolves D s s' \<Longrightarrow> fs_ok s \<Longrightarrow> manifest_name \<notin> D \<Longrightarrow> no_store s'"
  by (simp add: no_store_iff evolvesD(2))

definition fresh_or_none :: "'g platform \<Rightarrow> 'g orpheus_graph \<Rightarrow> fs \<Rightarrow> bool" where
  "fresh_or_none pl G s \<longleftrightarrow> no_store s \<or> (\<exists>im. on_disk pl im s \<and> fresh_image pl G im)"

lemma fresh_or_none_lock [simp]: "fresh_or_none pl G (s\<lparr>fs_locked := b\<rparr>) = fresh_or_none pl G s"
  by (simp add: fresh_or_none_def no_store_def)

lemma create_locked_runs:
  assumes pl: "platform_ok pl" "no_zero_checksum pl" and G: "og_ok (x_graph pl) G" "small_graph (x_graph pl) G"
    and fs: "fs_ok s" and none: "no_store s" and locked: "fs_locked s"
  shows "runs (create_locked pl G) s
    (\<lambda>g s'. \<exists>im. attached pl im g s' \<and> fresh_image pl G im \<and> synced im s')
    (\<lambda>s'. \<not> calm s \<and> fresh_or_none pl G s' \<and> (absent s manifest_name \<longrightarrow> (\<forall>F E t. power_cut F E s' t \<longrightarrow> fresh_or_none pl G t)))"
    (is "runs _ _ ?Q ?X")
proof -
  let ?snap = "snapshot_v2_name 0 0" and ?M = "{manifest_name, tmp_name manifest_name}"
  let ?D = "{snapshot_v2_name 0 0, tmp_name (snapshot_v2_name 0 0), wal_name, commit_name}"
  obtain bytes where bytes: "snapshot_bytes pl G = Inr bytes" using snapshot_bytes_total [OF G(2)] by blast
  let ?m = "\<lambda>epoch. fresh_manifest ?snap (x_crc pl bytes) epoch" and ?im = "created pl G bytes"
  have fresh: "?snap \<noteq> wal_name" "?snap \<noteq> commit_name" "?snap \<noteq> manifest_name" "?snap \<noteq> tmp_name manifest_name"
    "tmp_name ?snap \<noteq> wal_name" "tmp_name ?snap \<noteq> commit_name" "tmp_name ?snap \<noteq> manifest_name" "tmp_name ?snap \<noteq> tmp_name manifest_name"
    using snapshot_name_fixed [of 0 0] snapshot_tmp_fixed [of 0 0] by (auto simp: tmp_name_def)
  note base = written_base_bytes [OF pl(1) G bytes]
  define I where "I w s1 \<longleftrightarrow> evolves ?D s s1 \<and> fs_ok s1 \<and> file_bytes s1 ?snap = Some bytes \<and> durable s1 ?snap \<and>
      (w \<longrightarrow> file_bytes s1 wal_name = Some [] \<and> durable s1 wal_name)" for w s1
  have step: "I w s2" if "I w s1" "evolves D s1 s2" "D \<subseteq> {commit_name}" for w D s1 s2
  proof -
    have "?snap \<notin> D" "wal_name \<notin> D" "D \<subseteq> ?D" using that(3) fresh by auto
    then show ?thesis
      using that(1) evolves_then [OF _ evolves_mono [OF that(2)], of ?D s] evolvesD(1,2) [OF that(2)] durable_evolves [OF _ that(2)] by (simp add: I_def)
  qed
  have X: "?X s2" if "evolves ?D s s1" "fails D s1 s2" "D \<subseteq> ?D" for D s1 s2
  proof -
    have f: "fails ?D s s2" using failing_step [OF that] .
    then have e: "evolves ?D s s2" by (simp add: fails_def)
    have "no_store t" if "absent s manifest_name" "power_cut F E s2 t" for F E t
      using absent_cut(2) [OF absent_evolves [OF that(1) e fs] that(2)] fresh by (auto simp: no_store_iff)
    then show ?thesis using f no_store_evolves [OF none e fs] fresh by (auto simp: fails_def fresh_or_none_def)
  qed
  have XI: "?X s2" if "I w s1" "fails D s1 s2" "D \<subseteq> {commit_name}" for w D s1 s2
    by (rule X [OF _ that(2)]) (use that(1,3) in \<open>auto simp: I_def\<close>)
  have mark: "runs (bindI (commit_create (x_crc pl) epoch 0) (\<lambda>commit.
        bindI (save_manifest pl (?m epoch)) (\<lambda>_.
        bindI (io (vfs_open_append wal_name)) (\<lambda>wal_fd.
          returnI (fresh_store G wal_fd commit ?snap (x_crc pl bytes) epoch))))) s1 ?Q ?X" if i: "I True s1" for epoch s1
  proof (rule runs_bindI [OF commit_create_runs], goal_cases)
    case 1
    show ?case using i by (simp add: I_def)
  next
    case (2 c s2)
    let ?r = "\<lparr>cr_epoch = epoch, cr_committed_seq = 0, cr_gen = 0\<rparr> :: commit_record"
    have i2: "I True s2" using step [OF i] 2 by blast
    then have e2: "evolves ?D s s2" "fs_ok s2" "file_bytes s2 ?snap = Some bytes" "file_bytes s2 wal_name = Some []"
      "durable s2 ?snap" "durable s2 wal_name" by (simp_all add: I_def)
    have d2: "durable s2 commit_name" using 2 by simp
    have none2: "no_store s2" using no_store_evolves [OF none e2(1) fs] fresh by simp
    obtain b where b: "x_json_to pl (stamp_manifest (x_crc pl) (?m epoch)) = Some b" using pl(1) unfolding platform_ok_def by auto
    have image: "on_disk pl (?im epoch) s3" if "fs_ok s3" "file_bytes s3 manifest_name = Some b" "file_bytes s3 ?snap = file_bytes s2 ?snap"
      "file_bytes s3 wal_name = file_bytes s2 wal_name" "file_bytes s3 commit_name = file_bytes s2 commit_name" for s3
      using that e2(3,4) 2 stamped_reads [OF pl b] base log_exact_bytes [of pl "[]" "[]"]
      by (auto simp: on_disk_def created_def marker_at_def fresh_manifest_def)
    have kept: "file_bytes s3 q = file_bytes s2 q \<and> (durable s2 q \<longrightarrow> durable s3 q)" if "evolves ?M s2 s3" "q \<in> {?snap, wal_name, commit_name}" for s3 q
      using evolvesD(2) [OF that(1) e2(2), of q] durable_evolves [OF _ that(1) e2(2), of q] that(2) fresh by auto
    have image': "on_disk pl (?im epoch) s3" if e: "evolves ?M s2 s3" "file_bytes s3 manifest_name = Some b" for s3
      by (rule image [OF evolvesD(1) [OF e(1) e2(2)] e(2)]) (use kept [OF e(1)] in blast)+
    have save: "save_manifest pl (?m epoch) = write_file_atomic manifest_name b"
      by (simp add: save_manifest_def write_manifest_atomic_def fun_eq_iff b)
    have power: "runs (save_manifest pl (?m epoch)) s2 (\<lambda>_ s'. durable s' manifest_name)
        (\<lambda>s'. settled s2 manifest_name \<longrightarrow> (\<forall>F E t. power_cut F E s' t \<longrightarrow> file_bytes t manifest_name \<in> {file_bytes s2 manifest_name, Some b}))"
      unfolding save by (rule write_file_atomic_power [OF e2(2)])
    show ?case
    proof (rule runs_bindI [OF runs_conj [OF save_manifest_runs [OF e2(2)] power]], goal_cases)
      case (1 x s3)
      then have e3: "evolves ?M s2 s3" and disk: "on_disk pl (?im epoch) s3" and d3: "durable s3 manifest_name" using image' b by auto
      have sync3: "synced (?im epoch) s3"
        using kept [OF e3] e2(5,6) 2 d3 by (simp add: synced_iff created_def fresh_manifest_def)
      have at3: "file_bytes s3 wal_name = Some []" using evolvesD(2) [OF e3 e2(2)] e2(4) by simp
      have mk3: "marker_at pl ?r c s3" using marker_at_evolves [OF _ e3] 2 by auto
      have c3: "calm s3 = calm s" using evolvesD(5) [OF e3] evolvesD(5) [OF e2(1)] by simp
      have l3: "fs_locked s3" using evolvesD(4) [OF e3] evolvesD(4) [OF e2(1)] locked by simp
      have open_append: "runs (io (vfs_open_append wal_name)) s3
        (\<lambda>fd s'. evolves {} s3 s' \<and> fd_at s' fd wal_name \<and> vf_append (fs_fds s' fd) = True) (fails {} s3)"
        unfolding vfs_open_append_def by (rule open_named_runs [OF at3])
      show ?case
      proof (rule runs_bindI [OF open_append], goal_cases)
        case (1 fd s4)
        then have e4: "evolves {} s3 s4" by simp
        let ?g = "fresh_store G fd c ?snap (x_crc pl bytes) epoch"
        have "on_disk pl (?im epoch) s4" "marker_at pl ?r c s4" "fs_locked s4" "file_bytes s4 wal_name = Some []"
          using on_disk_evolves [OF disk e4] marker_at_evolves [OF mk3 e4] l3 evolvesD(4) [OF e4] evolvesD(2) [OF e4 on_disk_fs [OF disk]] at3 by simp_all
        moreover have "data_ok pl (?im epoch) (st_writer ?g)"
          using pl(1) G(1) by (simp add: data_ok_def fresh_store_def created_def platform_ok_def im_snap_def fresh_manifest_def)
        moreover have "wal_at (wt_wal (st_writer ?g)) s4" using 1 \<open>on_disk pl (?im epoch) s4\<close> by (simp add: fresh_store_def wal_new_def wal_at_def on_disk_def)
        moreover have "store_inv ?g" by (simp add: store_inv_def published_iff fresh_store_def)
        moreover have "log_exact pl (im_records (?im epoch)) s4" using \<open>file_bytes s4 wal_name = Some []\<close> by (simp add: log_exact_def created_def)
        moreover have "\<not> poisoned (st_writer ?g)" "pointers_ok (st_writer ?g) (im_manifest (?im epoch))"
          by (simp_all add: poisoned_def fresh_store_def wal_new_def pointers_ok_def created_def fresh_manifest_def)
        moreover have "im_commit (?im epoch) = ?r" "wt_commit (st_writer ?g) = c" "unat (wt_durable_seq (st_writer ?g)) = im_hw (?im epoch)"
          by (simp_all add: created_def fresh_store_def im_hw_def im_snap_def fresh_manifest_def)
        ultimately have "attached pl (?im epoch) ?g s4" using created_fresh [of pl G bytes epoch] by (simp add: attached_def fresh_image_def)
        moreover have "synced (?im epoch) s4" using synced_evolves [OF sync3 e4 on_disk_fs [OF disk]] by simp
        ultimately show ?case using created_fresh [of pl G bytes epoch] by (auto simp: runs_def)
      next
        case (2 s4)
        then have e4: "evolves {} s3 s4" and d4: "on_disk pl (?im epoch) s4" and nc: "\<not> calm s" using on_disk_evolves [OF disk] c3 by (auto simp: fails_def)
        have "synced (?im epoch) s4" using synced_evolves [OF sync3 e4 on_disk_fs [OF disk]] by simp
        then have "on_disk pl (?im epoch) t" if "power_cut F E s4 t" for F E t
          using synced_survives [OF d4] that unfolding survives_def by blast
        then show ?case using d4 nc created_fresh unfolding fresh_or_none_def by blast
      qed
    next
      case (2 s3)
      note X2 = \<open>_ \<and> (settled s2 manifest_name \<longrightarrow> _)\<close>
      have e3: "evolves ?M s2 s3" and nc: "\<not> calm s" and m3: "file_bytes s3 manifest_name \<in> {None, Some b}"
        using X2 b evolvesD(5) [OF e2(1)] none2 by (auto simp: no_store_iff)
      have "fresh_or_none pl G t" if a: "absent s manifest_name" and cut: "power_cut F E s3 t" for F E t
      proof -
        have "absent s2 manifest_name" by (rule absent_evolves [OF a e2(1) fs]) (use fresh in auto)
        then have m: "file_bytes t manifest_name \<in> {None, Some b}"
          using X2 cut none2 unfolding settled_def no_store_iff by metis
        have same: "file_bytes t q = file_bytes s2 q" if "q \<in> {?snap, wal_name, commit_name}" for q
          using kept [OF e3 that] durable_cut [OF cut, of q] that e2(5,6) d2 by auto
        have "on_disk pl (?im epoch) t" if "file_bytes t manifest_name = Some b"
          by (rule image [OF power_cut_fs(1) [OF cut] that]) (use same in blast)+
        then show ?thesis using m created_fresh [of pl G bytes epoch] by (auto simp: fresh_or_none_def no_store_iff)
      qed
      then show ?case using nc m3 image' [OF e3] created_fresh [of pl G bytes epoch] by (auto simp: fresh_or_none_def no_store_iff)
    qed
  next
    case (3 s2)
    then show ?case using XI [OF i] by blast
  qed
  have rest: "runs (bindI (io (file_sync_all fd)) (\<lambda>_. bindI (io vfs_fsync_dir) (\<lambda>_. bindI mint_epoch (\<lambda>epoch.
      bindI (commit_create (x_crc pl) epoch 0) (\<lambda>commit. bindI (save_manifest pl (?m epoch)) (\<lambda>_.
        bindI (io (vfs_open_append wal_name)) (\<lambda>wal_fd.
          returnI (fresh_store G wal_fd commit ?snap (x_crc pl bytes) epoch)))))))) s1 ?Q ?X"
    if i: "I False s1" and at: "fd_at s1 fd wal_name" and empty: "file_bytes s1 wal_name = Some []" for fd s1
    unfolding mint_epoch_def
  proof (rule sync_named_runs [OF _ at])
    show "fs_ok s1" using i by (simp add: I_def)
    show "?X s2" if "fails {} s1 s2" for s2 by (rule XI [OF i that]) simp
    fix s2 assume e: "evolves {} s1 s2" and d: "durable s2 wal_name"
    have "I False s2" by (rule step [OF i e]) simp
    then have i2: "I True s2" using d evolvesD(2) [OF e, of wal_name] i empty by (simp add: I_def)
    have mint: "runs (bindI (io draw_entropy) (\<lambda>buf. returnI (u128_of_le buf))) s2 (\<lambda>_. I True) ?X"
      by (rule runs_bindI [OF runs_steady [OF steady_entropy]]) (use step [OF i2] XI [OF i2] in \<open>auto simp: runs_def\<close>)
    show "runs (bindI (bindI (io draw_entropy) (\<lambda>buf. returnI (u128_of_le buf))) (\<lambda>epoch.
      bindI (commit_create (x_crc pl) epoch 0) (\<lambda>commit. bindI (save_manifest pl (?m epoch)) (\<lambda>_.
        bindI (io (vfs_open_append wal_name)) (\<lambda>wal_fd.
          returnI (fresh_store G wal_fd commit ?snap (x_crc pl bytes) epoch)))))) s2 ?Q ?X"
      by (rule runs_bindI [OF mint mark])
  qed
  have start: "evolves ?D s s" by (rule evolves_refl)
  have "runs (bindI (write_file_atomic ?snap bytes) (\<lambda>_. bindI (io (vfs_create wal_name)) (\<lambda>fd.
      bindI (io (file_sync_all fd)) (\<lambda>_. bindI (io vfs_fsync_dir) (\<lambda>_. bindI mint_epoch (\<lambda>epoch.
      bindI (commit_create (x_crc pl) epoch 0) (\<lambda>commit. bindI (save_manifest pl (?m epoch)) (\<lambda>_.
        bindI (io (vfs_open_append wal_name)) (\<lambda>wal_fd.
          returnI (fresh_store G wal_fd commit ?snap (x_crc pl bytes) epoch)))))))))) s ?Q ?X"
  proof (rule runs_bindI [OF runs_conj [OF write_file_atomic_runs [OF fs] write_file_atomic_power [OF fs]]], goal_cases)
    case (1 x s1)
    then have i1: "I False s1" using evolves_mono [of "{?snap, tmp_name ?snap}" s s1 ?D] evolvesD(1) [of "{?snap, tmp_name ?snap}" s s1] fs
      by (auto simp: I_def)
    show ?case
    proof (rule runs_bindI [OF vfs_create_runs], goal_cases)
      case (1 fd s2)
      then have e: "evolves {wal_name} s1 s2" and f: "fs_ok s1" "file_bytes s2 wal_name = Some []" "fd_at s2 fd wal_name" using i1 by (auto simp: I_def)
      have "I False s2"
        using i1 evolves_then [of ?D s s1 s2] evolves_mono [OF e, of ?D] evolvesD(1,2) [OF e f(1)] durable_evolves [OF _ e f(1)] fresh by (auto simp: I_def)
      then show ?case by (rule rest [OF _ f(3,2)])
    next
      case (2 s2)
      then show ?case using X [of s1 "{wal_name}" s2] i1 by (auto simp: I_def)
    qed
  next
    case (2 s1)
    then show ?case using X [OF start, of "{?snap, tmp_name ?snap}" s1] by auto
  qed
  then show ?thesis
    using none bytes by (simp add: create_locked_def no_store_def bindI_def runs_def Let_def)
qed

theorem create_runs:
  assumes pl: "platform_ok pl" "no_zero_checksum pl" and G: "og_ok (x_graph pl) G" "small_graph (x_graph pl) G"
    and fs: "fs_ok s" and none: "no_store s" and free: "\<not> fs_locked s"
  shows "runs (create_with_vfs pl G) s
    (\<lambda>g s'. \<exists>im. attached pl im g s' \<and> fresh_image pl G im \<and> synced im s')
    (\<lambda>s'. \<not> calm s \<and> fresh_or_none pl G s' \<and> (absent s manifest_name \<longrightarrow> (\<forall>F E t. power_cut F E s' t \<longrightarrow> fresh_or_none pl G t)))"
    (is "runs _ _ ?Q ?X")
proof -
  have dirs: "steady fs_create_dir_all"
    unfolding fs_create_dir_all_def by (rule steady_effect) (simp add: evolves_refl)
  have untouched: "fresh_or_none pl G s' \<and> (absent s manifest_name \<longrightarrow> (\<forall>F E t. power_cut F E s' t \<longrightarrow> fresh_or_none pl G t))"
    if "fs_ok x" "no_store x" "absent s manifest_name \<longrightarrow> absent x manifest_name" "evolves D x s'" "manifest_name \<notin> D" for x D s'
    using no_store_evolves [OF that(2,4,1,5)] absent_cut(2) [OF absent_evolves [OF _ that(4,1,5)]] that(3)
    by (auto simp: fresh_or_none_def no_store_iff)
  show ?thesis
    unfolding create_with_vfs_def
  proof (rule runs_bindI [OF runs_steady [OF dirs]], goal_cases)
    case (1 x s1)
    have s1: "fs_ok s1" "no_store s1" "\<not> fs_locked s1" "calm s1 = calm s" "absent s manifest_name \<longrightarrow> absent s1 manifest_name"
      using evolvesD(1,4,5) [OF 1] no_store_evolves [OF none 1 fs] absent_evolves [OF _ 1 fs] fs free by auto
    show ?case
    proof (rule with_lock_runs [OF s1(3)])
      fix s0 assume e: "evolves {''LOCK''} s1 s0"
      have s0: "fs_ok (s0\<lparr>fs_locked := True\<rparr>)" "no_store (s0\<lparr>fs_locked := True\<rparr>)"
        "absent s manifest_name \<longrightarrow> absent (s0\<lparr>fs_locked := True\<rparr>) manifest_name"
        using evolvesD(1) [OF e s1(1)] no_store_evolves [OF s1(2) e s1(1)] absent_evolves [OF _ e s1(1)] s1(5) by (simp_all add: no_store_def absent_def)
      show "runs (create_locked pl G) (s0\<lparr>fs_locked := True\<rparr>) ?Q (\<lambda>s'. ?X (lock_release s'))"
        by (rule runs_mono [OF create_locked_runs [OF pl G s0(1,2)]])
          (use evolvesD(5) [OF e] s1(4) s0(3) in \<open>auto simp: lock_release_def\<close>)
    next
      fix s' assume "fails {''LOCK''} s1 s'"
      then have e: "evolves {''LOCK''} s1 s'" and nc: "\<not> calm s" using s1(4) by (simp_all add: fails_def)
      have "manifest_name \<notin> {''LOCK''}" by simp
      from untouched [OF s1(1,2,5) e this] nc show "?X s'" by blast
    qed
  next
    case (2 s1)
    then show ?case using untouched [OF fs none, of "{}" s1] by (auto simp: fails_def)
  qed
qed

end
