(* ===== verification/OG_Durable.thy ===== *)
theory OG_Durable
  imports OG_Create
begin

text \<open>
  \<open>apply\<close> and \<open>flush\<close> on an attached store. When they return \<open>Ok\<close> the handle is attached to the image
  with the batch appended, or with everything committed; when they fail because of a fault, the
  directory still holds either the store before or the store after; so does what a power cut at that
  point leaves of a power-safe store.
\<close>

section \<open>Images after an append and after a commit\<close>

definition with_record :: "wal_record \<Rightarrow> image \<Rightarrow> image" where
  "with_record r im = im\<lparr>im_records := im_records im @ [r]\<rparr>"

lemma with_record_image:
  assumes ok: "image_ok im" and seq: "unat (wr_seq r) = Suc (im_base im + length (im_records im))"
  shows "image_ok (with_record r im)" and "same_store im (with_record r im)" and "im_hw (with_record r im) = im_hw im"
  using assms by (auto simp: image_ok_def same_store_def im_hw_def im_snap_def im_batches_def with_record_def consecutive_snoc)

definition commit_all :: "commit_record \<Rightarrow> image \<Rightarrow> image" where
  "commit_all n im = im\<lparr>im_commit := n\<rparr>"

lemma commit_all_image:
  assumes ok: "image_ok im" and n: "unat (cr_committed_seq n) = im_base im + length (im_records im)"
  shows "image_ok (commit_all n im)" and "im_hw (commit_all n im) = im_base im + length (im_records im)"
    and "im_batches (commit_all n im) = map wr_ops (drop (im_snap im - im_base im) (im_records im))"
proof -
  have "im_snap im \<le> im_base im + length (im_records im)" using ok by (simp add: image_ok_def im_hw_def)
  then show h: "im_hw (commit_all n im) = im_base im + length (im_records im)"
    using n by (simp add: im_hw_def commit_all_def im_snap_def)
  show "image_ok (commit_all n im)" using ok unfolding image_ok_def h by (simp add: commit_all_def im_snap_def)
  show "im_batches (commit_all n im) = map wr_ops (drop (im_snap im - im_base im) (im_records im))"
    unfolding im_batches_def h by (simp add: commit_all_def im_snap_def)
qed

lemma power_safe_record:
  assumes "image_ok im"
  shows "power_safe pl (with_record r im) s \<longleftrightarrow> power_safe pl im s"
proof -
  have "im_hw im - im_base im \<le> length (im_records im)" using assms by (auto simp: image_ok_def)
  moreover have "im_hw (with_record r im) = im_hw im" "im_base (with_record r im) = im_base im"
    by (simp_all add: with_record_def im_hw_def im_snap_def)
  ultimately show ?thesis by (simp add: power_safe_def with_record_def)
qed

section \<open>The log append\<close>

lemma wal_append_image:
  assumes disk: "on_disk pl im s" and ok: "image_ok im" and exact: "log_exact pl (im_records im) s" and at: "wal_at w s"
    and f: "encode_frame (x_crc pl) (x_wal_to pl) r = Inr frame"
  shows "runs (wal_append frame) (w, s)
    (\<lambda>b (w', s'). evolves {wal_name} s s' \<and> wal_at w' s' \<and> wal_like w w' \<and> (ww_policy w = EveryBatch \<longrightarrow> b) \<and>
       on_disk pl (with_record r im) s' \<and> log_exact pl (im_records im @ [r]) s' \<and>
       (power_safe pl im s \<longrightarrow> power_safe pl (with_record r im) s' \<and> (b \<longrightarrow> synced (with_record r im) s')))
    (\<lambda>(w', s'). fails {wal_name} s s' \<and> wal_broken w w' \<and> (on_disk pl im s' \<or> on_disk pl (with_record r im) s') \<and>
       (power_safe pl im s \<longrightarrow> power_safe pl im s'))"
proof -
  obtain wb where wb: "file_bytes s wal_name = Some wb" "frames (x_crc pl) (x_wal_to pl) (im_records im) = Inr wb"
    using exact by (auto simp: log_exact_def)
  have all: "frames (x_crc pl) (x_wal_to pl) (im_records im @ [r]) = Inr (wb @ frame)"
    using f wb(2) by (simp add: frames_append bindE_def)
  have whole: "on_disk pl (with_record r im) s'" if "appended s frame s'" for s'
    unfolding with_record_def
    by (rule on_disk_log [OF disk ok _ _ log_exact_bytes [OF all]]) (use that wb in \<open>simp_all add: appended_def\<close>)
  have torn: "on_disk pl im s' \<or> on_disk pl (with_record r im) s'" if a: "appended s (take k frame) s'" for k s'
  proof (cases "k < length frame")
    case False
    then show ?thesis using whole a by simp
  next
    case True
    obtain p where p: "length p < 2 ^ 32" "frame = frame_of (x_crc pl) p" using encode_frame_Inr [OF f] by blast
    have "take k frame = [] \<or> not_a_frame (x_crc pl) (take k frame)"
      using prefix_not_a_frame [OF p(1), of k "x_crc pl"] True by (cases k) (simp_all add: p(2))
    then have "log_bytes pl (im_records im) (wb @ take k frame)" using wb(2) by (auto simp: log_bytes_def)
    then have "on_disk pl (im\<lparr>im_records := im_records im\<rparr>) s'"
      by (intro on_disk_log [OF disk ok]) (use a wb in \<open>simp_all add: appended_def\<close>)
    then show ?thesis by simp
  qed
  have dir: "keeps (fs_dir \<circ> snd) (wal_append frame)" by (intro keeps)
  obtain x w' s' where run: "wal_append frame (w, s) = (x, (w', s'))" by (metis prod_cases3)
  have d: "fs_dir s' = fs_dir s" using keeps_pairD [OF dir run] by simp
  have fs: "fs_ok s" using disk by (simp add: on_disk_def)
  let ?n = "frames_length pl (take (im_hw im - im_base im) (im_records im))"
  have log: "log_safe ?n s' \<and> (\<forall>b. x = Inr b \<longrightarrow> b \<longrightarrow> durable s' wal_name)" if "power_safe pl im s"
    using wal_append_power [OF at, of ?n frame] that run by (cases x) (auto simp: runs_def power_safe_def)
  have safe: "power_safe pl im s'" if "power_safe pl im s" "evolves {wal_name} s s'"
    using power_safe_log [OF that fs ok] log [OF that(1)] by blast
  have sync: "synced (with_record r im) s'" if "power_safe pl im s" "evolves {wal_name} s s'" "x = Inr True"
    using synced_log [OF that(1,2) fs ok, of "with_record r im"] log [OF that(1)] that(3) by (simp add: with_record_def)
  show ?thesis
  proof (cases x)
    case (Inl e)
    then show ?thesis using wal_append_runs [OF at, of frame] run torn safe by (auto simp: runs_def fails_def appended_def)
  next
    case (Inr b)
    then have a: "appended s frame s'" "wal_like w w'" "ww_policy w = EveryBatch \<longrightarrow> b"
      using wal_append_runs [OF at, of frame] run by (auto simp: runs_def)
    have "wal_at w' s'" by (rule wal_at_same_dir [OF _ d _ at]) (use a in \<open>auto simp: appended_def wal_like_def\<close>)
    moreover have "power_safe pl (with_record r im) s' \<and> (b \<longrightarrow> synced (with_record r im) s')" if "power_safe pl im s"
      using a(1) safe [OF that] sync [OF that] Inr by (simp add: power_safe_record [OF ok] appended_def)
    ultimately show ?thesis using a run Inr whole all wb(1) by (auto simp: runs_def appended_def log_exact_def)
  qed
qed

section \<open>Committing a prefix\<close>

text \<open>The parts of \<open>attached\<close> that a step on the log or the marker works on.\<close>

definition joined :: "'g platform \<Rightarrow> image \<Rightarrow> 'g writer \<Rightarrow> fs \<Rightarrow> bool" where
  "joined pl im w s \<longleftrightarrow>
     on_disk pl im s \<and> image_ok im \<and> \<not> poisoned w \<and> wal_at (wt_wal w) s \<and> log_exact pl (im_records im) s \<and>
     marker_at pl (im_commit im) (wt_commit w) s"

definition linked :: "'g platform \<Rightarrow> image \<Rightarrow> 'g writer \<Rightarrow> fs \<Rightarrow> bool" where
  "linked pl im w s \<longleftrightarrow> joined pl im w s \<and> unat (wt_durable_seq w) = im_hw im"

lemma attached_iff:
  "attached pl im g s \<longleftrightarrow> linked pl im (st_writer g) s \<and> store_inv g \<and> fs_locked s \<and> data_ok pl im (st_writer g) \<and>
     pointers_ok (st_writer g) (im_manifest im)"
  by (auto simp: attached_def linked_def joined_def)

lemma advance_commit_image:
  assumes l: "joined pl im w s" and room: "gen_room im" and tears: "tears_detected pl im s"
    and q: "unat q = im_base im + length (im_records im)"
  defines "n \<equiv> next_record (wt_epoch w) q (wt_commit w)"
  shows "runs (advance_commit pl q) (w, s)
    (\<lambda>_ (w', s'). evolves {commit_name} s s' \<and> linked pl (commit_all n im) w' s' \<and> (synced im s \<longrightarrow> synced (commit_all n im) s'))
    (\<lambda>(w', s'). fails {commit_name} s s' \<and> (on_disk pl im s' \<or> on_disk pl (commit_all n im) s') \<and>
       (synced im s \<longrightarrow> survives pl (\<lambda>x. x = im \<or> x = commit_all n im) s'))"
proof -
  have disk: "on_disk pl im s" and ok: "image_ok im" and mk: "marker_at pl (im_commit im) (wt_commit w) s"
    using l by (simp_all add: linked_def joined_def)
  have seq: "unat (cr_committed_seq n) = im_base im + length (im_records im)" using q by (simp add: n_def next_record_def)
  obtain x c' s' where run: "commit_advance (x_crc pl) (wt_epoch w) q (wt_commit w, s) = (x, (c', s'))" by (metis prod_cases3)
  note a = advance_image [OF disk ok mk room tears, of "wt_epoch w" q, folded n_def]
  show ?thesis
  proof (cases x)
    case (Inl e)
    then show ?thesis using a run by (auto simp: runs_def advance_commit_def with_commit_def commit_all_def)
  next
    case (Inr u)
    then have e: "evolves {commit_name} s s'" "on_disk pl (commit_all n im) s'" "marker_at pl n c' s'" "synced im s \<longrightarrow> synced (commit_all n im) s'"
      using a run by (auto simp: runs_def commit_all_def)
    have "linked pl (commit_all n im) (w\<lparr>wt_commit := c', wt_durable_seq := q\<rparr>) s'"
      using l e commit_all_image(1,2) [OF ok seq] wal_at_evolves [OF e(1), of "wt_wal w" "wt_wal w"]
        log_exact_evolves [OF _ e(1), of pl "im_records im"] on_disk_fs [OF disk] q
      by (simp add: linked_def joined_def poisoned_def) (simp add: commit_all_def)
    then show ?thesis using run Inr e(1,4) by (simp add: runs_def advance_commit_def with_commit_def)
  qed
qed

section \<open>A batch\<close>

text \<open>The images a batch may leave: appended only, or appended and committed.\<close>

definition appended_image :: "wal_record \<Rightarrow> image \<Rightarrow> image \<Rightarrow> bool" where
  "appended_image r im im' \<longleftrightarrow> im' = with_record r im"

definition committed_image :: "wal_record \<Rightarrow> image \<Rightarrow> image \<Rightarrow> bool" where
  "committed_image r im im' \<longleftrightarrow>
     (\<exists>n. unat (cr_committed_seq n) = Suc (im_base im + length (im_records im)) \<and> cr_gen n = cr_gen (im_commit im) + 1 \<and>
        im' = commit_all n (with_record r im))"

lemma committed_image_ok:
  assumes "image_ok im" and "unat (wr_seq r) = Suc (im_base im + length (im_records im))" and "committed_image r im im'"
  shows "image_ok im'" and "im_hw im' = Suc (im_base im + length (im_records im))"
proof -
  obtain n where n: "unat (cr_committed_seq n) = Suc (im_base im + length (im_records im))" "im' = commit_all n (with_record r im)"
    using assms(3) by (auto simp: committed_image_def)
  have "unat (cr_committed_seq n) = im_base (with_record r im) + length (im_records (with_record r im))"
    using n(1) by (simp add: with_record_def)
  then show "image_ok im'" and "im_hw im' = Suc (im_base im + length (im_records im))"
    using commit_all_image(1,2) [OF with_record_image(1) [OF assms(1,2)], of n] by (simp_all add: n(2) with_record_def)
qed

text \<open>The images that a power cut may leave of an interrupted batch.\<close>

definition batch_left :: "wal_record \<Rightarrow> image \<Rightarrow> image \<Rightarrow> bool" where
  "batch_left r im im' \<longleftrightarrow> shortened im im' \<or> shortened (with_record r im) im' \<or> committed_image r im im'"

lemma batch_left_cases:
  assumes "batch_left r im im'" and "image_ok im" and "unat (wr_seq r) = Suc (im_base im + length (im_records im))"
  shows "image_ok im' \<and> (same_store im im' \<and> im_commit im' = im_commit im \<or> committed_image r im im')"
proof -
  note rec = with_record_image [OF assms(2,3)]
  show ?thesis
    using assms(1) shortened_image [OF _ assms(2), of im'] shortened_image [OF _ rec(1), of im'] rec(2) same_store_trans [OF rec(2)]
      committed_image_ok(1) [OF assms(2,3)]
    by (auto simp: batch_left_def with_record_def)
qed

lemma commit_batch_image:
  assumes l: "linked pl im w s" and room: "gen_room im" and tears: "tears_detected pl im s"
    and seq: "unat (wr_seq r) = Suc (im_base im + length (im_records im))"
  shows "runs (commit_batch pl r) (w, s)
    (\<lambda>_ (w', s'). evolves {wal_name, commit_name} s s' \<and> same_data w w' \<and>
       (\<exists>im'. linked pl im' w' s' \<and> (committed_image r im im' \<or> appended_image r im im' \<and> ww_policy (wt_wal w) \<noteq> EveryBatch) \<and>
          (power_safe pl im s \<longrightarrow> power_safe pl im' s')))
    (\<lambda>(w', s'). (\<exists>e. encode_frame (x_crc pl) (x_wal_to pl) r = Inl e) \<and> w' = w \<and> s' = s \<or>
       fails {wal_name, commit_name} s s' \<and> poisoned w' \<and>
       (\<exists>im'. on_disk pl im' s' \<and> (im' = im \<or> appended_image r im im' \<or> committed_image r im im')) \<and>
       (power_safe pl im s \<longrightarrow> survives pl (batch_left r im) s'))"
    (is "runs _ _ ?Q ?X")
proof (cases "encode_frame (x_crc pl) (x_wal_to pl) r")
  case (Inl e)
  then show ?thesis by (simp add: runs_def commit_batch_def bindI_def)
next
  case (Inr frame)
  have disk: "on_disk pl im s" and ok: "image_ok im" and at: "wal_at (wt_wal w) s" and exact: "log_exact pl (im_records im) s"
    and mk: "marker_at pl (im_commit im) (wt_commit w) s" using l by (simp_all add: linked_def joined_def)
  have fs: "fs_ok s" using disk by (rule on_disk_fs)
  note rec = with_record_image [OF ok seq]
  obtain x wal' s1 where run: "wal_append frame (wt_wal w, s) = (x, (wal', s1))" by (metis prod_cases3)
  note a = wal_append_image [OF disk ok exact at Inr]
  have ww: "with_wal (wal_append frame) (w, s) = (x, (w\<lparr>wt_wal := wal'\<rparr>, s1))" using run by (simp add: with_wal_def)
  show ?thesis
  proof (cases x)
    case (Inl e)
    have "commit_batch pl r (w, s) = (Inl e, (w\<lparr>wt_wal := wal'\<rparr>, s1))"
      using ww Inl Inr by (simp add: commit_batch_def bindI_def)
    moreover have f: "fails {wal_name, commit_name} s s1" "wal_broken (wt_wal w) wal'" "on_disk pl im s1 \<or> on_disk pl (with_record r im) s1"
      "power_safe pl im s \<longrightarrow> power_safe pl im s1"
      using a run Inl fails_mono [of "{wal_name}" s s1 "{wal_name, commit_name}"] by (auto simp: runs_def)
    moreover have "survives pl (batch_left r im) s1" if "power_safe pl im s"
      using f(3)
    proof
      assume "on_disk pl im s1"
      then have "survives pl (shortened im) s1" using power_safe_survives [OF _ ok] f(4) that by blast
      then show ?thesis by (rule survives_mono) (simp add: batch_left_def)
    next
      assume "on_disk pl (with_record r im) s1"
      then have "survives pl (shortened (with_record r im)) s1"
        using power_safe_survives [OF _ rec(1)] power_safe_record [OF ok] f(4) that by blast
      then show ?thesis by (rule survives_mono) (simp add: batch_left_def)
    qed
    ultimately show ?thesis by (auto simp: runs_def poisoned_def wal_broken_def appended_image_def)
  next
    case (Inr b)
    let ?w = "w\<lparr>wt_wal := wal'\<rparr>" and ?im = "with_record r im"
    have e: "evolves {wal_name} s s1" and s1: "wal_at wal' s1" "wal_like (wt_wal w) wal'" "ww_policy (wt_wal w) = EveryBatch \<longrightarrow> b"
      "on_disk pl ?im s1" "log_exact pl (im_records im @ [r]) s1"
      "power_safe pl im s \<longrightarrow> power_safe pl ?im s1 \<and> (b \<longrightarrow> synced ?im s1)" using a run Inr by (auto simp: runs_def)
    have e': "evolves {wal_name, commit_name} s s1" using evolves_mono [OF e] by blast
    have l1: "linked pl ?im ?w s1"
      using s1 rec(1,3) l marker_at_evolves [OF mk e] by (simp add: linked_def joined_def poisoned_def wal_like_def with_record_def)
    have run1: "commit_batch pl r (w, s) = (if b then advance_commit pl (wr_seq r) (?w, s1) else (Inr (), (?w, s1)))"
      using ww Inr \<open>encode_frame _ _ _ = _\<close> by (simp add: commit_batch_def bindI_def)
    show ?thesis
    proof (cases b)
      case False
      then show ?thesis using run1 l1 e' s1(3,6) by (auto simp: runs_def appended_image_def)
    next
      case True
      have room1: "gen_room ?im" and tears1: "tears_detected pl ?im s1" and q: "unat (wr_seq r) = im_base ?im + length (im_records ?im)"
        using room tears_evolves [OF tears e fs] seq by (simp_all add: gen_room_def with_record_def)
      obtain y w2 s2 where adv: "advance_commit pl (wr_seq r) (?w, s1) = (y, (w2, s2))" by (metis prod_cases3)
      let ?n = "next_record (wt_epoch ?w) (wr_seq r) (wt_commit ?w)"
      have com: "committed_image r im (commit_all ?n ?im)" unfolding committed_image_def
        by (rule exI [of _ ?n]) (use seq mk in \<open>simp add: next_record_def marker_at_def\<close>)
      have j1: "joined pl ?im ?w s1" using l1 by (simp add: linked_def)
      note c = advance_commit_image [OF j1 room1 tears1 q]
      have same: "same_data w w2" using same_data_trans [OF _ advance_commit_cases(1) [OF adv]] by simp
      show ?thesis
      proof (cases y)
        case (Inl err)
        have "fails {commit_name} s1 s2" "on_disk pl ?im s2 \<or> on_disk pl (commit_all ?n ?im) s2"
          and cut: "synced ?im s1 \<longrightarrow> survives pl (\<lambda>x. x = ?im \<or> x = commit_all ?n ?im) s2" using c adv Inl by (auto simp: runs_def)
        moreover have "poisoned w2" using advance_commit_cases(3) [OF adv Inl] by simp
        moreover have "survives pl (batch_left r im) s2" if "power_safe pl im s"
          by (rule survives_mono [where P = "\<lambda>x. x = ?im \<or> x = commit_all ?n ?im"])
            (use cut s1(6) that True com shortened_refl [OF rec(1)] in \<open>auto simp: batch_left_def\<close>)
        ultimately show ?thesis
          using run1 True adv Inl failing_step [OF e', of "{commit_name}" s2] com by (auto simp: runs_def appended_image_def)
      next
        case (Inr u)
        have l2: "evolves {commit_name} s1 s2" "linked pl (commit_all ?n ?im) w2 s2" "synced ?im s1 \<longrightarrow> synced (commit_all ?n ?im) s2"
          using c adv Inr by (auto simp: runs_def)
        have "power_safe pl (commit_all ?n ?im) s2" if "power_safe pl im s"
          by (rule synced_power_safe) (use l2(2,3) s1(6) that True in \<open>auto simp: linked_def joined_def\<close>)
        then show ?thesis
          using l2(1,2) run1 True adv Inr com same evolves_then [OF e', of s2] evolves_mono [of "{commit_name}" s1 s2 "{wal_name, commit_name}"] by (auto simp: runs_def)
      qed
    qed
  qed
qed

section \<open>The data after a batch\<close>

lemma batch_data:
  assumes d: "data_ok pl im w" and ok: "image_ok im" and over: "wt_seq w + 1 \<noteq> 0"
    and app: "delta_apply (as_accessor (x_graph pl) (wt_base w)) ops (wt_delta w) = (Inr (), d')"
    and same: "same_data w w1" and r: "r = \<lparr>wr_seq = wt_seq w + 1, wr_ops = ops\<rparr>"
    and im': "committed_image r im im' \<or> appended_image r im im'"
  shows "data_ok pl im' (adopt_batch (wt_seq w + 1) k d' w1)" and "pointers_ok w (im_manifest im) \<Longrightarrow> pointers_ok (adopt_batch q k d' w1) (im_manifest im')"
proof -
  have im: "im_nodes im' = im_nodes im" "im_edges im' = im_edges im" "im_records im' = im_records im @ [r]" "im_base im' = im_base im"
    "im_snap im' = im_snap im" "im_manifest im' = im_manifest im"
    using im' by (auto simp: committed_image_def appended_image_def with_record_def commit_all_def im_snap_def)
  have le: "im_snap im - im_base im \<le> length (im_records im)" using ok by (auto simp: image_ok_def im_hw_def)
  have seq: "unat (wt_seq w + 1) = Suc (unat (wt_seq w))" using unatSuc [of "wt_seq w"] over by (simp add: add.commute)
  show "data_ok pl im' (adopt_batch (wt_seq w + 1) k d' w1)"
    using d le seq delta_apply_replay [OF app] same_dataD [OF same]
    by (simp add: data_ok_def im adopt_batch_def r)
  show "pointers_ok w (im_manifest im) \<Longrightarrow> pointers_ok (adopt_batch q k d' w1) (im_manifest im')"
    using same_dataD [OF same] by (simp add: pointers_ok_def im adopt_batch_def)
qed

text \<open>The handle after a valid batch, as readers see it, and the handles that agree with it up to the bookkeeping of the log.\<close>

definition with_batch :: "'g platform \<Rightarrow> op list \<Rightarrow> 'g persistent_graph \<Rightarrow> 'g persistent_graph" where
  "with_batch pl ops g =
     (let w = st_writer g; d = delta_replay (as_accessor (x_graph pl) (wt_base w)) ops (wt_delta w)
      in publish (g\<lparr>st_writer := adopt_batch (wt_seq w + 1) (length ops) d w\<rparr>))"

definition batch_adopted :: "'g platform \<Rightarrow> op list \<Rightarrow> 'g persistent_graph \<Rightarrow> 'g persistent_graph \<Rightarrow> bool" where
  "batch_adopted pl ops g g1 \<longleftrightarrow>
     st_state g1 = st_state (with_batch pl ops g) \<and> same_data (st_writer (with_batch pl ops g)) (st_writer g1)"

lemma batch_adoptedD:
  assumes "batch_adopted pl ops g g1"
  shows "st_state g1 = st_state (with_batch pl ops g)" and "same_data (st_writer (with_batch pl ops g)) (st_writer g1)"
    and "wt_delta_ops (st_writer g1) = wt_delta_ops (st_writer g) + length ops"
    and "compact_threshold pl (st_writer g1) = compact_threshold pl (st_writer g)"
  using assms same_dataD [of "st_writer (with_batch pl ops g)" "st_writer g1"]
  by (simp_all add: batch_adopted_def with_batch_def Let_def adopt_batch_def compact_threshold_def split: option.split)

lemma adopt_batch_adopted:
  assumes "same_data (st_writer g) w1" and "d = delta_replay (as_accessor (x_graph pl) (wt_base (st_writer g))) ops (wt_delta (st_writer g))"
  shows "batch_adopted pl ops g (publish (g\<lparr>st_writer := adopt_batch (wt_seq (st_writer g) + 1) (length ops) d w1\<rparr>))"
  using same_dataD [OF assms(1)] assms
  by (auto simp: batch_adopted_def with_batch_def Let_def adopt_batch_def publish_def same_data_def)

lemma batch_published_inv:
  assumes "store_inv g" and "wt_seq (st_writer g) + 1 \<noteq> 0"
    and "commit_batch pl \<lparr>wr_seq = wt_seq (st_writer g) + 1, wr_ops = ops\<rparr> (st_writer g, s) = (Inr (), (w1, s1))"
  shows "store_inv (publish (g\<lparr>st_writer := adopt_batch (wt_seq (st_writer g) + 1) k d w1\<rparr>))"
proof -
  note c = commit_batch_cases [OF assms(3)]
  note same = same_dataD [OF c(1)]
  have up: "wt_seq (st_writer g) \<le> wt_seq (st_writer g) + 1"
    using assms(2) unatSuc [of "wt_seq (st_writer g)"] by (simp add: word_le_nat_alt add.commute)
  have "wt_durable_seq w1 \<in> {wt_durable_seq (st_writer g), wt_seq (st_writer g) + 1}" using c(3) by simp
  then show ?thesis
    using assms(1) up by (auto simp: store_inv_def adopt_batch_def same intro: order_trans)
qed

text \<open>Applying a batch, up to the automatic compaction.\<close>

lemma apply_batch_runs:
  fixes ops :: "op list"
  assumes att: "attached pl im g s" and room: "gen_room im" and tears: "tears_detected pl im s"
    and over: "wt_seq (st_writer g) + 1 \<noteq> 0"
  defines "r \<equiv> \<lparr>wr_seq = wt_seq (st_writer g) + 1, wr_ops = ops\<rparr>"
  shows "runs (apply_batch pl ops exp) (g, s)
    (\<lambda>q gs'. q = wt_seq (st_writer g) + 1 \<and> (\<exists>im' g1 s1. auto_compact pl (g1, s1) = gs' \<and> attached pl im' g1 s1 \<and>
       batch_adopted pl ops g g1 \<and> (\<exists>w1. commit_batch pl r (st_writer g, s) = (Inr (), (w1, s1))) \<and>
       (committed_image r im im' \<and> (ww_policy (wt_wal (st_writer g)) = EveryBatch \<longrightarrow> caught_up g1) \<or>
        appended_image r im im' \<and> ww_policy (wt_wal (st_writer g)) \<noteq> EveryBatch) \<and>
       (power_safe pl im s \<longrightarrow> power_safe pl im' s1)))
    (\<lambda>(g', s'). g' = g \<and> s' = s \<or>
       \<not> calm s \<and> poisoned (st_writer g') \<and>
       (\<exists>im'. on_disk pl im' s' \<and> image_ok im' \<and> (im' = im \<or> appended_image r im im' \<or> committed_image r im im')) \<and>
       (power_safe pl im s \<longrightarrow> survives pl (batch_left r im) s'))"
proof -
  let ?w = "st_writer g"
  have l: "linked pl im ?w s" and inv: "store_inv g" and lock: "fs_locked s" and d: "data_ok pl im ?w" and p: "pointers_ok ?w (im_manifest im)"
    using att by (simp_all add: attached_iff)
  have ok: "image_ok im" using l by (simp add: linked_def joined_def)
  have seq: "unat (wr_seq r) = Suc (im_base im + length (im_records im))"
    using unatSuc [of "wt_seq ?w"] over d by (simp add: r_def data_ok_def add.commute)
  note c = commit_batch_image [OF l room tears seq]
  obtain x g' s' where run: "apply_batch pl ops exp (g, s) = (x, (g', s'))" by (metis prod_cases3)
  from run show ?thesis
  proof (cases rule: apply_cases)
    case (refused e)
    then show ?thesis using run by (simp add: runs_def)
  next
    case (failed e w1)
    have "fails {wal_name, commit_name} s s' \<and> poisoned w1 \<and> (\<exists>im'. on_disk pl im' s' \<and> (im' = im \<or> appended_image r im im' \<or> committed_image r im im')) \<and>
        (power_safe pl im s \<longrightarrow> survives pl (batch_left r im) s') \<or>
        w1 = ?w \<and> s' = s"
      using c failed(4) by (auto simp: runs_def r_def)
    moreover have "image_ok im'" if "im' = im \<or> appended_image r im im' \<or> committed_image r im im'" for im'
      using that ok with_record_image(1,2) [OF ok seq] committed_image_ok(1) [OF ok seq] by (auto simp: appended_image_def)
    ultimately show ?thesis using run failed(1,2) by (auto simp: runs_def fails_def)
  next
    case (committed d' w1 s1)
    let ?g = "publish (g\<lparr>st_writer := adopt_batch (wt_seq ?w + 1) (length ops) d' w1\<rparr>)"
    obtain im' where im': "linked pl im' w1 s1" "committed_image r im im' \<or> appended_image r im im' \<and> ww_policy (wt_wal ?w) \<noteq> EveryBatch"
        "power_safe pl im s \<longrightarrow> power_safe pl im' s1"
      and e: "evolves {wal_name, commit_name} s s1" and same: "same_data ?w w1"
      using c committed(5) by (auto simp: runs_def r_def)
    have im2: "committed_image r im im' \<or> appended_image r im im'" using im'(2) by blast
    have up: "caught_up ?g" if "ww_policy (wt_wal ?w) = EveryBatch"
      using commit_batch_cases(4) [OF committed(5) refl that] by (simp add: caught_up_def adopt_batch_def)
    have b: "data_ok pl im' (st_writer ?g)" "pointers_ok (st_writer ?g) (im_manifest im')"
      using batch_data [OF d ok over committed(4) same meta_eq_to_obj_eq [OF r_def] im2] p by simp_all
    have "linked pl im' (st_writer ?g) s1" using im'(1) by (simp add: linked_def joined_def adopt_batch_def poisoned_def)
    moreover have "fs_locked s1" using evolvesD(4) [OF e] lock by simp
    moreover have "store_inv ?g"
      by (rule batch_published_inv [OF inv over committed(5)])
    ultimately have "attached pl im' ?g s1" using b by (simp add: attached_iff)
    moreover have "batch_adopted pl ops g ?g" by (rule adopt_batch_adopted [OF same delta_apply_replay [OF committed(4)]])
    ultimately have "auto_compact pl (?g, s1) = (g', s') \<and> attached pl im' ?g s1 \<and> batch_adopted pl ops g ?g \<and>
        (\<exists>w1. commit_batch pl r (?w, s) = (Inr (), (w1, s1))) \<and>
        (committed_image r im im' \<and> (ww_policy (wt_wal ?w) = EveryBatch \<longrightarrow> caught_up ?g) \<or>
         appended_image r im im' \<and> ww_policy (wt_wal ?w) \<noteq> EveryBatch) \<and> (power_safe pl im s \<longrightarrow> power_safe pl im' s1)"
      using committed(5,6) im'(2,3) up by (auto simp: r_def)
    then show ?thesis unfolding runs_def run committed(1) prod.case sum.case by blast
  qed
qed

text \<open>A batch that does not reach the compaction threshold leaves the handle as published.\<close>

definition compacts :: "'g platform \<Rightarrow> op list \<Rightarrow> 'g persistent_graph \<Rightarrow> bool" where
  "compacts pl ops g \<longleftrightarrow> wt_delta_ops (st_writer g) + length ops > compact_threshold pl (st_writer g)"

lemma auto_compact_adopted:
  assumes "batch_adopted pl ops g g1"
  shows "auto_compact pl (g1, s1) = (if compacts pl ops g then
    (case compact_locked pl (g1, s1) of
       (Inr _, gs) \<Rightarrow> gs | (Inl e, (g, s)) \<Rightarrow> (g\<lparr>st_writer := (st_writer g)\<lparr>wt_delta_ops := 0\<rparr>\<rparr>, s)) else (g1, s1))"
  using batch_adoptedD(3,4) [OF assms] by (simp add: auto_compact_def compacts_def)

text \<open>Without faults, a valid batch whose frame can be encoded is accepted.\<close>

lemma apply_accepts:
  assumes att: "attached pl im g s" and room: "gen_room im" and calm: "calm s" and over: "wt_seq (st_writer g) + 1 \<noteq> 0"
    and exp: "exp \<in> {None, Some (wt_seq (st_writer g))}"
    and valid: "delta_apply (as_accessor (x_graph pl) (gs_base (st_state g))) ops (gs_delta (st_state g)) = (Inr (), d)"
    and enc: "encode_frame (x_crc pl) (x_wal_to pl) \<lparr>wr_seq = wt_seq (st_writer g) + 1, wr_ops = ops\<rparr> = Inr frame"
  shows "\<exists>g' s'. apply_batch pl ops exp (g, s) = (Inr (wt_seq (st_writer g) + 1), (g', s'))"
proof -
  let ?w = "st_writer g" and ?r = "\<lparr>wr_seq = wt_seq (st_writer g) + 1, wr_ops = ops\<rparr>"
  have l: "linked pl im ?w s" and d: "data_ok pl im ?w" and np: "\<not> poisoned ?w" and inv: "store_inv g"
    using att by (simp_all add: attached_iff linked_def joined_def)
  have seq: "unat (wr_seq ?r) = Suc (im_base im + length (im_records im))"
    using unatSuc [of "wt_seq ?w"] over d by (simp add: data_ok_def add.commute)
  have tears: "tears_detected pl im s" using calm by (simp add: tears_detected_def)
  note c = commit_batch_image [OF l room tears seq]
  obtain x g' s' where run: "apply_batch pl ops exp (g, s) = (x, (g', s'))" by (metis prod_cases3)
  from run show ?thesis
  proof (cases rule: apply_cases)
    case (refused e)
    then show ?thesis using np exp valid inv by (auto simp: store_inv_def published_iff)
  next
    case (failed e w1)
    then show ?thesis using c enc calm by (auto simp: runs_def fails_def)
  next
    case committed
    then show ?thesis using run by blast
  qed
qed

section \<open>Flush\<close>

definition flushed_by :: "commit_record \<Rightarrow> image \<Rightarrow> u64 \<Rightarrow> bool" where
  "flushed_by n im seq \<longleftrightarrow>
     image_ok (commit_all n im) \<and> im_hw (commit_all n im) = unat seq \<and> cr_gen n = cr_gen (im_commit im) + 1"

lemma flush_runs:
  assumes att: "attached pl im g s" and room: "gen_room im" and tears: "tears_detected pl im s"
  shows "runs (flush pl) (g, s)
    (\<lambda>_ (g', s'). \<exists>n. attached pl (commit_all n im) g' s' \<and> flushed_by n im (wt_seq (st_writer g)) \<and>
       (power_safe pl im s \<longrightarrow> synced (commit_all n im) s'))
    (\<lambda>(g', s'). \<not> calm s \<and> poisoned (st_writer g') \<and>
       (on_disk pl im s' \<or> (\<exists>n. on_disk pl (commit_all n im) s' \<and> flushed_by n im (wt_seq (st_writer g)))) \<and>
       (power_safe pl im s \<longrightarrow>
         survives pl (\<lambda>x. shortened im x \<or> (\<exists>n. x = commit_all n im \<and> flushed_by n im (wt_seq (st_writer g)))) s'))"
proof -
  let ?w = "st_writer g"
  have l: "linked pl im ?w s" and inv: "store_inv g" and lock: "fs_locked s" and d: "data_ok pl im ?w" and p: "pointers_ok ?w (im_manifest im)"
    using att by (simp_all add: attached_iff)
  have ok: "image_ok im" and disk: "on_disk pl im s" and np: "\<not> poisoned ?w" using l by (simp_all add: linked_def joined_def)
  have seq: "unat (wt_seq ?w) = im_base im + length (im_records im)" using d by (simp add: data_ok_def)
  obtain x wal' s1 where fl: "wal_flush (wt_wal ?w, s) = (x, (wal', s1))" by (metis prod_cases3)
  note f = wal_flush_runs [of "wt_wal ?w" s]
  have at: "wal_at (wt_wal ?w) s" and fs: "fs_ok s" using l disk by (simp_all add: linked_def joined_def on_disk_def)
  have sync: "synced im s1" if "power_safe pl im s" "evolves {} s s1" "x = Inr ()"
  proof -
    have "durable s1 wal_name"
      using wal_flush_power [OF at, of "frames_length pl (take (im_hw im - im_base im) (im_records im))"] that fl by (simp add: runs_def power_safe_def)
    then show ?thesis using synced_log [OF that(1) evolves_mono [OF that(2)] fs ok] by blast
  qed
  let ?cut = "\<lambda>x. shortened im x \<or> (\<exists>n. x = commit_all n im \<and> flushed_by n im (wt_seq (st_writer g)))"
  let ?w1 = "?w\<lparr>wt_wal := wal'\<rparr>"
  obtain y w2 s2 where adv: "advance_commit pl (wt_seq ?w) (?w1, s1) = (y, (w2, s2))" by (metis prod_cases3)
  have run: "flush pl (g, s) = (case x of Inl e \<Rightarrow> (Inl e, (g\<lparr>st_writer := ?w1\<rparr>, s1)) | Inr _ \<Rightarrow> (y, (g\<lparr>st_writer := w2\<rparr>, s2)))"
    using np fl adv by (simp add: flush_def with_writer_def bindI_def with_wal_def gets_def split: sum.split)
  show ?thesis
  proof (cases x)
    case (Inl e)
    then have e: "evolves {} s s1" and nc: "wal_broken (wt_wal ?w) wal'" "\<not> calm s" using f fl np by (auto simp: runs_def poisoned_def)
    have d1: "on_disk pl im s1" using on_disk_evolves [OF disk e] by simp
    have "survives pl ?cut s1" if "power_safe pl im s"
    proof -
      have "power_safe pl im s1" using power_safe_evolves [OF that e fs] by simp
      from power_safe_survives [OF d1 ok this] show ?thesis by (rule survives_mono) simp
    qed
    then show ?thesis using run Inl nc d1 by (simp add: runs_def poisoned_def wal_broken_def)
  next
    case (Inr u)
    then have e: "evolves {} s s1" "wal_like (wt_wal ?w) wal'" using f fl by (auto simp: runs_def)
    have l1: "linked pl im ?w1 s1"
      using l e on_disk_evolves [OF disk e(1)] wal_at_evolves [OF e(1), of wal' "wt_wal ?w"] log_exact_evolves [OF _ e(1) on_disk_fs [OF disk]]
        marker_at_evolves [OF _ e(1)]
      by (auto simp: linked_def joined_def wal_like_def poisoned_def)
    have tears1: "tears_detected pl im s1" using tears_evolves [OF tears e(1) on_disk_fs [OF disk]] by simp
    have j1: "joined pl im ?w1 s1" using l1 by (simp add: linked_def)
    note c = advance_commit_image [OF j1 room tears1 seq]
    let ?n = "next_record (wt_epoch ?w1) (wt_seq ?w) (wt_commit ?w1)"
    have n: "unat (cr_committed_seq ?n) = im_base im + length (im_records im)" using seq by (simp add: next_record_def)
    have fb: "flushed_by ?n im (wt_seq ?w)"
      using commit_all_image(1,2) [OF ok n] seq l by (simp add: flushed_by_def linked_def joined_def marker_at_def next_record_def)
    show ?thesis
    proof (cases y)
      case (Inl err)
      have "fails {commit_name} s1 s2" "on_disk pl im s2 \<or> on_disk pl (commit_all ?n im) s2" "poisoned w2"
        and cut: "synced im s1 \<longrightarrow> survives pl (\<lambda>x. x = im \<or> x = commit_all ?n im) s2"
        using c adv Inl advance_commit_cases(3) [OF adv Inl] by (auto simp: runs_def)
      moreover have "survives pl ?cut s2" if "power_safe pl im s"
        by (rule survives_mono [where P = "\<lambda>x. x = im \<or> x = commit_all ?n im"])
          (use cut sync [OF that e(1)] \<open>x = Inr u\<close> fb shortened_refl [OF ok] in auto)
      ultimately show ?thesis using run Inr Inl fb evolvesD(5) [OF e(1)] by (auto simp: runs_def fails_def)
    next
      case (Inr v)
      have c2: "evolves {commit_name} s1 s2" "linked pl (commit_all ?n im) w2 s2" "synced im s1 \<longrightarrow> synced (commit_all ?n im) s2"
        using c adv Inr by (auto simp: runs_def)
      have same: "same_data ?w w2" using same_data_trans [OF _ advance_commit_cases(1) [OF adv]] by simp
      have dq: "wt_durable_seq w2 = wt_seq ?w" using advance_commit_cases(2) [OF adv] Inr by simp
      have "data_ok pl (commit_all ?n im) w2" "pointers_ok w2 (im_manifest (commit_all ?n im))"
        using d p same_dataD [OF same] by (simp_all add: data_ok_def commit_all_def im_snap_def pointers_ok_def)
      moreover have "store_inv (g\<lparr>st_writer := w2\<rparr>)" using same_data_inv [OF inv, of "g\<lparr>st_writer := w2\<rparr>"] same dq by simp
      moreover have "fs_locked s2" using evolvesD(4) [OF c2(1)] evolvesD(4) [OF e(1)] lock by simp
      ultimately have "attached pl (commit_all ?n im) (g\<lparr>st_writer := w2\<rparr>) s2" using c2(2) by (simp add: attached_iff)
      then show ?thesis using run \<open>x = Inr u\<close> Inr fb c2(3) sync [OF _ e(1)] by (auto simp: runs_def)
    qed
  qed
qed

lemma flush_succeeds:
  assumes "attached pl im g s" and "gen_room im" and "calm s"
  shows "\<exists>g' s'. flush pl (g, s) = (Inr (), (g', s'))"
proof -
  obtain r g' s' where run: "flush pl (g, s) = (r, (g', s'))" by (metis prod_cases3)
  show ?thesis
    using flush_runs [OF assms(1,2)] assms(3) run by (cases r) (auto simp: runs_def tears_detected_def)
qed

end
