(* ===== verification/OG_Crash.thy ===== *)
theory OG_Crash
  imports OG_Durable
begin

text \<open>
  Crashes and power losses. The process dies at any operation (the fault oracle fails that operation,
  possibly after part of its effect, and the caller returns its error) and is started again: the lock
  is free and the files hold what was written or, after a power loss, what the cut left of it. What \<open>open\<close> then returns is compared with the handle that was lost.
\<close>

section \<open>What recovery returns\<close>

text \<open>The same logical state: base graph, delta and sequence number.\<close>

definition same_state :: "'g platform \<Rightarrow> 'g persistent_graph \<Rightarrow> 'g persistent_graph \<Rightarrow> bool" where
  "same_state pl g h \<longleftrightarrow>
     base_nodes (x_graph pl) (gs_base (st_state h)) = base_nodes (x_graph pl) (gs_base (st_state g)) \<and>
     base_edges (x_graph pl) (gs_base (st_state h)) = base_edges (x_graph pl) (gs_base (st_state g)) \<and>
     gs_delta (st_state h) = gs_delta (st_state g) \<and> store_seq h = store_seq g"

definition has_state :: "'g platform \<Rightarrow> image \<Rightarrow> op list list \<Rightarrow> nat \<Rightarrow> 'g persistent_graph \<Rightarrow> bool" where
  "has_state pl im batches seq g \<longleftrightarrow>
     base_ok (x_graph pl) (gs_base (st_state g)) \<and>
     base_nodes (x_graph pl) (gs_base (st_state g)) = im_nodes im \<and> base_edges (x_graph pl) (gs_base (st_state g)) = im_edges im \<and>
     gs_delta (st_state g) = replay_all (as_accessor (x_graph pl) (gs_base (st_state g))) batches delta_new \<and> unat (store_seq g) = seq"

lemma has_state_same:
  assumes "has_state pl im bs q g" and "has_state pl im bs q h"
  shows "same_state pl g h"
proof -
  have "accessor_ok (as_accessor (x_graph pl) (gs_base (st_state k))) (im_nodes im) (im_edges im)" if "has_state pl im bs q k" for k
    using base_view.view that unfolding has_state_def by metis
  from replay_all_same [OF this this, OF assms] show ?thesis
    using assms by (simp add: same_state_def has_state_def word_unat_eq_iff)
qed

definition all_batches :: "image \<Rightarrow> op list list" where
  "all_batches im = map wr_ops (drop (im_snap im - im_base im) (im_records im))"

lemma attached_state:
  assumes "attached pl im g s"
  shows "has_state pl im (all_batches im) (unat (wt_seq (st_writer g))) g" and "unat (committed_seq g) = im_hw im"
    and "unat (wt_seq (st_writer g)) = im_base im + length (im_records im)"
  using assms by (auto simp: attached_def has_state_def data_ok_def all_batches_def store_inv_def published_iff store_seq_def committed_seq_def)

lemma reattached_state:
  assumes "reattached pl im im' g s"
  shows "has_state pl im (im_batches im) (im_hw im) g" and "unat (committed_seq g) = im_hw im"
proof -
  have a: "attached pl im' g s" and same: "same_store im im'" and up: "caught_up g"
    using assms by (auto simp: reattached_def recovers_def)
  note st = attached_state [OF a]
  have hw: "im_hw im' = im_base im' + length (im_records im')"
    using up st(2,3) by (simp add: caught_up_def committed_seq_def)
  then have "all_batches im' = im_batches im'" by (simp add: im_batches_def all_batches_def)
  then show "has_state pl im (im_batches im) (im_hw im) g" and "unat (committed_seq g) = im_hw im"
    using st same hw by (simp_all add: has_state_def same_store_def)
qed

lemma caught_up_batches:
  assumes "attached pl im g s" and "caught_up g"
  shows "im_batches im = all_batches im" and "im_hw im = unat (wt_seq (st_writer g))"
  using attached_state(2,3) [OF assms(1)] assms(2) by (simp_all add: im_batches_def all_batches_def caught_up_def committed_seq_def)

section \<open>Restarting\<close>

text \<open>The environment of a run: when its operations fail and the entropy it draws.\<close>

definition with_env :: "(nat \<Rightarrow> fault) \<Rightarrow> (nat \<Rightarrow> io_error + bytes) \<Rightarrow> fs \<Rightarrow> fs" where
  "with_env F E s = s\<lparr>fs_faults := F, fs_entropy := E\<rparr>"

definition reboot :: "(nat \<Rightarrow> fault) \<Rightarrow> (nat \<Rightarrow> io_error + bytes) \<Rightarrow> fs \<Rightarrow> fs" where
  "reboot F E s = with_env F E (s\<lparr>fs_locked := False\<rparr>)"

lemma reboot_simps [simp]:
  "fs_ok (reboot F E s) = fs_ok s" "file_bytes (reboot F E s) = file_bytes s" "fs_locked (reboot F E s) = False"
  "calm (reboot F E s) \<longleftrightarrow> F = (\<lambda>_. Pass) \<and> (\<forall>t. \<exists>bs. E t = Inr bs)"
  by (simp_all add: reboot_def with_env_def fs_ok_def file_bytes_def fun_eq_iff calm_def)

lemma on_disk_reboot [simp]: "on_disk pl im (reboot F E s) = on_disk pl im s"
  by (simp add: on_disk_def)

lemma power_safe_reboot [simp]: "power_safe pl im (reboot F E s) = power_safe pl im s" "power_safe pl im (with_env F E s) = power_safe pl im s"
  by (simp_all add: reboot_def with_env_def power_safe_def durable_def log_safe_def pinned_def)

lemma attached_env [simp]: "attached pl im g (with_env F E s) = attached pl im g s"
  by (simp add: attached_def on_disk_def wal_at_def log_exact_def marker_at_def commit_at_def fd_at_def fs_ok_def file_bytes_def with_env_def)

definition gens_left :: "nat \<Rightarrow> image \<Rightarrow> bool" where
  "gens_left k im \<longleftrightarrow> im_gen im + k < 2 ^ 64"

lemma gens_left_room: "gens_left k im \<Longrightarrow> 0 < k \<Longrightarrow> gen_room im"
proof -
  assume "gens_left k im" "0 < k"
  then have "unat (cr_gen (im_commit im)) + 1 < 2 ^ 64" by (simp add: gens_left_def im_gen_def)
  then have "unat (cr_gen (im_commit im) + 1) = unat (cr_gen (im_commit im)) + 1" by (simp add: unat_word_ariths)
  then show "gen_room im" by (auto simp: gen_room_def)
qed

lemma calm_tears: "calm s \<Longrightarrow> tears_detected pl im s"
  by (simp add: tears_detected_def)

text \<open>Recovery from a directory that holds an image: it succeeds and returns the committed state.\<close>

lemma open_image:
  assumes pl: "platform_ok pl" "no_zero_checksum pl" and disk: "on_disk pl im s" and ok: "image_ok im" and gen: "gens_left 1 im"
    and calm: "calm s" and free: "\<not> fs_locked s"
  shows "\<exists>h s' im'. open_with_vfs pl create mode validate prefault s = (Inr h, s') \<and> reattached pl im im' h s' \<and>
    has_state pl im (im_batches im) (im_hw im) h \<and> committed_seq h = store_seq h \<and> tidy (wt_snapshot_file (st_writer h)) s'"
proof -
  have room: "gen_room im" by (rule gens_left_room [OF gen]) simp
  obtain r s' where run: "open_with_vfs pl create mode validate prefault s = (r, s')" by fastforce
  note o = open_runs [OF pl disk ok room calm_tears [OF calm] free, of create mode validate prefault]
  obtain h where h: "r = Inr h" using o run calm by (cases r) (auto simp: runs_def)
  then obtain im' where im': "reattached pl im im' h s'" "calm s'" using o run calm by (auto simp: runs_def)
  show ?thesis
    using run h im' reattached_state [OF im'(1)] by (auto simp: has_state_def word_unat_eq_iff reattached_def)
qed

text \<open>What a restart finds when the last operation started from the image \<open>im\<close> in \<open>s\<close> and ended in \<open>s'\<close>: after a crash of
  the process the files as they are; after a power loss, if \<open>s\<close> was power safe, what the cut leaves of them.\<close>

definition restart :: "'g platform \<Rightarrow> image \<Rightarrow> fs \<Rightarrow> (nat \<Rightarrow> fault) \<Rightarrow> (nat \<Rightarrow> io_error + bytes) \<Rightarrow> fs \<Rightarrow> fs \<Rightarrow> bool" where
  "restart pl im s F E s' t \<longleftrightarrow> t = reboot F E s' \<or> power_safe pl im s \<and> power_cut F E s' t"

lemma restart_reboot [simp]: "restart pl im s F E s' (reboot F E s')"
  by (simp add: restart_def)

lemma restart_power: "power_safe pl im s \<Longrightarrow> power_cut F E s' t \<Longrightarrow> restart pl im s F E s' t"
  by (simp add: restart_def)

lemma restart_free: "restart pl im s F E s' t \<Longrightarrow> \<not> fs_locked t"
  by (auto simp: restart_def power_cut_def)

lemma restart_move: "restart pl im s F E s' t \<Longrightarrow> (power_safe pl im s \<Longrightarrow> power_safe pl im' s1) \<Longrightarrow> restart pl im' s1 F E s' t"
  by (auto simp: restart_def)

lemma restart_image:
  assumes "restart pl im s F E s' t" and "on_disk pl im' s'" and "P im'" and "power_safe pl im s \<Longrightarrow> survives pl P s'"
  shows "\<exists>x. on_disk pl x t \<and> P x"
  using assms unfolding restart_def survives_def by auto

section \<open>Crashes between and during operations\<close>

text \<open>A crash or a power loss of an attached store loses what is not committed and nothing else.\<close>

lemma restart_idle:
  assumes "restart pl im s F E s t" and "on_disk pl im s" and "image_ok im"
  shows "\<exists>x. on_disk pl x t \<and> shortened im x"
  by (rule restart_image [OF assms(1,2) shortened_refl [OF assms(3)] power_safe_survives [OF assms(2,3)]])

lemma crash_idle:
  assumes pl: "platform_ok pl" "no_zero_checksum pl" and att: "attached pl im g s" and gen: "gens_left 1 im"
    and start: "restart pl im s F E s t" and calm: "calm t"
  shows "\<exists>h s' im'. open_with_vfs pl create mode validate prefault t = (Inr h, s') \<and> reattached pl im im' h s' \<and>
    has_state pl im (im_batches im) (im_hw im) h \<and> committed_seq h = store_seq h \<and> store_seq h = committed_seq g \<and>
    (caught_up g \<longrightarrow> same_state pl g h)"
proof -
  have disk: "on_disk pl im s" and ok: "image_ok im" using att by (simp_all add: attached_def)
  obtain x where x: "on_disk pl x t" "shortened im x" using restart_idle [OF start disk ok] by blast
  note short = shortened_image [OF x(2) ok]
  have gen': "gens_left 1 x" using gen short(3) by (simp add: gens_left_def im_gen_def)
  obtain h s' im' where h: "open_with_vfs pl create mode validate prefault t = (Inr h, s')" "reattached pl x im' h s'"
    "has_state pl x (im_batches x) (im_hw x) h" "committed_seq h = store_seq h"
    using open_image [OF pl x(1) short(1) gen' calm restart_free [OF start]] by blast
  have re: "reattached pl im im' h s'"
    using h(2) same_store_trans [OF short(2)] short(3) by (simp add: reattached_def recovers_def im_gen_def)
  have st: "has_state pl im (im_batches im) (im_hw im) h" using h(3) short(2) by (simp add: has_state_def same_store_def)
  have q: "store_seq h = committed_seq g" using attached_state(2) [OF att] st by (simp add: has_state_def word_unat_eq_iff)
  have "same_state pl g h" if "caught_up g"
    using has_state_same attached_state(1) [OF att] st caught_up_batches [OF att that] by metis
  then show ?thesis using h(1,4) re st q by blast
qed

text \<open>After an acknowledged batch, and before the automatic compaction it may trigger, the handle is attached.\<close>

lemma batch_attached:
  fixes ops :: "op list"
  assumes att: "attached pl im g s" and gen: "gens_left (Suc k) im" and tears: "tears_detected pl im s" and over: "wt_seq (st_writer g) + 1 \<noteq> 0"
    and run: "apply_batch pl ops exp (g, s) = (Inr q, gs')"
  obtains im' g1 s1 w1 where "auto_compact pl (g1, s1) = gs'" and "attached pl im' g1 s1" and "gens_left k im'" and "batch_adopted pl ops g g1"
    and "commit_batch pl \<lparr>wr_seq = wt_seq (st_writer g) + 1, wr_ops = ops\<rparr> (st_writer g, s) = (Inr (), (w1, s1))"
    and "ww_policy (wt_wal (st_writer g)) = EveryBatch \<Longrightarrow> caught_up g1" and "q = wt_seq (st_writer g) + 1"
    and "power_safe pl im s \<Longrightarrow> power_safe pl im' s1"
proof -
  have room: "gen_room im" by (rule gens_left_room [OF gen]) simp
  let ?r = "\<lparr>wr_seq = wt_seq (st_writer g) + 1, wr_ops = ops\<rparr>"
  obtain im' g1 s1 w1 where b: "auto_compact pl (g1, s1) = gs'" "attached pl im' g1 s1" "batch_adopted pl ops g g1"
      "commit_batch pl ?r (st_writer g, s) = (Inr (), (w1, s1))" "q = wt_seq (st_writer g) + 1"
      "power_safe pl im s \<longrightarrow> power_safe pl im' s1"
    and im': "committed_image ?r im im' \<and> (ww_policy (wt_wal (st_writer g)) = EveryBatch \<longrightarrow> caught_up g1) \<or>
      appended_image ?r im im' \<and> ww_policy (wt_wal (st_writer g)) \<noteq> EveryBatch"
    using apply_batch_runs [OF att room tears over, of ops exp] unfolding runs_def run prod.case sum.case by blast
  have "im_gen im' \<le> im_gen im + 1"
    using im' next_gen_le by (fastforce simp: committed_image_def appended_image_def im_gen_def commit_all_def with_record_def)
  then have "gens_left k im'" using gen by (auto simp: gens_left_def)
  then show ?thesis using that b im' by blast
qed

lemma attached_after_apply:
  assumes "attached pl im g s" and "gens_left (Suc k) im" and "tears_detected pl im s" and "wt_seq (st_writer g) + 1 \<noteq> 0"
    and "\<not> compacts pl ops g" and "apply_batch pl ops exp (g, s) = (Inr q, (g', s'))"
  shows "\<exists>im'. attached pl im' g' s' \<and> gens_left k im' \<and> (power_safe pl im s \<longrightarrow> power_safe pl im' s')"
proof -
  obtain im' g1 s1 where b: "auto_compact pl (g1, s1) = (g', s')" "attached pl im' g1 s1" "gens_left k im'" "batch_adopted pl ops g g1"
      "power_safe pl im s \<Longrightarrow> power_safe pl im' s1"
    using batch_attached [OF assms(1-4,6)] by metis
  then show ?thesis using auto_compact_adopted [OF b(4), of s1] assms(5) by auto
qed

text \<open>What a restart finds after an \<open>apply\<close> that returned an error.\<close>

lemma apply_stopped:
  assumes att: "attached pl im g s" and room: "gen_room im" and tears: "tears_detected pl im s" and over: "wt_seq (st_writer g) + 1 \<noteq> 0"
    and run: "apply_batch pl ops exp (g, s) = (Inl e, (g', s'))" and start: "restart pl im s F E s' t"
  defines "r \<equiv> \<lparr>wr_seq = wt_seq (st_writer g) + 1, wr_ops = ops\<rparr>"
  shows "unat (wr_seq r) = Suc (im_base im + length (im_records im))" and "\<exists>x. on_disk pl x t \<and> batch_left r im x"
proof -
  have ok: "image_ok im" and disk: "on_disk pl im s" using att by (simp_all add: attached_def)
  show seq: "unat (wr_seq r) = Suc (im_base im + length (im_records im))"
    using unatSuc [of "wt_seq (st_writer g)"] over attached_state(3) [OF att] by (simp add: r_def add.commute)
  have "s' = s \<or> (\<exists>im'. on_disk pl im' s' \<and> (im' = im \<or> appended_image r im im' \<or> committed_image r im im')) \<and>
      (power_safe pl im s \<longrightarrow> survives pl (batch_left r im) s')"
    using apply_batch_runs [OF att room tears over, of ops exp] unfolding runs_def run r_def prod.case sum.case by blast
  then show "\<exists>x. on_disk pl x t \<and> batch_left r im x"
  proof
    assume "s' = s"
    then have "restart pl im s F E s t" using start by simp
    from restart_idle [OF this disk ok] show ?thesis unfolding batch_left_def by blast
  next
    assume "(\<exists>im'. on_disk pl im' s' \<and> (im' = im \<or> appended_image r im im' \<or> committed_image r im im')) \<and>
      (power_safe pl im s \<longrightarrow> survives pl (batch_left r im) s')"
    then obtain im' where d: "on_disk pl im' s'" and im': "im' = im \<or> appended_image r im im' \<or> committed_image r im im'"
      and cut: "power_safe pl im s \<longrightarrow> survives pl (batch_left r im) s'" by blast
    have "batch_left r im im'"
      using im' shortened_refl [OF ok] shortened_refl [OF with_record_image(1) [OF ok seq]] by (auto simp: batch_left_def appended_image_def)
    then show ?thesis using restart_image [OF start d] cut by blast
  qed
qed

text \<open>A batch whose \<open>apply\<close> was cut short is there as a whole or not at all.\<close>

lemma crash_during_apply:
  assumes pl: "platform_ok pl" "no_zero_checksum pl" and att: "attached pl im g s" and gen: "gens_left 2 im"
    and tears: "tears_detected pl im s" and over: "wt_seq (st_writer g) + 1 \<noteq> 0" and up: "caught_up g"
    and run: "apply_batch pl ops exp (g, s) = (Inl e, (g', s'))"
    and start: "restart pl im s F E s' t" and calm: "calm t"
  shows "\<exists>h s''. open_with_vfs pl create mode validate prefault t = (Inr h, s'') \<and>
    (same_state pl g h \<or> same_state pl (with_batch pl ops g) h)"
proof -
  have room: "gen_room im" by (rule gens_left_room [OF gen]) simp
  have gen1: "gens_left 1 im" using gen by (simp add: gens_left_def)
  have ok: "image_ok im" and disk: "on_disk pl im s" and pub: "published g" using att by (simp_all add: attached_def store_inv_def)
  note free = restart_free [OF start]
  note pub = pub [unfolded published_iff]
  let ?r = "\<lparr>wr_seq = wt_seq (st_writer g) + 1, wr_ops = ops\<rparr>"
  note b = caught_up_batches [OF att up] and st = attached_state [OF att]
  note seq = apply_stopped(1) [OF att room tears over run start]
  obtain im' where im': "on_disk pl im' t" "batch_left ?r im im'" using apply_stopped(2) [OF att room tears over run start] by blast
  note c = batch_left_cases [OF im'(2) ok seq]
  have "same_store im im' \<and> im_commit im' = im_commit im \<or> committed_image ?r im im'" using c by blast
  then show ?thesis
  proof
    assume s: "same_store im im' \<and> im_commit im' = im_commit im"
    have g1: "gens_left 1 im'" using s gen1 by (simp add: gens_left_def im_gen_def)
    obtain h s'' where h: "open_with_vfs pl create mode validate prefault t = (Inr h, s'')" "has_state pl im' (im_batches im') (im_hw im') h"
      using open_image [OF pl im'(1) conjunct1 [OF c] g1 calm free] by blast
    have "has_state pl im (all_batches im) (unat (wt_seq (st_writer g))) h" using h(2) s b by (simp add: has_state_def same_store_def)
    then have "same_state pl g h" using has_state_same st(1) by metis
    then show ?thesis using h(1) by blast
  next
    assume com: "committed_image ?r im im'"
    obtain n where n: "unat (cr_committed_seq n) = Suc (im_base im + length (im_records im))" "cr_gen n = cr_gen (im_commit im) + 1"
      "im' = commit_all n (with_record ?r im)" using com by (auto simp: committed_image_def)
    have g1: "gens_left 1 im'" using n(2,3) gen next_gen_le by (fastforce simp: gens_left_def im_gen_def commit_all_def)
    obtain h s'' where h: "open_with_vfs pl create mode validate prefault t = (Inr h, s'')" "has_state pl im' (im_batches im') (im_hw im') h"
      using open_image [OF pl im'(1) conjunct1 [OF c] g1 calm free] by blast
    have hw: "im_hw im' = Suc (im_base im + length (im_records im))" by (rule committed_image_ok(2) [OF ok seq com])
    have le: "im_snap im - im_base im \<le> length (im_records im)" using ok by (auto simp: image_ok_def im_hw_def)
    have bs: "im_batches im' = all_batches im @ [ops]"
      using le hw by (simp add: im_batches_def n(3) commit_all_def with_record_def im_snap_def all_batches_def)
    have im: "im_nodes im' = im_nodes im" "im_edges im' = im_edges im" by (simp_all add: n(3) commit_all_def with_record_def)
    let ?A = "as_accessor (x_graph pl) (gs_base (st_state g))" and ?B = "as_accessor (x_graph pl) (gs_base (st_state h))"
    have ab: "accessor_ok ?A (im_nodes im) (im_edges im)" "accessor_ok ?B (im_nodes im) (im_edges im)"
      using base_view.view st(1) h(2) im unfolding has_state_def by metis+
    have "gs_delta (st_state h) = delta_replay ?A ops (gs_delta (st_state g))"
      using h(2) st(1) bs delta_replay_same [OF ab] replay_all_same [OF ab] by (simp add: has_state_def)
    moreover have "unat (store_seq h) = unat (store_seq g + 1)"
      using h(2) hw st(1,3) seq unfolding has_state_def by (simp add: word_unat_eq_iff) (metis word_unat_eq_iff)
    ultimately have "same_state pl (with_batch pl ops g) h"
      using h(2) st(1) im pub
      by (auto simp: same_state_def with_batch_def Let_def adopt_batch_def publish_def store_seq_def has_state_def word_unat_eq_iff)
    then show ?thesis using h(1) by blast
  qed
qed

text \<open>What a restart finds after a \<open>flush\<close> that returned an error.\<close>

lemma flush_stopped:
  assumes att: "attached pl im g s" and room: "gen_room im" and tears: "tears_detected pl im s"
    and run: "flush pl (g, s) = (Inl e, (g', s'))" and start: "restart pl im s F E s' t"
  shows "\<exists>x. on_disk pl x t \<and> (shortened im x \<or> (\<exists>n. x = commit_all n im \<and> flushed_by n im (wt_seq (st_writer g))))"
proof -
  let ?P = "\<lambda>x. shortened im x \<or> (\<exists>n. x = commit_all n im \<and> flushed_by n im (wt_seq (st_writer g)))"
  have ok: "image_ok im" using att by (simp add: attached_def)
  obtain x where "on_disk pl x s'" "?P x" "power_safe pl im s \<longrightarrow> survives pl ?P s'"
    using flush_runs [OF att room tears] shortened_refl [OF ok] unfolding runs_def run prod.case sum.case by blast
  then show ?thesis using restart_image [OF start, of x ?P] by blast
qed

text \<open>After a flush nothing is lost.\<close>

lemma crash_after_flush:
  assumes pl: "platform_ok pl" "no_zero_checksum pl" and att: "attached pl im g s" and gen: "gens_left 2 im"
    and tears: "tears_detected pl im s" and run: "flush pl (g, s) = (Inr (), (g', s'))"
    and start: "restart pl im s F E s' t" and calm: "calm t"
  shows "\<exists>h s''. open_with_vfs pl create mode validate prefault t = (Inr h, s'') \<and> same_state pl g h \<and>
    committed_seq h = store_seq g"
proof -
  have room: "gen_room im" by (rule gens_left_room [OF gen]) simp
  obtain n where att': "attached pl (commit_all n im) g' s'" and n: "flushed_by n im (wt_seq (st_writer g))"
      and sync: "power_safe pl im s \<longrightarrow> synced (commit_all n im) s'"
    using flush_runs [OF att room tears] run by (auto simp: runs_def)
  have gen': "gens_left 1 (commit_all n im)"
    using n gen next_gen_le by (fastforce simp: flushed_by_def gens_left_def im_gen_def commit_all_def)
  note f = flush_cases [OF run]
  have up: "caught_up g'" using f(3) same_dataD(1) [OF f(2)] by (simp add: caught_up_def committed_seq_def)
  have start': "restart pl (commit_all n im) s' F E s' t"
    by (rule restart_move [OF start]) (use sync synced_power_safe att' in \<open>auto simp: attached_def\<close>)
  obtain h s'' where h: "open_with_vfs pl create mode validate prefault t = (Inr h, s'')" "committed_seq h = store_seq h"
    "same_state pl g' h" using crash_idle [OF pl att' gen' start' calm] up by blast
  moreover have "same_state pl g h" using h(3) f(1) by (simp add: same_state_def store_seq_def)
  ultimately show ?thesis by (auto simp: same_state_def)
qed

text \<open>A recovery that is itself cut short can be repeated: the directory still holds the same store.\<close>

lemma crash_during_open:
  assumes pl: "platform_ok pl" "no_zero_checksum pl" and disk: "on_disk pl im s" and ok: "image_ok im" and gen: "gens_left 2 im"
    and tears: "tears_detected pl im s" and free: "\<not> fs_locked s"
    and run: "open_with_vfs pl create mode validate prefault s = (Inl e, s')"
    and start: "restart pl im s F E s' t" and calm: "calm t"
  shows "\<not> calm s \<and> (\<exists>h s''. open_with_vfs pl create' mode' validate' prefault' t = (Inr h, s'') \<and>
    has_state pl im (im_batches im) (im_hw im) h \<and> committed_seq h = store_seq h)"
proof -
  have room: "gen_room im" by (rule gens_left_room [OF gen]) simp
  have h: "\<not> calm s" "holds pl im s'" "power_safe pl im s \<longrightarrow> outlasts pl im s'"
    using open_runs [OF pl disk ok room tears free, of create mode validate prefault] run by (auto simp: runs_def)
  then obtain x where x: "on_disk pl x s'" "image_ok x \<and> recovers im x" by (auto simp: holds_def)
  obtain im' where im': "on_disk pl im' t" "image_ok im'" "same_store im im'" "im_gen im' \<le> im_gen im + 1"
    using restart_image [OF start x(1), of "\<lambda>x. image_ok x \<and> recovers im x"] x(2) h(3) by (auto simp: outlasts_def recovers_def)
  have gen': "gens_left 1 im'" using im'(4) gen by (simp add: gens_left_def)
  show ?thesis
    using open_image [OF pl im'(1,2) gen' calm restart_free [OF start], of create' mode' validate' prefault'] h(1) im'(3)
    by (auto simp: has_state_def same_store_def)
qed

end
