(* ===== verification/OG_Compact_Disk.thy ===== *)
theory OG_Compact_Disk
  imports OG_Crash
begin

text \<open>
  Compaction on an attached store. On success the handle is attached to the image of the folded graph
  with an empty log; when a fault stops it at any step, the directory holds the store as it was or
  the folded one, also after a power cut when the store was on stable storage.
\<close>

section \<open>Images during a compaction\<close>

definition folded :: "manifest \<Rightarrow> (string \<Rightarrow> node_view option) \<Rightarrow> graph_edge multiset \<Rightarrow> image \<Rightarrow> image" where
  "folded m N E im = im\<lparr>im_manifest := m, im_nodes := N, im_edges := E\<rparr>"

definition cut_log :: "image \<Rightarrow> image" where
  "cut_log im = im\<lparr>im_records := [], im_base := im_snap im\<rparr>"

text \<open>A manifest that stands for everything in the log.\<close>

definition covers :: "manifest \<Rightarrow> image \<Rightarrow> bool" where
  "covers m im \<longleftrightarrow>
     mf_format_version m = 3 \<and> mf_snapshot_file m = snapshot_v2_name (mf_snapshot_seq m) (mf_compaction_id m) \<and>
     unat (mf_snapshot_seq m) = im_base im + length (im_records im) \<and> unat (mf_high_seq m) = im_base im + length (im_records im)"

lemma folded_image:
  assumes ok: "image_ok im" and m: "covers m im"
  shows "image_ok (folded m N E im)" and "im_hw (folded m N E im) = im_base im + length (im_records im)"
    and "im_snap (folded m N E im) = im_base im + length (im_records im)" and "im_batches (folded m N E im) = []"
proof -
  have c: "unat (cr_committed_seq (im_commit im)) \<le> im_base im + length (im_records im)" using ok by (simp add: image_ok_def im_hw_def)
  show s: "im_snap (folded m N E im) = im_base im + length (im_records im)" using m by (simp add: folded_def im_snap_def covers_def)
  show h: "im_hw (folded m N E im) = im_base im + length (im_records im)"
    using c unfolding im_hw_def s by (simp add: folded_def)
  show "image_ok (folded m N E im)" using ok m unfolding image_ok_def h s by (simp add: folded_def covers_def)
  show "im_batches (folded m N E im) = []" unfolding im_batches_def h s by (simp add: folded_def)
qed

lemma cut_log_image:
  assumes "image_ok im" and "im_snap im = im_hw im"
  shows "image_ok (cut_log im)" and "im_hw (cut_log im) = im_hw im"
  using assms by (simp_all add: image_ok_def cut_log_def im_hw_def im_snap_def)

lemma cut_log_simps [simp]:
  "im_nodes (cut_log im) = im_nodes im" "im_edges (cut_log im) = im_edges im" "im_manifest (cut_log im) = im_manifest im"
  "im_commit (cut_log im) = im_commit im" "im_snap (cut_log im) = im_snap im" "im_base (cut_log im) = im_snap im"
  "im_records (cut_log im) = []"
  by (simp_all add: cut_log_def im_snap_def)

lemma on_disk_cut:
  assumes "on_disk pl im s" and "image_ok im" and "evolves {wal_name} s s'" and "file_bytes s' wal_name = Some []"
  shows "on_disk pl (cut_log im) s'"
proof -
  have "on_disk pl (im\<lparr>im_records := []\<rparr>) s'"
    by (rule on_disk_log [OF assms log_exact_bytes]) simp
  then show ?thesis by (simp add: on_disk_def cut_log_def)
qed

section \<open>Emptying the log\<close>

lemma emptied_survives:
  assumes disk: "on_disk pl im s" and ok: "image_ok im" and sync: "synced im s" and e: "evolves {wal_name} s s'"
    and lb: "file_bytes s wal_name = Some lb" "log_bytes pl (im_records im) lb"
    and cut: "\<forall>F E t. power_cut F E s' t \<longrightarrow> file_bytes t wal_name \<in> {Some lb, Some []}"
  shows "survives pl (\<lambda>x. x = im \<or> x = cut_log im) s'"
  unfolding survives_def
proof (intro allI impI)
  fix F E t assume c: "power_cut F E s' t"
  have fs: "fs_ok s" using disk by (simp add: on_disk_def)
  have free: "mf_snapshot_file (im_manifest im) \<noteq> wal_name" using image_ok_file [OF ok] by (auto simp: reserved_def)
  have same: "file_bytes t p = file_bytes s p" if "p \<in> im_files im" "p \<noteq> wal_name" for p
    using durable_cut [OF c durable_evolves [OF _ e fs]] evolvesD(2) [OF e fs, of p] that sync by (simp add: synced_def)
  have t: "on_disk pl (im\<lparr>im_records := rs\<rparr>) t" if "file_bytes t wal_name = Some x" "log_bytes pl rs x" for x rs
  proof -
    obtain cb i where cb: "file_bytes s commit_name = Some cb" "commit_live (x_crc pl) cb (im_commit im) i"
      using disk by (auto simp: on_disk_def)
    have "on_disk pl (im\<lparr>im_records := rs, im_commit := im_commit im\<rparr>) t"
      by (rule on_disk_after [OF disk power_cut_fs(1) [OF c] _ _ that _ cb(2)]) (use same free cb(1) in \<open>auto simp: im_files_def\<close>)
    then show ?thesis by simp
  qed
  have "log_bytes pl [] []" by (rule log_exact_bytes) simp
  moreover have "on_disk pl (im\<lparr>im_records := []\<rparr>) t = on_disk pl (cut_log im) t" by (simp add: on_disk_def cut_log_def)
  moreover have "file_bytes t wal_name \<in> {Some lb, Some []}" using cut c by blast
  ultimately show "\<exists>x. on_disk pl x t \<and> (x = im \<or> x = cut_log im)" using t [of lb "im_records im"] t [of "[]" "[]"] lb(2) by auto
qed

lemma wal_truncate_image:
  assumes j: "joined pl im w s" and snap: "im_snap im = im_hw im"
  shows "runs (with_wal wal_truncate) (w, s)
    (\<lambda>_ (w', s'). evolves {wal_name} s s' \<and> joined pl (cut_log im) w' s' \<and> same_data w w' \<and> wt_durable_seq w' = wt_durable_seq w \<and>
       (synced im s \<longrightarrow> synced (cut_log im) s'))
    (\<lambda>(w', s'). fails {wal_name} s s' \<and> (on_disk pl im s' \<or> on_disk pl (cut_log im) s') \<and>
       (synced im s \<longrightarrow> survives pl (\<lambda>x. x = im \<or> x = cut_log im) s'))"
proof -
  have disk: "on_disk pl im s" and ok: "image_ok im" and at: "wal_at (wt_wal w) s" and np: "\<not> ww_poisoned (wt_wal w)"
    and mk: "marker_at pl (im_commit im) (wt_commit w) s" using j by (simp_all add: joined_def poisoned_def)
  obtain lb where lb: "file_bytes s wal_name = Some lb" "log_bytes pl (im_records im) lb" using disk by (auto simp: on_disk_def)
  obtain x wal' s' where run: "wal_truncate (wt_wal w, s) = (x, (wal', s'))" by (metis prod_cases3)
  have ww: "with_wal wal_truncate (w, s) = (x, (w\<lparr>wt_wal := wal'\<rparr>, s'))" using run by (simp add: with_wal_def)
  have dir: "keeps (fs_dir \<circ> snd) wal_truncate" by (intro keeps)
  have d: "fs_dir s' = fs_dir s" using keeps_pairD [OF dir run] by simp
  note t = wal_truncate_runs [OF at] and calm = wal_truncate_calm [OF np]
  have fs: "fs_ok s" using disk by (rule on_disk_fs)
  have power: "runs wal_truncate (wt_wal w, s) (\<lambda>_ (w', s'). durable s' wal_name)
      (\<lambda>(w', s'). \<forall>F E t. power_cut F E s' t \<longrightarrow> file_bytes t wal_name \<in> {Some lb, Some []})" if "synced im s"
    by (rule wal_truncate_power [OF at _ lb(1)]) (use that in \<open>simp add: synced_iff\<close>)
  have sync: "synced (cut_log im) s'" if "synced im s" "evolves {wal_name} s s'" "x = Inr ()"
    using synced_log [OF synced_power_safe [OF that(1) disk] that(2) fs ok] power [OF that(1)] that(3) run by (simp add: runs_def cut_log_def)
  have cut: "survives pl (\<lambda>x. x = im \<or> x = cut_log im) s'" if "synced im s" "evolves {wal_name} s s'" "x = Inl e" for e
    by (rule emptied_survives [OF disk ok that(1,2) lb]) (use power [OF that(1)] run that(3) in \<open>simp add: runs_def\<close>)
  show ?thesis
  proof (cases x)
    case (Inl e)
    have "emptied s s' \<or> evolves {wal_name} s s' \<and> file_bytes s' wal_name = file_bytes s wal_name" "\<not> calm s"
      using t run Inl calm by (auto simp: runs_def)
    then show ?thesis
      using ww Inl on_disk_cut [OF disk ok] on_disk_log [OF disk ok _ _ lb(2)] lb(1) cut by (auto simp: runs_def fails_def emptied_def)
  next
    case (Inr u)
    then have e: "evolves {wal_name} s s'" "file_bytes s' wal_name = Some []" "wal_like (wt_wal w) wal'"
      using t run by (auto simp: runs_def emptied_def)
    have "wal_at wal' s'" by (rule wal_at_same_dir [OF e(1) d _ at]) (use e(3) in \<open>simp add: wal_like_def\<close>)
    then have "joined pl (cut_log im) (w\<lparr>wt_wal := wal'\<rparr>) s'"
      using on_disk_cut [OF disk ok e(1,2)] cut_log_image [OF ok snap] marker_at_evolves [OF mk e(1)] e(2,3) np
      by (simp add: joined_def poisoned_def wal_like_def log_exact_def)
    then show ?thesis using ww Inr e(1) sync by (simp add: runs_def)
  qed
qed

section \<open>The steps of a compaction\<close>

lemma with_fs_runs:
  "runs m s Q X \<Longrightarrow> runs (with_fs m) (w, s) (\<lambda>x (w', s'). w' = w \<and> Q x s') (\<lambda>(w', s'). w' = w \<and> X s')"
  by (auto simp: runs_def with_fs_def split: prod.splits sum.splits)

text \<open>Images of the folded graph.\<close>

definition refold :: "'g platform \<Rightarrow> 'g orpheus_graph \<Rightarrow> image \<Rightarrow> image \<Rightarrow> bool" where
  "refold pl G im im' \<longleftrightarrow>
     image_ok im' \<and> im_nodes im' = og_nodes (x_graph pl) G \<and> im_edges im' = og_edges (x_graph pl) G \<and> im_batches im' = [] \<and>
     im_hw im' = im_base im + length (im_records im) \<and> im_gen im' \<le> im_gen im + 1"

definition refolded :: "'g platform \<Rightarrow> manifest \<Rightarrow> 'g orpheus_graph \<Rightarrow> image \<Rightarrow> image" where
  "refolded pl m G im = folded m (og_nodes (x_graph pl) G) (og_edges (x_graph pl) G) im"

lemma refolded_simps [simp]:
  "im_base (refolded pl m G im) = im_base im" "im_records (refolded pl m G im) = im_records im" "im_commit (refolded pl m G im) = im_commit im"
  "im_manifest (refolded pl m G im) = m" "im_nodes (refolded pl m G im) = og_nodes (x_graph pl) G"
  "im_edges (refolded pl m G im) = og_edges (x_graph pl) G"
  by (simp_all add: refolded_def folded_def)

lemma commit_all_simps [simp]:
  "im_base (commit_all n im) = im_base im" "im_records (commit_all n im) = im_records im" "im_commit (commit_all n im) = n"
  "im_manifest (commit_all n im) = im_manifest im" "im_nodes (commit_all n im) = im_nodes im"
  "im_edges (commit_all n im) = im_edges im" "im_snap (commit_all n im) = im_snap im"
  by (simp_all add: commit_all_def im_snap_def)

lemma refold_images:
  assumes ok: "image_ok im" and m: "covers m im"
    and n: "unat (cr_committed_seq n) = im_base im + length (im_records im)" "cr_gen n = cr_gen (im_commit im) + 1"
  shows "refold pl G im (refolded pl m G im)" and "refold pl G im (commit_all n (refolded pl m G im))"
    and "refold pl G im (cut_log (commit_all n (refolded pl m G im)))"
    and "im_snap (commit_all n (refolded pl m G im)) = im_hw (commit_all n (refolded pl m G im))"
proof -
  note f = folded_image [OF ok m, of "og_nodes (x_graph pl) G" "og_edges (x_graph pl) G", folded refolded_def]
  have n': "unat (cr_committed_seq n) = im_base (refolded pl m G im) + length (im_records (refolded pl m G im))" using n(1) by simp
  note c = commit_all_image [OF f(1) n']
  show eq: "im_snap (commit_all n (refolded pl m G im)) = im_hw (commit_all n (refolded pl m G im))" using f(3) c(2) by simp
  show "refold pl G im (refolded pl m G im)" using f by (simp add: refold_def im_gen_def)
  show "refold pl G im (commit_all n (refolded pl m G im))"
    using c f(3) next_gen_le [OF n(2)] by (simp add: refold_def im_gen_def)
  show "refold pl G im (cut_log (commit_all n (refolded pl m G im)))"
    using cut_log_image [OF c(1) eq] c(2) next_gen_le [OF n(2)] by (simp add: refold_def im_gen_def im_batches_def)
qed

lemma joined_evolves:
  assumes "joined pl im w s" and "evolves D s s'" and "D \<inter> im_files im = {}"
  shows "joined pl im w s'"
proof -
  have n: "wal_name \<notin> D" "commit_name \<notin> D" using assms(3) by (auto simp: im_files_def)
  show ?thesis
    using assms(1) on_disk_evolves [OF _ assms(2,3), of pl] wal_at_evolves [OF assms(2) n(1) refl] marker_at_evolves [OF _ assms(2) n(2)]
      log_exact_evolves [OF _ assms(2) on_disk_fs n(1)]
    by (auto simp: joined_def)
qed

lemma reload_base_runs:
  assumes pl: "platform_ok pl" and G: "og_ok (x_graph pl) G" "small_graph (x_graph pl) G"
    and b: "snapshot_bytes pl G = Inr bytes" "file_bytes s new_file = Some bytes"
  shows "runs (reload_base pl G new_file (x_crc pl bytes)) (w, s)
    (\<lambda>b (w', s'). evolves {} s s' \<and> w' = w \<and> base_ok (x_graph pl) b \<and> base_nodes (x_graph pl) b = og_nodes (x_graph pl) G \<and>
       base_edges (x_graph pl) b = og_edges (x_graph pl) G)
    (\<lambda>(w', s'). fails {} s s')"
proof (cases "wt_mode w")
  case OwnedMode
  then show ?thesis using pl G by (simp add: runs_def reload_base_def evolves_refl platform_ok_def)
next
  case MmapMode
  let ?m = "\<lparr>mf_format_version = 3, mf_snapshot_file = new_file, mf_snapshot_seq = 0, mf_snapshot_crc32 = x_crc pl bytes,
    mf_compaction_id = 0, mf_epoch = 0, mf_high_seq = 0, mf_clean_shutdown = False, mf_created_by = [], mf_checksum = 0\<rparr>"
  have "runs (load_base pl ?m MmapMode NoValidate (wt_prefault w)) s
    (\<lambda>b s'. evolves {} s s' \<and> base_ok (x_graph pl) b \<and> base_nodes (x_graph pl) b = og_nodes (x_graph pl) G \<and>
       base_edges (x_graph pl) b = og_edges (x_graph pl) G) (fails {} s)"
    by (rule load_base_runs [of s ?m bytes]) (use b written_base_bytes [OF pl G b(1)] in simp_all)
  then have "runs (with_fs (load_snapshot pl new_file MmapMode NoValidate (wt_prefault w) (x_crc pl bytes))) (w, s)
      (\<lambda>b (w', s'). w' = w \<and> evolves {} s s' \<and> base_ok (x_graph pl) b \<and> base_nodes (x_graph pl) b = og_nodes (x_graph pl) G \<and>
       base_edges (x_graph pl) b = og_edges (x_graph pl) G) (\<lambda>(w', s'). w' = w \<and> fails {} s s')"
    by (intro with_fs_runs) (simp add: load_base_def)
  then show ?thesis unfolding runs_def reload_base_def by (auto simp: MmapMode split: prod.splits sum.splits)
qed

text \<open>The file names a compaction writes are not among those the image reads.\<close>

lemma new_snapshot_fresh:
  assumes ok: "image_ok im" and m: "pointers_ok w (im_manifest im)"
  defines "new \<equiv> snapshot_v2_name (wt_seq w) (wt_compaction_id w + 1)"
  shows "{new, tmp_name new} \<inter> im_files im = {}" and "mf_snapshot_file (im_manifest im) \<noteq> new"
proof -
  have old: "mf_snapshot_file (im_manifest im) = snapshot_v2_name (mf_snapshot_seq (im_manifest im)) (wt_compaction_id w)"
    using ok m by (simp add: image_ok_def pointers_ok_def)
  have "wt_compaction_id w \<noteq> wt_compaction_id w + 1" by (metis add_cancel_left_right add.commute zero_neq_one)
  then show ne: "mf_snapshot_file (im_manifest im) \<noteq> new" by (simp add: old new_def snapshot_name_iff)
  have "tmp_name new \<noteq> mf_snapshot_file (im_manifest im)" unfolding old new_def by (rule snapshot_tmp_other)
  then show "{new, tmp_name new} \<inter> im_files im = {}"
    using ne snapshot_name_fixed [of "wt_seq w" "wt_compaction_id w + 1"] snapshot_tmp_fixed [of "wt_seq w" "wt_compaction_id w + 1"]
    by (auto simp: im_files_def new_def)
qed

lemma compact_writer_runs:
  fixes w :: "'g writer" and G :: "'g orpheus_graph"
  assumes pl: "platform_ok pl" "no_zero_checksum pl" and G: "og_ok (x_graph pl) G" "small_graph (x_graph pl) G"
    and l: "linked pl im w s" and d: "data_ok pl im w" and p: "pointers_ok w (im_manifest im)" and dur: "wt_durable_seq w \<le> wt_seq w"
    and room: "gen_room im" and tears: "tears_detected pl im s"
  defines "new \<equiv> snapshot_v2_name (wt_seq w) (wt_compaction_id w + 1)"
  shows "runs (compact_writer pl G new) (w, s)
    (\<lambda>b (w', s'). fs_locked s' = fs_locked s \<and> mf_snapshot_file (im_manifest im) \<noteq> new \<and>
       base_ok (x_graph pl) b \<and> base_nodes (x_graph pl) b = og_nodes (x_graph pl) G \<and> base_edges (x_graph pl) b = og_edges (x_graph pl) G \<and>
       (\<exists>im'. linked pl im' w' s' \<and> refold pl G im im' \<and> im_records im' = [] \<and> im_base im' = im_snap im' \<and> im_hw im' = unat (wt_seq w) \<and>
          mf_snapshot_file (im_manifest im') = new \<and> pointers_ok w' (im_manifest im') \<and> (synced im s \<longrightarrow> synced im' s')))
    (\<lambda>(w', s'). \<not> calm s \<and> (on_disk pl im s' \<or> (\<exists>im'. on_disk pl im' s' \<and> refold pl G im im')) \<and>
       (synced im s \<longrightarrow> survives pl (\<lambda>x. x = im \<or> refold pl G im x) s'))"
    (is "runs _ _ ?Q ?X")
proof -
  obtain bytes where bytes: "snapshot_bytes pl G = Inr bytes" using snapshot_bytes_total [OF G(2)] by blast
  have disk: "on_disk pl im s" and ok: "image_ok im" and j: "joined pl im w s" using l by (simp_all add: linked_def joined_def)
  have fs: "fs_ok s" using disk by (rule on_disk_fs)
  have seq: "unat (wt_seq w) = im_base im + length (im_records im)" using d by (simp add: data_ok_def)
  have q: "max (wt_durable_seq w) (wt_seq w) = wt_seq w" using dur by (simp add: max_def)
  note free = new_snapshot_fresh [OF ok p, folded new_def]
  let ?crc = "x_crc pl bytes"
  let ?cm = "compacted_manifest w new ?crc" and ?a = "adopt_snapshot new ?crc w"
  let ?m = "stamp_manifest (x_crc pl) ?cm"
  have cov: "covers ?m im" using seq by (simp add: covers_def compacted_manifest_def format_version_def new_def)
  let ?n = "next_record (wt_epoch ?a) (wt_seq w) (wt_commit ?a)"
  have n: "unat (cr_committed_seq ?n) = im_base im + length (im_records im)" "cr_gen ?n = cr_gen (im_commit im) + 1"
    using seq j by (simp_all add: next_record_def joined_def marker_at_def adopt_snapshot_def)
  note im = refold_images [OF ok cov n, of pl G]
  let ?im1 = "refolded pl ?m G im" and ?im2 = "commit_all ?n (refolded pl ?m G im)" and ?im3 = "cut_log (commit_all ?n (refolded pl ?m G im))"
  let ?P = "\<lambda>x. x = im \<or> x = ?im1 \<or> x = ?im2 \<or> x = ?im3"
  have X: "?X (w', s')" if "fails D s1 s'" "calm s1 = calm s" "on_disk pl im s' \<or> on_disk pl ?im1 s' \<or> on_disk pl ?im2 s' \<or> on_disk pl ?im3 s'"
      "synced im s \<longrightarrow> survives pl P s'" "\<And>x. P x \<Longrightarrow> ?P x" for D w' s1 s' P
  proof -
    have "survives pl (\<lambda>x. x = im \<or> refold pl G im x) s'" if "synced im s"
      by (rule survives_mono [where P = P]) (use that \<open>synced im s \<longrightarrow> survives pl P s'\<close> \<open>\<And>x. P x \<Longrightarrow> ?P x\<close> im in blast)+
    then show ?thesis using that(1-3) im by (auto simp: fails_def)
  qed
  have finish: "runs (reload_base pl G new ?crc) (w4, s4) ?Q ?X"
    if j4: "joined pl ?im3 w4 s4" and w4: "wt_durable_seq w4 = wt_seq w" "pointers_ok w4 ?m"
      and s4: "file_bytes s4 new = Some bytes" "fs_locked s4 = fs_locked s" "calm s4 = calm s" "synced im s \<longrightarrow> synced ?im3 s4" for w4 s4
  proof (rule runs_mono [OF reload_base_runs [OF pl(1) G bytes s4(1)]], goal_cases)
    case (1 b ws)
    obtain s5 where ws: "ws = (w4, s5)" and e: "evolves {} s4 s5" using 1 by (cases ws) auto
    have hw: "im_hw ?im3 = unat (wt_seq w)" using im(3) seq by (simp add: refold_def)
    have fs4: "fs_ok s4" using j4 by (simp add: joined_def on_disk_def)
    have "linked pl ?im3 w4 s5" using joined_evolves [OF j4 e] w4(1) hw by (simp add: linked_def)
    moreover have "mf_snapshot_file ?m = new" by (simp add: compacted_manifest_def)
    ultimately show ?case
      using 1 ws im(3) hw w4(2) s4(2) evolvesD(4) [OF e] free(2) synced_evolves [OF _ e fs4, of ?im3] s4(4) by (auto intro!: exI [of _ ?im3])
  next
    case (2 ws)
    obtain w5 s5 where ws: "ws = (w5, s5)" and e: "fails {} s4 s5" using 2 by (cases ws) auto
    have d4: "on_disk pl ?im3 s4" using j4 by (simp add: joined_def)
    have e': "evolves {} s4 s5" using e by (simp add: fails_def)
    have d5: "on_disk pl ?im3 s5" using on_disk_evolves [OF d4 e'] by simp
    have y: "synced im s \<longrightarrow> survives pl (\<lambda>x. x = ?im3) s5"
      using synced_survives [OF d5 synced_evolves [OF _ e' on_disk_fs [OF d4]]] s4(4) by blast
    show ?case unfolding ws by (rule X [OF e s4(3) _ y]) (use d5 in auto)
  qed
  have cut: "runs (bindI (with_wal wal_truncate) (\<lambda>_. reload_base pl G new ?crc)) (w3, s3) ?Q ?X"
    if j3: "joined pl ?im2 w3 s3" and w3: "wt_durable_seq w3 = wt_seq w" "pointers_ok w3 ?m"
      and s3: "file_bytes s3 new = Some bytes" "fs_locked s3 = fs_locked s" "calm s3 = calm s" "synced im s \<longrightarrow> synced ?im2 s3" for w3 s3
  proof (rule runs_bindI [OF wal_truncate_image [OF j3 im(4)]], goal_cases)
    case (1 x ws)
    obtain w4 s4 where ws: "ws = (w4, s4)" by fastforce
    have e: "evolves {wal_name} s3 s4" and same: "same_data w3 w4" using 1 ws by auto
    have fs3: "fs_ok s3" using j3 by (simp add: joined_def on_disk_def)
    have "file_bytes s4 new = Some bytes" using evolvesD(2) [OF e fs3] s3(1) snapshot_name_fixed(1) [of "wt_seq w" "wt_compaction_id w + 1"]
      by (simp add: new_def)
    moreover have "pointers_ok w4 ?m" using w3(2) same_dataD [OF same] by (simp add: pointers_ok_def)
    ultimately show ?case
      using finish [of w4 s4] 1 ws w3(1) s3(2-4) evolvesD(4,5) [OF e] by simp
  next
    case (2 ws)
    obtain w4 s4 where ws: "ws = (w4, s4)" by fastforce
    have f: "fails {wal_name} s3 s4" "on_disk pl ?im2 s4 \<or> on_disk pl ?im3 s4"
      "synced im s \<longrightarrow> survives pl (\<lambda>x. x = ?im2 \<or> x = ?im3) s4" using 2 ws s3(4) by auto
    show ?case unfolding ws by (rule X [OF f(1) s3(3) _ f(3)]) (use f(2) in auto)
  qed
  have mark: "runs (bindI (advance_commit pl (wt_seq w)) (\<lambda>_. bindI (with_wal wal_truncate) (\<lambda>_. reload_base pl G new ?crc))) (?a, s2) ?Q ?X"
    if j2: "joined pl ?im1 ?a s2" and s2: "file_bytes s2 new = Some bytes" "fs_locked s2 = fs_locked s" "calm s2 = calm s" "tears_detected pl ?im1 s2"
        "synced im s \<longrightarrow> synced ?im1 s2" for s2
  proof -
    have room1: "gen_room ?im1" using room by (simp add: gen_room_def)
    have q1: "unat (wt_seq w) = im_base ?im1 + length (im_records ?im1)" using seq by simp
    obtain x w3 s3 where run: "advance_commit pl (wt_seq w) (?a, s2) = (x, (w3, s3))" by (metis prod_cases3)
    note adv = advance_commit_image [OF j2 room1 s2(4) q1] and cases = advance_commit_cases [OF run]
    show ?thesis
    proof (cases x)
      case (Inl e)
      then have f: "fails {commit_name} s2 s3" "on_disk pl ?im1 s3 \<or> on_disk pl ?im2 s3"
        "synced im s \<longrightarrow> survives pl (\<lambda>x. x = ?im1 \<or> x = ?im2) s3" using adv run s2(5) by (auto simp: runs_def)
      have "?X (w3, s3)" by (rule X [OF f(1) s2(3) _ f(3)]) (use f(2) in auto)
      then show ?thesis using run Inl by (simp add: runs_def bindI_def)
    next
      case (Inr u)
      then have e: "evolves {commit_name} s2 s3" and j3: "joined pl ?im2 w3 s3" and y3: "synced im s \<longrightarrow> synced ?im2 s3"
        using adv run s2(5) by (auto simp: runs_def linked_def)
      have fs2: "fs_ok s2" using j2 by (simp add: joined_def on_disk_def)
      have "file_bytes s3 new = Some bytes" using evolvesD(2) [OF e fs2] s2(1) snapshot_name_fixed(2) [of "wt_seq w" "wt_compaction_id w + 1"]
        by (simp add: new_def)
      moreover have "pointers_ok w3 ?m"
        using same_dataD [OF cases(1)] by (simp add: pointers_ok_def adopt_snapshot_def compacted_manifest_def)
      ultimately have "runs (bindI (with_wal wal_truncate) (\<lambda>_. reload_base pl G new ?crc)) (w3, s3) ?Q ?X"
        using cut [OF j3] cases(2) Inr s2(2,3) evolvesD(4,5) [OF e] y3 by simp
      then show ?thesis using run Inr by (simp add: runs_def bindI_def)
    qed
  qed
  have publish: "runs (bindI (with_fs (save_manifest pl ?cm)) (\<lambda>_. bindI (modify (adopt_snapshot new ?crc)) (\<lambda>_.
      bindI (advance_commit pl (wt_seq w)) (\<lambda>_. bindI (with_wal wal_truncate) (\<lambda>_. reload_base pl G new ?crc))))) (w, s1) ?Q ?X"
    if e: "evolves {new, tmp_name new} s s1" and nb: "file_bytes s1 new = Some bytes" "durable s1 new" for s1
  proof -
    have y1: "synced im s \<longrightarrow> synced im s1 \<and> durable s1 new" using synced_evolves [OF _ e fs free(1)] nb(2) by simp
    have j1: "joined pl im w s1" by (rule joined_evolves [OF j e free(1)])
    have disk1: "on_disk pl im s1" using j1 by (simp add: joined_def)
    have nc: "commit_name \<notin> {new, tmp_name new}" using free(1) by (auto simp: im_files_def)
    have t1: "tears_detected pl im s1" by (rule tears_evolves [OF tears e fs nc refl])
    have fs1: "fs_ok s1" using disk1 by (rule on_disk_fs)
    have c1: "calm s1 = calm s" and l1: "fs_locked s1 = fs_locked s" using evolvesD(4,5) [OF e] by simp_all
    have named: "mf_snapshot_file ?cm = new" "mf_snapshot_crc32 ?cm = ?crc" by (simp_all add: compacted_manifest_def)
    have nr: "new \<notin> reserved" by (simp add: new_def)
    note sv = manifest_image [OF pl disk1 ok, of ?cm bytes "og_nodes (x_graph pl) G" "og_edges (x_graph pl) G", unfolded named,
        OF nr nb(1) written_base_bytes [OF pl(1) G bytes]]
    show ?thesis
    proof (rule runs_bindI [OF with_fs_runs [OF sv]], goal_cases)
      case (1 x ws)
      obtain s2 where ws: "ws = (w, s2)" using 1 by (cases ws) auto
      have e2: "evolves {manifest_name, tmp_name manifest_name} s1 s2" and d2: "on_disk pl ?im1 s2" and y2: "synced im s \<longrightarrow> synced ?im1 s2"
        using 1 ws y1 by (auto simp: refolded_def folded_def)
      have n2: "wal_name \<notin> {manifest_name, tmp_name manifest_name}" "commit_name \<notin> {manifest_name, tmp_name manifest_name}" by simp_all
      have j2: "joined pl ?im1 ?a s2"
        using j1 d2 im(1) wal_at_evolves [OF e2 n2(1) refl] marker_at_evolves [OF _ e2 n2(2), of pl] log_exact_evolves [OF _ e2 fs1 n2(1), of pl]
        by (simp add: joined_def refold_def adopt_snapshot_def poisoned_def)
      have "file_bytes s2 new = Some bytes"
        using evolvesD(2) [OF e2 fs1] nb(1) snapshot_name_fixed [of "wt_seq w" "wt_compaction_id w + 1"] by (simp add: new_def)
      moreover have "tears_detected pl ?im1 s2" by (rule tears_evolves [OF t1 e2 fs1 n2(2)]) simp
      ultimately show ?case
        using mark [OF j2] l1 c1 evolvesD(4,5) [OF e2] y2 by (simp add: ws runs_def bindI_def modify_def)
    next
      case (2 ws)
      obtain s2 where ws: "ws = (w, s2)" using 2 by (cases ws) auto
      have f: "fails {manifest_name, tmp_name manifest_name} s1 s2" "on_disk pl im s2 \<or> on_disk pl ?im1 s2"
        "synced im s \<longrightarrow> survives pl (\<lambda>x. x = im \<or> x = ?im1) s2" using 2 ws y1 by (auto simp: refolded_def folded_def)
      show ?case unfolding ws by (rule X [OF f(1) c1 _ f(3)]) (use f(2) in auto)
    qed
  qed
  have "runs (bindI (with_fs (write_file_atomic new bytes)) (\<lambda>_. bindI (with_fs (save_manifest pl ?cm)) (\<lambda>_. bindI (modify (adopt_snapshot new ?crc)) (\<lambda>_.
      bindI (advance_commit pl (wt_seq w)) (\<lambda>_. bindI (with_wal wal_truncate) (\<lambda>_. reload_base pl G new ?crc)))))) (w, s) ?Q ?X"
  proof (rule runs_bindI [OF with_fs_runs [OF runs_conj [OF write_file_atomic_runs [OF fs] write_file_atomic_power [OF fs]]]], goal_cases)
    case (1 x ws)
    then show ?case using publish by (cases ws) auto
  next
    case (2 ws)
    obtain s1 where ws: "ws = (w, s1)" and f: "fails {new, tmp_name new} s s1" using 2 by (cases ws) auto
    have e: "evolves {new, tmp_name new} s s1" using f by (simp add: fails_def)
    have d1: "on_disk pl im s1" by (rule on_disk_evolves [OF disk e free(1)])
    have y: "synced im s \<longrightarrow> survives pl (\<lambda>x. x = im) s1" using synced_survives [OF d1 synced_evolves [OF _ e fs free(1)]] by blast
    show ?case unfolding ws by (rule X [OF f refl _ y]) (use d1 in auto)
  qed
  moreover have "compact_writer pl G new (w, s) = (bindI (with_fs (write_file_atomic new bytes)) (\<lambda>_.
      bindI (with_fs (save_manifest pl ?cm)) (\<lambda>_. bindI (modify (adopt_snapshot new ?crc)) (\<lambda>_.
      bindI (advance_commit pl (wt_seq w)) (\<lambda>_. bindI (with_wal wal_truncate) (\<lambda>_. reload_base pl G new ?crc)))))) (w, s)"
    unfolding compact_writer_def prod.case q by (simp add: bytes bindI_def Let_def)
  ultimately show ?thesis by (simp add: runs_def)
qed

section \<open>Compaction of an attached store\<close>

text \<open>The logical graph of a handle, and equality of graphs up to the recomputed PageRank.\<close>

definition graph_nodes :: "'g platform \<Rightarrow> 'g persistent_graph \<Rightarrow> string \<Rightarrow> node_view option" where
  "graph_nodes pl g = delta_nodes (as_accessor (x_graph pl) (gs_base (st_state g))) (gs_delta (st_state g))"

definition graph_edges :: "'g platform \<Rightarrow> 'g persistent_graph \<Rightarrow> graph_edge multiset" where
  "graph_edges pl g = delta_edges (base_edges (x_graph pl) (gs_base (st_state g))) (gs_delta (st_state g))"

definition same_graph :: "'g platform \<Rightarrow> 'g persistent_graph \<Rightarrow> 'g persistent_graph \<Rightarrow> bool" where
  "same_graph pl g h \<longleftrightarrow>
     graph_edges pl h = graph_edges pl g \<and> store_seq h = store_seq g \<and>
     (\<forall>n. map_option (\<lambda>v. v\<lparr>nv_pagerank_weight := f32_zero\<rparr>) (graph_nodes pl h n) =
          map_option (\<lambda>v. v\<lparr>nv_pagerank_weight := f32_zero\<rparr>) (graph_nodes pl g n))"

lemma delta_new_graph [simp]: "delta_edges E delta_new = E" "delta_nodes A delta_new = acc_get_node A"
  by (auto simp: delta_edges_def delta_nodes_def delta_new_def masked_by_def live_edges_def fun_eq_iff split: prod.splits intro: filter_mset_True)

text \<open>What compaction needs: a delta built by batches, canonical edges and room for the indexes.\<close>

definition foldable :: "'g platform \<Rightarrow> 'g persistent_graph \<Rightarrow> bool" where
  "foldable pl g \<longleftrightarrow>
     (let A = as_accessor (x_graph pl) (wt_base (st_writer g)); d = wt_delta (st_writer g);
          E = base_edges (x_graph pl) (wt_base (st_writer g))
      in delta_reachable A d \<and> edges_canon E \<and> card (dom (delta_nodes A d)) \<le> dg_limit \<and> size (delta_edges E d) \<le> dg_limit)"

lemma fold_graph_ok:
  assumes pl: "platform_ok pl" and att: "attached pl im g s" and f: "foldable pl g"
  defines "G \<equiv> fold_graph pl (st_writer g)"
  shows "og_ok (x_graph pl) G" and "small_graph (x_graph pl) G" and "og_edges (x_graph pl) G = graph_edges pl g"
    and "map_option (\<lambda>v. v\<lparr>nv_pagerank_weight := f32_zero\<rparr>) (og_nodes (x_graph pl) G n) =
         map_option (\<lambda>v. v\<lparr>nv_pagerank_weight := f32_zero\<rparr>) (graph_nodes pl g n)"
proof -
  let ?w = "st_writer g" and ?o = "x_graph pl"
  let ?A = "as_accessor ?o (wt_base ?w)" and ?N = "base_nodes ?o (wt_base ?w)" and ?E = "base_edges ?o (wt_base ?w)"
  have base: "base_ok ?o (wt_base ?w)" and pub: "gs_base (st_state g) = wt_base ?w" "gs_delta (st_state g) = wt_delta ?w"
    using att by (auto simp: attached_def data_ok_def store_inv_def published_iff)
  have laws: "digraph_laws ?o" and ord: "hash_order (x_order pl)" using pl by (simp_all add: platform_ok_def)
  have acc: "accessor_ok ?A ?N ?E" by (rule base_view.view [OF base])
  have f': "delta_reachable ?A (wt_delta ?w)" "edges_canon ?E" "card (dom (delta_nodes ?A (wt_delta ?w))) \<le> dg_limit"
    "size (delta_edges ?E (wt_delta ?w)) \<le> dg_limit" using f by (simp_all add: foldable_def Let_def)
  note c = compaction_graph [OF laws acc f'(1) base_node_names_set(1) [OF ord base] f'(2-4)]
  have G: "G = build_graph_prenormalized ?o (fst (materialize ?A (base_node_names (x_order pl) (wt_base ?w)) (wt_delta ?w)))
      (snd (materialize ?A (base_node_names (x_order pl) (wt_base ?w)) (wt_delta ?w)))"
    by (simp add: G_def fold_graph_def Let_def split: prod.split)
  show "og_ok ?o G" "small_graph ?o G" "og_edges ?o G = graph_edges pl g"
    "map_option (\<lambda>v. v\<lparr>nv_pagerank_weight := f32_zero\<rparr>) (og_nodes ?o G n) =
     map_option (\<lambda>v. v\<lparr>nv_pagerank_weight := f32_zero\<rparr>) (graph_nodes pl g n)"
    using c by (simp_all add: G graph_edges_def graph_nodes_def pub small_graph_def)
qed

lemma refold_has_state:
  assumes "refold pl (fold_graph pl (st_writer g)) im im'" and "platform_ok pl" and "attached pl im g s" and "foldable pl g"
    and "has_state pl im' (im_batches im') (im_hw im') h"
  shows "same_graph pl g h"
proof -
  note f = fold_graph_ok [OF assms(2-4)] and st = attached_state [OF assms(3)]
  have h: "gs_delta (st_state h) = delta_new" "base_edges (x_graph pl) (gs_base (st_state h)) = graph_edges pl g"
    "base_nodes (x_graph pl) (gs_base (st_state h)) = og_nodes (x_graph pl) (fold_graph pl (st_writer g))"
    "base_ok (x_graph pl) (gs_base (st_state h))" "unat (store_seq h) = im_base im + length (im_records im)"
    using assms(1,5) f(3) by (auto simp: refold_def has_state_def)
  have "acc_get_node (as_accessor (x_graph pl) (gs_base (st_state h))) = og_nodes (x_graph pl) (fold_graph pl (st_writer g))"
    using accessor_ok_get [OF base_view.view [OF h(4)]] h(3) by auto
  then show ?thesis
    using h f(4) st(1,3) by (simp add: same_graph_def graph_edges_def [of pl h] graph_nodes_def [of pl h] has_state_def word_unat_eq_iff)
qed

lemma same_state_graph:
  assumes "has_state pl im bs q g" and "has_state pl im bs q h"
  shows "same_graph pl g h"
proof -
  have acc: "accessor_ok (as_accessor (x_graph pl) (gs_base (st_state k))) (im_nodes im) (im_edges im)" if "has_state pl im bs q k" for k
    using base_view.view that unfolding has_state_def by metis
  have "same_state pl g h" by (rule has_state_same [OF assms])
  then show ?thesis
    using delta_nodes_same [OF acc [OF assms(1)] acc [OF assms(2)]]
    by (simp add: same_state_def same_graph_def graph_edges_def graph_nodes_def)
qed

lemma compact_locked_runs:
  assumes pl: "platform_ok pl" "no_zero_checksum pl" and att: "attached pl im g s" and f: "foldable pl g"
    and room: "gen_room im" and tears: "tears_detected pl im s"
  shows "runs (compact_locked pl) (g, s)
    (\<lambda>_ (g', s'). \<exists>im'. attached pl im' g' s' \<and> store_seq g' = store_seq g \<and>
       (im' = im \<and> st_state g' = st_state g \<or> refold pl (fold_graph pl (st_writer g)) im im' \<and> im_records im' = [] \<and> caught_up g') \<and>
       (synced im s \<longrightarrow> synced im' s'))
    (\<lambda>(g', s'). \<not> calm s \<and> st_state g' = st_state g \<and>
       (on_disk pl im s' \<or> (\<exists>im'. on_disk pl im' s' \<and> refold pl (fold_graph pl (st_writer g)) im im')) \<and>
       (synced im s \<longrightarrow> survives pl (\<lambda>x. x = im \<or> refold pl (fold_graph pl (st_writer g)) im x) s'))"
    (is "runs _ _ ?Q ?X")
proof -
  let ?w = "st_writer g" and ?G = "fold_graph pl (st_writer g)"
  let ?new = "snapshot_v2_name (wt_seq ?w) (wt_compaction_id ?w + 1)"
  have l: "linked pl im ?w s" and inv: "store_inv g" and lock: "fs_locked s" and d: "data_ok pl im ?w" and p: "pointers_ok ?w (im_manifest im)"
    using att by (simp_all add: attached_iff)
  have dur: "wt_durable_seq ?w \<le> wt_seq ?w" using inv by (simp add: store_inv_def)
  show ?thesis
  proof (cases "delta_is_empty (wt_delta ?w)")
    case True
    then have run: "compact_locked pl (g, s) = (Inr (), (g\<lparr>st_writer := ?w\<lparr>wt_delta_ops := 0\<rparr>\<rparr>, s))"
      by (simp add: compact_locked_def Let_def)
    have "attached pl im (g\<lparr>st_writer := ?w\<lparr>wt_delta_ops := 0\<rparr>\<rparr>) s"
      using att by (auto simp: attached_def store_inv_def published_iff poisoned_def data_ok_def pointers_ok_def)
    then show ?thesis using run by (auto simp: runs_def store_seq_def)
  next
    case False
    obtain x w1 s1 where run: "compact_writer pl ?G ?new (?w, s) = (x, (w1, s1))" by (metis prod_cases3)
    note c = compact_writer_runs [OF pl fold_graph_ok(1,2) [OF pl(1) att f] l d p dur room tears]
    note cases = compact_writer_cases [OF run]
    show ?thesis
    proof (cases x)
      case (Inl e)
      then have "compact_locked pl (g, s) = (Inl e, (g\<lparr>st_writer := w1\<rparr>, s1))"
        using run False by (simp add: compact_locked_def Let_def bindI_def with_writer_def)
      then show ?thesis using c run Inl by (simp add: runs_def)
    next
      case (Inr b)
      let ?w2 = "w1\<lparr>wt_base := b, wt_delta := delta_new, wt_delta_ops := 0\<rparr>"
      let ?g = "publish (g\<lparr>st_writer := ?w2\<rparr>)" and ?old = "wt_snapshot_file ?w"
      obtain im' where b: "base_ok (x_graph pl) b" "base_nodes (x_graph pl) b = og_nodes (x_graph pl) ?G"
          "base_edges (x_graph pl) b = og_edges (x_graph pl) ?G"
        and im': "linked pl im' w1 s1" "refold pl ?G im im'" "im_records im' = []" "im_base im' = im_snap im'"
          "im_hw im' = unat (wt_seq ?w)" "mf_snapshot_file (im_manifest im') = ?new" "pointers_ok w1 (im_manifest im')"
          "synced im s \<longrightarrow> synced im' s1"
        and ne: "mf_snapshot_file (im_manifest im) \<noteq> ?new" and lock1: "fs_locked s1 = fs_locked s"
        using c run Inr by (auto simp: runs_def)
      have old: "?old = mf_snapshot_file (im_manifest im)" using p by (simp add: pointers_ok_def)
      have ok: "image_ok im" and ok': "image_ok im'" using l im'(2) by (simp_all add: linked_def joined_def refold_def)
      have run': "compact_locked pl (g, s) = (Inr (), (?g, remove_snapshot_file ?old s1))"
        using run False Inr ne old by (simp add: compact_locked_def Let_def bindI_def with_writer_def)
      have ofr: "{?old} \<inter> im_files im' = {}" using ne image_ok_file [OF ok] by (auto simp: im_files_def im'(6) old reserved_def)
      have sync: "synced im' (remove_snapshot_file ?old s1)" if "synced im s"
        using synced_evolves [OF _ remove_snapshot_evolves _ ofr] im'(1,8) that by (simp add: linked_def joined_def on_disk_def)
      have "joined pl im' w1 s1" using im'(1) by (simp add: linked_def)
      then have j: "joined pl im' w1 (remove_snapshot_file ?old s1)" using joined_evolves remove_snapshot_evolves ofr by metis
      have hw: "im_hw im' = im_snap im'" using ok' im'(3,4) by (auto simp: image_ok_def im_hw_def)
      have seq: "wt_seq w1 = wt_seq ?w" using cases(1) by (simp add: compacting_def)
      have dq: "wt_durable_seq w1 = wt_seq ?w" using im'(1,5) by (simp add: linked_def word_unat_eq_iff)
      have "linked pl im' ?w2 (remove_snapshot_file ?old s1)" using j im'(1) by (simp add: linked_def joined_def poisoned_def)
      moreover have "store_inv ?g"
        using compact_locked_cases(2) [OF run' refl inv] by simp
      moreover have "fs_locked (remove_snapshot_file ?old s1)" using evolvesD(4) [OF remove_snapshot_evolves] lock lock1 by simp
      moreover have "data_ok pl im' ?w2"
        using b im' seq hw by (simp add: data_ok_def refold_def)
      moreover have "pointers_ok ?w2 (im_manifest im')" using im'(7) by (simp add: pointers_ok_def)
      ultimately have "attached pl im' ?g (remove_snapshot_file ?old s1)" by (simp add: attached_iff)
      moreover have "store_seq ?g = store_seq g" using seq inv by (simp add: store_seq_def publish_def store_inv_def published_iff)
      moreover have "caught_up ?g" using seq dq by (simp add: caught_up_def)
      ultimately show ?thesis using run' im'(2,3) sync by (auto simp: runs_def)
    qed
  qed
qed

lemma caught_up_synced:
  assumes "attached pl im g s" and "caught_up g" and "power_safe pl im s"
  shows "synced im s"
proof -
  have "unat (wt_seq (st_writer g)) = im_base im + length (im_records im)" "im_hw im = unat (wt_seq (st_writer g))"
    using attached_state(3) [OF assms(1)] caught_up_batches(2) [OF assms(1,2)] by simp_all
  then show ?thesis using power_safe_synced [OF assms(3)] assms(1) by (simp add: attached_def)
qed

text \<open>What a restart finds after a \<open>compact\<close>, whatever it returned.\<close>

lemma compact_stopped:
  assumes pl: "platform_ok pl" "no_zero_checksum pl" and att: "attached pl im g s" and up: "caught_up g" and f: "foldable pl g"
    and room: "gen_room im" and tears: "tears_detected pl im s"
    and run: "compact pl (g, s) = (r, (g', s'))" and start: "restart pl im s F E s' t"
  shows "\<exists>x. on_disk pl x t \<and> (x = im \<or> refold pl (fold_graph pl (st_writer g)) im x)"
proof -
  let ?P = "\<lambda>x. x = im \<or> refold pl (fold_graph pl (st_writer g)) im x"
  have run': "compact_locked pl (g, s) = (r, (g', s'))" using run att by (simp add: compact_def attached_def)
  have sync: "synced im s" if "power_safe pl im s" by (rule caught_up_synced [OF att up that])
  have "(\<exists>x. on_disk pl x s' \<and> ?P x) \<and> (power_safe pl im s \<longrightarrow> survives pl ?P s')"
  proof (cases r)
    case (Inl e)
    then show ?thesis using compact_locked_runs [OF pl att f room tears] run' sync by (auto simp: runs_def)
  next
    case (Inr u)
    then obtain im' where im': "on_disk pl im' s'" "?P im'" "synced im s \<longrightarrow> synced im' s'"
      using compact_locked_runs [OF pl att f room tears] run' by (auto simp: runs_def attached_def)
    have "survives pl ?P s'" if "power_safe pl im s"
      by (rule survives_mono [OF synced_survives [OF im'(1)]]) (use im'(2,3) sync that in auto)
    then show ?thesis using im'(1,2) by blast
  qed
  then show ?thesis using restart_image [OF start, of _ ?P] by blast
qed

text \<open>Whatever \<open>compact\<close> returns, a crash or a power loss after it loses nothing: the reopened store has the graph of
  the store before.\<close>

lemma crash_around_compact:
  assumes pl: "platform_ok pl" "no_zero_checksum pl" and att: "attached pl im g s" and up: "caught_up g" and f: "foldable pl g"
    and gen: "gens_left 2 im" and tears: "tears_detected pl im s"
    and run: "compact pl (g, s) = (r, (g', s'))"
    and start: "restart pl im s F E s' t" and calm: "calm t"
  shows "\<exists>h s''. open_with_vfs pl create mode validate prefault t = (Inr h, s'') \<and> same_graph pl g h \<and>
    committed_seq h = store_seq h"
proof -
  let ?G = "fold_graph pl (st_writer g)"
  have room: "gen_room im" by (rule gens_left_room [OF gen]) simp
  have ok: "image_ok im" using att by (simp add: attached_def)
  obtain im' where im': "on_disk pl im' t" "im' = im \<or> refold pl ?G im im'"
    using compact_stopped [OF pl att up f room tears run start] by blast
  have ok': "image_ok im'" and gen': "gens_left 1 im'" using im'(2) ok gen by (auto simp: refold_def gens_left_def)
  obtain h s'' where h: "open_with_vfs pl create mode validate prefault t = (Inr h, s'')" "has_state pl im' (im_batches im') (im_hw im') h"
    "committed_seq h = store_seq h"
    using open_image [OF pl im'(1) ok' gen' calm restart_free [OF start]] by blast
  have "same_graph pl g h"
    using im'(2)
  proof
    assume "im' = im"
    then have "has_state pl im (all_batches im) (unat (wt_seq (st_writer g))) h" using h(2) caught_up_batches [OF att up] by simp
    then show ?thesis using same_state_graph attached_state(1) [OF att] by metis
  next
    assume "refold pl ?G im im'"
    then show ?thesis using refold_has_state [OF _ pl(1) att f h(2)] by blast
  qed
  then show ?thesis using h(1,3) by blast
qed

section \<open>Batches that trigger a compaction\<close>

text \<open>The conditions of the automatic compaction of a batch: the graph with the batch can be folded, and the torn
  slots of the marker advance after the one of the batch are detected.\<close>

definition compaction_ready :: "'g platform \<Rightarrow> op list \<Rightarrow> 'g persistent_graph \<Rightarrow> fs \<Rightarrow> bool" where
  "compaction_ready pl ops g s \<longleftrightarrow> foldable pl (with_batch pl ops g) \<and>
     (\<forall>w1 s1 im1. commit_batch pl \<lparr>wr_seq = wt_seq (st_writer g) + 1, wr_ops = ops\<rparr> (st_writer g, s) = (Inr (), (w1, s1)) \<longrightarrow>
        on_disk pl im1 s1 \<longrightarrow> tears_detected pl im1 s1)"

lemma compaction_ready_calm:
  assumes att: "attached pl im g s" and room: "gen_room im" and over: "wt_seq (st_writer g) + 1 \<noteq> 0" and calm: "calm s"
    and f: "foldable pl (with_batch pl ops g)"
  shows "compaction_ready pl ops g s"
proof -
  let ?w = "st_writer g" and ?r = "\<lparr>wr_seq = wt_seq (st_writer g) + 1, wr_ops = ops\<rparr>"
  have l: "linked pl im ?w s" and d: "data_ok pl im ?w" using att by (simp_all add: attached_iff)
  have seq: "unat (wr_seq ?r) = Suc (im_base im + length (im_records im))"
    using unatSuc [of "wt_seq ?w"] over d by (simp add: data_ok_def add.commute)
  have "calm s1" if "commit_batch pl ?r (?w, s) = (Inr (), (w1, s1))" for w1 s1
    using commit_batch_image [OF l room calm_tears [OF calm] seq] that calm evolvesD(5) by (auto simp: runs_def)
  then show ?thesis using f calm_tears by (auto simp: compaction_ready_def)
qed

lemma same_state_adopted:
  assumes "batch_adopted pl ops g g1"
  shows "same_state pl g1 h = same_state pl (with_batch pl ops g) h" and "same_graph pl g1 h = same_graph pl (with_batch pl ops g) h"
    and "same_graph pl h g1 = same_graph pl h (with_batch pl ops g)"
    and "foldable pl g1 = foldable pl (with_batch pl ops g)"
  using batch_adoptedD(1) [OF assms] same_dataD(3,4) [OF batch_adoptedD(2) [OF assms]]
  by (simp_all add: same_state_def same_graph_def graph_edges_def graph_nodes_def store_seq_def foldable_def)

lemma same_graph_refl: "same_graph pl g g"
  by (simp add: same_graph_def)

text \<open>An automatic compaction leaves the graph of the handle as it was, whether it succeeds or not.\<close>

lemma auto_compact_graph:
  assumes pl: "platform_ok pl" "no_zero_checksum pl" and att: "attached pl im g s" and up: "caught_up g" and f: "foldable pl g"
    and room: "gen_room im" and tears: "tears_detected pl im s" and run: "compact_locked pl (g, s) = (r, (g', s'))"
  shows "same_graph pl g g'"
proof (cases r)
  case (Inl e)
  then have "st_state g' = st_state g" using compact_locked_runs [OF pl att f room tears] run by (auto simp: runs_def)
  then show ?thesis using same_graph_refl [of pl g] by (simp add: same_graph_def graph_edges_def graph_nodes_def store_seq_def)
next
  case (Inr u)
  then obtain im' where im': "attached pl im' g' s'" "store_seq g' = store_seq g"
    "st_state g' = st_state g \<or> refold pl (fold_graph pl (st_writer g)) im im' \<and> caught_up g'"
    using compact_locked_runs [OF pl att f room tears] run by (auto simp: runs_def)
  show ?thesis
    using im'(3)
  proof (elim disjE conjE)
    assume "st_state g' = st_state g"
    then show ?thesis using same_graph_refl [of pl g] by (simp add: same_graph_def graph_edges_def graph_nodes_def store_seq_def)
  next
    assume r: "refold pl (fold_graph pl (st_writer g)) im im'" and up': "caught_up g'"
    show ?thesis
      using refold_has_state [OF r pl(1) att f] attached_state(1) [OF im'(1)] caught_up_batches [OF im'(1) up'] by metis
  qed
qed

text \<open>A batch acknowledged under \<open>EveryBatch\<close> survives, also when it triggers a compaction that succeeds or fails.\<close>

lemma crash_after_apply:
  assumes pl: "platform_ok pl" "no_zero_checksum pl" and att: "attached pl im g s" and gen: "gens_left 3 im"
    and tears: "tears_detected pl im s" and over: "wt_seq (st_writer g) + 1 \<noteq> 0"
    and ready: "compacts pl ops g \<Longrightarrow> compaction_ready pl ops g s"
    and every: "ww_policy (wt_wal (st_writer g)) = EveryBatch"
    and run: "apply_batch pl ops exp (g, s) = (Inr q, (g', s'))"
    and start: "restart pl im s F E s' t" and calm: "calm t"
  shows "same_graph pl (with_batch pl ops g) g' \<and> (\<not> compacts pl ops g \<longrightarrow> st_state g' = st_state (with_batch pl ops g)) \<and>
    (\<exists>h s''. open_with_vfs pl create mode validate prefault t = (Inr h, s'') \<and>
      same_graph pl (with_batch pl ops g) h \<and> (\<not> compacts pl ops g \<longrightarrow> same_state pl (with_batch pl ops g) h) \<and>
      store_seq h = q \<and> committed_seq h = q)"
proof -
  have gen': "gens_left (Suc 2) im" using gen by (simp add: numeral_eq_Suc)
  obtain im' g1 s1 w1 where b: "auto_compact pl (g1, s1) = (g', s')" "attached pl im' g1 s1" "gens_left 2 im'"
      and ad: "batch_adopted pl ops g g1"
      and com: "commit_batch pl \<lparr>wr_seq = wt_seq (st_writer g) + 1, wr_ops = ops\<rparr> (st_writer g, s) = (Inr (), (w1, s1))"
      and up: "caught_up g1" and q: "q = wt_seq (st_writer g) + 1" and safe: "power_safe pl im s \<Longrightarrow> power_safe pl im' s1"
    using batch_attached [OF att gen' tears over run] every by metis
  note same = same_state_adopted [OF ad] and ac = auto_compact_adopted [OF ad, of s1]
  have inv: "store_inv g1" using b(2) by (simp add: attached_def)
  have seq: "store_seq g1 = q" 
    using batch_adoptedD(1) [OF ad] q by (simp add: store_seq_def with_batch_def Let_def publish_def adopt_batch_def)
  show ?thesis
  proof (cases "compacts pl ops g")
    case False
    then have g': "g' = g1" "s' = s1" using b(1) ac by simp_all
    have g1: "gens_left 1 im'" using b(3) by (simp add: gens_left_def)
    have start1: "restart pl im' s1 F E s1 t" using restart_move [OF start safe] g' by simp
    obtain h s'' where h: "open_with_vfs pl create mode validate prefault t = (Inr h, s'')" "has_state pl im' (im_batches im') (im_hw im') h"
      "committed_seq h = store_seq h" "store_seq h = committed_seq g1" "same_state pl g1 h"
      using crash_idle [OF pl b(2) g1 start1 calm] up by metis
    have "same_graph pl g1 h" using same_state_graph h(2) attached_state(1) [OF b(2)] caught_up_batches [OF b(2) up] by metis
    moreover have "store_seq h = q" using h(5) seq by (simp add: same_state_def)
    ultimately show ?thesis
      using h(1,3,5) same(1,2) same_graph_refl [of pl g1] False batch_adoptedD(1) [OF ad] unfolding g' by auto
  next
    case True
    obtain x g2 s2 where c: "compact_locked pl (g1, s1) = (x, (g2, s2))" by (metis prod_cases3)
    have g': "s' = s2" "st_state g' = st_state g2" using b(1) ac True c by (auto split: sum.splits)
    have f: "foldable pl g1" and tears1: "tears_detected pl im' s1"
      using ready [OF True] com b(2) same(4) by (auto simp: compaction_ready_def attached_def)
    have room: "gen_room im'" by (rule gens_left_room [OF b(3)]) simp
    have c': "compact pl (g1, s1) = (x, (g2, s2))" using c b(2) by (simp add: compact_def attached_def)
    have start2: "restart pl im' s1 F E s2 t" using restart_move [OF start safe] g' by simp
    obtain h s'' where h: "open_with_vfs pl create mode validate prefault t = (Inr h, s'')" "same_graph pl g1 h"
      "committed_seq h = store_seq h"
      using crash_around_compact [OF pl b(2) up f b(3) tears1 c' start2 calm] by blast
    have "same_graph pl g1 g2" by (rule auto_compact_graph [OF pl b(2) up f room tears1 c])
    then have "same_graph pl g1 g'" using g'(2) by (simp add: same_graph_def graph_edges_def graph_nodes_def store_seq_def)
    moreover have "store_seq h = q" using h(2) seq by (simp add: same_graph_def)
    ultimately show ?thesis using h same(2) True g'(1) by auto
  qed
qed

end
