(* ===== verification/OG_Store_Examples.thy ===== *)
theory OG_Store_Examples
  imports OG_Platform OG_Compact_Disk
begin

text \<open>
  A store of two nodes on the concrete platform, just created: its directory, its handle and its
  image, for any schedule of faults.
\<close>

section \<open>The platform\<close>

lemma ex_platform_ok: "platform_ok ex_platform"
  by (simp add: platform_ok_def list_digraph_laws csr_codec_ok ex_unchecked_ok ex_wal_codec_ok ex_json_ok hash_order_id)

lemma ex_no_zero_checksum: "no_zero_checksum ex_platform"
  by (simp add: no_zero_checksum_def manifest_checksum_def ex_crc_nonzero)

section \<open>An empty directory\<close>

definition ex_entropy :: "nat \<Rightarrow> io_error + bytes" where
  "ex_entropy = (\<lambda>_. Inr (replicate 16 7))"

definition ex_empty_fs :: fs where
  "ex_empty_fs = \<lparr>fs_dir = fmempty, fs_dir_disk = fmempty, fs_data = (\<lambda>_. []), fs_disk = (\<lambda>_. []), fs_next_inode = 0,
     fs_fds = (\<lambda>_. \<lparr>vf_inode = 0, vf_pos = 0, vf_append = False\<rparr>), fs_next_fd = 0, fs_locked = False,
     fs_faults = (\<lambda>_. Pass), fs_entropy = ex_entropy, fs_clock = 0\<rparr>"

lemma ex_empty_fs: "fs_ok ex_empty_fs" "no_store ex_empty_fs" "\<not> fs_locked ex_empty_fs" "calm ex_empty_fs"
  by (simp_all add: ex_empty_fs_def fs_ok_def no_store_def path_exists_def calm_def ex_entropy_def)

section \<open>A store\<close>

definition ex_snapshot_bytes :: bytes where "ex_snapshot_bytes = enc_csr ex_csr"

definition ex_image :: image where "ex_image = created ex_platform ex_graph ex_snapshot_bytes 7"

definition ex_commit :: commit_file where "ex_commit = \<lparr>cf_file = 1, cf_next_slot = 1, cf_next_gen = 1\<rparr>"

definition ex_fs :: "(nat \<Rightarrow> fault) \<Rightarrow> fs" where
  "ex_fs F = \<lparr>fs_dir = fmap_of_list [(manifest_name, 0), (snapshot_v2_name 0 0, 1), (wal_name, 2), (commit_name, 3)],
     fs_dir_disk = fmap_of_list [(manifest_name, 0), (snapshot_v2_name 0 0, 1), (wal_name, 2), (commit_name, 3)],
     fs_data = (\<lambda>_. [])(0 := enc_manifest (im_manifest ex_image), 1 := ex_snapshot_bytes, 3 := encode_slot ex_crc (im_commit ex_image)),
     fs_disk = (\<lambda>_. [])(0 := enc_manifest (im_manifest ex_image), 1 := ex_snapshot_bytes, 3 := encode_slot ex_crc (im_commit ex_image)),
     fs_next_inode = 4,
     fs_fds = (\<lambda>_. \<lparr>vf_inode = 0, vf_pos = 0, vf_append = False\<rparr>)
       (0 := \<lparr>vf_inode = 2, vf_pos = 0, vf_append = True\<rparr>, 1 := \<lparr>vf_inode = 3, vf_pos = 44, vf_append = False\<rparr>),
     fs_next_fd = 2, fs_locked = True, fs_faults = F, fs_entropy = ex_entropy, fs_clock = 0\<rparr>"

definition ex_store :: "fsync_policy \<Rightarrow> (node_data list \<times> indexed_edge list) persistent_graph" where
  "ex_store p = set_fsync_policy p (fresh_store ex_graph 0 ex_commit (snapshot_v2_name 0 0) (ex_crc ex_snapshot_bytes) 7)"

lemma ex_names_distinct:
  "snapshot_v2_name 0 0 \<noteq> manifest_name" "snapshot_v2_name 0 0 \<noteq> wal_name" "snapshot_v2_name 0 0 \<noteq> commit_name"
  "manifest_name \<noteq> wal_name" "manifest_name \<noteq> commit_name" "wal_name \<noteq> commit_name"
  using snapshot_name_fixed [of 0 0] by (auto simp: manifest_name_def wal_name_def commit_name_def)

lemma ex_files:
  "file_bytes (ex_fs F) manifest_name = Some (enc_manifest (im_manifest ex_image))"
  "file_bytes (ex_fs F) (snapshot_v2_name 0 0) = Some ex_snapshot_bytes" "file_bytes (ex_fs F) wal_name = Some []"
  "file_bytes (ex_fs F) commit_name = Some (encode_slot ex_crc (im_commit ex_image))"
  using ex_names_distinct ex_names_distinct [symmetric] by (simp_all add: file_bytes_def ex_fs_def fmlookup_of_list)

lemma ex_fs_ok: "fs_ok (ex_fs F)"
  using ex_names_distinct by (auto simp: fs_ok_def ex_fs_def fmlookup_of_list split: if_splits)

lemma ex_calm: "calm (ex_fs (\<lambda>_. Pass))" "calm (reboot (\<lambda>_. Pass) ex_entropy s)"
  by (simp add: calm_def ex_fs_def ex_entropy_def) (simp add: ex_entropy_def)

lemma ex_calm_cut: "calm (lose_unsynced (\<lambda>_. Pass) ex_entropy s)"
  by (simp add: ex_entropy_def)

lemma ex_image_simps:
  "im_manifest ex_image = stamp_manifest ex_crc (fresh_manifest (snapshot_v2_name 0 0) (ex_crc ex_snapshot_bytes) 7)"
  "im_nodes ex_image = og_nodes list_digraph ex_graph" "im_edges ex_image = og_edges list_digraph ex_graph"
  "im_base ex_image = 0" "im_records ex_image = []" "im_commit ex_image = \<lparr>cr_epoch = 7, cr_committed_seq = 0, cr_gen = 0\<rparr>"
  by (simp_all add: ex_image_def created_def)

lemma ex_live: "commit_live ex_crc (encode_slot ex_crc (im_commit ex_image)) (im_commit ex_image) 0"
  by (simp add: commit_live_def pick_slot_def slot_at_def slot_size_def slice_def decode_encode_slot)

lemma ex_image_fresh: "fresh_image ex_platform ex_graph ex_image" "image_ok ex_image"
  using created_fresh [of ex_platform ex_graph ex_snapshot_bytes 7] by (simp_all add: ex_image_def fresh_image_def)

lemma ex_on_disk: "on_disk ex_platform ex_image (ex_fs F)"
proof -
  have "snapshot_bytes ex_platform ex_graph = Inr ex_snapshot_bytes"
    by (simp add: snapshot_bytes_def ex_snapshot ex_snapshot_bytes_def)
  then have "base_bytes ex_platform ex_snapshot_bytes (ex_crc ex_snapshot_bytes) (im_nodes ex_image) (im_edges ex_image)"
    using written_base_bytes [OF ex_platform_ok, of ex_graph] ex_graph_ok ex_graph_small by (simp add: ex_image_simps)
  moreover have "check_manifest ex_crc (whole dec_manifest) (enc_manifest (im_manifest ex_image)) = Inr (im_manifest ex_image)"
    using stamped_reads [OF ex_platform_ok ex_no_zero_checksum] by (simp add: ex_image_simps)
  moreover have "mf_snapshot_file (im_manifest ex_image) = snapshot_v2_name 0 0" "mf_snapshot_crc32 (im_manifest ex_image) = ex_crc ex_snapshot_bytes"
    by (simp_all add: ex_image_simps fresh_manifest_def)
  moreover have "log_bytes ex_platform (im_records ex_image) []" by (simp add: log_bytes_def ex_image_simps)
  ultimately show ?thesis unfolding on_disk_def ex_platform_simps
    using ex_files [of F] ex_fs_ok ex_live by (intro conjI exI [of _ "[]"] exI) (assumption | simp)+
qed

lemma ex_power_safe: "power_safe ex_platform ex_image (ex_fs F)"
proof -
  have "synced ex_image (ex_fs F)"
    using ex_names_distinct ex_names_distinct [symmetric]
    by (simp add: synced_iff durable_def pinned_def ex_fs_def fmlookup_of_list ex_image_simps fresh_manifest_def)
  then show ?thesis by (rule synced_power_safe [OF _ ex_on_disk])
qed

lemma ex_attached: "attached ex_platform ex_image (ex_store p) (ex_fs F)"
proof -
  have "wal_at (wt_wal (st_writer (ex_store p))) (ex_fs F)" "marker_at ex_platform (im_commit ex_image) ex_commit (ex_fs F)"
    using ex_fs_ok ex_files ex_live ex_names_distinct
    by (auto simp: wal_at_def marker_at_def commit_at_def fd_at_def ex_store_def fresh_store_def wal_new_def ex_commit_def ex_image_simps
        set_fsync_policy_def wal_set_policy_def file_bytes_def ex_fs_def)
  moreover have "data_ok ex_platform ex_image (st_writer (ex_store p))"
    using ex_graph_ok list_digraph_laws
    by (simp add: data_ok_def ex_store_def set_fsync_policy_def fresh_store_def ex_image_simps im_snap_def fresh_manifest_def)
  moreover have "log_exact ex_platform (im_records ex_image) (ex_fs F)" by (simp add: log_exact_def ex_files ex_image_simps)
  moreover have "wt_commit (st_writer (ex_store p)) = ex_commit" "store_inv (ex_store p)" "fs_locked (ex_fs F)"
    "\<not> poisoned (st_writer (ex_store p))" "pointers_ok (st_writer (ex_store p)) (im_manifest ex_image)"
    "unat (wt_durable_seq (st_writer (ex_store p))) = im_hw ex_image"
    by (simp_all add: ex_store_def set_fsync_policy_def wal_set_policy_def fresh_store_def store_inv_def published_iff ex_fs_def poisoned_def
        wal_new_def pointers_ok_def ex_image_simps fresh_manifest_def im_hw_def im_snap_def)
  ultimately show ?thesis using ex_on_disk ex_image_fresh(2) by (simp add: attached_def)
qed

text \<open>The marker file holds one slot, so that a torn write of the second one is too short to be read.\<close>

lemma ex_tears_detected:
  "file_bytes (ex_fs F) commit_name = Some cb \<Longrightarrow> pick_slot ex_crc cb = Some (im_commit ex_image, i) \<Longrightarrow> tear_detected ex_crc cb (1 - i) r"
proof -
  have "slot_at ex_crc (write_at (encode_slot ex_crc q) 44 (take k (encode_slot ex_crc r))) 1 \<in> {None, Some r}" for q k
    by (cases "k < 44") (auto simp: write_at_def slot_at_def slot_size_def slice_def decode_encode_slot)
  then have "tear_detected ex_crc (encode_slot ex_crc q) 1 r" for q unfolding tear_detected_def by (simp add: slot_size_def) blast
  then show "file_bytes (ex_fs F) commit_name = Some cb \<Longrightarrow> pick_slot ex_crc cb = Some (im_commit ex_image, i) \<Longrightarrow> tear_detected ex_crc cb (1 - i) r"
    using ex_live ex_files(4) [of F] by (auto simp: commit_live_def)
qed

lemma ex_tears: "tears_detected ex_platform ex_image (ex_fs F)" "tears_detected ex_platform ex_image (reboot F' E (ex_fs F))"
  using ex_tears_detected [of F] by (auto simp: tears_detected_def)

lemma ex_gens: "gens_left 2 ex_image" "gens_left 1 ex_image" "gens_left (Suc 2) ex_image" "gens_left 3 ex_image"
  by (simp_all add: gens_left_def im_gen_def ex_image_simps)

lemma ex_handle:
  "wt_seq (st_writer (ex_store p)) = 0" "wt_delta_ops (st_writer (ex_store p)) = 0" "ww_policy (wt_wal (st_writer (ex_store p))) = p"
  "caught_up (ex_store p)" "wt_delta (st_writer (ex_store p)) = delta_new"
  by (simp_all add: ex_store_def set_fsync_policy_def wal_set_policy_def fresh_store_def caught_up_def)

text \<open>A handle that compacts after every batch.\<close>

definition ex_eager :: "fsync_policy \<Rightarrow> (node_data list \<times> indexed_edge list) persistent_graph" where
  "ex_eager p = set_auto_compact_threshold (Some 0) (ex_store p)"

lemma ex_eager_simps [simp]:
  "st_state (ex_eager p) = st_state (ex_store p)" "wt_base (st_writer (ex_eager p)) = wt_base (st_writer (ex_store p))"
  "wt_delta (st_writer (ex_eager p)) = wt_delta (st_writer (ex_store p))" "wt_seq (st_writer (ex_eager p)) = wt_seq (st_writer (ex_store p))"
  "wt_wal (st_writer (ex_eager p)) = wt_wal (st_writer (ex_store p))"
  by (simp_all add: ex_eager_def set_auto_compact_threshold_def)

lemma attached_threshold [simp]: "attached pl im (set_auto_compact_threshold n g) s = attached pl im g s"
  by (simp add: attached_def store_inv_def published_iff poisoned_def data_ok_def pointers_ok_def set_auto_compact_threshold_def)

lemma ex_eager_attached: "attached ex_platform ex_image (ex_eager p) (ex_fs F)"
  unfolding ex_eager_def by (simp add: ex_attached)

section \<open>A batch\<close>

definition ex_batch :: "op list" where
  "ex_batch = [UpsertNode (ex_node ''d'' f32_half), AddEdge ''d'' ''d'' (ex_edge ''m'')]"

lemma ex_small: "\<not> compacts ex_platform ex_batch (ex_store p)"
  by (simp add: compacts_def ex_batch_def ex_handle compact_threshold_def auto_compact_threshold_def ex_store_def set_fsync_policy_def fresh_store_def)

lemma ex_eager_compacts: "compacts ex_platform ex_batch (ex_eager p)"
  by (simp add: compacts_def ex_batch_def compact_threshold_def ex_eager_def set_auto_compact_threshold_def)

lemma ex_batch_valid: "\<exists>d. delta_apply A ex_batch delta_new = (Inr (), d)"
  by (simp add: delta_apply_def ex_batch_def is_present_def ex_edge_def)

lemma ex_batch_encodes: "\<exists>frame. encode_frame ex_crc (\<lambda>r. Some (enc_wal r)) \<lparr>wr_seq = 1, wr_ops = ex_batch\<rparr> = Inr frame"
proof -
  have "length (enc_wal \<lparr>wr_seq = 1, wr_ops = ex_batch\<rparr>) < 500"
    by (simp add: enc_wal_def enc_via_def enc_prod_def ex_batch_def enc_node_data_def csr_node_of_def enc_csr_node_def csr_node_tuple_def
        enc_node_tuple_def enc_string_def enc_char_def enc_f32_def ex_node_def sorted_list_of_fset.rep_eq enc_edge_data_def edge_tuple_def enc_edge_tuple_def ex_edge_def)
  then show ?thesis by (simp add: encode_frame_def)
qed

lemma ex_store_delta: "gs_delta (st_state (ex_store p)) = delta_new"
  by (simp add: ex_store_def set_fsync_policy_def fresh_store_def)

lemma ex_apply_accepts: "\<exists>g' s'. apply_batch ex_platform ex_batch None (ex_store p, ex_fs (\<lambda>_. Pass)) = (Inr 1, (g', s'))"
proof -
  obtain d frame where d: "delta_apply (as_accessor list_digraph (gs_base (st_state (ex_store p)))) ex_batch delta_new = (Inr (), d)"
    and frame: "encode_frame ex_crc (\<lambda>r. Some (enc_wal r)) \<lparr>wr_seq = 1, wr_ops = ex_batch\<rparr> = Inr frame"
    using ex_batch_valid ex_batch_encodes by metis
  show ?thesis
    using apply_accepts [OF ex_attached gens_left_room [OF ex_gens(1)] ex_calm(1), of p None ex_batch d frame] d frame
    by (simp add: ex_handle ex_store_delta)
qed

text \<open>The append of the frame stops after nine bytes.\<close>

lemma ex_apply_interrupted:
  "\<exists>e g' s'. apply_batch ex_platform ex_batch None (ex_store p, ex_fs (\<lambda>_. FailAfter 9 (OtherIo ''disk full''))) = (Inl e, (g', s')) \<and> poisoned (st_writer g') \<and> fs_ok s'"
proof -
  obtain d frame where d: "delta_apply (as_accessor list_digraph (wt_base (st_writer (ex_store p)))) ex_batch delta_new = (Inr (), d)"
    and frame: "encode_frame ex_crc (\<lambda>r. Some (enc_wal r)) \<lparr>wr_seq = 1, wr_ops = ex_batch\<rparr> = Inr frame"
    using ex_batch_valid ex_batch_encodes by metis
  have "\<not> poisoned (st_writer (ex_store p))" using ex_attached by (simp add: attached_def)
  then obtain e g s where run: "apply_batch ex_platform ex_batch None (ex_store p, ex_fs (\<lambda>_. FailAfter 9 (OtherIo ''disk full''))) = (Inl e, (g, s))"
      "poisoned (st_writer g)"
    using d frame
    by (simp add: apply_batch_def ex_handle commit_batch_def with_writer_def with_wal_def wal_append_def bindI_def poisoning_def
        file_write_all_def tick_def ex_fs_def poisoned_def Let_def)
  have over: "wt_seq (st_writer (ex_store p)) + 1 \<noteq> 0" by (simp add: ex_handle)
  have "s = ex_fs (\<lambda>_. FailAfter 9 (OtherIo ''disk full'')) \<or> (\<exists>im. on_disk ex_platform im s)"
    using apply_batch_runs [OF ex_attached [where F = "\<lambda>_. FailAfter 9 (OtherIo ''disk full'')"] gens_left_room [OF ex_gens(1)] ex_tears(1) over,
        where ops = ex_batch and exp = None] unfolding runs_def run(1) prod.case sum.case by simp blast
  then show ?thesis using run ex_fs_ok by (auto simp: on_disk_def)
qed

section \<open>The delta of the batch can be folded\<close>

lemma delta_sizes:
  assumes "finite (dom (acc_get_node A))"
  shows "card (dom (delta_nodes A d)) \<le> card (dom (acc_get_node A)) + length (added_nodes d)"
    and "size (delta_edges E d) \<le> size E + length (added_edges d)"
proof -
  have "dom (delta_nodes A d) \<subseteq> dom (acc_get_node A) \<union> fst ` set (added_nodes d)"
    by (auto simp: delta_nodes_def image_iff split: option.splits if_splits dest!: map_of_SomeD) force
  then have "card (dom (delta_nodes A d)) \<le> card (dom (acc_get_node A) \<union> fst ` set (added_nodes d))"
    using assms by (intro card_mono) auto
  also have "\<dots> \<le> card (dom (acc_get_node A)) + card (fst ` set (added_nodes d))" by (rule card_Un_le)
  also have "card (fst ` set (added_nodes d)) \<le> length (added_nodes d)"
    by (meson List.finite_set card_image_le card_length le_trans)
  finally show "card (dom (delta_nodes A d)) \<le> card (dom (acc_get_node A)) + length (added_nodes d)" by simp
  have "length (live_edges d) \<le> length (added_edges d)" by (simp add: live_edges_def)
  moreover have "size (filter_mset P E) \<le> size E" for P by (rule size_mset_mono) simp
  ultimately show "size (delta_edges E d) \<le> size E + length (added_edges d)"
    by (simp add: delta_edges_def add_mono)
qed

lemma ex_batch_delta:
  assumes "delta_apply A ex_batch delta_new = (Inr (), d)"
  shows "delta_reachable A d" and "length (added_nodes d) = 1" and "length (added_edges d) = 1"
proof -
  show "delta_reachable A d"
    by (rule delta_reachable.batch [OF delta_reachable.empty _ assms]) (simp add: delta_new_def ex_batch_def)
  show "length (added_nodes d) = 1" "length (added_edges d) = 1"
    using assms by (auto simp: delta_apply_def ex_batch_def is_present_def ex_edge_def delta_new_def upsert_node_def add_edge_def Let_def)
qed

lemma ex_graph_edges: "edges_canon (og_edges list_digraph ex_graph)" "card (dom (og_nodes list_digraph ex_graph)) \<le> 2"
  "size (og_edges list_digraph ex_graph) \<le> 3"
proof -
  note c = build_edges [OF list_digraph_laws ex_room, of True, folded build_graph_def [of list_digraph], folded ex_graph_def]
    and n = build_sizes [OF list_digraph_laws ex_room, of True, folded build_graph_def [of list_digraph], folded ex_graph_def]
  show "edges_canon (og_edges list_digraph ex_graph)" unfolding c by (rule build_edges_canon)
  have "dedup_nodes ex_inputs = [ex_input ''a'' f32_half, ex_input ''b'' f32_one]" by code_simp
  then have "length (dg_nodes list_digraph (og_graph ex_graph)) = 2" using n(1) by simp
  then show "card (dom (og_nodes list_digraph ex_graph)) \<le> 2"
    by (simp add: og_nodes_def dom_map_of_conv_image_fst image_image) (metis List.finite_set card_image_le card_length le_trans)
  show "size (og_edges list_digraph ex_graph) \<le> 3" using n(2) by (simp add: og_edges_def ex_links_def)
qed

lemma ex_foldable_delta:
  assumes d: "delta_apply (as_accessor list_digraph (OwnedBase ex_graph)) ex_batch delta_new = (Inr (), d)"
    and w: "wt_base (st_writer g) = OwnedBase ex_graph" "wt_delta (st_writer g) = d"
  shows "foldable ex_platform g"
proof -
  let ?A = "as_accessor list_digraph (OwnedBase ex_graph)"
  have acc: "accessor_ok ?A (og_nodes list_digraph ex_graph) (og_edges list_digraph ex_graph)"
    using base_view.view [of list_digraph "OwnedBase ex_graph"] ex_graph_ok list_digraph_laws by simp
  have get: "acc_get_node ?A = og_nodes list_digraph ex_graph" using accessor_ok_get [OF acc] by auto
  have fin: "finite (dom (acc_get_node ?A))" unfolding get by (simp add: og_nodes_def finite_dom_map_of)
  note e = ex_batch_delta [OF d] and z = delta_sizes [OF fin, where d = d] and o = ex_graph_edges
  show ?thesis
    using e o z(1) z(2) [where E = "og_edges list_digraph ex_graph"] by (simp add: foldable_def w get [simplified] dg_limit_def)
qed

lemma ex_foldable:
  assumes "apply_batch ex_platform ex_batch None (ex_store p, s) = (Inr q, (g', s'))"
  shows "foldable ex_platform g'"
proof -
  have inv: "store_inv (ex_store p)" using ex_attached by (simp add: attached_def)
  have over: "wt_seq (st_writer (ex_store p)) + 1 \<noteq> 0" by (simp add: ex_handle)
  note a = apply_ok [OF assms inv over]
  have base: "gs_base (st_state (ex_store p)) = OwnedBase ex_graph" by (simp add: ex_store_def set_fsync_policy_def fresh_store_def)
  let ?A = "as_accessor list_digraph (OwnedBase ex_graph)"
  obtain d where d: "delta_apply ?A ex_batch delta_new = (Inr (), d)" "gs_base (st_state g') = OwnedBase ex_graph" "gs_delta (st_state g') = d"
    using a(9) ex_small by (auto simp: base ex_store_delta compacts_def not_less)
  have "wt_base (st_writer g') = OwnedBase ex_graph" "wt_delta (st_writer g') = d" using a(1) d(2,3) by (auto simp: store_inv_def published_iff)
  then show ?thesis by (rule ex_foldable_delta [OF d(1)])
qed

lemma ex_eager_ready: "compaction_ready ex_platform ex_batch (ex_eager p) (ex_fs (\<lambda>_. Pass))"
proof -
  obtain d where d: "delta_apply (as_accessor list_digraph (OwnedBase ex_graph)) ex_batch delta_new = (Inr (), d)"
    using ex_batch_valid by metis
  have base: "wt_base (st_writer (ex_store p)) = OwnedBase ex_graph" by (simp add: ex_store_def set_fsync_policy_def fresh_store_def)
  have "foldable ex_platform (with_batch ex_platform ex_batch (ex_eager p))"
    by (rule ex_foldable_delta [OF d]) (simp_all add: with_batch_def Let_def adopt_batch_def base ex_handle delta_apply_replay [OF d])
  then show ?thesis
    using compaction_ready_calm [OF ex_eager_attached gens_left_room [OF ex_gens(1)] _ ex_calm(1)] by (simp add: ex_handle)
qed

lemma ex_eager_accepts: "\<exists>g' s'. apply_batch ex_platform ex_batch None (ex_eager p, ex_fs (\<lambda>_. Pass)) = (Inr 1, (g', s'))"
proof -
  obtain d frame where d: "delta_apply (as_accessor list_digraph (gs_base (st_state (ex_store p)))) ex_batch delta_new = (Inr (), d)"
    and frame: "encode_frame ex_crc (\<lambda>r. Some (enc_wal r)) \<lparr>wr_seq = 1, wr_ops = ex_batch\<rparr> = Inr frame"
    using ex_batch_valid ex_batch_encodes by metis
  show ?thesis
    using apply_accepts [OF ex_eager_attached gens_left_room [OF ex_gens(1)] ex_calm(1), of p None ex_batch d frame] d frame
    by (simp add: ex_handle ex_store_delta)
qed

section \<open>The store after the batch\<close>

lemma ex_applied:
  obtains g s im where "apply_batch ex_platform ex_batch None (ex_store p, ex_fs (\<lambda>_. Pass)) = (Inr 1, (g, s))"
    and "attached ex_platform im g s" and "gens_left 2 im" and "p = EveryBatch \<Longrightarrow> caught_up g" and "foldable ex_platform g"
    and "power_safe ex_platform im s" and "fs_ok s"
proof -
  obtain g s where run: "apply_batch ex_platform ex_batch None (ex_store p, ex_fs (\<lambda>_. Pass)) = (Inr 1, (g, s))"
    using ex_apply_accepts by blast
  have inv: "store_inv (ex_store p)" using ex_attached by (simp add: attached_def)
  have over: "wt_seq (st_writer (ex_store p)) + 1 \<noteq> 0" by (simp add: ex_handle)
  obtain im where att: "attached ex_platform im g s" "gens_left 2 im" "power_safe ex_platform im s"
    using attached_after_apply [OF ex_attached ex_gens(3) ex_tears(1) over ex_small run] ex_power_safe by blast
  moreover have "fs_ok s" using att(1) by (simp add: attached_def on_disk_def)
  moreover have "p = EveryBatch \<Longrightarrow> caught_up g"
    using apply_ok(6,8) [OF run inv over] by (simp add: ex_handle caught_up_def committed_seq_def)
  ultimately show ?thesis using that run ex_foldable [OF run] by blast
qed

lemma ex_calm_env: "calm (with_env (\<lambda>_. Pass) ex_entropy s)"
  by (simp add: calm_def with_env_def ex_entropy_def)

text \<open>A recovery that gets the lock and then cannot read the MANIFEST.\<close>

definition ex_broken :: "nat \<Rightarrow> fault" where
  "ex_broken t = (if t < 2 then Pass else FailAfter 0 (OtherIo ''bad sector''))"

lemma ex_open_interrupted:
  "\<exists>e s'. open_with_vfs ex_platform create mode validate prefault (reboot ex_broken ex_entropy (ex_fs F)) = (Inl e, s') \<and> fs_ok s'"
proof -
  have there: "path_exists manifest_name (reboot ex_broken ex_entropy (ex_fs F))"
    using ex_files(1) [of F] by (auto simp: path_exists_def file_bytes_def reboot_def with_env_def)
  then have "\<exists>e s. open_with_vfs ex_platform create mode validate prefault (reboot ex_broken ex_entropy (ex_fs F)) = (Inl e, s)"
    by (simp add: open_with_vfs_def Let_def with_lock_def lock_acquire_def bindI_def io_def from_io_def open_lock_file_def effect_def tick_def
        try_lock_exclusive_def open_locked_def read_manifest_def fs_read_def reboot_def with_env_def ex_fs_def ex_broken_def split: if_splits)
  then obtain e s where run: "open_with_vfs ex_platform create mode validate prefault (reboot ex_broken ex_entropy (ex_fs F)) = (Inl e, s)" by blast
  have disk: "on_disk ex_platform ex_image (reboot ex_broken ex_entropy (ex_fs F))" using ex_on_disk by simp
  have "\<not> fs_locked (reboot ex_broken ex_entropy (ex_fs F))" by simp
  from open_runs [OF ex_platform_ok ex_no_zero_checksum disk ex_image_fresh(2) gens_left_room [OF ex_gens(1)] ex_tears(2) this,
      of create mode validate prefault]
  have "fs_ok s" using run by (auto simp: runs_def holds_def on_disk_def)
  then show ?thesis using run by blast
qed

lemma ex_store_seq: "store_seq (ex_store p) = 0"
  by (simp add: store_seq_def ex_store_def set_fsync_policy_def fresh_store_def)

lemma ex_create: "\<exists>g s. create_with_vfs ex_platform ex_graph ex_empty_fs = (Inr g, s)"
proof -
  obtain r s where run: "create_with_vfs ex_platform ex_graph ex_empty_fs = (r, s)" by fastforce
  have "og_ok (x_graph ex_platform) ex_graph" "small_graph (x_graph ex_platform) ex_graph" using ex_graph_ok ex_graph_small by simp_all
  from create_runs [OF ex_platform_ok ex_no_zero_checksum this ex_empty_fs(1-3)]
  show ?thesis using run ex_empty_fs(4) by (cases r) (auto simp: runs_def)
qed

end
