(* ===== verification/OG_Python_Examples.thy ===== *)
theory OG_Python_Examples
  imports OG_Python_Store OG_Store_Examples OG_Dijkstra
begin

text \<open>
  The example store driven from Python: objects are strings and dictionaries with string values, which is
  enough for the batch of \<open>OG_Store_Examples\<close> in the form the bindings take it.
\<close>

section \<open>Objects\<close>

datatype ex_object = ExStr string | ExDict "(string \<times> string) list"

definition type_error :: py_error where
  "type_error = PyErr (PyOther ''TypeError'') (Text [])"

definition ex_api :: "ex_object py_api" where
  "ex_api = \<lparr>
     py_dict = (\<lambda>v. case v of ExDict m \<Rightarrow> Inr v | _ \<Rightarrow> Inl type_error),
     py_get_item = (\<lambda>v k. case v of ExDict m \<Rightarrow> Inr (map_option ExStr (map_of m k)) | _ \<Rightarrow> Inl type_error),
     py_string = (\<lambda>v. case v of ExStr s \<Rightarrow> Inr s | _ \<Rightarrow> Inl type_error),
     py_f32 = (\<lambda>_. Inl type_error), py_u64 = (\<lambda>_. Inl type_error), py_strings = (\<lambda>_. Inl type_error),
     py_string_map = (\<lambda>_. Inl type_error)\<rparr>"

definition ex_env :: "(node_data list \<times> indexed_edge list, ex_object) py_env" where
  "ex_env = \<lparr>env_platform = ex_platform, env_flat_to = (\<lambda>_. []), env_flat_access = (\<lambda>_. None), env_api = ex_api,
     env_heap_pop = list_heap_pop, env_fuel = 0\<rparr>"

lemma ex_env_simps [simp]: "env_platform ex_env = ex_platform" "env_api ex_env = ex_api"
  by (simp_all add: ex_env_def)

section \<open>A batch\<close>

definition ex_items :: "ex_object list" where
  "ex_items =
     [ExDict [(''op'', ''upsert_node''), (''name'', ''d''), (''kind'', ''model'')],
      ExDict [(''op'', ''add_edge''), (''from'', ''d''), (''to'', ''d''), (''kind'', ''m'')]]"

lemma ex_units:
  "f32_le f32_one f32_one" "f32_le f32_zero f32_one" "f32_le f32_zero f32_zero" "f32_le f32_zero f32_half" "f32_le f32_half f32_one"
  by code_simp+

lemma ex_items_parse: "parse_ops (env_api ex_env) ex_items = Inr ex_batch"
  by (simp add: ex_units ex_env_def ex_items_def ex_batch_def ex_api_def parse_ops_def parse_op_def bindE_def require_op_str_def optional_op_str_def
      optional_item_def op_f32_def require_unit_def optional_dict_u64_def optional_dict_acl_def unwrap_or_def ex_node_def ex_edge_def
      normalize_acl_def)

definition ex_pg :: "fsync_policy \<Rightarrow> (node_data list \<times> indexed_edge list) py_persistent_graph" where
  "ex_pg p = \<lparr>py_pg = Some (ex_store p)\<rparr>"

lemma ex_pg_accepts: "\<exists>h s. pg_py_apply ex_env ex_items None (ex_pg EveryBatch, ex_fs (\<lambda>_. Pass)) = (Inr 1, (h, s))"
proof -
  obtain g s where "apply_batch ex_platform ex_batch None (ex_store EveryBatch, ex_fs (\<lambda>_. Pass)) = (Inr 1, (g, s))"
    using ex_apply_accepts by blast
  then show ?thesis
    by (simp add: pg_py_apply_def ex_items_parse [simplified] on_pg_def require_pg_def ex_pg_def map_err_def)
qed

text \<open>The directory of the example store, opened from Python.\<close>

lemma ex_py_open:
  "\<exists>h s. py_open ex_env False True ''crc'' False (reboot (\<lambda>_. Pass) ex_entropy (ex_fs (\<lambda>_. Pass))) = (Inr h, s) \<and> py_pg h \<noteq> None"
proof -
  let ?s = "reboot (\<lambda>_. Pass) ex_entropy (ex_fs (\<lambda>_. Pass))"
  have disk: "on_disk ex_platform ex_image ?s" using ex_on_disk by simp
  obtain h s where "open_with_vfs ex_platform False MmapMode Crc False ?s = (Inr h, s)"
    using open_image [OF ex_platform_ok ex_no_zero_checksum disk ex_image_fresh(2) ex_gens(2) ex_calm(2), of False MmapMode Crc False] by auto
  then show ?thesis by (simp add: py_open_def parse_validate_def map_err_def bindE_def)
qed

end
