(* ===== verification/OG_Power.thy ===== *)
theory OG_Power
  imports OG_Compact_Disk
begin

text \<open>
  Power safety as an invariant of handles: a store that is attached and power safe stays so through every
  operation that returns \<open>Ok\<close>, and through a restart and the \<open>open\<close> after it.
\<close>

definition power_safe_store :: "'g platform \<Rightarrow> 'g persistent_graph \<Rightarrow> fs \<Rightarrow> bool" where
  "power_safe_store pl g s \<longleftrightarrow> (\<exists>im. attached pl im g s \<and> power_safe pl im s)"

lemma synced_store: "attached pl im g s \<Longrightarrow> synced im s \<Longrightarrow> power_safe_store pl g s"
  using synced_power_safe by (auto simp: power_safe_store_def attached_def)

lemma apply_power_safe:
  assumes "attached pl im g s" and "power_safe pl im s" and "gens_left 1 im" and "tears_detected pl im s" and "wt_seq (st_writer g) + 1 \<noteq> 0"
    and "\<not> compacts pl ops g" and "apply_batch pl ops exp (g, s) = (Inr q, (g', s'))"
  shows "power_safe_store pl g' s'"
  using attached_after_apply [of pl im g s 0 ops exp q g' s'] assms by (auto simp: power_safe_store_def)

lemma flush_power_safe:
  assumes "attached pl im g s" and "power_safe pl im s" and "gens_left 1 im" and "tears_detected pl im s"
    and "flush pl (g, s) = (Inr (), (g', s'))"
  shows "power_safe_store pl g' s'"
proof -
  have room: "gen_room im" by (rule gens_left_room [OF assms(3)]) simp
  show ?thesis using flush_runs [OF assms(1) room assms(4)] assms(2,5) synced_store by (auto simp: runs_def)
qed

lemma compact_power_safe:
  assumes pl: "platform_ok pl" "no_zero_checksum pl" and "attached pl im g s" and "power_safe pl im s" and "gens_left 1 im" and "tears_detected pl im s"
    and "caught_up g" and "foldable pl g" and "compact pl (g, s) = (Inr (), (g', s'))"
  shows "power_safe_store pl g' s'"
proof -
  have room: "gen_room im" by (rule gens_left_room [OF assms(5)]) simp
  have run: "compact_locked pl (g, s) = (Inr (), (g', s'))" using assms(3,9) by (simp add: compact_def attached_def)
  have sync: "synced im s" by (rule caught_up_synced [OF assms(3,7,4)])
  obtain im' where "attached pl im' g' s'" "synced im s \<longrightarrow> synced im' s'"
    using compact_locked_runs [OF pl assms(3,8) room assms(6)] unfolding runs_def run prod.case sum.case by blast
  then show ?thesis using sync synced_store by blast
qed

lemma open_power_safe:
  assumes pl: "platform_ok pl" "no_zero_checksum pl" and "attached pl im g s" and "power_safe pl im s" and "gens_left 1 im"
    and start: "restart pl im s F E s t" and calm: "calm t"
    and run: "open_with_vfs pl create mode validate prefault t = (Inr h, s')"
  shows "power_safe_store pl h s'"
proof -
  have disk: "on_disk pl im s" and ok: "image_ok im" using assms(3) by (simp_all add: attached_def)
  obtain x where x: "on_disk pl x t" "shortened im x" using restart_idle [OF start disk ok] by blast
  note short = shortened_image [OF x(2) ok]
  have gen: "gens_left 1 x" using assms(5) short(3) by (simp add: gens_left_def im_gen_def)
  obtain y where y: "on_disk pl y t" "power_safe pl y t" "image_ok y" "gens_left 1 y"
    using start unfolding restart_def
  proof (elim disjE conjE)
    assume "t = reboot F E s"
    then show ?thesis using that [of im] disk ok assms(4,5) by simp
  next
    assume "power_cut F E s t"
    then show ?thesis using that [OF x(1) synced_power_safe [OF cut_synced x(1)] short(1) gen] x(1) by blast
  qed
  have room: "gen_room y" by (rule gens_left_room [OF y(4)]) simp
  have "\<exists>im'. attached pl im' h s' \<and> synced im' s'"
    using open_runs [OF pl y(1,3) room calm_tears [OF calm] restart_free [OF start], of create mode validate prefault] run y(2)
    by (auto simp: runs_def reattached_def)
  then show ?thesis using synced_store by blast
qed

end
