(* ===== verification/OG_Session.thy ===== *)
theory OG_Session
  imports OG_Power
begin

text \<open>
  Whole sessions of a store. The abstract store is a ledger: the graph of the last snapshot, the batches
  applied since and how many of them are durable. A session is any sequence of operations on the handle,
  crashes and power losses between and during them, and recoveries. Every session is a run of the ledger.
\<close>

section \<open>Runs and refinement\<close>

inductive run :: "('c \<Rightarrow> 'e \<Rightarrow> 'c \<Rightarrow> bool) \<Rightarrow> 'c \<Rightarrow> 'e list \<Rightarrow> 'c \<Rightarrow> bool" for step where
  run_stop: "run step c [] c"
| run_step: "step c e d \<Longrightarrow> run step d es c' \<Longrightarrow> run step c (e # es) c'"

inductive_cases run_NilE: "run step c [] c'"
inductive_cases run_ConsE: "run step c (e # es) c'"

lemma run_appendE: "run step a (es @ fs) c \<Longrightarrow> (\<And>b. run step a es b \<Longrightarrow> run step b fs c \<Longrightarrow> P) \<Longrightarrow> P"
proof (induction es arbitrary: a)
  case Nil
  then show ?case using run_stop by force
next
  case (Cons e es)
  then show ?case by (metis append_Cons run_ConsE run_step)
qed

text \<open>A simulation that holds for a bounded number of steps: the counters of the store are 64 bits wide.\<close>

locale bounded_refinement =
  fixes concrete :: "'c \<Rightarrow> 'e \<Rightarrow> 'c \<Rightarrow> bool" and abstract :: "'a \<Rightarrow> 'e \<Rightarrow> 'a \<Rightarrow> bool" and rel :: "nat \<Rightarrow> 'a \<Rightarrow> 'c \<Rightarrow> bool"
  assumes simulates: "rel (Suc n) a c \<Longrightarrow> concrete c e d \<Longrightarrow> \<exists>b. abstract a e b \<and> rel n b d"
begin

lemma run_simulates: "run concrete c es d \<Longrightarrow> rel (length es + n) a c \<Longrightarrow> \<exists>b. run abstract a es b \<and> rel n b d"
proof (induction arbitrary: a rule: run.induct)
  case (run_stop c)
  then show ?case using run.run_stop by fastforce
next
  case (run_step c e d es c')
  then obtain b where "abstract a e b" "rel (length es + n) b d" using simulates [of "length es + n" a c e d] by auto
  then show ?case using run_step.IH [of b] run.run_step by metis
qed

end

section \<open>The ledger\<close>

record ledger =
  ld_nodes :: "string \<Rightarrow> node_view option"
  ld_edges :: "graph_edge multiset"
  ld_first :: nat
  ld_batches :: "op list list"
  ld_durable :: nat

definition ledger_new :: "(string \<Rightarrow> node_view option) \<Rightarrow> graph_edge multiset \<Rightarrow> ledger" where
  "ledger_new N E = \<lparr>ld_nodes = N, ld_edges = E, ld_first = 0, ld_batches = [], ld_durable = 0\<rparr>"

text \<open>What a stop leaves: the durable batches.\<close>

definition cut_back :: "ledger \<Rightarrow> ledger" where
  "cut_back L = L\<lparr>ld_batches := take (ld_durable L) (ld_batches L)\<rparr>"

definition grown :: "op list \<Rightarrow> nat \<Rightarrow> ledger \<Rightarrow> ledger" where
  "grown ops d L = L\<lparr>ld_batches := ld_batches L @ [ops], ld_durable := d\<rparr>"

definition settled_all :: "ledger \<Rightarrow> ledger" where
  "settled_all L = L\<lparr>ld_durable := length (ld_batches L)\<rparr>"

text \<open>Folding the batches into a new snapshot: the same edges, the same nodes up to the recomputed PageRank.\<close>

definition folds :: "ledger \<Rightarrow> ledger \<Rightarrow> bool" where
  "folds L L' \<longleftrightarrow>
     (\<exists>A. accessor_ok A (ld_nodes L) (ld_edges L) \<and>
        ld_edges L' = delta_edges (ld_edges L) (replay_all A (ld_batches L) delta_new) \<and>
        (\<forall>n. map_option (\<lambda>v. v\<lparr>nv_pagerank_weight := f32_zero\<rparr>) (ld_nodes L' n) =
             map_option (\<lambda>v. v\<lparr>nv_pagerank_weight := f32_zero\<rparr>) (delta_nodes A (replay_all A (ld_batches L) delta_new) n))) \<and>
     ld_first L' = ld_first L + length (ld_batches L) \<and> ld_batches L' = [] \<and> ld_durable L' = 0"

text \<open>What the user of the store sees: an acknowledged batch (and whether the policy was \<open>EveryBatch\<close>), a flush, a
  compaction, an operation that changes nothing (a refusal, a change of policy, a recovery), and stops: while
  idle, or in the middle of an \<open>apply\<close>, a \<open>flush\<close> or a \<open>compact\<close>.\<close>

datatype event = Applied "op list" bool | Flushed | Compacted | Quiet | Stopped | Stopped_in_apply "op list" | Stopped_in_flush | Stopped_in_compact

inductive ledger_step :: "ledger \<Rightarrow> event \<Rightarrow> ledger \<Rightarrow> bool" where
  ledger_applied: "d \<in> {ld_durable L, Suc (length (ld_batches L))} \<Longrightarrow> (every \<longrightarrow> d = Suc (length (ld_batches L))) \<Longrightarrow>
     ledger_step L (Applied ops every) (grown ops d L)"
| ledger_flushed: "ledger_step L Flushed (settled_all L)"
| ledger_folded: "folds L L' \<Longrightarrow> ledger_step L Compacted L'"
| ledger_nothing_to_fold: "ledger_step L Compacted L"
| ledger_quiet: "ledger_step L Quiet L"
| ledger_stopped: "ledger_step L Stopped (cut_back L)"
| ledger_apply_lost: "ledger_step L (Stopped_in_apply ops) (cut_back L)"
| ledger_apply_kept: "ledger_step L (Stopped_in_apply ops) (grown ops (Suc (length (ld_batches L))) L)"
| ledger_flush_lost: "ledger_step L Stopped_in_flush (cut_back L)"
| ledger_flush_kept: "ledger_step L Stopped_in_flush (settled_all L)"
| ledger_fold_lost: "ledger_step L Stopped_in_compact (cut_back L)"
| ledger_fold_kept: "folds L L' \<Longrightarrow> ledger_step L Stopped_in_compact L'"

text \<open>The handle whose state is that of a ledger.\<close>

definition has_ledger :: "'g platform \<Rightarrow> ledger \<Rightarrow> 'g persistent_graph \<Rightarrow> bool" where
  "has_ledger pl L g \<longleftrightarrow>
     base_ok (x_graph pl) (gs_base (st_state g)) \<and>
     base_nodes (x_graph pl) (gs_base (st_state g)) = ld_nodes L \<and> base_edges (x_graph pl) (gs_base (st_state g)) = ld_edges L \<and>
     gs_delta (st_state g) = replay_all (as_accessor (x_graph pl) (gs_base (st_state g))) (ld_batches L) delta_new \<and>
     unat (store_seq g) = ld_first L + length (ld_batches L) \<and> unat (committed_seq g) = ld_first L + ld_durable L"

section \<open>Ledgers of images\<close>

definition logged :: "image \<Rightarrow> ledger" where
  "logged im = \<lparr>ld_nodes = im_nodes im, ld_edges = im_edges im, ld_first = im_snap im, ld_batches = all_batches im,
     ld_durable = im_hw im - im_snap im\<rparr>"

definition recovered :: "image \<Rightarrow> ledger" where
  "recovered im = \<lparr>ld_nodes = im_nodes im, ld_edges = im_edges im, ld_first = im_snap im, ld_batches = im_batches im,
     ld_durable = im_hw im - im_snap im\<rparr>"

lemma image_lengths:
  assumes "image_ok im"
  shows "length (all_batches im) = im_base im + length (im_records im) - im_snap im" and "length (im_batches im) = im_hw im - im_snap im"
    and "im_snap im \<le> im_hw im" and "im_hw im \<le> im_base im + length (im_records im)"
  using assms by (auto simp: image_ok_def all_batches_def im_batches_def im_hw_def)

lemma recovered_logged:
  assumes "image_ok im"
  shows "recovered im = cut_back (logged im)"
proof -
  have "im_base im \<le> im_snap im" "im_snap im \<le> im_hw im" using assms by (auto simp: image_ok_def im_hw_def)
  then have "im_batches im = take (im_hw im - im_snap im) (all_batches im)"
    by (simp add: im_batches_def all_batches_def take_map drop_take)
  then show ?thesis by (simp add: recovered_def logged_def cut_back_def)
qed

lemma recovered_same: "same_store im x \<Longrightarrow> recovered x = recovered im"
  by (simp add: same_store_def recovered_def)

lemma caught_up_logged:
  assumes "attached pl im g s" and "caught_up g"
  shows "logged im = recovered im"
  using caught_up_batches(1) [OF assms] by (simp add: logged_def recovered_def)

lemma attached_ledger:
  assumes "attached pl im g s"
  shows "has_ledger pl (logged im) g"
proof -
  have ok: "image_ok im" using assms by (simp add: attached_def)
  note st = attached_state [OF assms] and len = image_lengths [OF ok]
  show ?thesis using st len(1,3,4) by (auto simp: has_ledger_def has_state_def logged_def)
qed

lemma appended_ledger:
  assumes "image_ok im" and "appended_image r im im'"
  shows "logged im' = grown (wr_ops r) (ld_durable (logged im)) (logged im)"
proof -
  have "im_snap im - im_base im \<le> length (im_records im)" using image_lengths(3,4) [OF assms(1)] by simp
  then show ?thesis
    using assms(2) by (simp add: appended_image_def with_record_def logged_def grown_def all_batches_def im_snap_def im_hw_def)
qed

lemma committed_ledger:
  assumes ok: "image_ok im" and seq: "unat (wr_seq r) = Suc (im_base im + length (im_records im))" and com: "committed_image r im im'"
  shows "logged im' = grown (wr_ops r) (Suc (length (ld_batches (logged im)))) (logged im)" and "recovered im' = logged im'"
proof -
  obtain n where n: "im' = commit_all n (with_record r im)" using com by (auto simp: committed_image_def)
  note len = image_lengths [OF ok] and c = committed_image_ok [OF ok seq com]
  have le: "im_snap im - im_base im \<le> length (im_records im)" using len(3,4) by simp
  have s: "im_snap im' = im_snap im" by (simp add: n commit_all_def with_record_def im_snap_def)
  have b: "all_batches im' = all_batches im @ [wr_ops r]"
    using le by (simp add: n commit_all_def with_record_def im_snap_def all_batches_def)
  show "logged im' = grown (wr_ops r) (Suc (length (ld_batches (logged im)))) (logged im)"
    using b s c(2) len(1,3,4) by (simp add: logged_def grown_def) (simp add: n commit_all_def with_record_def)
  have "length (im_batches im') = length (all_batches im')" using image_lengths(1,2) [OF c(1)] c(2) by (simp add: n commit_all_def with_record_def)
  then show "recovered im' = logged im'" using recovered_logged [OF c(1)] by (simp add: recovered_def logged_def cut_back_def)
qed

section \<open>Sessions\<close>

text \<open>The handle, if the process runs, the files, and whether a power loss is among the events that may still come:
  it is until a process dies in the middle of an operation, which leaves the kernel with writes nobody synced.\<close>

record 'g session =
  ss_handle :: "'g persistent_graph option"
  ss_fs :: fs
  ss_safe :: bool

abbreviation running :: "'g persistent_graph \<Rightarrow> fs \<Rightarrow> bool \<Rightarrow> 'g session" where
  "running g s b \<equiv> \<lparr>ss_handle = Some g, ss_fs = s, ss_safe = b\<rparr>"

abbreviation stopped :: "fs \<Rightarrow> bool \<Rightarrow> 'g session" where
  "stopped s b \<equiv> \<lparr>ss_handle = None, ss_fs = s, ss_safe = b\<rparr>"

text \<open>The end of a process in the middle of an operation that left the files \<open>s\<close>: a crash, or a power loss.\<close>

definition stops :: "bool \<Rightarrow> fs \<Rightarrow> fs \<Rightarrow> bool \<Rightarrow> bool" where
  "stops b s t b' \<longleftrightarrow> (\<exists>F E. t = reboot F E s \<and> \<not> b' \<or> b \<and> b' \<and> power_cut F E s t)"

text \<open>Torn slots of the marker are detected, whatever store the files hold.\<close>

definition tears_seen :: "'g platform \<Rightarrow> fs \<Rightarrow> bool" where
  "tears_seen pl s \<longleftrightarrow> (\<forall>im. on_disk pl im s \<longrightarrow> tears_detected pl im s)"

inductive session_step :: "'g platform \<Rightarrow> 'g session \<Rightarrow> event \<Rightarrow> 'g session \<Rightarrow> bool" for pl where
  session_applied: "tears_seen pl s \<Longrightarrow> \<not> compacts pl ops g \<Longrightarrow> apply_batch pl ops exp (g, s) = (Inr q, (g', s')) \<Longrightarrow>
     session_step pl (running g s b) (Applied ops (ww_policy (wt_wal (st_writer g)) = EveryBatch)) (running g' s' b)"
| session_refused: "tears_seen pl s \<Longrightarrow> apply_batch pl ops exp (g, s) = (Inl e, (g', s')) \<Longrightarrow> \<not> poisoned (st_writer g') \<Longrightarrow>
     session_step pl (running g s b) Quiet (running g' s' b)"
| session_apply_stopped: "tears_seen pl s \<Longrightarrow> apply_batch pl ops exp (g, s) = (Inl e, (g', s')) \<Longrightarrow> stops b s' t b' \<Longrightarrow>
     session_step pl (running g s b) (Stopped_in_apply ops) (stopped t b')"
| session_flushed: "tears_seen pl s \<Longrightarrow> flush pl (g, s) = (Inr (), (g', s')) \<Longrightarrow> session_step pl (running g s b) Flushed (running g' s' b)"
| session_flush_stopped: "tears_seen pl s \<Longrightarrow> flush pl (g, s) = (Inl e, (g', s')) \<Longrightarrow> stops b s' t b' \<Longrightarrow>
     session_step pl (running g s b) Stopped_in_flush (stopped t b')"
| session_compacted: "tears_seen pl s \<Longrightarrow> caught_up g \<Longrightarrow> foldable pl g \<Longrightarrow> compact pl (g, s) = (Inr (), (g', s')) \<Longrightarrow>
     session_step pl (running g s b) Compacted (running g' s' b)"
| session_compact_stopped: "tears_seen pl s \<Longrightarrow> caught_up g \<Longrightarrow> foldable pl g \<Longrightarrow> compact pl (g, s) = (Inl e, (g', s')) \<Longrightarrow> stops b s' t b' \<Longrightarrow>
     session_step pl (running g s b) Stopped_in_compact (stopped t b')"
| session_policy: "session_step pl (running g s b) Quiet (running (set_fsync_policy p g) s b)"
| session_threshold: "session_step pl (running g s b) Quiet (running (set_auto_compact_threshold n g) s b)"
| session_killed: "session_step pl (running g s b) Stopped (stopped (reboot F E s) b)"
| session_unplugged: "b \<Longrightarrow> power_cut F E s t \<Longrightarrow> session_step pl (running g s b) Stopped (stopped t b)"
| session_opened: "tears_seen pl s \<Longrightarrow> open_with_vfs pl create mode validate prefault s = (Inr g, s') \<Longrightarrow>
     session_step pl (stopped s b) Quiet (running g s' b)"
| session_open_stopped: "tears_seen pl s \<Longrightarrow> open_with_vfs pl create mode validate prefault s = (Inl e, s') \<Longrightarrow> stops b s' t b' \<Longrightarrow>
     session_step pl (stopped s b) Quiet (stopped t b')"

text \<open>The simulation relation, with room for \<open>n\<close> more steps in the marker's generations and the sequence numbers.\<close>

definition room_for :: "nat \<Rightarrow> nat \<Rightarrow> image \<Rightarrow> bool" where
  "room_for n q im \<longleftrightarrow> im_gen im + n < 2 ^ 64 \<and> q + n < 2 ^ 64"

definition tracks :: "'g platform \<Rightarrow> nat \<Rightarrow> ledger \<Rightarrow> 'g session \<Rightarrow> bool" where
  "tracks pl n L c \<longleftrightarrow>
     (\<exists>im. (ss_safe c \<longrightarrow> power_safe pl im (ss_fs c)) \<and>
       (case ss_handle c of
          Some g \<Rightarrow> room_for n (unat (wt_seq (st_writer g))) im \<and> attached pl im g (ss_fs c) \<and> L = logged im
        | None \<Rightarrow> room_for n (im_hw im) im \<and> on_disk pl im (ss_fs c) \<and> image_ok im \<and> \<not> fs_locked (ss_fs c) \<and> L = recovered im))"

lemma tracks_running [simp]:
  "tracks pl n L (running g s b) \<longleftrightarrow>
     (\<exists>im. (b \<longrightarrow> power_safe pl im s) \<and> room_for n (unat (wt_seq (st_writer g))) im \<and> attached pl im g s \<and> L = logged im)"
  by (simp add: tracks_def)

lemma tracks_stopped [simp]:
  "tracks pl n L (stopped s b) \<longleftrightarrow>
     (\<exists>im. (b \<longrightarrow> power_safe pl im s) \<and> room_for n (im_hw im) im \<and> on_disk pl im s \<and> image_ok im \<and> \<not> fs_locked s \<and> L = recovered im)"
  by (simp add: tracks_def)

lemma room_forD:
  assumes "room_for (Suc n) q im"
  shows "gen_room im" and "gens_left (Suc n) im" and "q = unat k \<Longrightarrow> (k :: u64) + 1 \<noteq> 0"
proof -
  show g: "gens_left (Suc n) im" using assms by (simp add: room_for_def gens_left_def)
  show "gen_room im" by (rule gens_left_room [OF g]) simp
  assume "q = unat k"
  then have "unat k + 1 < 2 ^ 64" using assms by (simp add: room_for_def)
  then have "unat (k + 1) = unat k + 1" by (simp add: unat_word_ariths)
  then show "k + 1 \<noteq> 0" by auto
qed

lemma room_for_step: "room_for (Suc n) q im \<Longrightarrow> im_gen im' \<le> im_gen im + 1 \<Longrightarrow> q' \<le> q + 1 \<Longrightarrow> room_for n q' im'"
  by (simp add: room_for_def)

text \<open>After a stop in the middle of an operation.\<close>

lemma stops_restart:
  assumes "stops b s' t b'" and "b \<longrightarrow> power_safe pl im s"
  obtains F E where "restart pl im s F E s' t" and "b' \<longrightarrow> power_cut F E s' t"
  using assms unfolding stops_def restart_def by blast

lemma stops_tracks:
  assumes t: "stops b s' t b'" and x: "on_disk pl x t" "image_ok x" "room_for n (im_hw x) x"
  shows "tracks pl n (recovered x) (stopped t b')"
proof -
  have "power_safe pl x t" if b': "b'"
  proof -
    obtain F E where "power_cut F E s' t" using t b' by (auto simp: stops_def)
    then show ?thesis using synced_power_safe [OF cut_synced x(1)] x(1) by blast
  qed
  moreover have "\<not> fs_locked t" using t by (auto simp: stops_def power_cut_def)
  ultimately show ?thesis using x by auto
qed

section \<open>Every step of a session is a step of the ledger\<close>

lemma applied_tracks:
  assumes att: "attached pl im g s" and room: "room_for (Suc n) (unat (wt_seq (st_writer g))) im" and safe: "b \<longrightarrow> power_safe pl im s"
    and tears: "tears_seen pl s" and quiet: "\<not> compacts pl ops g" and run: "apply_batch pl ops exp (g, s) = (Inr q, (g', s'))"
  shows "\<exists>L. ledger_step (logged im) (Applied ops (ww_policy (wt_wal (st_writer g)) = EveryBatch)) L \<and> tracks pl n L (running g' s' b)"
proof -
  let ?r = "\<lparr>wr_seq = wt_seq (st_writer g) + 1, wr_ops = ops\<rparr>" and ?every = "ww_policy (wt_wal (st_writer g)) = EveryBatch"
  note r = room_forD [OF room]
  have over: "wt_seq (st_writer g) + 1 \<noteq> 0" by (rule r(3)) simp
  have ok: "image_ok im" and t: "tears_detected pl im s" using att tears by (simp_all add: attached_def tears_seen_def)
  have seq: "unat (wr_seq ?r) = Suc (im_base im + length (im_records im))"
    using unatSuc [of "wt_seq (st_writer g)"] over attached_state(3) [OF att] by (simp add: add.commute)
  obtain im' g1 s1 where b: "auto_compact pl (g1, s1) = (g', s')" "attached pl im' g1 s1" "batch_adopted pl ops g g1"
      "power_safe pl im s \<longrightarrow> power_safe pl im' s1"
    and im': "committed_image ?r im im' \<and> (?every \<longrightarrow> caught_up g1) \<or> appended_image ?r im im' \<and> \<not> ?every"
    using apply_batch_runs [OF att r(1) t over, of ops exp] unfolding runs_def run prod.case sum.case by blast
  have g': "g1 = g'" "s1 = s'" using auto_compact_adopted [OF b(3), of s1] b(1) quiet by auto
  have gen: "im_gen im' \<le> im_gen im + 1"
    using im' next_gen_le by (fastforce simp: committed_image_def appended_image_def im_gen_def commit_all_def with_record_def)
  have len: "im_base im' + length (im_records im') = Suc (im_base im + length (im_records im))"
    using im' by (auto simp: committed_image_def appended_image_def commit_all_def with_record_def)
  have "room_for n (unat (wt_seq (st_writer g1))) im'"
    by (rule room_for_step [OF room gen]) (use attached_state(3) [OF att] attached_state(3) [OF b(2)] len in simp)
  then have "tracks pl n (logged im') (running g' s' b)" using b(2,4) safe g' by auto
  moreover have "ledger_step (logged im) (Applied ops ?every) (logged im')"
    using im'
  proof (elim disjE conjE)
    assume "committed_image ?r im im'"
    from committed_ledger(1) [OF ok seq this] show ?thesis by (simp add: ledger_applied)
  next
    assume "appended_image ?r im im'" and "\<not> ?every"
    with appended_ledger [OF ok this(1)] show ?thesis by (simp add: ledger_applied)
  qed
  ultimately show ?thesis by blast
qed

lemma apply_stopped_tracks:
  assumes att: "attached pl im g s" and room: "room_for (Suc n) (unat (wt_seq (st_writer g))) im" and safe: "b \<longrightarrow> power_safe pl im s"
    and tears: "tears_seen pl s" and run: "apply_batch pl ops exp (g, s) = (Inl e, (g', s'))" and stop: "stops b s' t b'"
  shows "\<exists>L. ledger_step (logged im) (Stopped_in_apply ops) L \<and> tracks pl n L (stopped t b')"
proof -
  let ?r = "\<lparr>wr_seq = wt_seq (st_writer g) + 1, wr_ops = ops\<rparr>"
  note r = room_forD [OF room]
  have over: "wt_seq (st_writer g) + 1 \<noteq> 0" by (rule r(3)) simp
  have ok: "image_ok im" and td: "tears_detected pl im s" using att tears by (simp_all add: attached_def tears_seen_def)
  obtain F E where start: "restart pl im s F E s' t" by (rule stops_restart [OF stop safe])
  note a = apply_stopped [OF att r(1) td over run start]
  obtain x where x: "on_disk pl x t" "batch_left ?r im x" using a(2) by blast
  note c = batch_left_cases [OF x(2) ok a(1)] and len = image_lengths [OF ok] and seq = attached_state(3) [OF att]
  have okx: "image_ok x" using c by blast
  have "same_store im x \<and> im_commit x = im_commit im \<or> committed_image ?r im x" using c by blast
  then show ?thesis
  proof
    assume s: "same_store im x \<and> im_commit x = im_commit im"
    have "room_for n (im_hw x) x"
      by (rule room_for_step [OF room]) (use s len(4) seq in \<open>simp_all add: im_gen_def same_store_def\<close>)
    then show ?thesis
      using stops_tracks [OF stop x(1) okx] recovered_same [of im x] s recovered_logged [OF ok] ledger_apply_lost [of "logged im" ops] by auto
  next
    assume k: "committed_image ?r im x"
    have "im_gen x \<le> im_gen im + 1" using k next_gen_le by (fastforce simp: committed_image_def im_gen_def commit_all_def)
    then have "room_for n (im_hw x) x"
      by (rule room_for_step [OF room]) (use committed_image_ok(2) [OF ok a(1) k] seq in simp)
    then show ?thesis
      using stops_tracks [OF stop x(1) okx] committed_ledger [OF ok a(1) k] ledger_apply_kept [of "logged im" ops] by auto
  qed
qed

lemma flushed_ledger:
  assumes ok: "image_ok im" and seq: "unat q = im_base im + length (im_records im)" and f: "flushed_by n im q"
  shows "logged (commit_all n im) = settled_all (logged im)" and "recovered (commit_all n im) = settled_all (logged im)"
    and "im_gen (commit_all n im) \<le> im_gen im + 1"
proof -
  have ok': "image_ok (commit_all n im)" and hw: "im_hw (commit_all n im) = im_base im + length (im_records im)"
    using f seq by (simp_all add: flushed_by_def)
  have all: "all_batches (commit_all n im) = all_batches im" by (simp add: all_batches_def)
  show l: "logged (commit_all n im) = settled_all (logged im)"
    using image_lengths(1) [OF ok] all hw by (simp add: logged_def settled_all_def)
  have "im_base im + length (im_records im) - im_snap im = length (all_batches im)" by (rule image_lengths(1) [OF ok, symmetric])
  then show "recovered (commit_all n im) = settled_all (logged im)"
    unfolding recovered_logged [OF ok'] l by (simp add: cut_back_def settled_all_def logged_def)
  show "im_gen (commit_all n im) \<le> im_gen im + 1" using f next_gen_le [of n "im_commit im"] by (simp add: flushed_by_def im_gen_def)
qed

lemma flushed_tracks:
  assumes att: "attached pl im g s" and room: "room_for (Suc n) (unat (wt_seq (st_writer g))) im" and safe: "b \<longrightarrow> power_safe pl im s"
    and tears: "tears_seen pl s" and run: "flush pl (g, s) = (Inr (), (g', s'))"
  shows "\<exists>L. ledger_step (logged im) Flushed L \<and> tracks pl n L (running g' s' b)"
proof -
  have ok: "image_ok im" and t: "tears_detected pl im s" using att tears by (simp_all add: attached_def tears_seen_def)
  obtain k where k: "attached pl (commit_all k im) g' s'" "flushed_by k im (wt_seq (st_writer g))"
      "power_safe pl im s \<longrightarrow> synced (commit_all k im) s'"
    using flush_runs [OF att room_forD(1) [OF room] t] run by (auto simp: runs_def)
  note f = flushed_ledger [OF ok attached_state(3) [OF att] k(2)]
  have "room_for n (unat (wt_seq (st_writer g'))) (commit_all k im)"
    by (rule room_for_step [OF room f(3)]) (use attached_state(3) [OF att] attached_state(3) [OF k(1)] in simp)
  moreover have "power_safe pl (commit_all k im) s'" if b
    using k(1,3) safe that synced_power_safe by (auto simp: attached_def)
  ultimately have "tracks pl n (logged (commit_all k im)) (running g' s' b)" using k(1) by auto
  then show ?thesis using ledger_flushed f(1) by metis
qed

lemma flush_stopped_tracks:
  assumes att: "attached pl im g s" and room: "room_for (Suc n) (unat (wt_seq (st_writer g))) im" and safe: "b \<longrightarrow> power_safe pl im s"
    and tears: "tears_seen pl s" and run: "flush pl (g, s) = (Inl e, (g', s'))" and stop: "stops b s' t b'"
  shows "\<exists>L. ledger_step (logged im) Stopped_in_flush L \<and> tracks pl n L (stopped t b')"
proof -
  have ok: "image_ok im" and td: "tears_detected pl im s" using att tears by (simp_all add: attached_def tears_seen_def)
  obtain F E where start: "restart pl im s F E s' t" by (rule stops_restart [OF stop safe])
  obtain x where x: "on_disk pl x t" "shortened im x \<or> (\<exists>k. x = commit_all k im \<and> flushed_by k im (wt_seq (st_writer g)))"
    using flush_stopped [OF att room_forD(1) [OF room] td run start] by blast
  note len = image_lengths [OF ok] and seq = attached_state(3) [OF att]
  from x(2) show ?thesis
  proof (elim disjE exE conjE)
    assume "shortened im x"
    note s = shortened_image [OF this ok]
    have "room_for n (im_hw x) x"
      by (rule room_for_step [OF room]) (use s len(4) seq in \<open>simp_all add: im_gen_def same_store_def\<close>)
    then show ?thesis
      using stops_tracks [OF stop x(1) s(1)] recovered_same [OF s(2)] recovered_logged [OF ok] ledger_flush_lost [of "logged im"] by auto
  next
    fix k assume k: "x = commit_all k im" "flushed_by k im (wt_seq (st_writer g))"
    note f = flushed_ledger [OF ok seq k(2)]
    have okx: "image_ok x" using k by (simp add: flushed_by_def)
    have "room_for n (im_hw x) x"
      by (rule room_for_step [OF room]) (use f(3) k in \<open>simp_all add: flushed_by_def\<close>)
    then show ?thesis using stops_tracks [OF stop x(1) okx] f(2) k(1) ledger_flush_kept [of "logged im"] by auto
  qed
qed

text \<open>Compaction.\<close>

lemma refold_ledger:
  assumes pl: "platform_ok pl" and att: "attached pl im g s" and f: "foldable pl g" and x: "refold pl (fold_graph pl (st_writer g)) im x"
  shows "folds (logged im) (recovered x)"
proof -
  let ?A = "as_accessor (x_graph pl) (gs_base (st_state g))"
  note st = attached_state(1) [OF att, unfolded has_state_def] and fold = fold_graph_ok [OF pl att f]
  have ok: "image_ok im" "image_ok x" using att x by (simp_all add: attached_def refold_def)
  have hw: "im_hw x = im_base im + length (im_records im)" "im_batches x = []" using x by (simp_all add: refold_def)
  have snap: "im_snap x = im_hw x" using image_lengths(2,3) [OF ok(2)] hw(2) by simp
  have acc: "accessor_ok ?A (im_nodes im) (im_edges im)" using base_view.view st by metis
  have "im_edges x = delta_edges (im_edges im) (replay_all ?A (all_batches im) delta_new)"
    using x fold(3) st by (simp add: refold_def graph_edges_def)
  moreover have "map_option (\<lambda>v. v\<lparr>nv_pagerank_weight := f32_zero\<rparr>) (im_nodes x n) =
      map_option (\<lambda>v. v\<lparr>nv_pagerank_weight := f32_zero\<rparr>) (delta_nodes ?A (replay_all ?A (all_batches im) delta_new) n)" for n
    using x fold(4) [of n] st by (simp add: refold_def graph_nodes_def)
  moreover have "im_snap x = im_snap im + length (all_batches im)" using image_lengths(1,3,4) [OF ok(1)] snap hw(1) by simp
  ultimately show ?thesis using acc snap hw(2) unfolding folds_def by (auto simp: logged_def recovered_def)
qed

lemma compacted_tracks:
  assumes pl: "platform_ok pl" "no_zero_checksum pl" and att: "attached pl im g s"
    and room: "room_for (Suc n) (unat (wt_seq (st_writer g))) im" and safe: "b \<longrightarrow> power_safe pl im s"
    and tears: "tears_seen pl s" and up: "caught_up g" and f: "foldable pl g" and run: "compact pl (g, s) = (Inr (), (g', s'))"
  shows "\<exists>L. ledger_step (logged im) Compacted L \<and> tracks pl n L (running g' s' b)"
proof -
  have t: "tears_detected pl im s" and run': "compact_locked pl (g, s) = (Inr (), (g', s'))"
    using att tears run by (simp_all add: attached_def tears_seen_def compact_def)
  obtain x where x: "attached pl x g' s'" "store_seq g' = store_seq g" "synced im s \<longrightarrow> synced x s'"
    and c: "x = im \<or> refold pl (fold_graph pl (st_writer g)) im x \<and> caught_up g'"
    using compact_locked_runs [OF pl att f room_forD(1) [OF room] t] unfolding runs_def run' prod.case sum.case by blast
  have seq: "wt_seq (st_writer g') = wt_seq (st_writer g)"
    using x(1,2) att by (auto simp: attached_def store_inv_def published_iff store_seq_def)
  have "im_gen x \<le> im_gen im + 1" using c by (auto simp: refold_def)
  then have "room_for n (unat (wt_seq (st_writer g'))) x" by (rule room_for_step [OF room]) (simp add: seq)
  moreover have "power_safe pl x s'" if b
    using x(1,3) caught_up_synced [OF att up] safe that synced_power_safe by (auto simp: attached_def)
  ultimately have "tracks pl n (logged x) (running g' s' b)" using x(1) by auto
  moreover have "ledger_step (logged im) Compacted (logged x)"
    using c ledger_nothing_to_fold ledger_folded [OF refold_ledger [OF pl(1) att f]] caught_up_logged [OF x(1)] by auto
  ultimately show ?thesis by blast
qed

lemma compact_stopped_tracks:
  assumes pl: "platform_ok pl" "no_zero_checksum pl" and att: "attached pl im g s"
    and room: "room_for (Suc n) (unat (wt_seq (st_writer g))) im" and safe: "b \<longrightarrow> power_safe pl im s"
    and tears: "tears_seen pl s" and up: "caught_up g" and f: "foldable pl g" and run: "compact pl (g, s) = (Inl e, (g', s'))"
    and stop: "stops b s' t b'"
  shows "\<exists>L. ledger_step (logged im) Stopped_in_compact L \<and> tracks pl n L (stopped t b')"
proof -
  have ok: "image_ok im" and td: "tears_detected pl im s" using att tears by (simp_all add: attached_def tears_seen_def)
  obtain F E where start: "restart pl im s F E s' t" by (rule stops_restart [OF stop safe])
  obtain x where x: "on_disk pl x t" "x = im \<or> refold pl (fold_graph pl (st_writer g)) im x"
    using compact_stopped [OF pl att up f room_forD(1) [OF room] td run start] by blast
  note len = image_lengths [OF ok] and seq = attached_state(3) [OF att]
  have okx: "image_ok x" and gen: "im_gen x \<le> im_gen im + 1" and hw: "im_hw x \<le> unat (wt_seq (st_writer g)) + 1"
    using x(2) ok len(4) seq by (auto simp: refold_def)
  have "tracks pl n (recovered x) (stopped t b')" by (rule stops_tracks [OF stop x(1) okx room_for_step [OF room gen hw]])
  moreover have "ledger_step (logged im) Stopped_in_compact (recovered x)"
    using x(2) recovered_logged [OF ok] ledger_fold_lost [of "logged im"] ledger_fold_kept [OF refold_ledger [OF pl(1) att f]] by auto
  ultimately show ?thesis by blast
qed

text \<open>Stops while idle, and recovery.\<close>

lemma idle_tracks:
  assumes att: "attached pl im g s" and room: "room_for (Suc n) (unat (wt_seq (st_writer g))) im" and safe: "b \<longrightarrow> power_safe pl im s"
    and stop: "t = reboot F E s \<or> b \<and> power_cut F E s t"
  shows "tracks pl n (cut_back (logged im)) (stopped t b)"
proof -
  have ok: "image_ok im" and disk: "on_disk pl im s" using att by (simp_all add: attached_def)
  note len = image_lengths [OF ok] and seq = attached_state(3) [OF att]
  have hw: "im_hw im \<le> unat (wt_seq (st_writer g)) + 1" using len(4) seq by simp
  from stop show ?thesis
  proof
    assume "t = reboot F E s"
    then show ?thesis using disk ok safe recovered_logged [OF ok] room_for_step [OF room _ hw, of im] by auto
  next
    assume "b \<and> power_cut F E s t"
    then have t: "stops b s t b" by (auto simp: stops_def)
    obtain F' E' where "restart pl im s F' E' s t" by (rule stops_restart [OF t safe])
    then obtain x where x: "on_disk pl x t" "shortened im x" using restart_idle disk ok by blast
    note s = shortened_image [OF x(2) ok]
    have "room_for n (im_hw x) x" by (rule room_for_step [OF room]) (use s hw in \<open>simp_all add: im_gen_def same_store_def\<close>)
    then show ?thesis using stops_tracks [OF t x(1) s(1)] recovered_same [OF s(2)] recovered_logged [OF ok] by simp
  qed
qed

lemma opened_tracks:
  assumes pl: "platform_ok pl" "no_zero_checksum pl" and disk: "on_disk pl im s" and ok: "image_ok im" and free: "\<not> fs_locked s"
    and room: "room_for (Suc n) (im_hw im) im" and safe: "b \<longrightarrow> power_safe pl im s" and tears: "tears_seen pl s"
    and run: "open_with_vfs pl create mode validate prefault s = (Inr g, s')"
  shows "tracks pl n (recovered im) (running g s' b)"
proof -
  have t: "tears_detected pl im s" using disk tears by (simp add: tears_seen_def)
  obtain x where x: "reattached pl im x g s'" "power_safe pl im s \<longrightarrow> synced x s'"
    using open_runs [OF pl disk ok room_forD(1) [OF room] t free, of create mode validate prefault] run by (auto simp: runs_def)
  have a: "attached pl x g s'" and same: "same_store im x" and gen: "im_gen x \<le> im_gen im + 1" and up: "caught_up g"
    using x(1) by (simp_all add: reattached_def recovers_def)
  have "unat (wt_seq (st_writer g)) = im_hw im" using caught_up_batches(2) [OF a up] same by (simp add: same_store_def)
  then have "room_for n (unat (wt_seq (st_writer g))) x" by (intro room_for_step [OF room gen]) simp
  moreover have "power_safe pl x s'" if b using x(2) a safe that synced_power_safe by (auto simp: attached_def)
  ultimately show ?thesis using a caught_up_logged [OF a up] recovered_same [OF same] by auto
qed

lemma open_stopped_tracks:
  assumes pl: "platform_ok pl" "no_zero_checksum pl" and disk: "on_disk pl im s" and ok: "image_ok im" and free: "\<not> fs_locked s"
    and room: "room_for (Suc n) (im_hw im) im" and safe: "b \<longrightarrow> power_safe pl im s" and tears: "tears_seen pl s"
    and run: "open_with_vfs pl create mode validate prefault s = (Inl e, s')" and stop: "stops b s' t b'"
  shows "tracks pl n (recovered im) (stopped t b')"
proof -
  have td: "tears_detected pl im s" using disk tears by (simp add: tears_seen_def)
  obtain F E where start: "restart pl im s F E s' t" by (rule stops_restart [OF stop safe])
  have h: "holds pl im s'" "power_safe pl im s \<longrightarrow> outlasts pl im s'"
    using open_runs [OF pl disk ok room_forD(1) [OF room] td free, of create mode validate prefault] run by (auto simp: runs_def)
  then obtain y where y: "on_disk pl y s'" "image_ok y \<and> recovers im y" by (auto simp: holds_def)
  obtain x where x: "on_disk pl x t" "image_ok x" "same_store im x" "im_gen x \<le> im_gen im + 1"
    using restart_image [OF start y(1), of "\<lambda>x. image_ok x \<and> recovers im x"] y(2) h(2) by (auto simp: outlasts_def recovers_def)
  have "room_for n (im_hw x) x" by (rule room_for_step [OF room x(4)]) (use x(3) in \<open>simp add: same_store_def\<close>)
  then show ?thesis using stops_tracks [OF stop x(1,2)] recovered_same [OF x(3)] by simp
qed

text \<open>Changes of the knobs.\<close>

lemma knobs_attached:
  "attached pl im g s \<Longrightarrow> attached pl im (set_fsync_policy p g) s \<and> wt_seq (st_writer (set_fsync_policy p g)) = wt_seq (st_writer g)"
  "attached pl im g s \<Longrightarrow> attached pl im (set_auto_compact_threshold k g) s \<and>
     wt_seq (st_writer (set_auto_compact_threshold k g)) = wt_seq (st_writer g)"
  by (auto simp: attached_def store_inv_def published_iff poisoned_def data_ok_def pointers_ok_def wal_at_def
      set_fsync_policy_def set_auto_compact_threshold_def wal_set_policy_def)

lemma session_simulates:
  assumes pl: "platform_ok pl" "no_zero_checksum pl" and rel: "tracks pl (Suc n) L c" and step: "session_step pl c ev d"
  shows "\<exists>L'. ledger_step L ev L' \<and> tracks pl n L' d"
proof -
  have up: "\<exists>im. (b \<longrightarrow> power_safe pl im s) \<and> room_for (Suc n) (unat (wt_seq (st_writer g))) im \<and> attached pl im g s \<and> L = logged im"
    if "c = running g s b" for g s b using rel that by simp
  have down: "\<exists>im. (b \<longrightarrow> power_safe pl im s) \<and> room_for (Suc n) (im_hw im) im \<and> on_disk pl im s \<and> image_ok im \<and> \<not> fs_locked s \<and>
      L = recovered im" if "c = stopped s b" for s b using rel that by simp
  have quiet: "tracks pl n L (running g' s b)"
    if c: "c = running g s b" and same: "\<And>im. attached pl im g s \<Longrightarrow> attached pl im g' s \<and> wt_seq (st_writer g') = wt_seq (st_writer g)"
    for g g' s b
  proof -
    obtain im where im: "b \<longrightarrow> power_safe pl im s" "room_for (Suc n) (unat (wt_seq (st_writer g))) im" "attached pl im g s" "L = logged im"
      using up [OF c] by blast
    have "room_for n (unat (wt_seq (st_writer g))) im" by (rule room_for_step [OF im(2)]) simp_all
    then show ?thesis using im same [OF im(3)] by auto
  qed
  from step show ?thesis
  proof (cases rule: session_step.cases)
    case c: session_applied
    show ?thesis unfolding c(2,3) using up [OF c(1)] applied_tracks [OF _ _ _ c(4-6)] by blast
  next
    case c: (session_refused s ops exp g e g' s' b)
    obtain im where im: "attached pl im g s" "room_for (Suc n) (unat (wt_seq (st_writer g))) im" using up [OF c(1)] by blast
    have t: "tears_detected pl im s" using c(4) im(1) by (simp add: tears_seen_def attached_def)
    have "g' = g" "s' = s"
      using apply_batch_runs [OF im(1) room_forD(1) [OF im(2)] t room_forD(3) [OF im(2) refl], of ops exp] c(5,6)
      by (auto simp: runs_def)
    then show ?thesis using quiet [OF c(1), of g] ledger_quiet unfolding c(2,3) by blast
  next
    case c: session_apply_stopped
    show ?thesis unfolding c(2,3) using up [OF c(1)] apply_stopped_tracks [OF _ _ _ c(4-6)] by blast
  next
    case c: session_flushed
    show ?thesis unfolding c(2,3) using up [OF c(1)] flushed_tracks [OF _ _ _ c(4,5)] by blast
  next
    case c: session_flush_stopped
    show ?thesis unfolding c(2,3) using up [OF c(1)] flush_stopped_tracks [OF _ _ _ c(4-6)] by blast
  next
    case c: session_compacted
    show ?thesis unfolding c(2,3) using up [OF c(1)] compacted_tracks [OF pl _ _ _ c(4-7)] by blast
  next
    case c: session_compact_stopped
    show ?thesis unfolding c(2,3) using up [OF c(1)] compact_stopped_tracks [OF pl _ _ _ c(4-8)] by blast
  next
    case c: (session_policy g s b p)
    show ?thesis unfolding c(2,3) using quiet [OF c(1) knobs_attached(1), of p] ledger_quiet by blast
  next
    case c: (session_threshold g s b k)
    show ?thesis unfolding c(2,3) using quiet [OF c(1) knobs_attached(2), of k] ledger_quiet by blast
  next
    case c: (session_killed g s b F E)
    show ?thesis unfolding c(2,3) using up [OF c(1)] idle_tracks [where t = "reboot F E s" and F = F and E = E] ledger_stopped by blast
  next
    case c: (session_unplugged b F E s t g)
    show ?thesis unfolding c(2,3) using up [OF c(1)] idle_tracks [where t = t and F = F and E = E] c(4,5) ledger_stopped by blast
  next
    case c: session_opened
    show ?thesis unfolding c(2,3) using down [OF c(1)] opened_tracks [OF pl _ _ _ _ _ c(4,5)] ledger_quiet by blast
  next
    case c: session_open_stopped
    show ?thesis unfolding c(2,3) using down [OF c(1)] open_stopped_tracks [OF pl _ _ _ _ _ c(4-6)] ledger_quiet by blast
  qed
qed

section \<open>Every session is a run of the ledger\<close>

text \<open>The law of the interface holds for the store on every platform of the model.\<close>

definition tracks_on :: "'g platform \<Rightarrow> nat \<Rightarrow> ledger \<Rightarrow> 'g session \<Rightarrow> bool" where
  "tracks_on pl n L c \<longleftrightarrow> platform_ok pl \<and> no_zero_checksum pl \<and> tracks pl n L c"

interpretation store: bounded_refinement "session_step pl" ledger_step "tracks_on pl" for pl
  by unfold_locales (use session_simulates in \<open>fastforce simp: tracks_on_def\<close>)

text \<open>The store of a state of the session: the handle's, or the one any undisturbed recovery gives.\<close>

definition presents :: "'g platform \<Rightarrow> ledger \<Rightarrow> 'g session \<Rightarrow> bool" where
  "presents pl L c \<longleftrightarrow>
     (case ss_handle c of
        Some g \<Rightarrow> has_ledger pl L g
      | None \<Rightarrow> calm (ss_fs c) \<longrightarrow> (\<forall>create mode validate prefault.
          \<exists>h s'. open_with_vfs pl create mode validate prefault (ss_fs c) = (Inr h, s') \<and> has_ledger pl L h))"

lemma tracks_presents:
  assumes pl: "platform_ok pl" "no_zero_checksum pl" and rel: "tracks pl 1 L c"
  shows "presents pl L c"
proof (cases "ss_handle c")
  case (Some g)
  then show ?thesis using rel attached_ledger by (auto simp: presents_def tracks_def)
next
  case None
  then obtain im where im: "room_for 1 (im_hw im) im" "on_disk pl im (ss_fs c)" "image_ok im" "\<not> fs_locked (ss_fs c)" "L = recovered im"
    using rel by (auto simp: tracks_def)
  have "\<exists>h s'. open_with_vfs pl create mode validate prefault (ss_fs c) = (Inr h, s') \<and> has_ledger pl L h"
    if calm: "calm (ss_fs c)" for create mode validate prefault
  proof -
    have "gens_left 1 im" using im(1) by (simp add: room_for_def gens_left_def)
    then obtain h s' where h: "open_with_vfs pl create mode validate prefault (ss_fs c) = (Inr h, s')"
      using open_image [OF pl im(2,3) _ calm im(4)] by blast
    have "tracks pl 0 (recovered im) (running h s' False)"
      by (rule opened_tracks [OF pl im(2-4) _ _ _ h]) (use im(1) calm in \<open>simp_all add: tears_seen_def calm_tears\<close>)
    then show ?thesis using h im(5) attached_ledger by auto
  qed
  then show ?thesis using None by (simp add: presents_def)
qed

lemma room_for_mono: "room_for n q im \<Longrightarrow> m \<le> n \<Longrightarrow> room_for m q im"
  by (simp add: room_for_def)

lemma tracks_on_mono: "tracks_on pl n L c \<Longrightarrow> m \<le> n \<Longrightarrow> tracks_on pl m L c"
  unfolding tracks_on_def tracks_def using room_for_mono by (cases "ss_handle c") (simp, blast)+

lemma tracks_on_presents: "tracks_on pl (Suc n) L c \<Longrightarrow> presents pl L c"
  using tracks_on_mono [of pl "Suc n" L c 1] tracks_presents by (auto simp: tracks_on_def)

text \<open>A created store starts the ledger of its graph.\<close>

lemma created_tracks:
  assumes pl: "platform_ok pl" "no_zero_checksum pl" and G: "og_ok (x_graph pl) G" "small_graph (x_graph pl) G"
    and fs: "fs_ok s0" "no_store s0" "\<not> fs_locked s0" and new: "create_with_vfs pl G s0 = (Inr g, s)" and n: "n < 2 ^ 64"
  shows "tracks_on pl n (ledger_new (og_nodes (x_graph pl) G) (og_edges (x_graph pl) G)) (running g s True)"
proof -
  obtain im where im: "attached pl im g s" "fresh_image pl G im" "synced im s"
    using create_runs [OF pl G fs] new by (auto simp: runs_def)
  note f = im(2) [unfolded fresh_image_def]
  have "unat (wt_seq (st_writer g)) = 0" using attached_state(3) [OF im(1)] f by simp
  then have "room_for n (unat (wt_seq (st_writer g))) im" using f n by (simp add: room_for_def im_gen_def)
  moreover have "power_safe pl im s" by (rule synced_power_safe [OF im(3)]) (use im(1) in \<open>simp add: attached_def\<close>)
  moreover have "logged im = ledger_new (og_nodes (x_graph pl) G) (og_edges (x_graph pl) G)"
    using f by (simp add: logged_def ledger_new_def all_batches_def)
  ultimately show ?thesis using pl im(1) by (auto simp: tracks_on_def)
qed

lemma session_runs:
  assumes "tracks_on pl (length es + 1) L c" and "run (session_step pl) c es d"
  shows "\<exists>K. run ledger_step L es K \<and> presents pl K d"
  using store.run_simulates [OF assms(2,1)] tracks_on_presents by (metis One_nat_def)

section \<open>What the ledger promises\<close>

text \<open>Between compactions the durable batches stay, in order, and only more become durable.\<close>

definition folding :: "event \<Rightarrow> bool" where
  "folding ev \<longleftrightarrow> ev = Compacted \<or> ev = Stopped_in_compact"

definition ledger_ok :: "ledger \<Rightarrow> bool" where
  "ledger_ok L \<longleftrightarrow> ld_durable L \<le> length (ld_batches L)"

lemma ledger_step_keeps:
  assumes "ledger_step L ev L'" and "ledger_ok L"
  shows "ledger_ok L'" and "\<not> folding ev \<Longrightarrow> ld_durable L \<le> ld_durable L' \<and> take (ld_durable L) (ld_batches L') = take (ld_durable L) (ld_batches L)"
  using assms by (auto simp: ledger_ok_def folding_def cut_back_def grown_def settled_all_def folds_def elim!: ledger_step.cases)

lemma ledger_run_keeps:
  "run ledger_step L es L' \<Longrightarrow> ledger_ok L \<Longrightarrow>
   ledger_ok L' \<and> ((\<forall>ev \<in> set es. \<not> folding ev) \<longrightarrow>
     ld_durable L \<le> ld_durable L' \<and> take (ld_durable L) (ld_batches L') = take (ld_durable L) (ld_batches L))"
proof (induction rule: run.induct)
  case (run_stop L)
  then show ?case by simp
next
  case (run_step L ev K es L')
  note k = ledger_step_keeps [OF run_step.hyps(1) run_step.prems]
  show ?case
  proof (intro conjI impI)
    show "ledger_ok L'" using run_step.IH k(1) by simp
    assume "\<forall>e \<in> set (ev # es). \<not> folding e"
    then have a: "ld_durable L \<le> ld_durable K" "take (ld_durable L) (ld_batches K) = take (ld_durable L) (ld_batches L)"
      and b: "ld_durable K \<le> ld_durable L'" "take (ld_durable K) (ld_batches L') = take (ld_durable K) (ld_batches K)"
      using k(2) run_step.IH [OF k(1)] by simp_all
    have "take (ld_durable L) (ld_batches L') = take (ld_durable L) (take (ld_durable K) (ld_batches L'))" using a(1) by (simp add: min_absorb1)
    also have "\<dots> = take (ld_durable L) (ld_batches K)" using a(1) by (simp add: b(2) min_absorb1)
    finally show "take (ld_durable L) (ld_batches L') = take (ld_durable L) (ld_batches L)" using a(2) by simp
    show "ld_durable L \<le> ld_durable L'" using a(1) b(1) by simp
  qed
qed

text \<open>A batch acknowledged under \<open>EveryBatch\<close> stays, after everything before it.\<close>

lemma session_keeps:
  assumes rel: "tracks_on pl (length es + length fs + 2) L0 a" and ok: "ledger_ok L0" and before: "run (session_step pl) a es c"
    and ack: "session_step pl c (Applied ops True) d" and after: "run (session_step pl) d fs e"
    and plain: "\<forall>ev \<in> set fs. \<not> folding ev"
  shows "\<exists>K L. run ledger_step L0 es K \<and> presents pl K c \<and> presents pl L e \<and>
    take (Suc (length (ld_batches K))) (ld_batches L) = ld_batches K @ [ops] \<and> length (ld_batches K) < ld_durable L"
proof -
  have rel': "tracks_on pl (length es + Suc (length fs + 1)) L0 a" using rel by (simp add: add.assoc)
  obtain K where K: "run ledger_step L0 es K" "tracks_on pl (Suc (length fs + 1)) K c" using store.run_simulates [OF before rel'] by blast
  obtain M where M: "ledger_step K (Applied ops True) M" "tracks_on pl (length fs + 1) M d" using store.simulates [OF K(2) ack] by blast
  obtain L where L: "run ledger_step M fs L" "presents pl L e" using session_runs [OF M(2) after] by blast
  have "ledger_ok K" using ledger_run_keeps [OF K(1) ok] by blast
  then have "ledger_ok M" and m: "M = grown ops (Suc (length (ld_batches K))) K"
    using M(1) ledger_step_keeps(1) [OF M(1)] by (auto elim: ledger_step.cases)
  with ledger_run_keeps [OF L(1)] plain have
    "Suc (length (ld_batches K)) \<le> ld_durable L \<and> take (Suc (length (ld_batches K))) (ld_batches L) = ld_batches K @ [ops]"
    by (simp add: grown_def)
  then show ?thesis using K(1) L(2) tracks_on_presents [OF K(2)] Suc_le_lessD by blast
qed

end
