(* ===== verification/OG_Session_Examples.thy ===== *)
theory OG_Session_Examples
  imports OG_Session OG_Store_Examples
begin

text \<open>
  A session of the example store: it is created, its process is killed and the store reopened, a batch is
  acknowledged under \<open>EveryBatch\<close>, and the power fails.
\<close>

lemma ex_reopened:
  obtains g s h s' im where "create_with_vfs ex_platform ex_graph ex_empty_fs = (Inr g, s)"
    and "open_with_vfs ex_platform False OwnedMode Crc False (reboot (\<lambda>_. Pass) ex_entropy s) = (Inr h, s')"
    and "attached ex_platform im h s'" and "gens_left 1 im" and "calm s'" and "wt_seq (st_writer h) = 0" and "gs_delta (st_state h) = delta_new"
proof -
  let ?t = "reboot (\<lambda>_. Pass) ex_entropy"
  obtain g s where new: "create_with_vfs ex_platform ex_graph ex_empty_fs = (Inr g, s)" using ex_create by blast
  have "og_ok (x_graph ex_platform) ex_graph" "small_graph (x_graph ex_platform) ex_graph" using ex_graph_ok ex_graph_small by simp_all
  from create_runs [OF ex_platform_ok ex_no_zero_checksum this ex_empty_fs(1-3)]
  obtain im where im: "attached ex_platform im g s" "fresh_image ex_platform ex_graph im"
    using new by (auto simp: runs_def)
  note f = im(2) [unfolded fresh_image_def]
  have disk: "on_disk ex_platform im (?t s)" and ok: "image_ok im" using im(1) by (simp_all add: attached_def)
  have gen: "gens_left 1 im" using f by (simp add: gens_left_def im_gen_def)
  have free: "\<not> fs_locked (?t s)" by simp
  obtain h s' where open1: "open_with_vfs ex_platform False OwnedMode Crc False (?t s) = (Inr h, s')"
    using open_image [OF ex_platform_ok ex_no_zero_checksum disk ok gen ex_calm(2) free] by blast
  obtain x where x: "reattached ex_platform im x h s'" and calm: "calm s'"
    using open_runs [OF ex_platform_ok ex_no_zero_checksum disk ok gens_left_room [OF gen] calm_tears [OF ex_calm(2)] free, of False OwnedMode Crc False]
      open1 ex_calm(2) by (auto simp: runs_def)
  have a: "attached ex_platform x h s'" and r: "recovers im x" using x by (simp_all add: reattached_def)
  have room: "gens_left 1 x" using r f by (simp add: recovers_def gens_left_def im_gen_def)
  have st: "has_state ex_platform im [] 0 h" using reattached_state(1) [OF x] f by (simp add: im_batches_def)
  have "wt_seq (st_writer h) = store_seq h" using a by (auto simp: attached_def store_inv_def published_iff store_seq_def)
  then have "wt_seq (st_writer h) = 0" "gs_delta (st_state h) = delta_new"
    using st by (simp_all add: has_state_def replay_all_def unat_eq_0)
  then show ?thesis using that [OF new open1 a room calm] by blast
qed

lemma ex_session:
  obtains g s c where "create_with_vfs ex_platform ex_graph ex_empty_fs = (Inr g, s)" and "ss_handle c = None" and "calm (ss_fs c)"
    and "run (session_step ex_platform) (running g s True) [Stopped, Quiet, Quiet, Quiet, Applied ex_batch True, Stopped] c"
proof -
  obtain g s h s' im where new: "create_with_vfs ex_platform ex_graph ex_empty_fs = (Inr g, s)"
    and op: "open_with_vfs ex_platform False OwnedMode Crc False (reboot (\<lambda>_. Pass) ex_entropy s) = (Inr h, s')"
    and h: "attached ex_platform im h s'" "gens_left 1 im" "calm s'" "wt_seq (st_writer h) = 0" "gs_delta (st_state h) = delta_new"
    by (rule ex_reopened)
  define h1 where "h1 = set_fsync_policy EveryBatch h"
  define k where "k = wt_delta_ops (st_writer h1) + length ex_batch"
  define h2 where "h2 = set_auto_compact_threshold (Some k) h1"
  note knobs = h1_def h2_def set_fsync_policy_def set_auto_compact_threshold_def wal_set_policy_def
  have h2: "attached ex_platform im h2 s'" unfolding h2_def h1_def using knobs_attached h(1) by blast
  have w: "wt_seq (st_writer h2) = 0" "gs_delta (st_state h2) = delta_new" "ww_policy (wt_wal (st_writer h2)) = EveryBatch"
    using h(4,5) by (simp_all add: knobs)
  have quiet: "\<not> compacts ex_platform ex_batch h2" by (simp add: compacts_def compact_threshold_def knobs k_def)
  obtain d frame where d: "delta_apply (as_accessor list_digraph (gs_base (st_state h2))) ex_batch delta_new = (Inr (), d)"
    and frame: "encode_frame ex_crc (\<lambda>r. Some (enc_wal r)) \<lparr>wr_seq = 1, wr_ops = ex_batch\<rparr> = Inr frame"
    using ex_batch_valid ex_batch_encodes by metis
  have over: "wt_seq (st_writer h2) + 1 \<noteq> 0" using w(1) by simp
  obtain q h3 s3 where app: "apply_batch ex_platform ex_batch None (h2, s') = (Inr q, (h3, s3))"
    using apply_accepts [OF h2 gens_left_room [OF h(2)] h(3) over, of None ex_batch d frame] d frame w(1,2) by auto
  have t: "tears_seen ex_platform x" if "calm x" for x using that by (simp add: tears_seen_def calm_tears)
  have "\<exists>im'. attached ex_platform im' h3 s3"
    using attached_after_apply [OF h2 _ calm_tears [OF h(3)] over quiet app, of 0] h(2) by auto
  then have fs: "fs_ok s3" by (auto simp: attached_def on_disk_def)
  let ?c = "stopped (lose_unsynced (\<lambda>_. Pass) ex_entropy s3) True"
  have "session_step ex_platform (running g s True) Stopped (stopped (reboot (\<lambda>_. Pass) ex_entropy s) True)" by (rule session_killed)
  moreover have "session_step ex_platform (stopped (reboot (\<lambda>_. Pass) ex_entropy s) True) Quiet (running h s' True)"
    by (rule session_opened [OF t [OF ex_calm(2)] op])
  moreover have "session_step ex_platform (running h s' True) Quiet (running h1 s' True)" unfolding h1_def by (rule session_policy)
  moreover have "session_step ex_platform (running h1 s' True) Quiet (running h2 s' True)" unfolding h2_def by (rule session_threshold)
  moreover have "session_step ex_platform (running h2 s' True) (Applied ex_batch True) (running h3 s3 True)"
    using session_applied [OF t [OF h(3)] quiet app, of True] w(3) by simp
  moreover have "session_step ex_platform (running h3 s3 True) Stopped ?c" by (rule session_unplugged [OF _ lose_unsynced_cut [OF fs]]) simp
  ultimately have "run (session_step ex_platform) (running g s True) [Stopped, Quiet, Quiet, Quiet, Applied ex_batch True, Stopped] ?c"
    by (meson run.intros)
  then show ?thesis using that [OF new, of ?c] ex_calm_cut by simp
qed

lemma ex_session_parts:
  obtains g s c d e where "create_with_vfs ex_platform ex_graph ex_empty_fs = (Inr g, s)"
    and "run (session_step ex_platform) (running g s True) [Stopped, Quiet, Quiet, Quiet] c" and "session_step ex_platform c (Applied ex_batch True) d"
    and "run (session_step ex_platform) d [Stopped] e"
proof -
  obtain g s e where new: "create_with_vfs ex_platform ex_graph ex_empty_fs = (Inr g, s)"
    and run: "run (session_step ex_platform) (running g s True) ([Stopped, Quiet, Quiet, Quiet] @ [Applied ex_batch True, Stopped]) e"
    using ex_session by (metis append_Cons append_Nil)
  from run_appendE [OF run] obtain c where c: "run (session_step ex_platform) (running g s True) [Stopped, Quiet, Quiet, Quiet] c"
    "run (session_step ex_platform) c [Applied ex_batch True, Stopped] e" by blast
  from run_ConsE [OF c(2)] obtain d where "session_step ex_platform c (Applied ex_batch True) d" "run (session_step ex_platform) d [Stopped] e" by blast
  then show ?thesis using that new c(1) by blast
qed

text \<open>The only run of the ledger with these events keeps the batch.\<close>

lemma ex_ledger:
  assumes "run ledger_step (ledger_new N E) [Stopped, Quiet, Quiet, Quiet, Applied ops True, Stopped] L"
  shows "ld_batches L = [ops]" and "ld_durable L = 1"
  using assms by (auto elim!: run_ConsE run_NilE ledger_step.cases simp: cut_back_def grown_def ledger_new_def)

end
