(* ===== verification/Spec2Isabelle.thy ===== *)
theory Spec2Isabelle
  imports OG_Subgraph OG_Python_Examples OG_Session_Examples
begin

text \<open>
  Verification of orpheusgraph: a weighted knowledge graph with context-aware traversal, an immutable
  memory-mapped base, a mutable delta and a crash-safe persistent store, with Python bindings.

  \<^bold>\<open>The program and its parts.\<close> An immutable base graph is built once (\<open>src/builder.rs\<close>), stored as a CSR snapshot
  (\<open>src/persist/snapshot.rs\<close>, the older flat archive in \<open>src/serialization.rs\<close>) and read through the trait
  \<open>GraphAccessor\<close> (\<open>src/accessor.rs\<close>). Changes go to a delta over it (\<open>src/delta.rs\<close>), whose \<open>DeltaAccessor\<close> is again
  a \<open>GraphAccessor\<close>; the four traversals (\<open>src/traversal.rs\<close>, with the scoring of \<open>src/scoring.rs\<close> and the
  per-request overlay of \<open>src/overlay.rs\<close>) run over any accessor. \<open>PersistentGraph\<close> (\<open>src/persist/mod.rs\<close>) keeps base and
  delta durable: a batch is framed and appended to a write-ahead log (\<open>wal.rs\<close>), committed by advancing a two-slot
  marker (\<open>commit.rs\<close>), and folded into a new snapshot by compaction, named by a MANIFEST (\<open>manifest.rs\<close>);
  \<open>open\<close> recovers from whatever a crash left. All file access goes through one seam (\<open>vfs.rs\<close>) under a directory lock
  (\<open>lock.rs\<close>). \<open>src/pybridge.rs\<close> exposes all of it to Python.

  \<^bold>\<open>Theories and code.\<close>
  \<^item> \<open>OG_Prelude\<close>: collections, the error monad, hash iteration order as a parameter (\<open>hash_order\<close>: a permutation).
  \<^item> \<open>OG_F32\<close>, \<open>OG_F32_Facts\<close>: IEEE single precision, bit-exact (a value is its 32-bit pattern, an operation is the
    exact result rounded to nearest even), with the monotonicity facts the searches rely on.
  \<^item> \<open>OG_Types\<close> (\<open>types.rs\<close>), \<open>OG_Accessor\<close> (\<open>accessor.rs\<close>), \<open>OG_Scoring\<close> (\<open>scoring.rs\<close>), \<open>OG_Overlay\<close> (\<open>overlay.rs\<close>):
    the data model, the read interface as a record of functions, node scores, visibility of edges in time and by
    principal, the overlay index and the expansion of a node.
  \<^item> \<open>OG_Traversal\<close> (\<open>traversal.rs\<close>: \<open>beam_traverse\<close>, \<open>find_path\<close>, \<open>contextual_subgraph\<close>, \<open>multi_beam_intersection\<close>);
    \<open>OG_Beam\<close>, \<open>OG_Dijkstra\<close>, \<open>OG_Subgraph\<close>: their results.
  \<^item> \<open>OG_Graph\<close> (\<open>graph.rs\<close> and its accessor), \<open>OG_Builder\<close> (\<open>builder.rs\<close>: deduplication, normalisation, PageRank),
    \<open>OG_Serialization\<close> (\<open>serialization.rs\<close>).
  \<^item> \<open>OG_Delta\<close> (\<open>delta.rs\<close>); \<open>OG_Delta_Inv\<close>, \<open>OG_Delta_View\<close>, \<open>OG_Delta_Apply\<close>: its invariant, its merged view, the
    two-pass \<open>apply\<close> against a sequential specification; \<open>OG_Compact\<close>: \<open>materialize\<close> followed by the builder.
  \<^item> \<open>OG_Snapshot\<close> (\<open>persist/snapshot.rs\<close>: writer, validation sweep, mapped view, name index); \<open>OG_Name_Index\<close>,
    \<open>OG_Csr_View\<close>, \<open>OG_Csr_Write\<close>: what the probe finds, what validation guarantees, what the writer produces;
    \<open>OG_Base\<close>: the two representations of the base and \<open>open_snapshot\<close>.
  \<^item> \<open>OG_Error\<close> (\<open>persist/error.rs\<close>), \<open>OG_Vfs\<close> (\<open>vfs.rs\<close>, \<open>lock.rs\<close> and the \<open>std::fs\<close> calls), \<open>OG_Wal\<close> (\<open>wal.rs\<close>),
    \<open>OG_Commit\<close> (\<open>commit.rs\<close>), \<open>OG_Manifest\<close> (\<open>manifest.rs\<close>).
  \<^item> \<open>OG_Store\<close> (\<open>persist/mod.rs\<close>: \<open>create\<close>, recovery and \<open>open\<close>), \<open>OG_Store_Ops\<close> (\<open>apply\<close>, \<open>compact\<close>, \<open>flush\<close>, \<open>close\<close>,
    policies and accessors); \<open>OG_Store_Facts\<close>, \<open>OG_Store_History\<close>: the handle under any fault, and histories of it.
  \<^item> \<open>OG_Disk\<close>, \<open>OG_Disk_Log\<close>, \<open>OG_Snapshot_Files\<close>: what each composite write leaves in the files, on success and on
    every failure; \<open>OG_Recovery\<close>, \<open>OG_Reopen\<close>, \<open>OG_Open\<close>, \<open>OG_Create\<close>, \<open>OG_Durable\<close>, \<open>OG_Crash\<close>, \<open>OG_Compact_Disk\<close>: the images
    of a store on disk, and every operation as a step between images. \<open>OG_Stable\<close>: stable storage, what a power cut leaves, and
    what each composite write makes stable; \<open>OG_Power\<close>: power safety as an invariant of handles; \<open>OG_Session\<close>:
    sessions of operations, crashes, power losses and recoveries, as a refinement of an abstract ledger of batches.
  \<^item> \<open>OG_Python_Args\<close>, \<open>OG_Python\<close>, \<open>OG_Python_Store\<close> (\<open>src/pybridge.rs\<close>): argument conversion, the in-memory class,
    the persistent class and its histories.
  \<^item> \<open>OG_Codec\<close>, \<open>OG_Platform\<close>, \<open>OG_Examples\<close>, \<open>OG_Store_Examples\<close>, \<open>OG_Session_Examples\<close>, \<open>OG_Python_Examples\<close>: concrete encoders, a concrete
    platform and concrete stores, at which the hypotheses of the theorems hold.

  \<^bold>\<open>State and effects.\<close> A fallible operation returns a sum, \<open>Inl\<close> the error. An operation of the store maps the state to a
  result and the new state, also on error, so that what a failed call leaves behind is visible. The state \<open>fs\<close> of
  \<open>OG_Vfs\<close> has the directory, the contents of the files, the open descriptors, the lock and a clock; the fault oracle
  \<open>fs_faults\<close> decides for each call of the file system whether it passes or fails after part of its effect (a write may
  leave any prefix). A crash is a fault after which nothing more runs: \<open>reboot\<close> keeps the files, frees the lock and
  starts a new environment. The state also has what is on stable storage (\<open>fs_disk\<close>, \<open>fs_dir_disk\<close>), which only \<open>fsync\<close> of a
  file and \<open>fsync\<close> of the directory bring up to date. A power loss (\<open>power_cut\<close>, the model of
  \<open>tests/powerloss_harness.rs\<close>) leaves for each name its stable or its current entry, and for each file its stable contents, its
  current ones, or a prefix of the current ones over the stable ones. A store is \<open>power_safe\<close> when MANIFEST, snapshot, marker and the
  committed part of the log are stable; \<open>restart\<close> is either kind of restart, the second for stores that were power safe
  when the last operation began. A \<open>PersistentGraph\<close> is the record \<open>persistent_graph\<close> of the published \<open>GraphState\<close> and the
  writer behind the mutex; every operation runs under that mutex and is one step.

  \<^bold>\<open>Contracts.\<close> The locale \<open>graph_view\<close> is the contract of an accessor: its five methods agree with one node map and one
  edge multiset. It is interpreted by the owned graph (\<open>owned_view\<close>), the flat archive (\<open>archived_view\<close>), the mapped
  CSR (\<open>csr_view\<close>), either base (\<open>base_view\<close>) and the delta over any correct base (\<open>delta_view\<close>); what is proved of the
  traversals from \<open>accessor_ok\<close> holds for all of them. An \<open>image\<close> is the abstract state of a directory: the graph of the
  snapshot, the records of the log, the marker; \<open>on_disk\<close> relates it to files and \<open>attached\<close> to a handle as well. The locale
  \<open>bounded_refinement\<close> turns a simulation of single steps into one of runs; its interpretation \<open>store\<close> relates sessions of
  the store (\<open>session_step\<close>) to the ledger (\<open>ledger_step\<close>) by \<open>tracks\<close>, which goes through the image.

  \<^bold>\<open>What is shown.\<close> Crashes and power losses: every session of a created store is a run of
  the ledger, in which acknowledged batches stay; an acknowledged batch survives also when it triggers a compaction, an interrupted one is recovered whole or not at all,
  compaction, recovery and \<open>create\<close> can be cut anywhere and lose nothing, recovery makes progress, no leftovers stay, and a
  store that is power safe stays so. The
  handle: the contract of \<open>apply\<close>, the invariant of all histories, the discipline of the lock. The delta: equivalence of
  \<open>apply\<close> with its sequential specification, correctness of the merged view and of the incremental counters, fidelity of
  the fold. Traversals: dependence on the logical graph only, equivalence of filtering with searching a filtered graph,
  completeness, optimal paths in rounded arithmetic, termination. Snapshots: soundness of full validation against
  hostile bytes, validity and determinism of what the writer produces, the name index, round trips. The log, the
  marker, the MANIFEST: round trips and what is read after torn writes. Python: checked arguments, durability, refinement.

  \<^bold>\<open>Bounds and fuel.\<close> Machine integers keep their width (\<open>u32\<close> positions and node indices, \<open>u64\<close> sequence numbers and
  generations, \<open>u128\<close> epochs). \<open>dg_limit\<close> is petgraph's limit of \<open>2^32 - 1\<close> nodes and edges. Sequence numbers and marker
  generations are assumed not to reach \<open>2^64\<close> (\<open>wt_seq + 1 \<noteq> 0\<close>, \<open>gens_left\<close>). The only fuel is that of \<open>find_path\<close>;
  \<open>search_size\<close>, a function of the graph, is proved to be enough.

  \<^bold>\<open>Parameters.\<close> Code outside the repository is an argument: petgraph's \<open>DiGraph\<close> (\<open>digraph_laws\<close>), the rkyv, postcard and
  JSON encodings (\<open>codec_ok\<close>, \<open>wal_codec_ok\<close>, \<open>json_ok\<close>: decoding inverts encoding), crc32 (any function; where a torn
  marker slot has to be told from a whole one, \<open>tears_detected\<close> says so, and \<open>no_zero_checksum\<close> that no MANIFEST gets the
  checksum 0, which the reader refuses), the order of hash iteration, the tie order of the binary heap
  (\<open>heap_pop_ok\<close>) and PyO3's conversions (\<open>py_api\<close>).

  \<^bold>\<open>Not modelled.\<close> \<open>src/lib.rs\<close> has module declarations only. Test code and the \<open>cfg(test)\<close> seams, the texts that
  \<open>Display\<close> and \<open>__repr__\<close> render, messages on standard error, \<open>madvise\<close>, the rayon parallel map of the intersection (a
  pure map) and the release of the GIL have no effect on results and are left out. Readers that hold an older \<open>Arc\<close> of
  the published state see that value unchanged, as values do here. A power loss that scatters unsynced sectors
  out of order, and one that follows a crash of the process in the middle of an operation without a power-safe store in
  between (unsynced pages of the dead process that a reopened handle already read), are outside the fault model.
  Sessions leave out the automatic compaction inside \<open>apply\<close> (its durability is stated for one \<open>apply\<close>) and the use of a handle
  after an operation on it failed with an I/O error.
\<close>

section \<open>Crashes and recovery of the store\<close>



















section \<open>The handle\<close>

text \<open>C10: the contract of \<open>apply\<close>, whatever the file system does: on success the sequence number grew by one, matched the expected
  one if given, the batch was valid, the readers see it (with the base unchanged unless compaction ran) and it is committed
  under \<open>EveryBatch\<close>; on failure the readers' state and the committed sequence number are unchanged, and either nothing
  happened at all or the writer is poisoned, so that every later \<open>apply\<close>, \<open>flush\<close> and \<open>compact\<close> is refused without effect.\<close>

theorem apply_contract:
  assumes "store_inv g" and "wt_seq (st_writer g) + 1 \<noteq> 0" and "apply_batch pl ops exp (g, s) = (r, (g', s'))"
  shows "case r of
      Inr q \<Rightarrow> q = store_seq g + 1 \<and> store_seq g' = q \<and> exp \<in> {None, Some (store_seq g)} \<and> committed_seq g' \<in> {committed_seq g, q} \<and>
        (ww_policy (wt_wal (st_writer g)) = EveryBatch \<longrightarrow> committed_seq g' = q) \<and>
        (\<exists>d. delta_apply (as_accessor (x_graph pl) (gs_base (st_state g))) ops (gs_delta (st_state g)) = (Inr (), d) \<and>
          (wt_delta_ops (st_writer g) + length ops \<le> compact_threshold pl (st_writer g) \<longrightarrow>
             gs_base (st_state g') = gs_base (st_state g) \<and> gs_delta (st_state g') = d))
    | Inl e \<Rightarrow> st_state g' = st_state g \<and> committed_seq g' = committed_seq g \<and>
        (g' = g \<and> s' = s \<or>
         (\<forall>ops exp t. apply_batch pl ops exp (g', t) = (Inl Poisoned, (g', t)) \<and> flush pl (g', t) = (Inl Poisoned, (g', t)) \<and>
            compact pl (g', t) = (Inl Poisoned, (g', t))))"
proof (cases r)
  case (Inl e)
  show ?thesis
    using apply_error [OF assms(3) [unfolded Inl]] poisoned_refuses(1-3) [of g' pl] by (auto simp: Inl)
next
  case (Inr q)
  have seq: "store_seq g = wt_seq (st_writer g)" using assms(1) by (simp add: store_inv_def published_iff store_seq_def)
  show ?thesis
    using apply_ok(2,3,5,7,8,9) [OF assms(3) [unfolded Inr] assms(1,2)] by (simp add: Inr seq)
qed

theorem apply_contract_witness:
  "(\<exists>g s. apply_batch ex_platform ex_batch None (ex_store EveryBatch, ex_fs (\<lambda>_. Pass)) = (Inr 1, (g, s)) \<and>
      store_seq g = 1 \<and> committed_seq g = 1) \<and>
   (\<exists>e g s. apply_batch ex_platform ex_batch None (ex_store EveryBatch, ex_fs (\<lambda>_. FailAfter 9 (OtherIo ''disk full''))) = (Inl e, (g, s)) \<and>
      st_state g = st_state (ex_store EveryBatch) \<and> fst (flush ex_platform (g, s)) = Inl Poisoned)"
proof -
  have inv: "store_inv (ex_store EveryBatch)" using ex_attached by (simp add: attached_def)
  have over: "wt_seq (st_writer (ex_store EveryBatch)) + 1 \<noteq> 0" by (simp add: ex_handle)
  obtain g s where ok: "apply_batch ex_platform ex_batch None (ex_store EveryBatch, ex_fs (\<lambda>_. Pass)) = (Inr 1, (g, s))"
    using ex_apply_accepts by blast
  obtain e h t where bad: "apply_batch ex_platform ex_batch None (ex_store EveryBatch, ex_fs (\<lambda>_. FailAfter 9 (OtherIo ''disk full''))) = (Inl e, (h, t))"
    "poisoned (st_writer h)" using ex_apply_interrupted by blast
  have "h \<noteq> ex_store EveryBatch" using bad(2) ex_attached by (auto simp: attached_def)
  then show ?thesis
    using apply_contract [OF inv over ok] apply_contract [OF inv over bad(1)] ok bad(1) ex_handle(3) by auto
qed

text \<open>C11: in every history of a handle (created or opened, then any sequence of fewer than 2^64 applies and of flushes, compactions
  and policy changes, each succeeding or failing at any fault) the published state is the writer's, the durable and the snapshot sequence
  numbers do not exceed the applied one, and the directory lock is held.\<close>

theorem store_invariant:
  assumes "history pl g s"
  shows "gs_base (st_state g) = wt_base (st_writer g) \<and> gs_delta (st_state g) = wt_delta (st_writer g) \<and>
    store_seq g = wt_seq (st_writer g) \<and> committed_seq g \<le> store_seq g \<and>
    wt_snapshot_seq (st_writer g) \<le> store_seq g \<and> fs_locked s"
  using history_inv [OF assms] by (auto simp: store_inv_def published_iff store_seq_def committed_seq_def)

theorem store_invariant_witness:
  "\<exists>g s. create_with_vfs ex_platform ex_graph ex_empty_fs = (Inr g, s) \<and> store_seq (set_fsync_policy OnFlush g) = wt_seq (st_writer g) \<and>
     committed_seq (set_fsync_policy OnFlush g) \<le> store_seq g \<and> fs_locked s"
proof -
  obtain g s where run: "create_with_vfs ex_platform ex_graph ex_empty_fs = (Inr g, s)" using ex_create by blast
  have "history ex_platform (set_fsync_policy OnFlush g) s" by (rule history.policy [OF history.created [OF run]])
  from store_invariant [OF this] show ?thesis using run by (auto simp: set_fsync_policy_def store_seq_def)
qed

text \<open>C12: one handle per directory: while the lock is held, \<open>open\<close> and \<open>create\<close> fail and leave it held; otherwise they hold it
  afterwards exactly when they return a handle, so that no error path leaks it; \<open>close\<close> releases it on every path.\<close>

theorem lock_discipline:
  "(case open_with_vfs pl create mode validate prefault s of
      (r, s') \<Rightarrow> if fs_locked s then isl r \<and> fs_locked s' else fs_locked s' = (\<not> isl r)) \<and>
   (case create_with_vfs pl G s of (r, s') \<Rightarrow> if fs_locked s then isl r \<and> fs_locked s' else fs_locked s' = (\<not> isl r)) \<and>
   \<not> fs_locked (snd (close pl g s))"
proof (intro conjI)
  obtain r s' where o: "open_with_vfs pl create mode validate prefault s = (r, s')" by fastforce
  show "case open_with_vfs pl create mode validate prefault s of
      (r, s') \<Rightarrow> if fs_locked s then isl r \<and> fs_locked s' else fs_locked s' = (\<not> isl r)"
    using open_lock_cases [OF o] o by (cases r) auto
  obtain r s' where c: "create_with_vfs pl G s = (r, s')" by fastforce
  show "case create_with_vfs pl G s of (r, s') \<Rightarrow> if fs_locked s then isl r \<and> fs_locked s' else fs_locked s' = (\<not> isl r)"
    using create_lock_cases [OF c] c by (cases r) auto
  show "\<not> fs_locked (snd (close pl g s))" by (simp add: close_def lock_release_def split: prod.splits sum.splits)
qed

section \<open>The mutable delta\<close>

text \<open>C13: the two-pass batch apply behaves as the sequential execution of its operations in which
  each is checked against the state its predecessors produced; the first failing check is the error
  returned, and then the delta is the one before the call.\<close>

theorem apply_is_sequential:
  "delta_apply base ops d =
     (case seq_apply base 0 ops d of Inl e \<Rightarrow> (Inl e, d) | Inr d' \<Rightarrow> (Inr (), d'))"
  by (rule delta_apply_eq_sequential)

text \<open>C14: over a base that is a correct view of a graph, every delta reached by batches gives readers
  a correct view of the logical graph: counts, node lookups, outgoing and incoming neighbours agree
  with one node map and one edge multiset, whose edges have their endpoints present.\<close>

theorem reachable_delta_view:
  assumes "accessor_ok base N E" and "delta_reachable base d"
  shows "accessor_ok (delta_accessor base d) (delta_nodes base d) (delta_edges E d)"
  using delta_accessor_ok [OF assms(1) delta_reachable_inv [OF assms(2,1)]] .

theorem reachable_delta_view_witness:
  "accessor_ok (delta_accessor ex_base (snd (delta_apply ex_base ex_ops delta_new)))
     (delta_nodes ex_base (snd (delta_apply ex_base ex_ops delta_new)))
     (delta_edges (mset ex_edges) (snd (delta_apply ex_base ex_ops delta_new)))"
  by (rule reachable_delta_view [OF ex_base_ok ex_batch_reachable])

text \<open>C15: the counters the delta maintains incrementally equal their full recomputation after every
  batch, so the debug assertions never fire.\<close>

theorem reachable_debug_check:
  assumes "accessor_ok base N E" and "delta_reachable base d"
  shows "debug_check_invariants base d"
  using recompute_counts_eq [OF assms(1) delta_reachable_inv [OF assms(2,1)]] .

theorem reachable_debug_check_witness:
  "debug_check_invariants ex_base (snd (delta_apply ex_base ex_ops delta_new))"
  by (rule reachable_debug_check [OF ex_base_ok ex_batch_reachable])

text \<open>C16: compaction folds a delta faithfully: the graph rebuilt from the materialized nodes and edges
  is well formed, has exactly the edges of the logical graph, and its nodes up to the PageRank that
  is recomputed.\<close>

theorem compaction_folds_delta:
  assumes "digraph_laws ops" and "accessor_ok base N E" and "delta_reachable base d"
    and "set names = dom N" and "edges_canon E"
    and "card (dom (delta_nodes base d)) \<le> dg_limit" and "size (delta_edges E d) \<le> dg_limit"
  shows "let G = build_graph_prenormalized ops (fst (materialize base names d)) (snd (materialize base names d)) in
    og_ok ops G \<and> og_edges ops G = delta_edges E d \<and>
    (\<forall>n. map_option (\<lambda>v. v\<lparr>nv_pagerank_weight := f32_zero\<rparr>) (og_nodes ops G n) =
         map_option (\<lambda>v. v\<lparr>nv_pagerank_weight := f32_zero\<rparr>) (delta_nodes base d n))"
  using compaction_graph [OF assms] by (simp add: Let_def)

theorem compaction_folds_delta_witness:
  "let d = snd (delta_apply ex_base ex_ops delta_new); names = [''a'', ''b'', ''c''];
       G = build_graph_prenormalized list_digraph (fst (materialize ex_base names d)) (snd (materialize ex_base names d)) in
    og_ok list_digraph G \<and> og_edges list_digraph G = delta_edges (mset ex_edges) d"
  using compaction_folds_delta [OF list_digraph_laws ex_base_ok ex_batch_reachable ex_names ex_edges_canon ex_batch_room]
  by (simp add: Let_def)

section \<open>Traversals\<close>

text \<open>C17: the beam search is a function of the logical graph: on any two correct views of one graph,
  whatever the iteration order of their neighbour lists and of the hash maps, it returns the same list.\<close>

theorem beam_depends_on_view:
  assumes "accessor_ok A N E" and "accessor_ok A' N E" and "hash_order ho" and "hash_order ho'"
  shows "beam_traverse ho A ctx start k depth = beam_traverse ho' A' ctx start k depth"
  by (rule beam_same_view [OF assms])

theorem beam_depends_on_view_witness:
  "beam_traverse id ex_base default_context ''a'' 2 3 = beam_traverse rev ex_base default_context ''a'' 2 3"
  by (rule beam_depends_on_view [OF ex_base_ok ex_base_ok hash_order_id(1) hash_order_id(2)])

text \<open>C18: edge visibility is enforced at every step: without a fan-out limit, a beam search under a
  point in time and a set of principals equals the unrestricted search of the graph from which all
  invisible edges were removed, so nothing is reached or ranked through an invisible edge.\<close>

theorem beam_filters_edges:
  assumes "accessor_ok A N E" and "accessor_ok A' N (image_mset strip_edge (filter_mset (graph_edge_visible ctx) E))"
    and "max_fan_out ctx = None" and "hash_order ho" and "hash_order ho'"
  shows "beam_traverse ho A ctx start k depth = beam_traverse ho' A' (unfiltered_context ctx) start k depth"
  by (rule beam_prefiltered [OF assms])

theorem beam_filters_edges_witness:
  "beam_traverse id ex_base ex_context ''a'' 2 3 =
   beam_traverse rev ex_filtered (unfiltered_context ex_context) ''a'' 2 3"
  by (rule beam_filters_edges [OF ex_base_ok ex_filtered_ok _ hash_order_id(1) hash_order_id(2)]) (simp add: ex_context_def default_context_def)

text \<open>C19: a beam result names each node once, never the start, has at most \<open>k\<close> entries per level, is
  sorted by descending weight with the name as tie break, and every entry is the score of its node.\<close>

theorem beam_result:
  assumes "names_ok graph" and "hash_order ho"
  shows "distinct (map nr_name (beam_traverse ho graph ctx start k depth)) \<and>
    length (beam_traverse ho graph ctx start k depth) \<le> k * depth \<and>
    sorted (map (\<lambda>r. rank_key (nr_weight r) (nr_name r)) (beam_traverse ho graph ctx start k depth)) \<and>
    (\<forall>r \<in> set (beam_traverse ho graph ctx start k depth).
       nr_name r \<noteq> start \<and> node_score graph ctx (nr_name r) = Some r)"
  using beam_shape [OF assms] by blast

theorem beam_result_witness:
  "length (beam_traverse id ex_base default_context ''a'' 2 3) \<le> 6"
  using beam_result [OF accessor_ok_names [OF ex_base_ok] hash_order_id(1), of default_context "''a''" 2 3] by simp

text \<open>C20: with a beam at least as wide as the number of nodes that can be scored, the search returns exactly the nodes
  reachable from the start in at most \<open>depth\<close> visible steps, the start excepted.\<close>

theorem beam_reaches_neighbourhood:
  assumes "names_ok graph" and "hash_order ho"
    and "finite {n. node_score graph ctx n \<noteq> None}" and "card {n. node_score graph ctx n \<noteq> None} < k"
  shows "nr_name ` set (beam_traverse ho graph ctx start k depth) = walk_within graph ctx depth {start} - {start}"
  by (rule beam_reaches_all [OF assms])

theorem beam_reaches_neighbourhood_witness:
  "nr_name ` set (beam_traverse id ex_base default_context ''a'' (Suc (card {n. node_score ex_base default_context n \<noteq> None})) 3) =
   walk_within ex_base default_context 3 {''a''} - {''a''}"
  by (rule beam_reaches_neighbourhood [OF accessor_ok_names [OF ex_base_ok] hash_order_id(1) finite_scored [OF ex_base_ok]]) simp

text \<open>C21: the shortest-path search ends within a number of heap pops that depends on the graph only; it
  returns \<open>None\<close> exactly when no chain of visible edges joins the two names, and otherwise a real path
  whose accumulated f32 cost is minimal among all chains.\<close>

theorem find_path_correct:
  assumes "heap_pop_ok hp" and "finite (expandable graph ctx)" and "search_size graph ctx \<le> fuel"
  shows "\<exists>r. find_path fuel hp graph ctx start end = Some r \<and> path_result_ok graph ctx start end r"
  by (rule find_path_returns [OF assms])

theorem find_path_correct_witness:
  "\<exists>r. find_path (search_size ex_base default_context) list_heap_pop ex_base default_context ''a'' ''c'' = Some r \<and>
     path_result_ok ex_base default_context ''a'' ''c'' r"
  by (rule find_path_correct [OF list_heap_pop_ok finite_expandable [OF ex_base_ok] order_refl])

text \<open>C22: the contextual subgraph names each node once with its score, its edges are visible and have both
  ends among its nodes, every seed that can be scored is in it, and hash iteration order does not matter.\<close>

theorem subgraph_is_closed:
  assumes "names_ok graph" and "hash_order ho"
  shows "subgraph_ok graph ctx (contextual_subgraph ho graph ctx k) \<and>
    (\<forall>n \<in> set (boost_seeds ho ctx k). node_score graph ctx n \<noteq> None \<longrightarrow>
       n \<in> nr_name ` set (sg_nodes (contextual_subgraph ho graph ctx k))) \<and>
    contextual_subgraph ho graph ctx k = contextual_subgraph id graph ctx k"
  using contextual_subgraph_ok [OF assms(1)] contextual_subgraph_order [OF assms(2)] by blast

theorem subgraph_is_closed_witness:
  "subgraph_ok ex_base ex_context (contextual_subgraph rev ex_base ex_context 2)"
  using subgraph_is_closed [OF accessor_ok_names [OF ex_base_ok] hash_order_id(2), of ex_context 2] by blast

text \<open>C23: the beam intersection returns, once each and with their scores, exactly the scorable nodes
  that are a start or were hit by at least \<open>threshold\<close> beams; its edges are visible, join kept names,
  are listed once per source, target and kind, and include every visible base edge between kept names.\<close>

theorem intersection_result:
  assumes "names_ok graph" and "hash_order ho"
  shows "let g = multi_beam_intersection ho graph ctx starts k depth threshold;
             K = beam_names ho graph ctx starts k depth threshold in
    nr_name ` set (sg_nodes g) = {n \<in> K. node_score graph ctx n \<noteq> None} \<and>
    distinct (map nr_name (sg_nodes g)) \<and>
    (\<forall>r \<in> set (sg_nodes g). node_score graph ctx (nr_name r) = Some r) \<and>
    distinct (map edge_key (sg_edges g)) \<and>
    (\<forall>e \<in> set (sg_edges g). er_source e \<in> K \<and> er_target e \<in> K \<and>
       is_edge_visible ctx (er_valid_from e) (er_valid_to e) (er_acl e)) \<and>
    (\<forall>a \<in> K. \<forall>nb \<in> set (acc_outgoing graph a). nb_target_name nb \<in> K \<longrightarrow>
       is_edge_visible ctx (nb_valid_from nb) (nb_valid_to nb) (nb_acl nb) \<longrightarrow>
       (a, nb_target_name nb, nb_edge_kind nb) \<in> edge_key ` set (sg_edges g))"
proof -
  note n = multi_beam_nodes [OF assms] and e = multi_beam_edges [OF assms]
  show ?thesis unfolding Let_def
    by (intro conjI ballI impI; (rule n(1) | rule n(2) | rule n(3), assumption | rule e(2) | rule e(3), assumption+
      | (drule e(1), blast)))
qed

theorem intersection_result_witness:
  "distinct (map nr_name (sg_nodes (multi_beam_intersection rev ex_base default_context [''a'', ''c''] 2 2 1)))"
  using intersection_result [OF accessor_ok_names [OF ex_base_ok] hash_order_id(2), where ctx = default_context
      and starts = "[''a'', ''c'']" and k = 2 and depth = 2 and threshold = 1] by (simp only: Let_def)

section \<open>Snapshots\<close>

text \<open>C24: opening with full validation is sound for arbitrary file contents: whenever it succeeds, in either
  mode, the checksum matched and the base is a correct view of a graph.\<close>

theorem full_open_is_sound:
  assumes "digraph_laws ops" and "open_snapshot crc32 access unchecked ops (Inr bytes) mode Full prefault crc = Inr b"
  shows "crc32 bytes = crc \<and> accessor_ok (as_accessor ops b) (base_nodes ops b) (base_edges ops b)"
proof -
  obtain a where "crc32 bytes = crc" "base_ok ops b" using open_full [OF assms] by (metis sum.inject(2))
  then show ?thesis using base_view.view by blast
qed

theorem full_open_is_sound_witness:
  "accessor_ok (as_accessor list_digraph (ex_base_graph MmapMode)) (base_nodes list_digraph (ex_base_graph MmapMode))
     (base_edges list_digraph (ex_base_graph MmapMode))"
  using full_open_is_sound [OF list_digraph_laws ex_opened] by blast

text \<open>C25: the writer meets its own validator: for every well-formed graph within the index limits the name
  index insertion ends, and the archive passes every structural check.\<close>

theorem archive_is_valid:
  assumes "og_ok ops G" and "small_graph ops G"
  shows "\<exists>a. to_csr ops G = Some a \<and> validate_csr a = Inr () \<and>
    accessor_ok (csr_accessor a) (og_nodes ops G) (og_edges ops G)"
proof -
  obtain a where a: "to_csr ops G = Some a" using to_csr_total [OF assms(2)] by metis
  then show ?thesis using to_csr_ok [OF assms a] to_csr_view [OF assms a] by (auto simp: csr_ok_def)
qed

theorem archive_is_valid_witness:
  "\<exists>a. to_csr list_digraph ex_graph = Some a \<and> validate_csr a = Inr ()"
  using archive_is_valid [OF ex_graph_ok ex_graph_small] by blast

text \<open>C26: on every name index the one-sweep validation accepts, over names without duplicates, the probing lookup is
  exact: it returns an index if and only if the node there has the queried name. A hostile table can neither hide nor alias a node.\<close>

theorem name_index_lookup:
  assumes "check_buckets (cg_nodes a) (cg_name_buckets a) = Inr ()" and "distinct (csr_node_names a)"
  shows "idx_of a name = Some x \<longleftrightarrow> x < length (cg_nodes a) \<and> cn_name (cg_nodes a ! x) = name"
proof -
  obtain k where "length (cg_name_buckets a) = 2 ^ k" "k < 64" "table_ok (cg_name_buckets a) (csr_node_names a)"
    using assms(1) unfolding check_buckets_iff csr_node_names_def by metis
  then show ?thesis by (rule idx_of_iff [OF _ _ _ assms(2)])
qed

theorem name_index_lookup_witness:
  "\<forall>x. idx_of ex_csr ''a'' = Some x \<longleftrightarrow> x < length (cg_nodes ex_csr) \<and> cn_name (cg_nodes ex_csr ! x) = ''a''"
  by (intro allI name_index_lookup [OF ex_csr_checked])

text \<open>C27: the write, open, search pipeline is faithful: the snapshot of a well-formed graph opens in every mode and
  under every validation, and every beam search on it returns what it returns on the original graph.\<close>

theorem written_snapshot_searches_alike:
  assumes "codec_ok to_bytes access" and "unchecked_ok access unchecked" and "digraph_laws ops"
    and "og_ok ops G" and "small_graph ops G" and "to_rkyv_v2 to_bytes ops G = Some bytes"
    and "hash_order ho" and "hash_order ho'"
  shows "\<exists>b. open_snapshot crc32 access unchecked ops (Inr bytes) mode validate prefault (crc32 bytes) = Inr b \<and>
    beam_traverse ho (as_accessor ops b) ctx start k depth = beam_traverse ho' (graph_accessor ops G) ctx start k depth"
proof -
  obtain b where b: "open_snapshot crc32 access unchecked ops (Inr bytes) mode validate prefault (crc32 bytes) = Inr b"
    and v: "base_ok ops b" "base_nodes ops b = og_nodes ops G" "base_edges ops b = og_edges ops G"
    using open_written [OF assms(1-6)] .
  have "accessor_ok (as_accessor ops b) (og_nodes ops G) (og_edges ops G)" using base_view.view [OF v(1)] v(2,3) by simp
  then show ?thesis using b beam_same_view [OF _ graph_accessor_ok [OF assms(3,4)] assms(7,8)] by blast
qed

theorem written_snapshot_searches_alike_witness:
  "\<exists>b. open_snapshot ex_crc (whole dec_csr) ex_unchecked list_digraph (Inr (enc_csr ex_csr)) MmapMode Crc False
      (ex_crc (enc_csr ex_csr)) = Inr b \<and>
    beam_traverse id (as_accessor list_digraph b) default_context ''a'' 2 2 =
    beam_traverse rev (graph_accessor list_digraph ex_graph) default_context ''a'' 2 2"
  by (rule written_snapshot_searches_alike [OF csr_codec_ok ex_unchecked_ok list_digraph_laws ex_graph_ok ex_graph_small
      ex_snapshot hash_order_id(1) hash_order_id(2)])

text \<open>C28: the archive is canonical: two graphs with the same nodes and the same named edges have the same
  archive, whatever the order of their internal indices.\<close>

theorem archive_deterministic:
  assumes "og_ok ops G" and "mset (dg_nodes ops (og_graph G)) = mset (dg_nodes ops' (og_graph G'))"
    and "og_edges ops G = og_edges ops' G'"
  shows "to_csr ops G = to_csr ops' G'"
  by (rule to_csr_deterministic [OF assms])

theorem archive_deterministic_witness:
  "to_csr list_digraph (build_graph list_digraph (rev ex_inputs) (rev ex_links)) = to_csr list_digraph ex_graph"
proof -
  have d: "distinct (map ni_name ex_inputs)" by (simp add: ex_inputs_def ex_input_def)
  have room: "length (dedup_nodes (rev ex_inputs)) \<le> dg_limit" "length (rev ex_links) \<le> dg_limit"
    using distinct_dedup_length [of "rev ex_inputs"] d by (simp_all add: rev_map [symmetric] ex_inputs_def ex_links_def dg_limit_def)
  note b = build_deterministic [OF list_digraph_laws ex_room d mset_rev mset_rev, of True]
  have "og_edges list_digraph (build_graph_inner list_digraph (rev ex_inputs) (rev ex_links) True) =
      og_edges list_digraph (build_graph_inner list_digraph ex_inputs ex_links True)"
    unfolding build_edges [OF list_digraph_laws room] build_edges [OF list_digraph_laws ex_room] by simp
  then show ?thesis
    using archive_deterministic [OF build_ok [OF list_digraph_laws room, of True], of list_digraph ex_graph] b
    by (simp add: ex_graph_def build_graph_def)
qed

text \<open>C29: CSR serialization round trip: rebuilding an owned graph from the bytes of the archive succeeds and
  gives the same logical nodes and edges.\<close>

theorem rebuild_v2_round_trip:
  assumes "codec_ok to_bytes access" and "digraph_laws ops" and "og_ok ops G" and "small_graph ops G"
    and "to_rkyv_v2 to_bytes ops G = Some bytes"
  shows "\<exists>G'. from_rkyv_rebuild_v2 access ops bytes = Inr G' \<and> og_ok ops G' \<and>
    og_nodes ops G' = og_nodes ops G \<and> og_edges ops G' = og_edges ops G"
  using rebuild_v2_roundtrip [OF assms] by metis

theorem rebuild_v2_round_trip_witness:
  "\<exists>G'. from_rkyv_rebuild_v2 (whole dec_csr) list_digraph (enc_csr ex_csr) = Inr G' \<and>
     og_edges list_digraph G' = og_edges list_digraph ex_graph"
  using rebuild_v2_round_trip [OF csr_codec_ok list_digraph_laws ex_graph_ok ex_graph_small ex_snapshot] by blast

text \<open>C30: flat serialization round trip: rebuilding from the archive of a well-formed graph succeeds and
  gives the same nodes and edges in the same index order.\<close>

theorem rkyv_round_trip:
  assumes "codec_ok to_bytes access" and "digraph_laws ops" and "og_ok ops G"
    and "length (dg_nodes ops (og_graph G)) \<le> dg_limit" and "length (dg_edges ops (og_graph G)) \<le> dg_limit"
  shows "\<exists>G'. from_rkyv_rebuild access ops (to_rkyv to_bytes ops G) = Inr G' \<and> og_ok ops G' \<and>
    dg_nodes ops (og_graph G') = dg_nodes ops (og_graph G) \<and> dg_edges ops (og_graph G') = dg_edges ops (og_graph G)"
  by (rule rkyv_rebuild_roundtrip [OF assms])

theorem rkyv_round_trip_witness:
  "\<exists>G'. from_rkyv_rebuild (whole dec_flat) list_digraph (to_rkyv enc_flat list_digraph ex_graph) = Inr G' \<and>
     og_ok list_digraph G' \<and> dg_nodes list_digraph (og_graph G') = dg_nodes list_digraph (og_graph ex_graph)"
  using rkyv_round_trip [OF flat_codec_ok list_digraph_laws ex_graph_ok ex_graph_room] by blast

section \<open>The log, the marker and the manifest\<close>

text \<open>C31: the log is read back as written: the scan of a sequence of frames returns exactly the records, and
  when a tail that is not an intact frame follows (a short header, an over-long length, a wrong crc), the
  records before it are returned and the cut is at the last intact byte.\<close>

theorem wal_scan_round_trip:
  assumes "wal_codec_ok to_wal of_wal" and "frames crc32 to_wal rs = Inr bs"
  shows "scan_wal_bytes crc32 of_wal bs =
      Inr \<lparr>sr_records = rs, sr_valid_end = length bs, sr_tail_truncated = False, sr_dropped = 0\<rparr> \<and>
    (\<forall>tail. not_a_frame crc32 tail \<longrightarrow> scan_wal_bytes crc32 of_wal (bs @ tail) = Inr (torn_tail rs (length bs)))"
  using scan_frames [OF assms] scan_torn [OF assms] by blast

theorem wal_scan_round_trip_witness:
  "scan_wal_bytes ex_crc (whole dec_wal) ([] @ [1, 2, 3]) = Inr (torn_tail [] 0)"
  using wal_scan_round_trip [OF ex_wal_codec_ok, of ex_crc "[]" "[]"] by (simp add: not_a_frame_def)



text \<open>C33: a written MANIFEST is accepted by the reader if and only if its computed checksum is not 0: the remapping of 0
  to 1 makes the reader refuse the one manifest in 2 to the 32 whose checksum is 0.\<close>

theorem manifest_round_trip:
  assumes "json_ok to_json of_json" and "to_json (stamp_manifest crc32 m) = Some b"
  shows "check_manifest crc32 of_json b =
    (if manifest_checksum crc32 m = 0 then Inl (Corrupt ''MANIFEST checksum mismatch'') else Inr (stamp_manifest crc32 m))"
  using assms by (auto simp: check_manifest_def json_ok_def stamp_manifest_def)

theorem manifest_round_trip_witness:
  "check_manifest (\<lambda>_. 0) (whole dec_manifest) (enc_manifest (stamp_manifest (\<lambda>_. 0) (fresh_manifest ''s'' 0 0))) =
     Inl (Corrupt ''MANIFEST checksum mismatch'')"
  using manifest_round_trip [OF ex_json_ok, of "\<lambda>_. 0" "fresh_manifest ''s'' 0 0"] by (simp add: manifest_checksum_def)

section \<open>The Python bindings\<close>



text \<open>C35: the bindings refine the store: in every sequence of Python calls on a \<open>PersistentGraph\<close> (created or opened, then
  fewer than 2^64 applies, and flushes, compactions, changes of policy or threshold and closes, with any arguments,
  each returning or raising), as long as the handle is open the store behind it is in a state of its own histories: Python reads the
  writer's sequence number, what is durable is a prefix of it, and the directory lock is held.\<close>

theorem python_refines_store:
  assumes "py_history env h s" and "py_pg h = Some g"
  shows "history (env_platform env) g s \<and> pg_py_seq h = Inr (wt_seq (st_writer g)) \<and> committed_seq g \<le> store_seq g \<and>
    gs_delta (st_state g) = wt_delta (st_writer g) \<and> gs_base (st_state g) = wt_base (st_writer g) \<and> fs_locked s"
proof -
  have run: "history (env_platform env) g s" by (rule py_history_store [OF assms])
  show ?thesis
    using run history_inv [OF run] assms(2)
    by (auto simp: store_inv_def published_iff store_seq_def committed_seq_def pg_py_seq_def require_pg_def bindE_def)
qed

theorem python_refines_store_witness:
  "\<exists>h g s. py_open ex_env False True ''crc'' False (reboot (\<lambda>_. Pass) ex_entropy (ex_fs (\<lambda>_. Pass))) = (Inr h, s) \<and>
     py_pg h = Some g \<and> pg_py_seq h = Inr (wt_seq (st_writer g)) \<and> fs_locked s"
proof -
  obtain h s g where run: "py_open ex_env False True ''crc'' False (reboot (\<lambda>_. Pass) ex_entropy (ex_fs (\<lambda>_. Pass))) = (Inr h, s)"
    "py_pg h = Some g" using ex_py_open by blast
  from python_refines_store [OF py_history.py_opened [OF run(1)] run(2)] show ?thesis using run by blast
qed

text \<open>C36: a batch from Python: \<open>apply\<close> hands the store only batches of which every operation was parsed, with non-empty names and
  kinds, weights in the unit interval (no NaN) and sorted ACLs without repetition; when one operation is malformed, or the
  handle is closed, an exception is raised and neither the handle nor a file changed; errors of the store are converted.\<close>

theorem python_batches_are_checked:
  "case pg_py_apply env items exp (h, s) of (r, (h', s')) \<Rightarrow>
     (case parse_ops (env_api env) items of
        Inl e \<Rightarrow> r = Inl e \<and> h' = h \<and> s' = s
      | Inr ops \<Rightarrow> length ops = length items \<and> list_all py_op_ok ops \<and>
          (case py_pg h of
             None \<Rightarrow> r = Inl pg_closed \<and> h' = h \<and> s' = s
           | Some g \<Rightarrow>
               (case apply_batch (env_platform env) ops exp (g, s) of (x, (g', t)) \<Rightarrow>
                  r = map_err x \<and> h' = h\<lparr>py_pg := Some g'\<rparr> \<and> s' = t)))"
proof (cases "parse_ops (env_api env) items")
  case (Inl e)
  then show ?thesis by (simp add: pg_py_apply_def)
next
  case (Inr ops)
  then show ?thesis
    using parse_ops_ok [OF Inr] by (cases "py_pg h") (auto simp: pg_py_apply_def on_pg_def require_pg_def list_all_iff split: prod.splits)
qed


section \<open>The builder\<close>



text \<open>C39: the normalizing builder leaves every base weight and every noise penalty a number between 0 and 1,
  for all inputs: NaN, infinities, negative and subnormal values included.\<close>

theorem build_weights_in_unit:
  assumes "digraph_laws ops" and "length (dedup_nodes nodes) \<le> dg_limit" and "length edges \<le> dg_limit"
  shows "\<forall>d \<in> set (dg_nodes ops (og_graph (build_graph ops nodes edges))).
    f32_unit (nd_base_weight d) \<and> f32_unit (nd_noise_penalty d)"
  using build_weights [OF assms] by blast

theorem build_weights_in_unit_witness:
  "list_all (\<lambda>d. f32_unit (nd_base_weight d) \<and> f32_unit (nd_noise_penalty d)) (dg_nodes list_digraph (og_graph ex_graph))"
  unfolding ex_graph_def list_all_iff by (rule build_weights_in_unit [OF list_digraph_laws ex_room])

text \<open>C40: building is deterministic: permuting inputs with distinct names and permuting edges changes
  neither the node list, PageRank bits included, nor the multiset of edges.\<close>

theorem build_order_independent:
  assumes "digraph_laws ops" and "length (dedup_nodes nodes) \<le> dg_limit" and "length edges \<le> dg_limit"
    and "distinct (map ni_name nodes)" and "mset nodes' = mset nodes" and "mset edges' = mset edges"
  shows "dg_nodes ops (og_graph (build_graph_inner ops nodes' edges' rescale)) =
      dg_nodes ops (og_graph (build_graph_inner ops nodes edges rescale)) \<and>
    mset (dg_edges ops (og_graph (build_graph_inner ops nodes' edges' rescale))) =
      mset (dg_edges ops (og_graph (build_graph_inner ops nodes edges rescale)))"
  using build_deterministic [OF assms] by blast

theorem build_order_independent_witness:
  "dg_nodes list_digraph (og_graph (build_graph_inner list_digraph (rev ex_inputs) (rev ex_links) True)) =
   dg_nodes list_digraph (og_graph (build_graph_inner list_digraph ex_inputs ex_links True))"
proof -
  have "distinct (map ni_name ex_inputs)" by (simp add: ex_inputs_def ex_input_def)
  from build_order_independent [OF list_digraph_laws ex_room this mset_rev mset_rev] show ?thesis by blast
qed

end
